(* ===== verification/Prelude.thy ===== *)
theory Prelude
  imports Main "HOL-Library.Word" "HOL-Library.Monad_Syntax"
begin

text \<open>
  The prelude of the development: the machine types of the C sources, the compile-time
  configuration of \<open>src/lib/config.h\<close>, the alignment and try-lock helpers of
  \<open>src/lib/util.h\<close>, and the lemmas on words, lists and maps that the component
  theories share. Masks and shifts are kept as the sources write them; the lemmas of the
  collection \<open>ring_simps\<close> turn them into \<open>mod\<close> and \<open>div\<close> on natural numbers.
\<close>

unbundle bit_operations_syntax

section \<open>Types and collections\<close>

type_synonym u8 = "8 word"
type_synonym u16 = "16 word"
type_synonym u32 = "32 word"
type_synonym u64 = "64 word"
type_synonym bytes = "8 word list"

named_theorems ring_simps \<open>index and alignment arithmetic of the logs\<close>
named_theorems clock_simps \<open>comparison of ordo time stamps\<close>
named_theorems store_simps \<open>reads after writes of the object store\<close>

text \<open>
  Pointers. The library's pointers lead to six kinds of storage, told apart by where they
  point: an original object on the NVM heap (\<open>Act\<close>), a volatile header (\<open>Vhdr\<close>), a copy
  in the transient version log of a thread (\<open>Cpy t i\<close>: byte index \<open>i\<close> of the log of thread
  \<open>t\<close>), an entry of the checkpoint log of a thread (\<open>Ckpt t i\<close>) and a thread structure.
\<close>

datatype ptr = Null | Act nat | Vhdr nat | Cpy nat u32 | Ckpt nat u32 | Thr nat

text \<open>The error numbers of errno.h the library returns.\<close>

datatype errno = ENOMEM | EBUSY

section \<open>Configuration (config.h)\<close>

definition TS_MAX_THREAD_NUM :: u64 where "TS_MAX_THREAD_NUM = push_bit 14 1"
definition TS_INIT_PTR_SET_SIZE :: u32 where "TS_INIT_PTR_SET_SIZE = 512"
definition TS_TVLOG_SIZE :: u64 where "TS_TVLOG_SIZE = push_bit 20 1"
definition TS_TVLOG_MASK :: u64 where "TS_TVLOG_MASK = NOT (TS_TVLOG_SIZE - 1)"
definition TS_TVLOG_HIGH_MARK :: u64 where
  "TS_TVLOG_HIGH_MARK = TS_TVLOG_SIZE - drop_bit 2 TS_TVLOG_SIZE"
definition TS_TVLOG_LOW_MARK :: u64 where "TS_TVLOG_LOW_MARK = drop_bit 1 TS_TVLOG_SIZE"
definition TS_OPLOG_SIZE :: u64 where "TS_OPLOG_SIZE = push_bit 20 1"
definition TS_OPLOG_HIGH_MARK :: u64 where
  "TS_OPLOG_HIGH_MARK = TS_OPLOG_SIZE - drop_bit 2 TS_OPLOG_SIZE"
definition TS_CKPTLOG_SIZE :: u64 where "TS_CKPTLOG_SIZE = push_bit 22 1"
definition TS_CKPTLOG_HIGH_MARK :: u64 where
  "TS_CKPTLOG_HIGH_MARK = TS_CKPTLOG_SIZE - drop_bit 2 TS_CKPTLOG_SIZE"
definition TS_CKPTLOG_LOW_MARK :: u64 where
  "TS_CKPTLOG_LOW_MARK = TS_CKPTLOG_HIGH_MARK - drop_bit 3 TS_CKPTLOG_SIZE"
definition TS_CACHE_LINE_SIZE :: nat where "TS_CACHE_LINE_SIZE = 64"

text \<open>\<open>MAX_VERSION\<close> is \<open>ULONG_MAX - 1\<close>, \<open>MIN_VERSION\<close> is 0 (timestone_i.h).\<close>

definition MAX_VERSION :: u64 where "MAX_VERSION = - 1 - 1"
definition MIN_VERSION :: u64 where "MIN_VERSION = 0"
definition INVALID_GEN_ID :: u64 where "INVALID_GEN_ID = - 1 - 1"

section \<open>Alignment and locking helpers (util.h)\<close>

text \<open>\<open>TS_CACHE_LINE_MASK\<close> is \<open>~(64 - 1)\<close>, extended to the width it is used at.\<close>

definition align_ptr_to_cacheline :: "u64 \<Rightarrow> u64" where
  "align_ptr_to_cacheline p = (p + NOT (NOT (64 - 1))) AND NOT (64 - 1)"

definition align_uint_to_cacheline :: "u32 \<Rightarrow> u32" where
  "align_uint_to_cacheline unum = (unum + NOT (NOT (64 - 1))) AND NOT (64 - 1)"

definition is_ptr_cacheline_aligned :: "u64 \<Rightarrow> bool" where
  "is_ptr_cacheline_aligned p \<longleftrightarrow> p AND NOT (NOT (64 - 1)) = 0"

definition align_size_t_to_pmem_page :: "u64 \<Rightarrow> u64" where
  "align_size_t_to_pmem_page sz =
     (sz + NOT (NOT (2 * 1024 * 1024 - 1))) AND NOT (2 * 1024 * 1024 - 1)"

text \<open>\<open>try_lock\<close> returns whether the lock was taken, with the new lock word.\<close>

definition try_lock :: "u32 \<Rightarrow> bool \<times> u32" where
  "try_lock lock = (if lock = 0 then (True, 1) else (False, lock))"

definition unlock :: "u32 \<Rightarrow> u32" where
  "unlock lock = 0"

section \<open>Words as natural numbers\<close>

lemma unat_and_mask: "unat (w AND mask n :: 'a::len word) = unat w mod 2 ^ n"
  unfolding take_bit_eq_mask [symmetric] unsigned_take_bit_eq by (simp add: take_bit_eq_mod)

lemma and_not_mask_minus: "w AND NOT (mask n) = w - (w AND mask n :: 'a::len word)"
proof -
  have "(w AND NOT (mask n)) + (w AND mask n) = (w AND NOT (mask n)) OR (w AND mask n)"
    by (rule disjunctive_add_eq_or) (auto simp: bit_eq_iff bit_simps)
  also have "\<dots> = w" by (auto simp: bit_eq_iff bit_simps)
  finally show ?thesis by (metis add_diff_cancel_right')
qed

lemma unat_and_not_mask: "unat (w AND NOT (mask n) :: 'a::len word) = unat w div 2 ^ n * 2 ^ n"
proof -
  have "w AND mask n \<le> w" by (simp add: word_le_nat_alt unat_and_mask)
  then have "unat (w - (w AND mask n)) = unat w - unat (w AND mask n)"
    by (rule unat_sub)
  then show ?thesis by (simp add: and_not_mask_minus unat_and_mask minus_mod_eq_div_mult)
qed

lemma line_mask:
  "NOT (NOT (64 - 1)) = (mask 6 :: 'a::len word)"
  "NOT (64 - 1) = NOT (mask 6 :: 'a::len word)"
  by (simp_all add: mask_eq_exp_minus_1)

lemma page_mask:
  "NOT (NOT (2 * 1024 * 1024 - 1)) = (mask 21 :: 'a::len word)"
  "NOT (2 * 1024 * 1024 - 1) = NOT (mask 21 :: 'a::len word)"
  by (simp_all add: mask_eq_exp_minus_1)

lemma unat_align_uint [ring_simps]:
  "unat x + 63 < 2 ^ 32 \<Longrightarrow> unat (align_uint_to_cacheline x) = (unat x + 63) div 64 * 64"
  unfolding align_uint_to_cacheline_def line_mask unat_and_not_mask
  by (simp add: unat_word_ariths mask_eq_exp_minus_1)

lemma unat_align_ptr [ring_simps]:
  "unat x + 63 < 2 ^ 64 \<Longrightarrow> unat (align_ptr_to_cacheline x) = (unat x + 63) div 64 * 64"
  unfolding align_ptr_to_cacheline_def line_mask unat_and_not_mask
  by (simp add: unat_word_ariths mask_eq_exp_minus_1)

lemma unat_align_page [ring_simps]:
  "unat x + (2 ^ 21 - 1) < 2 ^ 64 \<Longrightarrow>
   unat (align_size_t_to_pmem_page x) = (unat x + (2 ^ 21 - 1)) div 2 ^ 21 * 2 ^ 21"
  unfolding align_size_t_to_pmem_page_def page_mask unat_and_not_mask
  by (simp add: unat_word_ariths mask_eq_exp_minus_1)

lemma aligned_div_bounds:
  fixes n :: nat
  assumes "0 < a"
  shows "n \<le> (n + (a - 1)) div a * a" and "(n + (a - 1)) div a * a < n + a"
proof -
  have "(n + (a - 1)) div a * a + (n + (a - 1)) mod a = n + (a - 1)"
    by (rule div_mult_mod_eq)
  moreover have "(n + (a - 1)) mod a < a" using assms by simp
  ultimately show "n \<le> (n + (a - 1)) div a * a" and "(n + (a - 1)) div a * a < n + a"
    using assms by linarith+
qed

lemma unat_plus_one_less:
  fixes x y :: "'a::len word"
  assumes "unat x < unat y"
  shows "unat (x + 1) = Suc (unat x)"
proof -
  have "Suc (unat x) \<le> unat y" using assms by simp
  also have "\<dots> < 2 ^ LENGTH('a)" by simp
  finally show ?thesis by (simp add: unat_word_ariths)
qed

lemma sint_ucast_u32:
  fixes w :: u64
  assumes "unat w < 2 ^ 31"
  shows "sint (ucast w :: u32) = int (unat w)"
proof -
  have "int (unat w) < int (2 ^ 31)" using assms by (rule of_nat_less_iff [THEN iffD2])
  then have "uint w < 2 ^ 31" by simp
  have "uint (ucast w :: u32) = uint w"
    using \<open>uint w < 2 ^ 31\<close> unfolding unsigned_ucast_eq by (simp add: take_bit_int_eq_self)
  moreover have "sint (ucast w :: u32) = signed_take_bit 31 (uint (ucast w :: u32))"
    by (simp add: sint_uint)
  moreover have "signed_take_bit 31 (uint w) = uint w"
    using \<open>uint w < 2 ^ 31\<close> order_trans [of "- (2 ^ 31)" 0 "uint w"]
    by (intro signed_take_bit_int_eq_self) auto
  ultimately show ?thesis by simp
qed

section \<open>Ring indices\<close>

text \<open>
  A log of \<open>2 ^ k\<close> bytes is addressed by a free-running 64-bit byte counter; its index is
  \<open>cnt & ~mask\<close> with \<open>mask = ~(size - 1)\<close>, read as an unsigned int.
\<close>

definition ring_index :: "u64 \<Rightarrow> u64 \<Rightarrow> u32" where
  "ring_index msk cnt = ucast (cnt AND NOT msk)"

abbreviation ring_mask :: "u64 \<Rightarrow> u64" where
  "ring_mask sz \<equiv> NOT (sz - 1)"

lemma unat_ring_index [ring_simps]:
  assumes "k < 32"
  shows "unat (ring_index (ring_mask (2 ^ k)) cnt) = unat cnt mod 2 ^ k"
proof -
  have "NOT (ring_mask (2 ^ k)) = (mask k :: u64)" by (simp add: mask_eq_exp_minus_1)
  then have e: "unat (cnt AND NOT (ring_mask (2 ^ k))) = unat cnt mod 2 ^ k"
    by (simp add: unat_and_mask)
  have "unat cnt mod 2 ^ k < 2 ^ k" by simp
  also have "\<dots> \<le> (2::nat) ^ 32" using assms by (intro power_increasing) auto
  finally have "unat cnt mod 2 ^ k < 2 ^ 32" .
  with e show ?thesis
    unfolding ring_index_def unsigned_ucast_eq
    by (simp add: take_bit_nat_eq_self_iff take_bit_nat_eq_self)
qed

lemma unat_ucast_u64 [simp]: "unat (ucast (s :: u32) :: u64) = unat s"
proof -
  have "unat s < 2 ^ 32" using unsigned_less [of s, where ?'a = nat] by simp
  then show ?thesis
    unfolding unsigned_ucast_eq by (simp add: take_bit_nat_eq_self_iff take_bit_nat_eq_self)
qed

lemma mod_mod_pow2: "m \<le> n \<Longrightarrow> (a mod 2 ^ n) mod 2 ^ m = (a::nat) mod 2 ^ m"
  by (simp add: mod_mod_cancel le_imp_power_dvd)

lemma unat_ring_index_add [ring_simps]:
  assumes "k < 32"
  shows "unat (ring_index (ring_mask (2 ^ k)) (cnt + ucast (s :: u32)))
           = (unat cnt mod 2 ^ k + unat s) mod 2 ^ k"
proof -
  have "unat (cnt + ucast s) = (unat cnt + unat s) mod 2 ^ 64"
    by (simp add: unat_word_ariths)
  moreover have "(unat cnt + unat s) mod 2 ^ 64 mod 2 ^ k = (unat cnt + unat s) mod 2 ^ k"
    using assms by (intro mod_mod_pow2) simp
  ultimately show ?thesis
    using assms by (simp only: unat_ring_index mod_add_left_eq)
qed

lemma unat_add_u32_u64: "unat c + unat s < 2 ^ 64 \<Longrightarrow> unat (c + ucast (s :: u32) :: u64) = unat c + unat s"
  by (simp add: unat_word_ariths)

section \<open>Lists\<close>

lemma nth_last_take: "i < n \<Longrightarrow> n \<le> length xs \<Longrightarrow> take n xs ! i = xs ! i"
  by simp

lemma take_list_update_snoc: "n < length xs \<Longrightarrow> take (Suc n) (xs[n := x]) = take n xs @ [x]"
  by (simp add: take_Suc_conv_app_nth)

lemma dropWhile_takeWhile_split:
  "xs = ys @ zs \<Longrightarrow> \<forall>y\<in>set ys. P y \<Longrightarrow> (zs = [] \<or> \<not> P (hd zs)) \<Longrightarrow> dropWhile P xs = zs"
  by (cases zs) (auto simp: dropWhile_append2)

section \<open>Invariants of a step relation\<close>

text \<open>
  The contract of a step relation \<open>R\<close>: every step keeps the invariant \<open>I\<close> and relates the
  states before and after it by \<open>G\<close>, which composes. Then the same holds of every number of steps.
  The commit protocol and the application threads as the qp thread sees them are instances.
\<close>

locale guarantee =
  fixes R :: "'s \<Rightarrow> 's \<Rightarrow> bool" and I :: "'s \<Rightarrow> bool" and G :: "'s \<Rightarrow> 's \<Rightarrow> bool"
  assumes keeps: "R s s' \<Longrightarrow> I s \<Longrightarrow> I s' \<and> G s s'"
    and start: "I s \<Longrightarrow> G s s"
    and compose: "I s \<Longrightarrow> G s s' \<Longrightarrow> G s' s'' \<Longrightarrow> G s s''"
begin

lemma steps_keep:
  assumes "R\<^sup>*\<^sup>* s s'" "I s"
  shows "I s' \<and> G s s'"
  using assms(1)
proof induction
  case base
  then show ?case using assms(2) start by simp
next
  case (step s1 s2)
  then have "I s2 \<and> G s1 s2" using keeps by blast
  then show ?case using step.IH compose [OF assms(2)] by blast
qed

end

end
