(* ===== verification/NvLog.thy ===== *)
theory NvLog
  imports Prelude
begin

text \<open>
  The non-volatile ring log of \<open>src/lib/nvlog.c\<close>, shared by the operation log and the
  checkpoint log. A log has a control structure in DRAM (\<open>nvlog\<close>) and a store on NVM
  (\<open>nvlog_store\<close>) with the persisted head and tail counters and the buffer. The buffer maps
  the byte index of an entry header to the entry; writing an entry of \<open>n\<close> bytes at index \<open>i\<close>
  destroys whatever header lay inside \<open>[i, i + n)\<close>, so that the theorems have to show that
  live entries are not overwritten. \<open>'e\<close> is the payload behind the entry header. Flushes and
  fences are recorded as events.

  A read through a pointer where no entry header lies is \<open>None\<close>.
\<close>

section \<open>Data (timestone_i.h)\<close>

datatype obj_type =
    TYPE_ACTUAL | TYPE_WRT_SET | TYPE_COPY | TYPE_FREE | TYPE_NVLOG_ENTRY | TYPE_BOGUS

datatype log_type = TYPE_NVLOG | TYPE_OPLOG | TYPE_CKPTLOG

datatype nvlog_status = STATUS_NVLOG_NORMAL | STATUS_NVLOG_RECOVERY

text \<open>\<open>ts_nvlog_entry_hdr_t\<close>; the payload is \<open>None\<close> until it is written.\<close>

record 'e nv_entry =
  e_wrt_clk :: u64
  e_size :: u32
  e_type :: obj_type
  e_body :: "'e option"

type_synonym 'e nv_mem = "u32 \<rightharpoonup> 'e nv_entry"

record 'e nvlog_store =
  s_head_cnt :: u64
  s_tail_cnt :: u64
  s_buffer_raw :: u64
  s_buffer :: u64
  s_mem :: "'e nv_mem"
  s_log_size :: u64
  s_mask :: u64
  s_type :: log_type
  s_status :: nvlog_status
  s_next :: "nat option"

record 'e nvlog =
  head_cnt :: u64
  tail_cnt :: u64
  prev_head_cnt :: u64
  reclaim_lock :: u32
  nvl_store :: "'e nvlog_store option"
  log_size :: u64
  nvl_mask :: u64
  nvl_type :: log_type
  nvl_status :: nvlog_status

datatype nvm_event =
    Clwb_line nat | Wmb | Store_tail u64 | Clwb_tail | Store_head u64 | Clwb_head

definition sizeof_nvlog_entry_hdr :: u32 where "sizeof_nvlog_entry_hdr = 16"

section \<open>The buffer\<close>

definition buf_put :: "u32 \<Rightarrow> u32 \<Rightarrow> 'a \<Rightarrow> (u32 \<rightharpoonup> 'a) \<Rightarrow> (u32 \<rightharpoonup> 'a)" where
  "buf_put i n e m =
     (\<lambda>k. if k = i then Some e
          else if i < k \<and> unat k < unat i + unat n then None else m k)"

definition nvlog_mem :: "'e nvlog \<Rightarrow> 'e nv_mem" where
  "nvlog_mem l = (case nvl_store l of None \<Rightarrow> Map.empty | Some st \<Rightarrow> s_mem st)"

definition upd_mem :: "('e nv_mem \<Rightarrow> 'e nv_mem) \<Rightarrow> 'e nvlog \<Rightarrow> 'e nvlog" where
  "upd_mem f l = l\<lparr>nvl_store := map_option (\<lambda>st. st\<lparr>s_mem := f (s_mem st)\<rparr>) (nvl_store l)\<rparr>"

section \<open>Operations (nvlog.c)\<close>

definition nvlog_index :: "'e nvlog \<Rightarrow> u64 \<Rightarrow> u32" where
  "nvlog_index l cnt = ring_index (nvl_mask l) cnt"

definition nvlog_at :: "'e nvlog \<Rightarrow> u64 \<Rightarrow> 'e nv_entry option" where
  "nvlog_at l cnt = nvlog_mem l (nvlog_index l cnt)"

definition is_power_of_2 :: "u32 \<Rightarrow> bool" where
  "is_power_of_2 x \<longleftrightarrow> x \<noteq> 0 \<and> x AND (x - 1) = 0"

definition nvlog_used :: "'e nvlog \<Rightarrow> u64" where
  "nvlog_used l = tail_cnt l - head_cnt l"

definition nvlog_load :: "'e nvlog_store \<Rightarrow> 'e nvlog" where
  "nvlog_load st =
     \<lparr>head_cnt = s_head_cnt st, tail_cnt = s_tail_cnt st, prev_head_cnt = s_head_cnt st,
      reclaim_lock = 0, nvl_store = Some st, log_size = s_log_size st, nvl_mask = s_mask st,
      nvl_type = s_type st, nvl_status = s_status st\<rparr>"

definition entry_size_of :: "u32 \<Rightarrow> u32" where
  "entry_size_of obj_size = align_uint_to_cacheline (obj_size + sizeof_nvlog_entry_hdr)"

definition bogus_entry :: "u32 \<Rightarrow> 'e nv_entry" where
  "bogus_entry n = \<lparr>e_wrt_clk = 0, e_size = n, e_type = TYPE_BOGUS, e_body = None\<rparr>"

text \<open>\<open>memset\<close> leaves the type of a fresh entry 0, which is \<open>TYPE_ACTUAL\<close>.\<close>

definition fresh_entry :: "u32 \<Rightarrow> 'e nv_entry" where
  "fresh_entry n = \<lparr>e_wrt_clk = MAX_VERSION, e_size = n, e_type = TYPE_ACTUAL, e_body = None\<rparr>"

text \<open>The bogus entry that skips the end of the buffer when an allocation would wrap.\<close>

definition nvlog_skip_end :: "'e nvlog \<Rightarrow> u32 \<Rightarrow> 'e nvlog" where
  "nvlog_skip_end l entry_size =
     (if nvlog_index l (tail_cnt l + ucast entry_size) < nvlog_index l (tail_cnt l) then
        (let bogus_size = ucast (log_size l - ucast (nvlog_index l (tail_cnt l))) :: u32;
             l = upd_mem (buf_put (nvlog_index l (tail_cnt l)) sizeof_nvlog_entry_hdr
                            (bogus_entry bogus_size)) l
         in l\<lparr>tail_cnt := tail_cnt l + ucast bogus_size\<rparr>)
      else l)"

text \<open>The index of the new entry's header, or NULL when the log is too full.\<close>

definition nvlog_enq :: "'e nvlog \<Rightarrow> u32 \<Rightarrow> u32 option \<times> 'e nvlog" where
  "nvlog_enq l obj_size =
     (let entry_size = entry_size_of obj_size
      in if ucast entry_size > log_size l then (None, l)
         else
           let l = nvlog_skip_end l entry_size
           in if (tail_cnt l + ucast entry_size) - head_cnt l > log_size l then (None, l)
              else
                let i = nvlog_index l (tail_cnt l);
                    l = upd_mem (buf_put i sizeof_nvlog_entry_hdr (fresh_entry entry_size)) l
                in (Some i, l\<lparr>tail_cnt := tail_cnt l + ucast entry_size\<rparr>))"

text \<open>
  What the caller writes through the returned pointer: the write clock, and the payload over
  the bytes of the entry.
\<close>

definition nvlog_fill :: "u32 \<Rightarrow> u64 \<Rightarrow> 'e \<Rightarrow> 'e nvlog \<Rightarrow> 'e nvlog" where
  "nvlog_fill i wrt_clk body l =
     upd_mem (\<lambda>m. case m i of
                None \<Rightarrow> m
              | Some e \<Rightarrow> buf_put i (e_size e) (e\<lparr>e_wrt_clk := wrt_clk, e_body := Some body\<rparr>) m) l"

function clwb_lines :: "nat \<Rightarrow> nat \<Rightarrow> nvm_event list" where
  "clwb_lines i e = (if i < e then Clwb_line i # clwb_lines (i + TS_CACHE_LINE_SIZE) e else [])"
  by pat_completeness auto
termination
  by (relation "measure (\<lambda>(i, e). e - i)") (auto simp: TS_CACHE_LINE_SIZE_def)

declare clwb_lines.simps [simp del]

definition nvlog_enq_persist :: "'e nvlog \<Rightarrow> nvm_event list \<times> 'e nvlog" where
  "nvlog_enq_persist l =
     (case nvl_store l of
        None \<Rightarrow> ([], l)
      | Some st \<Rightarrow>
          let v_tail_cnt = unat (nvlog_index l (tail_cnt l));
              nv_tail_cnt = unat (nvlog_index l (s_tail_cnt st))
          in if nv_tail_cnt = v_tail_cnt then ([], l)
             else
               ((if nv_tail_cnt < v_tail_cnt then clwb_lines nv_tail_cnt v_tail_cnt
                 else clwb_lines nv_tail_cnt (unat (log_size l)) @ clwb_lines 0 v_tail_cnt)
                  @ [Wmb, Store_tail (tail_cnt l), Clwb_tail],
                l\<lparr>nvl_store := Some (st\<lparr>s_tail_cnt := tail_cnt l\<rparr>)\<rparr>))"

definition nvlog_peek_head :: "'e nvlog \<Rightarrow> ('e nv_entry option \<times> 'e nvlog) option" where
  "nvlog_peek_head l =
     (if head_cnt l = tail_cnt l then Some (None, l)
      else do {
        h \<leftarrow> nvlog_at l (head_cnt l);
        (if e_type h = TYPE_BOGUS then
           (let l = l\<lparr>head_cnt := head_cnt l + ucast (e_size h)\<rparr>
            in if head_cnt l = tail_cnt l then Some (None, l)
               else do { h \<leftarrow> nvlog_at l (head_cnt l); Some (Some h, l) })
         else Some (Some h, l)) })"

definition nvlog_deq :: "'e nvlog \<Rightarrow> ('e nv_entry option \<times> 'e nvlog) option" where
  "nvlog_deq l =
     (if head_cnt l = tail_cnt l then Some (None, l)
      else do {
        h \<leftarrow> nvlog_at l (head_cnt l);
        let l = l\<lparr>head_cnt := head_cnt l + ucast (e_size h)\<rparr>;
        (if e_type h = TYPE_BOGUS then
           (if head_cnt l = tail_cnt l then Some (None, l)
            else do {
              h \<leftarrow> nvlog_at l (head_cnt l);
              Some (Some h, l\<lparr>head_cnt := head_cnt l + ucast (e_size h)\<rparr>) })
         else Some (Some h, l)) })"

definition nvlog_deq_persist :: "'e nvlog \<Rightarrow> nvm_event list \<times> 'e nvlog" where
  "nvlog_deq_persist l =
     (case nvl_store l of
        None \<Rightarrow> ([], l)
      | Some st \<Rightarrow>
          if s_head_cnt st \<noteq> head_cnt l
          then ([Store_head (head_cnt l), Clwb_head],
                l\<lparr>nvl_store := Some (st\<lparr>s_head_cnt := head_cnt l\<rparr>)\<rparr>)
          else ([], l))"

definition nvlog_truncate_tail :: "'e nvlog \<Rightarrow> u64 \<Rightarrow> nvm_event list \<times> 'e nvlog" where
  "nvlog_truncate_tail l cnt =
     (let l = l\<lparr>tail_cnt := cnt\<rparr>
      in case nvl_store l of
           None \<Rightarrow> ([], l)
         | Some st \<Rightarrow>
             if s_tail_cnt st \<noteq> cnt
             then ([Store_tail cnt, Clwb_tail, Wmb], l\<lparr>nvl_store := Some (st\<lparr>s_tail_cnt := cnt\<rparr>)\<rparr>)
             else ([], l))"

definition nvlog_truncate_head :: "'e nvlog \<Rightarrow> u64 \<Rightarrow> nvm_event list \<times> 'e nvlog" where
  "nvlog_truncate_head l cnt =
     (let l = l\<lparr>head_cnt := cnt\<rparr>
      in case nvl_store l of
           None \<Rightarrow> ([], l)
         | Some st \<Rightarrow>
             if s_head_cnt st \<noteq> cnt
             then ([Store_head cnt, Clwb_head, Wmb], l\<lparr>nvl_store := Some (st\<lparr>s_head_cnt := cnt\<rparr>)\<rparr>)
             else ([], l))"

text \<open>
  The loop "peek at the head; dequeue it while a condition holds" of the users of a log. The
  count is the number of entries dequeued.
\<close>

fun log_drain ::
  "('l \<Rightarrow> ('a option \<times> 'l) option) \<Rightarrow> ('l \<Rightarrow> ('a option \<times> 'l) option) \<Rightarrow> ('a \<Rightarrow> bool) \<Rightarrow>
   nat \<Rightarrow> 'l \<Rightarrow> (nat \<times> 'l) option" where
  "log_drain peek deq P 0 l = None"
| "log_drain peek deq P (Suc fuel) l = do {
     (h, l) \<leftarrow> peek l;
     (case h of
        None \<Rightarrow> Some (0, l)
      | Some e \<Rightarrow>
          if P e then do {
            (_, l) \<leftarrow> deq l;
            (n, l) \<leftarrow> log_drain peek deq P fuel l;
            Some (Suc n, l) }
          else Some (0, l)) }"

text \<open>What peeking and dequeuing keep, draining keeps.\<close>

lemma log_drain_keeps:
  assumes "\<And>l h l'. peek l = Some (h, l') \<Longrightarrow> Q l \<Longrightarrow> Q l'" "\<And>l h l'. deq l = Some (h, l') \<Longrightarrow> Q l \<Longrightarrow> Q l'"
  shows "log_drain peek deq P n l = Some (c, l') \<Longrightarrow> Q l \<Longrightarrow> Q l'"
proof (induction n arbitrary: l c)
  case 0
  then show ?case by simp
next
  case (Suc n)
  then show ?case
    using assms by (auto split: bind_splits option.splits if_splits)
qed

lemma peek_deq_keep_store:
  "nvlog_peek_head l = Some (h, l') \<Longrightarrow> nvl_store l' = nvl_store l \<and> reclaim_lock l' = reclaim_lock l"
  "nvlog_deq l = Some (h, l') \<Longrightarrow> nvl_store l' = nvl_store l \<and> reclaim_lock l' = reclaim_lock l"
  by (auto simp: nvlog_peek_head_def nvlog_deq_def Let_def split: bind_splits if_splits)

section \<open>The queue interface of a log\<close>

text \<open>
  What the users of a log rely on: the log is a first-in first-out queue of entries; peeking
  does not change the entries, dequeuing removes the first one.
\<close>

locale fifo_log =
  fixes invar :: "'l \<Rightarrow> bool"
    and entries :: "'l \<Rightarrow> 'a list"
    and peek :: "'l \<Rightarrow> ('a option \<times> 'l) option"
    and deq :: "'l \<Rightarrow> ('a option \<times> 'l) option"
  assumes peek_empty: "invar l \<Longrightarrow> entries l = [] \<Longrightarrow> \<exists>l'. peek l = Some (None, l') \<and> invar l' \<and> entries l' = []"
    and peek_cons: "invar l \<Longrightarrow> entries l = x # xs \<Longrightarrow>
          \<exists>l'. peek l = Some (Some x, l') \<and> invar l' \<and> entries l' = x # xs"
    and deq_cons: "invar l \<Longrightarrow> entries l = x # xs \<Longrightarrow>
          \<exists>l'. deq l = Some (Some x, l') \<and> invar l' \<and> entries l' = xs"
begin

text \<open>Draining drops the longest prefix of entries that satisfy the condition.\<close>

lemma drain_dropWhile:
  "invar l \<Longrightarrow> length (entries l) < fuel \<Longrightarrow>
   \<exists>l'. log_drain peek deq P fuel l = Some (length (takeWhile P (entries l)), l') \<and>
        invar l' \<and> entries l' = dropWhile P (entries l)"
proof (induction fuel arbitrary: l)
  case 0
  then show ?case by simp
next
  case (Suc fuel)
  show ?case
  proof (cases "entries l")
    case Nil
    with Suc.prems(1) obtain l1 where "peek l = Some (None, l1)" "invar l1" "entries l1 = []"
      using peek_empty by blast
    with Nil show ?thesis by simp
  next
    case (Cons x xs)
    with Suc.prems(1) obtain l1 where l1: "peek l = Some (Some x, l1)" "invar l1" "entries l1 = x # xs"
      using peek_cons by blast
    show ?thesis
    proof (cases "P x")
      case False
      with l1 Cons show ?thesis by simp
    next
      case True
      obtain l2 where l2: "deq l1 = Some (Some x, l2)" "invar l2" "entries l2 = xs"
        using deq_cons [OF l1(2,3)] by blast
      moreover have "length (entries l2) < fuel" using Suc.prems(2) Cons l2(3) by simp
      ultimately obtain l3 where "log_drain peek deq P fuel l2 = Some (length (takeWhile P xs), l3)"
        "invar l3" "entries l3 = dropWhile P xs"
        using Suc.IH [of l2] by auto
      with l1 l2 True Cons show ?thesis by simp
    qed
  qed
qed

end

declare log_drain.simps [simp del]

end
