(* ===== verification/NvLogRing.thy ===== *)
theory NvLogRing
  imports NvLog
begin

text \<open>
  The ring log of \<open>NvLog\<close> as a queue. A log is well formed when the bytes from \<open>head_cnt\<close> to
  \<open>tail_cnt\<close> are tiled by entries whose headers lie in the buffer, none of which wraps around
  the end of the buffer, and a bogus entry stands only at the end of the buffer. The entries of
  the queue are the tiles that are not bogus. The theory shows that enqueuing appends an entry
  exactly when it fits, that peeking and dequeuing are those of a queue (the interpretation of
  \<open>fifo_log\<close>), what is flushed before the tail is published, and that a log loaded after a
  restart holds what was persisted.
\<close>

section \<open>Tilings\<close>

definition total_size :: "'e nv_entry list \<Rightarrow> nat" where
  "total_size es = sum_list (map (\<lambda>e. unat (e_size e)) es)"

lemma total_size_simps [simp]:
  "total_size [] = 0" "total_size (e # es) = unat (e_size e) + total_size es" "total_size (es @ fs) = total_size es + total_size fs"
  by (simp_all add: total_size_def)

fun tiles :: "nat \<Rightarrow> 'e nv_mem \<Rightarrow> u64 \<Rightarrow> 'e nv_entry list \<Rightarrow> bool" where
  "tiles k m c [] \<longleftrightarrow> True"
| "tiles k m c (e # es) \<longleftrightarrow>
     m (ring_index (ring_mask (2 ^ k)) c) = Some e \<and>
     0 < e_size e \<and> 64 dvd unat (e_size e) \<and>
     unat c mod 2 ^ k + unat (e_size e) \<le> 2 ^ k \<and>
     (e_type e = TYPE_BOGUS \<longrightarrow> unat c mod 2 ^ k + unat (e_size e) = 2 ^ k \<and> 0 < unat c mod 2 ^ k) \<and>
     tiles k m (c + ucast (e_size e)) es"

text \<open>The entries met by following the sizes from a counter for a number of bytes.\<close>

function nvlog_walk :: "'e nvlog \<Rightarrow> nat \<Rightarrow> u64 \<Rightarrow> 'e nv_entry list" where
  "nvlog_walk l n c =
     (if n = 0 then []
      else case nvlog_at l c of
             None \<Rightarrow> []
           | Some e \<Rightarrow>
               if e_size e = 0 then []
               else e # nvlog_walk l (n - unat (e_size e)) (c + ucast (e_size e)))"
  by pat_completeness auto
termination
  by (relation "measure (\<lambda>(l, n, c). n)") (auto simp: unat_gt_0)

declare nvlog_walk.simps [simp del]

definition nvlog_raw :: "'e nvlog \<Rightarrow> 'e nv_entry list" where
  "nvlog_raw l = nvlog_walk l (unat (nvlog_used l)) (head_cnt l)"

abbreviation is_real :: "'e nv_entry \<Rightarrow> bool" where
  "is_real e \<equiv> e_type e \<noteq> TYPE_BOGUS"

definition nvlog_entries :: "'e nvlog \<Rightarrow> 'e nv_entry list" where
  "nvlog_entries l = filter is_real (nvlog_raw l)"

text \<open>A log of \<open>2 ^ k\<close> bytes whose live bytes are tiled by \<open>es\<close>.\<close>

definition nvlog_rep :: "nat \<Rightarrow> 'e nvlog \<Rightarrow> 'e nv_entry list \<Rightarrow> bool" where
  "nvlog_rep k l es \<longleftrightarrow>
     nvl_store l \<noteq> None \<and> 6 \<le> k \<and> k < 32 \<and> log_size l = 2 ^ k \<and> nvl_mask l = ring_mask (2 ^ k) \<and>
     64 dvd unat (head_cnt l) \<and> tiles k (nvlog_mem l) (head_cnt l) es \<and>
     nvlog_used l = of_nat (total_size es) \<and> total_size es \<le> 2 ^ k"

definition nvlog_wf :: "'e nvlog \<Rightarrow> bool" where
  "nvlog_wf l \<longleftrightarrow> (\<exists>k\<in>{6..<32}. nvlog_rep k l (nvlog_raw l))"

lemma of_nat_unat_u32 [simp]: "(of_nat (unat (s :: u32)) :: u64) = ucast s"
  by (simp add: word_unat_eq_iff unat_of_nat)

lemma pow_bound: "k < 32 \<Longrightarrow> (n::nat) \<le> 2 ^ k \<Longrightarrow> n \<le> 2 ^ 31"
  using power_increasing [of k 31 "2::nat"] by simp

lemma unat_total: "k < 32 \<Longrightarrow> n \<le> 2 ^ k \<Longrightarrow> unat (of_nat n :: u64) = n"
  using pow_bound [of k n] by (simp add: unat_of_nat)

lemma tiles_append:
  "tiles k m c (es @ fs) \<longleftrightarrow> tiles k m c es \<and> tiles k m (c + of_nat (total_size es)) fs"
  by (induction es arbitrary: c) (auto simp: algebra_simps)

lemma walk_tiles:
  assumes "nvl_mask l = ring_mask (2 ^ k)"
  shows "tiles k (nvlog_mem l) c es \<Longrightarrow> nvlog_walk l (total_size es) c = es"
proof (induction es arbitrary: c)
  case Nil
  then show ?case by (simp add: nvlog_walk.simps)
next
  case (Cons e es)
  then have "nvlog_at l c = Some e" "e_size e \<noteq> 0"
    by (auto simp: nvlog_at_def nvlog_index_def assms)
  with Cons show ?case by (subst nvlog_walk.simps) (simp add: unat_eq_0)
qed

lemma rep_raw: "nvlog_rep k l es \<Longrightarrow> nvlog_raw l = es"
  unfolding nvlog_rep_def nvlog_raw_def by (auto simp: unat_total [of k] walk_tiles)

lemma rep_wf: "nvlog_rep k l es \<Longrightarrow> nvlog_wf l"
  using rep_raw [of k l es] unfolding nvlog_wf_def by (auto simp: nvlog_rep_def)

lemma rep_entries: "nvlog_rep k l es \<Longrightarrow> nvlog_entries l = filter is_real es"
  by (simp add: nvlog_entries_def rep_raw)

lemma wf_repE:
  assumes "nvlog_wf l"
  obtains k es where "nvlog_rep k l es" "nvlog_entries l = filter is_real es"
  using assms unfolding nvlog_wf_def nvlog_entries_def by blast

section \<open>Peeking and dequeuing\<close>

lemma after_bogus_real:
  assumes "k < 32" "tiles k m c (b # e # es)" "e_type b = TYPE_BOGUS"
  shows "is_real e"
proof -
  have "unat (ring_index (ring_mask (2 ^ k)) (c + ucast (e_size b))) = 0"
    using assms by (simp only: unat_ring_index_add) simp
  then have "unat (c + ucast (e_size b)) mod 2 ^ k = 0" using assms(1) by (simp add: unat_ring_index)
  with assms show ?thesis by auto
qed

lemma rep_head_tail: "nvlog_rep k l es \<Longrightarrow> head_cnt l = tail_cnt l \<longleftrightarrow> es = []"
proof -
  assume r: "nvlog_rep k l es"
  have "unat (nvlog_used l) = total_size es"
    using r by (auto simp: nvlog_rep_def unat_total [of k])
  moreover have "total_size es = 0 \<longleftrightarrow> es = []"
    using r by (cases es) (auto simp: nvlog_rep_def unat_eq_0)
  moreover have "nvlog_used l = 0 \<longleftrightarrow> head_cnt l = tail_cnt l" by (auto simp: nvlog_used_def)
  ultimately show ?thesis by (metis unat_eq_0)
qed

lemma rep_head_at: "nvlog_rep k l (e # es) \<Longrightarrow> nvlog_at l (head_cnt l) = Some e"
  by (simp add: nvlog_rep_def nvlog_at_def nvlog_index_def)

lemma aligned_add:
  "64 dvd unat (c::u64) \<Longrightarrow> 64 dvd unat (s::u32) \<Longrightarrow> 64 dvd unat (c + ucast s)"
proof -
  assume "64 dvd unat c" "64 dvd unat s"
  then have "64 dvd unat c + unat s" by (rule dvd_add)
  moreover have "(64::nat) dvd 2 ^ 64" by simp
  ultimately have "64 dvd (unat c + unat s) mod 2 ^ 64" by (simp only: dvd_mod_iff)
  then show ?thesis by (simp add: unat_word_ariths)
qed

lemma rep_advance:
  assumes "nvlog_rep k l (e # es)"
  shows "nvlog_rep k (l\<lparr>head_cnt := head_cnt l + ucast (e_size e)\<rparr>) es"
proof -
  let ?l = "l\<lparr>head_cnt := head_cnt l + ucast (e_size e)\<rparr>"
  have "nvlog_used ?l = of_nat (total_size es)"
    using assms by (simp add: nvlog_rep_def nvlog_used_def algebra_simps)
  moreover have "64 dvd unat (head_cnt ?l)"
    using assms by (auto simp: nvlog_rep_def intro: aligned_add)
  moreover have "nvlog_mem ?l = nvlog_mem l" by (simp add: nvlog_mem_def)
  ultimately show ?thesis using assms by (simp add: nvlog_rep_def)
qed

lemma rep_peek:
  assumes "nvlog_rep k l es"
  shows "\<exists>l' es'. nvlog_rep k l' es' \<and> filter is_real es' = filter is_real es \<and>
           (case filter is_real es of
              [] \<Rightarrow> nvlog_peek_head l = Some (None, l')
            | e # _ \<Rightarrow> nvlog_peek_head l = Some (Some e, l'))"
proof (cases es)
  case Nil
  with assms show ?thesis by (auto simp: nvlog_peek_head_def rep_head_tail [OF assms])
next
  case (Cons b fs)
  note at = rep_head_at [OF assms [unfolded Cons]]
  show ?thesis
  proof (cases "e_type b = TYPE_BOGUS")
    case False
    with Cons at assms show ?thesis
      by (auto simp: nvlog_peek_head_def rep_head_tail [OF assms])
  next
    case True
    let ?l = "l\<lparr>head_cnt := head_cnt l + ucast (e_size b)\<rparr>"
    have r: "nvlog_rep k ?l fs" using assms Cons by (auto intro: rep_advance)
    show ?thesis
    proof (cases fs)
      case Nil
      with Cons True at r rep_head_tail [OF r] show ?thesis
        by (auto simp: nvlog_peek_head_def Let_def rep_head_tail [OF assms])
    next
      case (Cons e gs)
      have "is_real e"
        using assms \<open>es = b # fs\<close> Cons True after_bogus_real [of k "nvlog_mem l" "head_cnt l" b e gs]
        by (auto simp: nvlog_rep_def)
      moreover have "nvlog_at ?l (head_cnt ?l) = Some e" using r Cons rep_head_at by metis
      ultimately show ?thesis
        using \<open>es = b # fs\<close> Cons True at r rep_head_tail [OF r]
        by (auto simp: nvlog_peek_head_def Let_def rep_head_tail [OF assms] nvlog_at_def nvlog_mem_def nvlog_index_def)
    qed
  qed
qed

lemma rep_deq:
  assumes "nvlog_rep k l es"
  shows "\<exists>l' es'. nvlog_rep k l' es' \<and> filter is_real es' = drop 1 (filter is_real es) \<and>
           (case filter is_real es of
              [] \<Rightarrow> nvlog_deq l = Some (None, l')
            | e # _ \<Rightarrow> nvlog_deq l = Some (Some e, l'))"
proof (cases es)
  case Nil
  with assms show ?thesis by (auto simp: nvlog_deq_def rep_head_tail [OF assms])
next
  case (Cons b fs)
  note at = rep_head_at [OF assms [unfolded Cons]]
  let ?l = "l\<lparr>head_cnt := head_cnt l + ucast (e_size b)\<rparr>"
  have r: "nvlog_rep k ?l fs" using assms Cons by (auto intro: rep_advance)
  show ?thesis
  proof (cases "e_type b = TYPE_BOGUS")
    case False
    with Cons at r show ?thesis
      by (auto simp: nvlog_deq_def rep_head_tail [OF assms])
  next
    case True
    show ?thesis
    proof (cases fs)
      case Nil
      with Cons True at r rep_head_tail [OF r] show ?thesis
        by (auto simp: nvlog_deq_def rep_head_tail [OF assms])
    next
      case (Cons e gs)
      have "is_real e"
        using assms \<open>es = b # fs\<close> Cons True after_bogus_real [of k "nvlog_mem l" "head_cnt l" b e gs]
        by (auto simp: nvlog_rep_def)
      moreover have "nvlog_at ?l (head_cnt ?l) = Some e" using r Cons rep_head_at by metis
      moreover have "nvlog_rep k (?l\<lparr>head_cnt := head_cnt ?l + ucast (e_size e)\<rparr>) gs"
        using rep_advance [OF r [unfolded Cons]] by simp
      ultimately show ?thesis
        using \<open>es = b # fs\<close> Cons True at rep_head_tail [OF r]
        by (auto simp: nvlog_deq_def rep_head_tail [OF assms] nvlog_at_def nvlog_mem_def nvlog_index_def)
    qed
  qed
qed

interpretation nvq: fifo_log nvlog_wf nvlog_entries nvlog_peek_head nvlog_deq
proof (unfold_locales, goal_cases)
  case (1 l)
  then obtain k es where r: "nvlog_rep k l es" "filter is_real es = []" by (metis wf_repE)
  from rep_peek [OF r(1)] r(2) show ?case by (auto simp: rep_entries dest: rep_wf)
next
  case (2 l x xs)
  then obtain k es where r: "nvlog_rep k l es" "filter is_real es = x # xs" by (metis wf_repE)
  from rep_peek [OF r(1)] r(2) show ?case by (fastforce simp: rep_entries dest: rep_wf)
next
  case (3 l x xs)
  then obtain k es where r: "nvlog_rep k l es" "filter is_real es = x # xs" by (metis wf_repE)
  from rep_deq [OF r(1)] r(2) show ?case by (fastforce simp: rep_entries dest: rep_wf)
qed

section \<open>Enqueuing\<close>

lemma ring_distinct:
  fixes c off u d n N :: nat
  assumes "off < u" "d < n" "u + n \<le> N"
  shows "(c + off) mod N \<noteq> (c + u + d) mod N"
proof
  assume "(c + off) mod N = (c + u + d) mod N"
  then have "N dvd (c + u + d) - (c + off)"
    using assms(1) by (intro mod_eq_dvd_iff_nat [THEN iffD1]) auto
  then have "N dvd u + d - off" by simp
  with assms show False using dvd_imp_le [of N "u + d - off"] by linarith
qed

lemma unat_ring_index_of_nat [ring_simps]:
  assumes "k < 32"
  shows "unat (ring_index (ring_mask (2 ^ k)) (c + of_nat n)) = (unat c + n) mod 2 ^ k"
proof -
  have "unat (c + of_nat n) = (unat c + n) mod 2 ^ 64"
    by (simp add: unat_word_ariths unat_of_nat mod_add_right_eq)
  moreover have "(unat c + n) mod 2 ^ 64 mod 2 ^ k = (unat c + n) mod 2 ^ k"
    using assms by (intro mod_mod_pow2) simp
  ultimately show ?thesis using assms by (simp only: unat_ring_index)
qed

text \<open>Writing behind the live bytes leaves what lies in front alone.\<close>

lemma put_apart:
  assumes "k < 32" "0 < n" "0 < u" "u + unat n \<le> 2 ^ k"
    and i: "i = ring_index (ring_mask (2 ^ k)) (c + of_nat u)" "unat i + unat n \<le> 2 ^ k"
  shows "buf_put i n x m (ring_index (ring_mask (2 ^ k)) c) = m (ring_index (ring_mask (2 ^ k)) c)"
proof -
  let ?j = "ring_index (ring_mask (2 ^ k)) c"
  have ui: "unat i = (unat c + u) mod 2 ^ k" using assms(1) i(1) by (simp only: unat_ring_index_of_nat)
  have apart: "unat ?j \<noteq> unat i + d" if "d < unat n" for d
  proof -
    have "unat i + d < 2 ^ k" using that i(2) by linarith
    then have "(unat c + u + d) mod 2 ^ k = unat i + d"
      unfolding ui by (metis mod_add_left_eq mod_less)
    moreover have "unat ?j = (unat c + 0) mod 2 ^ k" using assms(1) by (simp add: unat_ring_index)
    moreover have "(unat c + 0) mod 2 ^ k \<noteq> (unat c + u + d) mod 2 ^ k"
      using that assms(3,4) by (intro ring_distinct [where n = "unat n"]) auto
    ultimately show ?thesis by metis
  qed
  have "?j \<noteq> i" using apart [of 0] assms(2) by (auto simp: unat_gt_0)
  moreover have "\<not> (i < ?j \<and> unat ?j < unat i + unat n)"
    using apart [of "unat ?j - unat i"] by (simp add: word_less_nat_alt) (metis add_less_imp_less_left le_add_diff_inverse less_or_eq_imp_le)
  ultimately show ?thesis by (auto simp: buf_put_def)
qed

lemma tiles_put:
  assumes "k < 32" "0 < n"
  shows "tiles k m c es \<Longrightarrow> i = ring_index (ring_mask (2 ^ k)) (c + of_nat (total_size es)) \<Longrightarrow>
         total_size es + unat n \<le> 2 ^ k \<Longrightarrow> unat i + unat n \<le> 2 ^ k \<Longrightarrow>
         tiles k (buf_put i n x m) c es"
proof (induction es arbitrary: c)
  case Nil
  then show ?case by simp
next
  case (Cons e es)
  have "0 < total_size (e # es)" using Cons.prems(1) by (auto simp: unat_gt_0)
  from put_apart [OF assms this Cons.prems(3,2,4)]
  have "buf_put i n x m (ring_index (ring_mask (2 ^ k)) c) = m (ring_index (ring_mask (2 ^ k)) c)" .
  moreover have "tiles k (buf_put i n x m) (c + ucast (e_size e)) es"
    using Cons.prems by (intro Cons.IH) (auto simp: algebra_simps)
  ultimately show ?case using Cons.prems(1) by simp
qed

lemma rep_tail: "nvlog_rep k l es \<Longrightarrow> tail_cnt l = head_cnt l + of_nat (total_size es)"
  by (auto simp: nvlog_rep_def nvlog_used_def algebra_simps)

lemma mem_upd_mem: "nvl_store l \<noteq> None \<Longrightarrow> nvlog_mem (upd_mem f l) = f (nvlog_mem l)"
  by (auto simp: nvlog_mem_def upd_mem_def)

lemma upd_mem_fields [simp]:
  "head_cnt (upd_mem f l) = head_cnt l" "tail_cnt (upd_mem f l) = tail_cnt l"
  "log_size (upd_mem f l) = log_size l" "nvl_mask (upd_mem f l) = nvl_mask l"
  "nvl_store (upd_mem f l) = None \<longleftrightarrow> nvl_store l = None" "nvlog_used (upd_mem f l) = nvlog_used l"
  by (auto simp: upd_mem_def nvlog_used_def)

lemma mem_tail_cnt [simp]: "nvlog_mem (l\<lparr>tail_cnt := c\<rparr>) = nvlog_mem l"
  by (simp add: nvlog_mem_def)

lemma rep_push:
  assumes r: "nvlog_rep k l es" and i: "i = nvlog_index l (tail_cnt l)"
    and n: "0 < n" "n \<le> e_size e" and al: "64 dvd unat (e_size e)"
    and fit: "total_size es + unat (e_size e) \<le> 2 ^ k" "unat i + unat (e_size e) \<le> 2 ^ k"
    and bogus: "e_type e = TYPE_BOGUS \<Longrightarrow> unat i + unat (e_size e) = 2 ^ k \<and> 0 < unat i"
  shows "nvlog_rep k ((upd_mem (buf_put i n e) l)\<lparr>tail_cnt := tail_cnt l + ucast (e_size e)\<rparr>) (es @ [e])"
proof -
  have k: "k < 32" and st: "nvl_store l \<noteq> None" and m: "nvl_mask l = ring_mask (2 ^ k)"
    and t: "tiles k (nvlog_mem l) (head_cnt l) es"
    using r by (auto simp: nvlog_rep_def)
  have ix: "i = ring_index (ring_mask (2 ^ k)) (head_cnt l + of_nat (total_size es))"
    using i m by (simp add: nvlog_index_def rep_tail [OF r])
  have pos: "unat (head_cnt l + of_nat (total_size es)) mod 2 ^ k = unat i"
    using k unfolding ix by (simp add: unat_ring_index)
  have "unat n \<le> unat (e_size e)" using n(2) by (simp add: word_le_nat_alt)
  then have "tiles k (buf_put i n e (nvlog_mem l)) (head_cnt l) es"
    using fit by (intro tiles_put [OF k n(1) t ix]) auto
  moreover have "buf_put i n e (nvlog_mem l) i = Some e" by (simp add: buf_put_def)
  ultimately have "tiles k (buf_put i n e (nvlog_mem l)) (head_cnt l) (es @ [e])"
    using fit n al bogus pos ix by (auto simp: tiles_append)
  then show ?thesis
    using r st fit by (auto simp: nvlog_rep_def nvlog_used_def mem_upd_mem algebra_simps)
qed

lemma rep_fill:
  assumes r: "nvlog_rep k l (es @ [e])" and i: "i = nvlog_index l (head_cnt l + of_nat (total_size es))"
  shows "nvlog_rep k (nvlog_fill i clk b l) (es @ [e\<lparr>e_wrt_clk := clk, e_body := Some b\<rparr>])"
proof -
  let ?e = "e\<lparr>e_wrt_clk := clk, e_body := Some b\<rparr>"
  have k: "k < 32" and st: "nvl_store l \<noteq> None" and m: "nvl_mask l = ring_mask (2 ^ k)"
    and t: "tiles k (nvlog_mem l) (head_cnt l) es"
    and te: "tiles k (nvlog_mem l) (head_cnt l + of_nat (total_size es)) [e]"
    and fit: "total_size es + unat (e_size e) \<le> 2 ^ k"
    using r by (auto simp: nvlog_rep_def tiles_append)
  have ix: "i = ring_index (ring_mask (2 ^ k)) (head_cnt l + of_nat (total_size es))"
    using i m by (simp add: nvlog_index_def)
  have pos: "unat (head_cnt l + of_nat (total_size es)) mod 2 ^ k = unat i"
    using k unfolding ix by (simp add: unat_ring_index)
  have at: "nvlog_mem l i = Some e" using te ix by simp
  have "tiles k (buf_put i (e_size e) ?e (nvlog_mem l)) (head_cnt l) es"
    using fit te pos by (intro tiles_put [OF k _ t ix]) auto
  moreover have "buf_put i (e_size e) ?e (nvlog_mem l) i = Some ?e" by (simp add: buf_put_def)
  ultimately have "tiles k (buf_put i (e_size e) ?e (nvlog_mem l)) (head_cnt l) (es @ [?e])"
    using te ix by (simp add: tiles_append)
  then show ?thesis
    using r st at by (simp add: nvlog_rep_def nvlog_fill_def mem_upd_mem del: tiles.simps)
qed

text \<open>The bytes an allocation of \<open>s\<close> bytes gives up at the end of the buffer.\<close>

definition nvlog_gap :: "'e nvlog \<Rightarrow> u32 \<Rightarrow> nat" where
  "nvlog_gap l s =
     (let p = unat (nvlog_index l (tail_cnt l))
      in if unat (log_size l) \<le> p + unat s then unat (log_size l) - p else 0)"

definition nvlog_fits :: "'e nvlog \<Rightarrow> u32 \<Rightarrow> bool" where
  "nvlog_fits l s \<longleftrightarrow> unat (nvlog_used l) + nvlog_gap l s + unat s \<le> unat (log_size l)"

lemma unat_pow2_u64: "k < 32 \<Longrightarrow> unat (2 ^ k :: u64) = 2 ^ k"
  using unat_total [of k "2 ^ k"] by simp

lemma unat_pow2_u32:
  assumes "k < 32"
  shows "unat (2 ^ k :: u32) = 2 ^ k"
proof -
  have "unat (of_nat (2 ^ k) :: u32) = 2 ^ k"
    using pow_bound [OF assms, of "2 ^ k"] by (simp only: unat_of_nat) simp
  then show ?thesis by simp
qed

lemma rep_index: "nvlog_rep k l es \<Longrightarrow> unat (nvlog_index l c) = unat c mod 2 ^ k"
  by (auto simp: nvlog_rep_def nvlog_index_def unat_ring_index)

lemma tiles_aligned: "tiles k m c es \<Longrightarrow> 64 dvd total_size es"
  by (induction es arbitrary: c) (auto intro: dvd_add)

lemma rep_index_aligned:
  assumes "nvlog_rep k l es"
  shows "64 dvd unat (nvlog_index l (tail_cnt l))"
proof -
  have k: "6 \<le> k" "k < 32" and h: "64 dvd unat (head_cnt l)" and t: "tiles k (nvlog_mem l) (head_cnt l) es"
    and m: "nvl_mask l = ring_mask (2 ^ k)"
    using assms by (auto simp: nvlog_rep_def)
  from tiles_aligned [OF t] have "64 dvd unat (head_cnt l) + total_size es" using h by simp
  moreover have "(64::nat) dvd 2 ^ k" using le_imp_power_dvd [OF k(1), of "2::nat"] by simp
  ultimately have "64 dvd (unat (head_cnt l) + total_size es) mod 2 ^ k" by (simp add: dvd_mod_iff)
  then show ?thesis
    using k m by (simp add: nvlog_index_def rep_tail [OF assms] unat_ring_index_of_nat)
qed

lemma unat_entry_size:
  assumes "unat obj_size + 79 < 2 ^ 32"
  shows "unat (entry_size_of obj_size) = (unat obj_size + 79) div 64 * 64"
    and "64 dvd unat (entry_size_of obj_size)" and "unat obj_size + 16 \<le> unat (entry_size_of obj_size)"
proof -
  have "unat (obj_size + sizeof_nvlog_entry_hdr) = unat obj_size + 16"
    using assms by (simp add: sizeof_nvlog_entry_hdr_def unat_word_ariths)
  then show e: "unat (entry_size_of obj_size) = (unat obj_size + 79) div 64 * 64"
    using assms by (simp add: entry_size_of_def unat_align_uint)
  show "64 dvd unat (entry_size_of obj_size)" unfolding e by simp
  show "unat obj_size + 16 \<le> unat (entry_size_of obj_size)"
    unfolding e using aligned_div_bounds(1) [of 64 "unat obj_size + 16"] by simp
qed

lemma unat_bogus_size:
  assumes "k < 32" "unat i < 2 ^ k"
  shows "unat (ucast (2 ^ k - ucast (i :: u32) :: u64) :: u32) = 2 ^ k - unat i"
proof -
  have "(ucast i :: u64) \<le> 2 ^ k" using assms by (simp add: word_le_nat_alt unat_pow2_u64)
  then have "unat (2 ^ k - ucast i :: u64) = 2 ^ k - unat i"
    using assms by (simp add: unat_sub unat_pow2_u64)
  moreover have "2 ^ k - unat i < (2::nat) ^ 32"
    using pow_bound [OF assms(1), of "2 ^ k - unat i"] by simp
  ultimately show ?thesis
    unfolding unsigned_ucast_eq by (simp add: take_bit_nat_eq_self_iff take_bit_nat_eq_self)
qed

lemma mod_wrap_iff:
  fixes p s N :: nat
  assumes "p < N" "s < N" "0 < s"
  shows "(p + s) mod N < p \<longleftrightarrow> N \<le> p + s"
proof (cases "N \<le> p + s")
  case True
  then have "(p + s) mod N = p + s - N" using assms by (simp add: mod_if)
  with True assms show ?thesis by simp
next
  case False
  then show ?thesis using assms by simp
qed

lemma rep_wraps:
  fixes s :: u32
  assumes r: "nvlog_rep k l es" and s: "0 < s" "unat s < 2 ^ k"
  shows "nvlog_index l (tail_cnt l + ucast s) < nvlog_index l (tail_cnt l) \<longleftrightarrow>
         2 ^ k \<le> unat (nvlog_index l (tail_cnt l)) + unat s"
proof -
  let ?p = "nvlog_index l (tail_cnt l)"
  have k: "k < 32" and m: "nvl_mask l = ring_mask (2 ^ k)" using r by (auto simp: nvlog_rep_def)
  have p: "unat ?p < 2 ^ k" by (simp add: rep_index [OF r])
  have "unat (nvlog_index l (tail_cnt l + ucast s)) = (unat ?p + unat s) mod 2 ^ k"
    unfolding nvlog_index_def m unat_ring_index_add [OF k] unat_ring_index [OF k, of "tail_cnt l"] ..
  then show ?thesis
    using s mod_wrap_iff [OF p s(2)] by (simp add: word_less_nat_alt unat_gt_0)
qed

text \<open>The bogus tile, when one is needed and there is room for it.\<close>

lemma rep_skip_end:
  assumes r: "nvlog_rep k l es" and s: "0 < s" "unat s < 2 ^ k"
    and fit: "total_size es + nvlog_gap l s \<le> 2 ^ k"
  shows "\<exists>gs. nvlog_rep k (nvlog_skip_end l s) (es @ gs) \<and> filter is_real gs = [] \<and>
              total_size gs = nvlog_gap l s \<and> log_size (nvlog_skip_end l s) = log_size l \<and>
              unat (nvlog_index (nvlog_skip_end l s) (tail_cnt (nvlog_skip_end l s))) + unat s \<le> 2 ^ k"
proof -
  let ?p = "nvlog_index l (tail_cnt l)"
  have k: "6 \<le> k" "k < 32" and ls: "log_size l = 2 ^ k" and m: "nvl_mask l = ring_mask (2 ^ k)"
    using r by (auto simp: nvlog_rep_def)
  have p: "unat ?p < 2 ^ k" by (simp add: rep_index [OF r])
  note w = rep_wraps [OF r s]
  show ?thesis
  proof (cases "2 ^ k \<le> unat ?p + unat s")
    case False
    then have "nvlog_skip_end l s = l" using w by (simp add: nvlog_skip_end_def)
    with False r k show ?thesis
      by (intro exI [of _ "[]"]) (simp add: nvlog_gap_def Let_def ls unat_pow2_u64)
  next
    case True
    let ?b = "ucast (2 ^ k - ucast ?p :: u64) :: u32"
    let ?l = "(upd_mem (buf_put ?p sizeof_nvlog_entry_hdr (bogus_entry ?b)) l)\<lparr>tail_cnt := tail_cnt l + ucast ?b\<rparr>"
    have b: "unat ?b = 2 ^ k - unat ?p" using unat_bogus_size [OF k(2) p] .
    have gap: "nvlog_gap l s = unat ?b" using True k by (simp add: nvlog_gap_def ls unat_pow2_u64 b)
    have sk: "nvlog_skip_end l s = ?l"
      using True w by (simp add: nvlog_skip_end_def Let_def ls)
    have "(64::nat) dvd 2 ^ k" using le_imp_power_dvd [OF k(1), of "2::nat"] by simp
    then have al: "64 dvd unat ?b" unfolding b using rep_index_aligned [OF r] by simp
    moreover have "0 < unat ?b" using b p by simp
    ultimately have b16: "64 \<le> unat ?b" by (rule dvd_imp_le)
    have "nvlog_rep k ?l (es @ [bogus_entry ?b])"
      using rep_push [OF r refl, of sizeof_nvlog_entry_hdr "bogus_entry ?b"] b b16 al p fit gap s True
      by (simp add: bogus_entry_def sizeof_nvlog_entry_hdr_def word_le_nat_alt word_less_nat_alt)
    moreover have "unat (nvlog_index ?l (tail_cnt ?l)) = 0"
      using k b p rep_index [OF r, of "tail_cnt l"]
      by (simp add: nvlog_index_def m unat_ring_index_add)
    ultimately show ?thesis
      unfolding sk using gap s
      by (intro exI [of _ "[bogus_entry ?b]"]) (auto simp: bogus_entry_def)
  qed
qed

lemma skip_end_tail:
  assumes r: "nvlog_rep k l es" and s: "0 < s" "unat s < 2 ^ k"
  shows "tail_cnt (nvlog_skip_end l s) = tail_cnt l + of_nat (nvlog_gap l s)"
    and "head_cnt (nvlog_skip_end l s) = head_cnt l" and "log_size (nvlog_skip_end l s) = log_size l"
proof -
  let ?p = "nvlog_index l (tail_cnt l)"
  have k: "k < 32" and ls: "log_size l = 2 ^ k" and m: "nvl_mask l = ring_mask (2 ^ k)"
    using r by (auto simp: nvlog_rep_def)
  have p: "unat ?p < 2 ^ k" by (simp add: rep_index [OF r])
  note w = rep_wraps [OF r s]
  have b: "(of_nat (2 ^ k - unat ?p) :: u64) = ucast (ucast (2 ^ k - ucast ?p :: u64) :: u32)"
    unfolding unat_bogus_size [OF k p, symmetric] by (rule of_nat_unat_u32)
  show "tail_cnt (nvlog_skip_end l s) = tail_cnt l + of_nat (nvlog_gap l s)"
    using w b k by (simp add: nvlog_skip_end_def Let_def ls nvlog_gap_def unat_pow2_u64)
  show "head_cnt (nvlog_skip_end l s) = head_cnt l" "log_size (nvlog_skip_end l s) = log_size l"
    by (simp_all add: nvlog_skip_end_def Let_def)
qed

text \<open>What enqueuing decides: it fails exactly when the entry and the skipped end do not fit.\<close>

lemma enq_none_iff:
  assumes r: "nvlog_rep k l es" and o: "unat obj_size + 79 < 2 ^ 32"
    and s: "unat (entry_size_of obj_size) < 2 ^ k"
  shows "fst (nvlog_enq l obj_size) = None \<longleftrightarrow> \<not> nvlog_fits l (entry_size_of obj_size)"
proof -
  let ?s = "entry_size_of obj_size" let ?l = "nvlog_skip_end l ?s"
  have k: "k < 32" and ls: "log_size l = 2 ^ k" and u: "nvlog_used l = of_nat (total_size es)"
    and le: "total_size es \<le> 2 ^ k"
    using r by (auto simp: nvlog_rep_def)
  have s0: "0 < ?s" using unat_entry_size(3) [OF o] by (simp add: word_less_nat_alt)
  have g: "nvlog_gap l ?s \<le> 2 ^ k" using k by (simp add: nvlog_gap_def Let_def ls unat_pow2_u64)
  have "(tail_cnt ?l + ucast ?s) - head_cnt ?l = of_nat (total_size es + nvlog_gap l ?s + unat ?s)"
    unfolding skip_end_tail [OF r s0 s] using u by (simp add: nvlog_used_def algebra_simps)
  moreover have "total_size es + nvlog_gap l ?s + unat ?s < 2 ^ 64"
    using pow_bound [OF k le] pow_bound [OF k g] pow_bound [OF k less_imp_le [OF s]] by simp
  ultimately have "unat ((tail_cnt ?l + ucast ?s) - head_cnt ?l) = total_size es + nvlog_gap l ?s + unat ?s"
    by (simp only: unat_of_nat) simp
  then have "(tail_cnt ?l + ucast ?s) - head_cnt ?l > log_size ?l \<longleftrightarrow> \<not> nvlog_fits l ?s"
    unfolding skip_end_tail(3) [OF r s0 s]
    using k u le by (auto simp: word_less_nat_alt nvlog_fits_def ls unat_pow2_u64 unat_total [OF k le])
  moreover have "\<not> ucast ?s > log_size l" using s k by (simp add: word_less_nat_alt ls unat_pow2_u64)
  ultimately show ?thesis by (simp add: nvlog_enq_def Let_def)
qed

lemma enq_some_gap:
  assumes r: "nvlog_rep k l es" and o: "unat obj_size + 79 < 2 ^ 32"
    and s: "unat (entry_size_of obj_size) < 2 ^ k" and f: "nvlog_fits l (entry_size_of obj_size)"
  shows "\<exists>i l' gs. nvlog_enq l obj_size = (Some i, l') \<and> filter is_real gs = [] \<and>
           nvlog_rep k l' (es @ gs @ [fresh_entry (entry_size_of obj_size)]) \<and>
           i = nvlog_index l' (head_cnt l' + of_nat (total_size (es @ gs))) \<and>
           total_size gs = nvlog_gap l (entry_size_of obj_size) \<and>
           unat i + unat (entry_size_of obj_size) \<le> 2 ^ k"
proof -
  let ?s = "entry_size_of obj_size" let ?l = "nvlog_skip_end l ?s"
  have k: "k < 32" and ls: "log_size l = 2 ^ k" and u: "nvlog_used l = of_nat (total_size es)"
    and le: "total_size es \<le> 2 ^ k"
    using r by (auto simp: nvlog_rep_def)
  have fit: "total_size es + nvlog_gap l ?s + unat ?s \<le> 2 ^ k"
    using f k by (simp add: nvlog_fits_def ls unat_pow2_u64 u unat_total [OF k le])
  have s16: "16 \<le> unat ?s" using unat_entry_size(3) [OF o] by simp
  then have s0: "0 < ?s" by (simp add: word_less_nat_alt)
  obtain gs where gs: "nvlog_rep k ?l (es @ gs)" "filter is_real gs = []" "total_size gs = nvlog_gap l ?s"
    "unat (nvlog_index ?l (tail_cnt ?l)) + unat ?s \<le> 2 ^ k"
    using rep_skip_end [OF r s0 s] fit by auto
  let ?i = "nvlog_index ?l (tail_cnt ?l)"
  let ?l' = "(upd_mem (buf_put ?i sizeof_nvlog_entry_hdr (fresh_entry ?s)) ?l)\<lparr>tail_cnt := tail_cnt ?l + ucast ?s\<rparr>"
  have "\<not> (fst (nvlog_enq l obj_size) = None)" using enq_none_iff [OF r o s] f by simp
  then have e: "nvlog_enq l obj_size = (Some ?i, ?l')"
    by (auto simp: nvlog_enq_def Let_def split: if_splits)
  have "nvlog_rep k ?l' ((es @ gs) @ [fresh_entry ?s])"
    using rep_push [OF gs(1) refl, of sizeof_nvlog_entry_hdr "fresh_entry ?s"] s16 unat_entry_size(2) [OF o] gs fit
    by (simp add: fresh_entry_def sizeof_nvlog_entry_hdr_def word_le_nat_alt)
  moreover have "?i = nvlog_index ?l' (head_cnt ?l' + of_nat (total_size (es @ gs)))"
    using rep_tail [OF gs(1)] by (simp add: nvlog_index_def)
  ultimately show ?thesis using e gs by auto
qed

section \<open>Properties\<close>

text \<open>The queue after an enqueue, for the users of a log.\<close>

lemma enq_fill_entries:
  assumes "nvlog_wf l" "unat obj_size + 79 < 2 ^ 32" "ucast (entry_size_of obj_size) < log_size l"
  shows "case nvlog_enq l obj_size of
           (None, l') \<Rightarrow> \<not> nvlog_fits l (entry_size_of obj_size)
         | (Some i, l') \<Rightarrow>
             nvlog_fits l (entry_size_of obj_size) \<and>
             unat i + unat (entry_size_of obj_size) \<le> unat (log_size l) \<and>
             unat obj_size + 16 \<le> unat (entry_size_of obj_size) \<and>
             nvlog_wf (nvlog_fill i clk b l') \<and>
             nvlog_entries (nvlog_fill i clk b l') = nvlog_entries l @
               [\<lparr>e_wrt_clk = clk, e_size = entry_size_of obj_size, e_type = TYPE_ACTUAL, e_body = Some b\<rparr>]"
proof -
  from assms(1) obtain k es where r: "nvlog_rep k l es" and en: "nvlog_entries l = filter is_real es"
    by (rule wf_repE)
  have ls: "unat (log_size l) = 2 ^ k" using r by (auto simp: nvlog_rep_def unat_pow2_u64)
  have s: "unat (entry_size_of obj_size) < 2 ^ k" using assms(3) ls by (simp add: word_less_nat_alt)
  show ?thesis
  proof (cases "nvlog_fits l (entry_size_of obj_size)")
    case False
    then have "fst (nvlog_enq l obj_size) = None" using enq_none_iff [OF r assms(2) s] by simp
    with False show ?thesis by (cases "nvlog_enq l obj_size") auto
  next
    case True
    then obtain i l' gs where e: "nvlog_enq l obj_size = (Some i, l')" "filter is_real gs = []"
      "nvlog_rep k l' ((es @ gs) @ [fresh_entry (entry_size_of obj_size)])"
      "i = nvlog_index l' (head_cnt l' + of_nat (total_size (es @ gs)))"
      "unat i + unat (entry_size_of obj_size) \<le> 2 ^ k"
      using enq_some_gap [OF r assms(2) s] by auto
    note f = rep_fill [OF e(3,4), of clk b]
    show ?thesis
      using e True ls en rep_wf [OF f] rep_entries [OF f] unat_entry_size(3) [OF assms(2)]
      by (simp add: fresh_entry_def)
  qed
qed

text \<open>
  C7. Enqueuing on a well-formed log, for an entry smaller than the log, returns NULL exactly when
  the live bytes, the bytes skipped at the end of the buffer and the aligned entry exceed the log
  size. Otherwise it returns the index of an entry that lies inside the buffer without wrapping,
  and once the caller has filled it the log is well formed and its queue is the old queue followed
  by the new entry: no live entry is overwritten.
\<close>

theorem nvlog_enq_appends:
  assumes "nvlog_wf l" "unat obj_size + 79 < 2 ^ 32" "ucast (entry_size_of obj_size) < log_size l"
  shows "case nvlog_enq l obj_size of
           (None, l') \<Rightarrow> \<not> nvlog_fits l (entry_size_of obj_size)
         | (Some i, l') \<Rightarrow>
             nvlog_fits l (entry_size_of obj_size) \<and>
             unat i + unat (entry_size_of obj_size) \<le> unat (log_size l) \<and>
             unat obj_size + 16 \<le> unat (entry_size_of obj_size) \<and>
             nvlog_wf (nvlog_fill i clk b l') \<and>
             nvlog_entries (nvlog_fill i clk b l') = nvlog_entries l @
               [\<lparr>e_wrt_clk = clk, e_size = entry_size_of obj_size, e_type = TYPE_ACTUAL, e_body = Some b\<rparr>]"
  using assms by (rule enq_fill_entries)

definition demo_store :: "u64 \<Rightarrow> u64 \<Rightarrow> 'e nv_mem \<Rightarrow> 'e nvlog_store" where
  "demo_store h t m =
     \<lparr>s_head_cnt = h, s_tail_cnt = t, s_buffer_raw = 0, s_buffer = 0, s_mem = m, s_log_size = 256,
      s_mask = NOT (256 - 1), s_type = TYPE_OPLOG, s_status = STATUS_NVLOG_NORMAL, s_next = None\<rparr>"

lemma demo_rep: "nvlog_rep 8 (nvlog_load (demo_store 192 192 m)) []"
  by (simp add: nvlog_rep_def nvlog_load_def demo_store_def nvlog_used_def)

theorem nvlog_enq_appends_witness:
  "case nvlog_enq (nvlog_load (demo_store 192 192 Map.empty)) 20 of
     (None, l') \<Rightarrow> False
   | (Some i, l') \<Rightarrow> nvlog_entries (nvlog_fill i 5 (7::nat) l') =
       [\<lparr>e_wrt_clk = 5, e_size = 64, e_type = TYPE_ACTUAL, e_body = Some 7\<rparr>]"
proof -
  let ?l = "nvlog_load (demo_store 192 192 (Map.empty :: nat nv_mem))"
  have e: "entry_size_of 20 = 64"
    by (simp add: entry_size_of_def sizeof_nvlog_entry_hdr_def align_uint_to_cacheline_def)
  have "nvlog_index ?l 192 = 192" by (simp add: nvlog_index_def ring_index_def nvlog_load_def demo_store_def)
  then have f: "nvlog_fits ?l 64"
    by (simp add: nvlog_fits_def nvlog_gap_def nvlog_load_def demo_store_def nvlog_used_def)
  have "log_size ?l = 256" by (simp add: nvlog_load_def demo_store_def)
  moreover have "nvlog_entries ?l = []" using rep_entries [OF demo_rep [of "Map.empty :: nat nv_mem"]] by simp
  ultimately show ?thesis
    using nvlog_enq_appends [of ?l 20 5 7] rep_wf [OF demo_rep [of "Map.empty :: nat nv_mem"]] e f
    by (auto split: prod.splits option.splits)
qed

text \<open>
  C26. Peeking and dequeuing a well-formed log behave as on a queue, bogus entries skipped: on an
  empty queue both return NULL, otherwise both return the first entry, peeking keeps the queue
  and dequeuing removes that entry; the log stays well formed.
\<close>

theorem nvlog_peek_deq_queue:
  assumes "nvlog_wf l"
  shows "case nvlog_entries l of
           [] \<Rightarrow> (\<exists>l'. nvlog_peek_head l = Some (None, l') \<and> nvlog_wf l' \<and> nvlog_entries l' = [])
         | e # es \<Rightarrow>
             (\<exists>l'. nvlog_peek_head l = Some (Some e, l') \<and> nvlog_wf l' \<and> nvlog_entries l' = e # es) \<and>
             (\<exists>l'. nvlog_deq l = Some (Some e, l') \<and> nvlog_wf l' \<and> nvlog_entries l' = es)"
  using assms nvq.peek_empty nvq.peek_cons nvq.deq_cons by (auto split: list.splits)

theorem nvlog_peek_deq_queue_witness:
  "nvlog_peek_head (nvlog_load (demo_store 192 192 (Map.empty :: nat nv_mem))) \<noteq> None"
  using nvlog_peek_deq_queue [of "nvlog_load (demo_store 192 192 (Map.empty :: nat nv_mem))"]
    rep_wf [OF demo_rep [of "Map.empty :: nat nv_mem"]] rep_entries [OF demo_rep [of "Map.empty :: nat nv_mem"]]
  by auto

section \<open>Persistence\<close>

lemma clwb_lines_map:
  "64 dvd n \<Longrightarrow> clwb_lines i (i + n) = map (\<lambda>j. Clwb_line (i + 64 * j)) [0..<n div 64]"
proof (induction n arbitrary: i rule: less_induct)
  case (less n)
  show ?case
  proof (cases "n = 0")
    case True
    then show ?thesis by (simp add: clwb_lines.simps)
  next
    case False
    with less.prems have n: "64 \<le> n" by (auto dest: dvd_imp_le)
    then have "clwb_lines i (i + n) = Clwb_line i # clwb_lines (i + 64) ((i + 64) + (n - 64))"
      by (subst clwb_lines.simps) (simp add: TS_CACHE_LINE_SIZE_def)
    also have "clwb_lines (i + 64) ((i + 64) + (n - 64)) = map (\<lambda>j. Clwb_line (i + 64 + 64 * j)) [0..<(n - 64) div 64]"
      using less n by (intro less.IH) (auto simp: dvd_diff_nat)
    also have "\<dots> = map (\<lambda>j. Clwb_line (i + 64 * j)) [1..<Suc ((n - 64) div 64)]"
      by (simp only: One_nat_def map_Suc_upt [symmetric] map_map comp_def) (simp add: algebra_simps)
    also have "Suc ((n - 64) div 64) = n div 64" using n by (simp add: le_div_geq)
    finally show ?thesis using n by (simp add: upt_conv_Cons)
  qed
qed

text \<open>The lines of \<open>a\<close> bytes of the ring, starting at index \<open>p\<close>.\<close>

definition ring_lines :: "nat \<Rightarrow> nat \<Rightarrow> nat \<Rightarrow> nat list" where
  "ring_lines N p a = map (\<lambda>j. (p + 64 * j) mod N) [0..<a div 64]"

lemma ring_lines_straight: "p + a \<le> N \<Longrightarrow> ring_lines N p a = map (\<lambda>j. p + 64 * j) [0..<a div 64]"
  unfolding ring_lines_def by (auto intro!: mod_less)

lemma ring_lines_wrap:
  assumes "p < N" "N \<le> p + a" "a < N" "64 dvd N" "64 dvd p"
  shows "ring_lines N p a = map (\<lambda>j. p + 64 * j) [0..<(N - p) div 64] @ map (\<lambda>j. 64 * j) [0..<(p + a - N) div 64]"
proof -
  let ?m = "(N - p) div 64"
  have m: "64 * ?m = N - p" using assms by simp
  have "a div 64 = ?m + (p + a - N) div 64"
  proof -
    have "64 dvd N - p" using assms(4,5) by (rule dvd_diff_nat)
    then have "((N - p) + (p + a - N)) div 64 = ?m + (p + a - N) div 64"
      by (rule div_plus_div_distrib_dvd_left)
    moreover have "a = (N - p) + (p + a - N)" using assms(1,2) by simp
    ultimately show ?thesis by simp
  qed
  then have "[0..<a div 64] = [0..<?m] @ map (\<lambda>j. j + ?m) [0..<(p + a - N) div 64]"
    using upt_add_eq_append [of 0 ?m "(p + a - N) div 64"] map_add_upt [of ?m "(p + a - N) div 64"]
    by (metis add.commute le0)
  moreover have "(p + 64 * (j + ?m)) mod N = 64 * j" if "j < (p + a - N) div 64" for j
  proof -
    have "64 * j < N" using that assms(1,3) by linarith
    moreover have "p + 64 * (j + ?m) = 64 * j + N" using m assms(1) unfolding distrib_left by linarith
    ultimately show ?thesis by (simp only: mod_add_self2) simp
  qed
  moreover have "(p + 64 * j) mod N = p + 64 * j" if "j < ?m" for j
    using that m by (intro mod_less) linarith
  ultimately show ?thesis unfolding ring_lines_def by simp
qed

definition nvlog_unpersisted :: "'e nvlog \<Rightarrow> u64" where
  "nvlog_unpersisted l = (case nvl_store l of None \<Rightarrow> 0 | Some st \<Rightarrow> tail_cnt l - s_tail_cnt st)"

text \<open>What publishing the tail does.\<close>

lemma enq_persist_eq:
  assumes "nvlog_wf l" "nvl_store l = Some st" "unat (nvlog_unpersisted l) < unat (log_size l)"
    "64 dvd unat (s_tail_cnt st)" "64 dvd unat (nvlog_unpersisted l)"
  shows "nvlog_enq_persist l =
           (if nvlog_unpersisted l = 0 then ([], l)
            else (map Clwb_line (ring_lines (unat (log_size l)) (unat (nvlog_index l (s_tail_cnt st)))
                                   (unat (nvlog_unpersisted l)))
                    @ [Wmb, Store_tail (tail_cnt l), Clwb_tail],
                  l\<lparr>nvl_store := Some (st\<lparr>s_tail_cnt := tail_cnt l\<rparr>)\<rparr>))"
proof -
  from assms(1) obtain k es where r: "nvlog_rep k l es" by (rule wf_repE)
  then have k: "6 \<le> k" "k < 32" and m: "nvl_mask l = ring_mask (2 ^ k)" and ls: "unat (log_size l) = 2 ^ k"
    by (auto simp: nvlog_rep_def unat_pow2_u64)
  define a p v where "a = unat (nvlog_unpersisted l)" and "p = unat (nvlog_index l (s_tail_cnt st))"
    and "v = unat (nvlog_index l (tail_cnt l))"
  have a: "a < 2 ^ k" using assms(3) by (simp add: a_def ls)
  have p: "p < 2 ^ k" by (simp add: p_def rep_index [OF r])
  have "tail_cnt l = s_tail_cnt st + of_nat a" using assms(2) by (simp add: a_def nvlog_unpersisted_def)
  then have v: "v = (p + a) mod 2 ^ k"
    unfolding v_def p_def nvlog_index_def m
    by (simp only: unat_ring_index_of_nat [OF k(2)] unat_ring_index [OF k(2), of "s_tail_cnt st"] mod_add_left_eq)
  have N: "(64::nat) dvd 2 ^ k" using le_imp_power_dvd [OF k(1), of "2::nat"] by simp
  have pal: "64 dvd p" using assms(4) N by (simp add: p_def rep_index [OF r] dvd_mod_iff)
  have aal: "64 dvd a" using assms(5) by (simp add: a_def)
  show ?thesis
  proof (cases "a = 0")
    case True
    with v p assms(2) show ?thesis
      by (auto simp: nvlog_enq_persist_def a_def v_def p_def unat_eq_0)
  next
    case False
    have ne: "nvlog_unpersisted l \<noteq> 0" using False by (auto simp: a_def)
    show ?thesis
    proof (cases "p + a < 2 ^ k")
      case True
      then have "v = p + a" using v by simp
      then have "p < v" and "clwb_lines p v = map (\<lambda>j. Clwb_line (p + 64 * j)) [0..<a div 64]"
        using False clwb_lines_map [OF aal] by auto
      then show ?thesis
        using True assms(2) ne ring_lines_straight [of p a "2 ^ k"]
        unfolding nvlog_enq_persist_def a_def [symmetric] p_def [symmetric] v_def [symmetric] ls
        by (simp add: v_def [symmetric] p_def [symmetric] comp_def)
    next
      case wrap: False
      then have vp: "v = p + a - 2 ^ k" using v a p by (simp add: mod_if)
      then have "v < p" using wrap a p by linarith
      moreover have "64 dvd v" unfolding vp using pal aal N wrap by (intro dvd_diff_nat dvd_add)
      moreover have "64 dvd 2 ^ k - p" using pal N by (intro dvd_diff_nat)
      ultimately show ?thesis
        using wrap assms(2) ne ring_lines_wrap [of p "2 ^ k" a] a p N pal
          clwb_lines_map [of v 0] clwb_lines_map [of "2 ^ k - p" p] vp
        unfolding nvlog_enq_persist_def a_def [symmetric] p_def [symmetric] v_def [symmetric] ls
        by (simp add: v_def [symmetric] p_def [symmetric] comp_def ls)
    qed
  qed
qed

text \<open>
  C10. Publishing the tail of a log: as long as less than a whole log was enqueued since the last
  time, \<open>nvlog_enq_persist\<close> writes back exactly the cache lines between the persisted and the
  volatile tail, around the end of the buffer if need be, then fences, and only then stores the
  new tail in the log store and writes that line back. With nothing enqueued it does nothing.
\<close>

theorem nvlog_enq_persist_flushes:
  assumes "nvlog_wf l" "nvl_store l = Some st" "unat (nvlog_unpersisted l) < unat (log_size l)"
    "64 dvd unat (s_tail_cnt st)" "64 dvd unat (nvlog_unpersisted l)"
  shows "nvlog_enq_persist l =
           (if nvlog_unpersisted l = 0 then ([], l)
            else (map Clwb_line (ring_lines (unat (log_size l)) (unat (nvlog_index l (s_tail_cnt st)))
                                   (unat (nvlog_unpersisted l)))
                    @ [Wmb, Store_tail (tail_cnt l), Clwb_tail],
                  l\<lparr>nvl_store := Some (st\<lparr>s_tail_cnt := tail_cnt l\<rparr>)\<rparr>))"
  using assms by (rule enq_persist_eq)

definition demo_log :: "nat nvlog" where
  "demo_log =
     (let m = [192 \<mapsto> bogus_entry 64, 0 \<mapsto> fresh_entry 64]
      in (nvlog_load (demo_store 192 192 m))\<lparr>tail_cnt := 320\<rparr>)"

lemma demo_log_fields:
  "head_cnt demo_log = 192" "tail_cnt demo_log = 320" "log_size demo_log = 256"
  "nvl_mask demo_log = NOT 255"
  "nvl_store demo_log = Some (demo_store 192 192 [192 \<mapsto> bogus_entry 64, 0 \<mapsto> fresh_entry 64])"
  "nvlog_mem demo_log = [192 \<mapsto> bogus_entry 64, 0 \<mapsto> fresh_entry 64]"
  by (simp_all add: demo_log_def nvlog_load_def demo_store_def nvlog_mem_def Let_def)

lemma demo_log_rep: "nvlog_rep 8 demo_log [bogus_entry 64, fresh_entry 64]"
  by (simp add: nvlog_rep_def demo_log_fields nvlog_used_def ring_index_def bogus_entry_def fresh_entry_def)

lemma demo_log_unpersisted: "nvlog_unpersisted demo_log = 128"
  by (simp add: nvlog_unpersisted_def demo_log_fields) (simp add: demo_store_def)

theorem nvlog_enq_persist_flushes_witness:
  "nvlog_enq_persist demo_log =
     (map Clwb_line [192, 0] @ [Wmb, Store_tail 320, Clwb_tail],
      demo_log\<lparr>nvl_store := Some (demo_store 192 320 [192 \<mapsto> bogus_entry 64, 0 \<mapsto> fresh_entry 64])\<rparr>)"
proof -
  let ?st = "demo_store 192 192 [192 \<mapsto> bogus_entry 64, 0 \<mapsto> fresh_entry 64] :: nat nvlog_store"
  have i: "nvlog_index demo_log (s_tail_cnt ?st) = 192"
    by (simp add: nvlog_index_def demo_log_fields ring_index_def demo_store_def)
  have r: "ring_lines 256 192 128 = [192, 0]" by (simp add: ring_lines_def upt_rec)
  have st: "?st\<lparr>s_tail_cnt := 320\<rparr> = demo_store 192 320 [192 \<mapsto> bogus_entry 64, 0 \<mapsto> fresh_entry 64]"
    by (simp add: demo_store_def)
  have "64 dvd unat (s_tail_cnt ?st)" by (simp add: demo_store_def)
  then show ?thesis
    using nvlog_enq_persist_flushes [OF rep_wf [OF demo_log_rep] demo_log_fields(5)] i r st
    by (simp add: demo_log_unpersisted demo_log_fields)
qed

text \<open>The queue a store holds after it was persisted.\<close>

lemma persist_loads:
  assumes "nvlog_wf l" "nvl_store l = Some st" "unat (nvlog_unpersisted l) < unat (log_size l)"
    "s_log_size st = log_size l" "s_mask st = nvl_mask l"
  shows "\<exists>st'. nvl_store (snd (nvlog_deq_persist (snd (nvlog_enq_persist l)))) = Some st' \<and>
           nvlog_wf (nvlog_load st') \<and> nvlog_entries (nvlog_load st') = nvlog_entries l"
proof -
  from assms(1) obtain k es where r: "nvlog_rep k l es" and en: "nvlog_entries l = filter is_real es"
    by (rule wf_repE)
  let ?st = "st\<lparr>s_tail_cnt := tail_cnt l, s_head_cnt := head_cnt l\<rparr>"
  have k: "k < 32" and m: "nvl_mask l = ring_mask (2 ^ k)" and ls: "unat (log_size l) = 2 ^ k"
    using r by (auto simp: nvlog_rep_def unat_pow2_u64)
  have same: "s_tail_cnt st = tail_cnt l" if "nvlog_index l (s_tail_cnt st) = nvlog_index l (tail_cnt l)"
  proof -
    define a where "a = unat (nvlog_unpersisted l)"
    have t: "tail_cnt l = s_tail_cnt st + of_nat a" using assms(2) by (simp add: a_def nvlog_unpersisted_def)
    have "unat (s_tail_cnt st) mod 2 ^ k = (unat (s_tail_cnt st) + a) mod 2 ^ k"
      using arg_cong [OF that, of unat] unfolding nvlog_index_def m t
      by (simp only: unat_ring_index_of_nat [OF k] unat_ring_index [OF k, of "s_tail_cnt st"])
    then have "2 ^ k dvd a" using mod_eq_dvd_iff_nat [of "unat (s_tail_cnt st)" "unat (s_tail_cnt st) + a" "2 ^ k"] by simp
    then have "a = 0" using assms(3) dvd_imp_le [of "2 ^ k" a] by (auto simp: a_def ls)
    with t show ?thesis by simp
  qed
  have "nvl_store (snd (nvlog_deq_persist (snd (nvlog_enq_persist l)))) = Some ?st"
  proof (cases "nvlog_index l (s_tail_cnt st) = nvlog_index l (tail_cnt l)")
    case True
    then show ?thesis using assms(2) same [OF True]
      by (cases st) (auto simp: nvlog_deq_persist_def nvlog_enq_persist_def Let_def)
  next
    case False
    then have "unat (nvlog_index l (s_tail_cnt st)) \<noteq> unat (nvlog_index l (tail_cnt l))"
      by (simp add: word_unat_eq_iff)
    then show ?thesis using assms(2)
      by (cases st) (auto simp: nvlog_deq_persist_def nvlog_enq_persist_def Let_def)
  qed
  moreover have "nvlog_rep k (nvlog_load ?st) es"
    using r assms by (simp add: nvlog_rep_def nvlog_load_def nvlog_mem_def nvlog_used_def)
  ultimately show ?thesis using rep_wf rep_entries en by metis
qed

text \<open>
  What a restart finds: loading the control structure of a log from its store, after both the
  tail and the head were persisted, gives a well-formed log with the very queue the log had.
\<close>

theorem nvlog_load_after_persist:
  assumes "nvlog_wf l" "nvl_store l = Some st" "unat (nvlog_unpersisted l) < unat (log_size l)"
    "s_log_size st = log_size l" "s_mask st = nvl_mask l"
  shows "\<exists>st'. nvl_store (snd (nvlog_deq_persist (snd (nvlog_enq_persist l)))) = Some st' \<and>
           nvlog_wf (nvlog_load st') \<and> nvlog_entries (nvlog_load st') = nvlog_entries l"
  using assms by (rule persist_loads)

theorem nvlog_load_after_persist_witness:
  "\<exists>st'. nvl_store (snd (nvlog_deq_persist (snd (nvlog_enq_persist demo_log)))) = Some st' \<and>
    nvlog_wf (nvlog_load st') \<and> nvlog_entries (nvlog_load st') = [fresh_entry 64]"
proof -
  have "nvlog_entries demo_log = [fresh_entry 64]"
    using rep_entries [OF demo_log_rep] by (simp add: bogus_entry_def fresh_entry_def)
  moreover have "s_log_size (demo_store h t m) = 256" "s_mask (demo_store h t m) = NOT 255" for h t and m :: "nat nv_mem"
    by (simp_all add: demo_store_def)
  ultimately show ?thesis
    using nvlog_load_after_persist [OF rep_wf [OF demo_log_rep] demo_log_fields(5)]
    by (simp add: demo_log_unpersisted demo_log_fields)
qed

end
