(* ===== verification/NvStore.thy ===== *)
theory NvStore
  imports NvLogRing
begin

text \<open>
  The NVM heap as the logs see it: the root object with its list of log stores
  (\<open>src/lib/nvlog.c\<close>, \<open>src/lib/nvm.c\<close>, \<open>src/lib/nvm.h\<close>), modelled for the builds on real NVM
  (\<open>TS_NVM_IS_DRAM\<close> not set). A store is named by its address; the mutex of the list is a flag,
  and locking it while it is held blocks forever, which is the result \<open>None\<close>. The results of
  the NVM allocator are arguments: the address of the store, and the address of the buffer with
  the bytes it holds when it is handed out.
\<close>

section \<open>The root object\<close>

record 'e nvm_root =
  r_magic :: u64
  r_gen_id :: u64
  r_next :: "nat option"
  r_last_ckpt_clk :: u64
  r_stores :: "nat \<rightharpoonup> 'e nvlog_store"
  r_locked :: bool

definition NVPOOL_MAGIC :: u64 where "NVPOOL_MAGIC = 0x6E6F7453656D6954"

definition flush_to_nvm :: "nat \<Rightarrow> u32 \<Rightarrow> nvm_event list" where
  "flush_to_nvm dst sz = map (\<lambda>e. case e of Clwb_line i \<Rightarrow> Clwb_line (dst + i) | _ \<Rightarrow> e) (clwb_lines 0 (unat sz))"

text \<open>\<open>nvlog_init\<close> keeps the root object for the log operations.\<close>

definition nvlog_init :: "'e nvm_root \<Rightarrow> errno option \<times> 'e nvm_root" where
  "nvlog_init root = (None, root)"

definition nvlog_set_last_ckpt_clk :: "'e nvm_root \<Rightarrow> u64 \<Rightarrow> 'e nvm_root" where
  "nvlog_set_last_ckpt_clk root last_ckpt_clk =
     (if r_last_ckpt_clk root \<noteq> last_ckpt_clk then root\<lparr>r_last_ckpt_clk := last_ckpt_clk\<rparr> else root)"

definition nvlog_get_last_ckpt_clk :: "'e nvm_root \<Rightarrow> u64" where
  "nvlog_get_last_ckpt_clk root = r_last_ckpt_clk root"

definition nvm_get_gen_id :: "'e nvm_root \<Rightarrow> u64" where
  "nvm_get_gen_id root = r_gen_id root"

text \<open>
  \<open>nvm_init_heap\<close>; \<open>loaded\<close> is the result of \<open>nvm_load_heap\<close> with its flag \<open>is_created\<close>, and
  \<open>need_recovery0\<close> is what the local variable \<open>need_recovery\<close> holds before it is first assigned.
\<close>

definition nvm_init_heap ::
  "('e nvm_root \<times> bool) option \<Rightarrow> bool \<Rightarrow> ('e nvm_root \<times> bool) option" where
  "nvm_init_heap loaded need_recovery0 =
     (case loaded of
        None \<Rightarrow> None
      | Some (root, is_created) \<Rightarrow>
          let (root, need_recovery) =
                (if r_magic root \<noteq> NVPOOL_MAGIC
                 then (root\<lparr>r_next := None, r_last_ckpt_clk := MIN_VERSION, r_magic := NVPOOL_MAGIC\<rparr>, True)
                 else (root, need_recovery0));
              need_recovery = (if \<not> need_recovery \<and> r_next root \<noteq> None then True else need_recovery);
              need_recovery = (if is_created then False else need_recovery)
          in Some (root\<lparr>r_gen_id := r_gen_id root + 1\<rparr>, need_recovery))"

section \<open>The list of stores\<close>

text \<open>The loop that looks for a store and its predecessor.\<close>

partial_function (option) store_search ::
  "(nat \<rightharpoonup> 'e nvlog_store) \<Rightarrow> nat \<Rightarrow> nat option \<Rightarrow> nat option \<Rightarrow> (nat option \<times> nat option) option" where
  "store_search sts target temp current =
     (case current of
        None \<Rightarrow> Some (temp, None)
      | Some c \<Rightarrow>
          if c = target then Some (temp, Some c)
          else do { st \<leftarrow> sts c; store_search sts target (Some c) (s_next st) })"

definition set_next :: "nat option \<Rightarrow> 'e nvlog_store \<Rightarrow> 'e nvlog_store" where
  "set_next n st = st\<lparr>s_next := n\<rparr>"

definition nvlog_store_destroy :: "'e nvm_root \<Rightarrow> nat option \<Rightarrow> 'e nvm_root option" where
  "nvlog_store_destroy root nvlog_store =
     (case nvlog_store of
        None \<Rightarrow> Some root
      | Some p \<Rightarrow>
          if r_locked root then None
          else
            (case r_next root of
               None \<Rightarrow> Some root
             | Some c \<Rightarrow>
                 if c = p then do {
                   st \<leftarrow> r_stores root c;
                   Some (root\<lparr>r_next := s_next st, r_stores := (r_stores root)(c := None)\<rparr>) }
                 else do {
                   (temp, current) \<leftarrow> store_search (r_stores root) p None (Some c);
                   (case current of
                      None \<Rightarrow> Some root
                    | Some c \<Rightarrow> do {
                        st \<leftarrow> r_stores root c;
                        t \<leftarrow> temp;
                        Some (root\<lparr>r_stores :=
                          (r_stores root)(t := map_option (set_next (s_next st)) (r_stores root t), c := None)\<rparr>) }) }))"

definition raw_store :: "nat option \<Rightarrow> 'e nvlog_store" where
  "raw_store n =
     \<lparr>s_head_cnt = 0, s_tail_cnt = 0, s_buffer_raw = 0, s_buffer = 0, s_mem = Map.empty, s_log_size = 0,
      s_mask = 0, s_type = TYPE_NVLOG, s_status = STATUS_NVLOG_NORMAL, s_next = n\<rparr>"

text \<open>\<open>is_power_of_2\<close> takes an unsigned int, so the size is truncated for the test.\<close>

definition nvlog_store_create ::
  "'e nvm_root \<Rightarrow> nat option \<Rightarrow> (u64 \<times> 'e nv_mem) option \<Rightarrow> u64 \<Rightarrow> log_type \<Rightarrow> nvlog_status \<Rightarrow>
   (nat option \<times> 'e nvm_root) option" where
  "nvlog_store_create root a1 a2 sz type status =
     (if \<not> is_power_of_2 (ucast sz) then do { root \<leftarrow> nvlog_store_destroy root None; Some (None, root) }
      else if r_locked root then None
      else
        let root = root\<lparr>r_locked := True\<rparr>
        in case a1 of
             None \<Rightarrow> do { root \<leftarrow> nvlog_store_destroy root None; Some (None, root) }
           | Some p \<Rightarrow>
               let st = raw_store (r_next root);
                   root = root\<lparr>r_next := Some p, r_stores := (r_stores root)(p \<mapsto> st)\<rparr>
               in case a2 of
                    None \<Rightarrow> do { root \<leftarrow> nvlog_store_destroy root (Some p); Some (None, root) }
                  | Some (buffer, m) \<Rightarrow>
                      let st = st\<lparr>s_buffer_raw := buffer, s_buffer := align_ptr_to_cacheline buffer, s_mem := m,
                                 s_head_cnt := 0, s_tail_cnt := 0, s_type := type, s_status := status,
                                 s_log_size := sz, s_mask := NOT (sz - 1)\<rparr>
                      in Some (Some p, root\<lparr>r_stores := (r_stores root)(p \<mapsto> st), r_locked := False\<rparr>))"

definition nvlog_create ::
  "'e nvm_root \<Rightarrow> nat option \<Rightarrow> (u64 \<times> 'e nv_mem) option \<Rightarrow> u64 \<Rightarrow> log_type \<Rightarrow> nvlog_status \<Rightarrow>
   (errno option \<times> (nat \<times> 'e nvlog) option \<times> 'e nvm_root) option" where
  "nvlog_create root a1 a2 sz type status = do {
     (p, root) \<leftarrow> nvlog_store_create root a1 a2 sz type status;
     (case p of
        None \<Rightarrow> Some (Some ENOMEM, None, root)
      | Some p \<Rightarrow> do { st \<leftarrow> r_stores root p; Some (None, Some (p, nvlog_load st), root) }) }"

text \<open>\<open>nvlog_destroy\<close>: the store of the log, if it has one, is removed, and the log forgets it.\<close>

definition nvlog_destroy :: "'e nvm_root \<Rightarrow> (nat option \<times> 'e nvlog) \<Rightarrow> ('e nvm_root \<times> nat option \<times> 'e nvlog) option" where
  "nvlog_destroy root l =
     (case fst l of
        None \<Rightarrow> Some (root, l)
      | Some p \<Rightarrow> do {
          root \<leftarrow> nvlog_store_destroy root (Some p);
          Some (root, None, (snd l)\<lparr>nvl_store := None\<rparr>) })"

section \<open>The list as a sequence\<close>

lemma is_power_of_2_pow:
  assumes "k < 32"
  shows "is_power_of_2 (2 ^ k)"
proof -
  have "(2 ^ k :: u32) AND (2 ^ k - 1) = 2 ^ k AND mask k" by (simp add: mask_eq_exp_minus_1)
  also have "\<dots> = 0" by (rule bit_word_eqI) (auto simp: bit_simps)
  finally show ?thesis using assms by (simp add: is_power_of_2_def)
qed

fun store_list :: "(nat \<rightharpoonup> 'e nvlog_store) \<Rightarrow> nat option \<Rightarrow> nat list \<Rightarrow> bool" where
  "store_list sts n [] \<longleftrightarrow> n = None"
| "store_list sts n (p # ps) \<longleftrightarrow>
     n = Some p \<and> (case sts p of None \<Rightarrow> False | Some st \<Rightarrow> store_list sts (s_next st) ps)"

lemma store_list_cong:
  "store_list sts n ps \<Longrightarrow> \<forall>p\<in>set ps. sts' p = sts p \<Longrightarrow> store_list sts' n ps"
  by (induction ps arbitrary: n) (auto split: option.splits)

lemma store_list_append:
  "store_list sts n (xs @ p # ps) \<Longrightarrow> \<exists>st. sts p = Some st \<and> store_list sts (s_next st) ps"
  by (induction xs arbitrary: n) (auto split: option.splits)

lemma store_search_finds:
  "store_list sts n (xs @ p # ps) \<Longrightarrow> p \<notin> set xs \<Longrightarrow>
   store_search sts p temp n = Some (if xs = [] then temp else Some (last xs), Some p)"
proof (induction xs arbitrary: n temp)
  case Nil
  then show ?case by (subst store_search.simps) simp
next
  case (Cons x xs)
  then obtain st where "n = Some x" "sts x = Some st" "store_list sts (s_next st) (xs @ p # ps)"
    by (auto split: option.splits)
  with Cons show ?case by (subst store_search.simps) auto
qed

lemma store_search_misses:
  "store_list sts n ps \<Longrightarrow> p \<notin> set ps \<Longrightarrow> \<exists>t. store_search sts p temp n = Some (t, None)"
proof (induction ps arbitrary: n temp)
  case Nil
  then show ?case by (subst store_search.simps) simp
next
  case (Cons x xs)
  then obtain st where "n = Some x" "sts x = Some st" "store_list sts (s_next st) xs"
    by (auto split: option.splits)
  with Cons show ?case by (subst store_search.simps) auto
qed

text \<open>Cutting a store out of the list by rewriting its predecessor.\<close>

lemma store_list_cut:
  assumes "store_list sts n (xs @ t # p # ps)" "distinct (xs @ t # p # ps)" "sts p = Some st"
  shows "store_list (sts(t := map_option (set_next (s_next st)) (sts t), p := None)) n (xs @ t # ps)"
  using assms
proof (induction xs arbitrary: n)
  case Nil
  then show ?case
    by (auto simp: set_next_def split: option.splits intro!: store_list_cong [of sts "s_next st" ps])
next
  case (Cons x xs)
  then show ?case by (auto split: option.splits)
qed

lemma store_list_cases:
  assumes "p \<in> set ps" "distinct ps"
  obtains qs where "ps = p # qs" "remove1 p ps = qs"
  | xs t qs where "ps = xs @ t # p # qs" "remove1 p ps = xs @ t # qs" "p \<notin> set (xs @ [t])"
proof -
  obtain ys qs where ps: "ps = ys @ p # qs" "p \<notin> set ys" using split_list_first [OF assms(1)] by blast
  show thesis
  proof (cases ys rule: rev_cases)
    case Nil
    with ps show thesis using that(1) by simp
  next
    case (snoc xs t)
    with ps show thesis using that(2) [of xs t qs] by (simp add: remove1_append)
  qed
qed

text \<open>
  Destroying a log removes exactly its store from the list of logs that recovery walks: from
  a well-formed list with the store on it, \<open>_nvlog_store_destroy\<close> returns with the list of the
  other stores in their order, their contents untouched apart from the link, the store freed and
  the mutex released.
\<close>

theorem nvlog_store_destroy_removes:
  assumes "store_list (r_stores root) (r_next root) ps" "distinct ps" "p \<in> set ps" "\<not> r_locked root"
  shows "\<exists>root'. nvlog_store_destroy root (Some p) = Some root' \<and> \<not> r_locked root' \<and>
           store_list (r_stores root') (r_next root') (remove1 p ps) \<and> r_stores root' p = None \<and>
           (\<forall>q. q \<noteq> p \<longrightarrow> map_option (set_next None) (r_stores root' q) = map_option (set_next None) (r_stores root q))"
  using assms(3,2)
proof (cases rule: store_list_cases)
  case (1 qs)
  with assms show ?thesis
    by (auto simp: nvlog_store_destroy_def split: option.splits intro: store_list_cong)
next
  case (2 xs t qs)
  note sl = assms(1) [unfolded 2(1)]
  obtain st where st: "r_stores root p = Some st" using store_list_append [of _ _ "xs @ [t]"] sl by fastforce
  obtain tst where tst: "r_stores root t = Some tst" using store_list_append [OF sl] by blast
  obtain c where c: "r_next root = Some c" "c \<noteq> p" using sl 2(3) by (cases xs) auto
  have s: "store_search (r_stores root) p None (Some c) = Some (Some t, Some p)"
    using store_search_finds [of "r_stores root" "r_next root" "xs @ [t]" p qs] sl 2(3) c by simp
  have "t \<noteq> p" using 2(3) by auto
  then show ?thesis
    using s c st tst assms(4) store_list_cut [OF sl _ st] assms(2) 2
    by (auto simp: nvlog_store_destroy_def set_next_def)
qed

lemma nvlog_create_fresh:
  assumes "store_list (r_stores root) (r_next root) ps" "p \<notin> set ps" "\<not> r_locked root" "6 \<le> k" "k < 32"
  shows "\<exists>l root'. nvlog_create root (Some p) (Some (b, m)) (2 ^ k) type status = Some (None, Some (p, l), root') \<and>
           store_list (r_stores root') (r_next root') (p # ps) \<and> \<not> r_locked root' \<and>
           nvlog_wf l \<and> nvlog_entries l = [] \<and> log_size l = 2 ^ k"
proof -
  have "ucast (2 ^ k :: u64) = (2 ^ k :: u32)"
    using assms(5) by (simp add: word_unat_eq_iff unsigned_ucast_eq unat_pow2_u32 unat_pow2_u64 take_bit_nat_eq_self_iff take_bit_nat_eq_self)
  moreover have "is_power_of_2 (2 ^ k :: u32)" using assms(5) by (rule is_power_of_2_pow)
  ultimately have pw: "is_power_of_2 (ucast (2 ^ k :: u64))" by simp
  let ?st = "(raw_store (r_next root))\<lparr>s_buffer_raw := b, s_buffer := align_ptr_to_cacheline b, s_mem := m,
               s_head_cnt := 0, s_tail_cnt := 0, s_type := type, s_status := status,
               s_log_size := 2 ^ k, s_mask := NOT (2 ^ k - 1)\<rparr>"
  have "nvlog_rep k (nvlog_load ?st) []"
    using assms by (simp add: nvlog_rep_def nvlog_load_def nvlog_used_def raw_store_def)
  then have "nvlog_wf (nvlog_load ?st)" "nvlog_entries (nvlog_load ?st) = []"
    by (auto intro: rep_wf simp: rep_entries)
  moreover have "store_list ((r_stores root)(p \<mapsto> ?st)) (Some p) (p # ps)"
    using assms by (auto simp: raw_store_def intro: store_list_cong)
  ultimately show ?thesis
    using assms pw by (simp add: nvlog_create_def nvlog_store_create_def Let_def) (simp add: nvlog_load_def)
qed

text \<open>
  Creating a log: with a power-of-two size and both allocations succeeding, the new store is
  at the head of the list, in front of the stores that were there, the mutex is released, and
  the control structure loaded from it is a well-formed empty queue.
\<close>

theorem nvlog_create_empty:
  assumes "store_list (r_stores root) (r_next root) ps" "p \<notin> set ps" "\<not> r_locked root" "6 \<le> k" "k < 32"
  shows "\<exists>l root'. nvlog_create root (Some p) (Some (b, m)) (2 ^ k) type status = Some (None, Some (p, l), root') \<and>
           store_list (r_stores root') (r_next root') (p # ps) \<and> \<not> r_locked root' \<and>
           nvlog_wf l \<and> nvlog_entries l = [] \<and> log_size l = 2 ^ k"
  using assms by (rule nvlog_create_fresh)

definition demo_root :: "'e nvm_root" where
  "demo_root =
     \<lparr>r_magic = NVPOOL_MAGIC, r_gen_id = 1, r_next = Some 1, r_last_ckpt_clk = 0,
      r_stores = [1 \<mapsto> raw_store (Some 2), 2 \<mapsto> raw_store (Some 3), 3 \<mapsto> raw_store None],
      r_locked = False\<rparr>"

theorem nvlog_store_destroy_removes_witness:
  "\<exists>root'. nvlog_store_destroy (demo_root :: unit nvm_root) (Some 2) = Some root' \<and> \<not> r_locked root' \<and>
     store_list (r_stores root') (r_next root') [1, 3]"
  using nvlog_store_destroy_removes [of "demo_root :: unit nvm_root" "[1, 2, 3]" 2]
  by (auto simp: demo_root_def raw_store_def)

theorem nvlog_create_empty_witness:
  "\<exists>l root'. nvlog_create (demo_root :: unit nvm_root) (Some 7) (Some (100, Map.empty)) 1048576 TYPE_OPLOG STATUS_NVLOG_NORMAL
       = Some (None, Some (7, l), root') \<and> store_list (r_stores root') (r_next root') [7, 1, 2, 3]"
  using nvlog_create_empty [of "demo_root :: unit nvm_root" "[1, 2, 3]" 7 20 100 Map.empty TYPE_OPLOG STATUS_NVLOG_NORMAL]
  by (auto simp: demo_root_def raw_store_def)

text \<open>
  C36. Creating a log when the NVM allocator fails does not keep its contract of returning NULL.
  When the store cannot be allocated, the caller gets ENOMEM but the list mutex stays held, and
  every later creation with a valid size blocks; when the buffer cannot be allocated, the error
  path locks the mutex it already holds and never returns.
\<close>

theorem nvlog_create_error_blocks:
  assumes "\<not> r_locked root" "is_power_of_2 (ucast sz)" "is_power_of_2 (ucast sz')"
  shows "\<exists>root'. nvlog_create root None a2 sz type status = Some (Some ENOMEM, None, root') \<and>
           (\<forall>a1 a2 type status. nvlog_create root' a1 a2 sz' type status = None) \<and>
           (\<forall>p. nvlog_create root (Some p) None sz type status = None)"
  using assms by (simp add: nvlog_create_def nvlog_store_create_def nvlog_store_destroy_def Let_def)

theorem nvlog_create_error_blocks_witness:
  "\<exists>root'. nvlog_create (demo_root :: unit nvm_root) None None 64 TYPE_OPLOG STATUS_NVLOG_NORMAL
       = Some (Some ENOMEM, None, root') \<and>
     nvlog_create root' (Some 1) (Some (0, Map.empty)) 128 TYPE_CKPTLOG STATUS_NVLOG_NORMAL = None"
  using nvlog_create_error_blocks [of "demo_root :: unit nvm_root" 64 128 None TYPE_OPLOG STATUS_NVLOG_NORMAL]
    is_power_of_2_pow [of 6] is_power_of_2_pow [of 7]
  by (auto simp: demo_root_def)

end
