(* ===== verification/PtrSet.thy ===== *)
theory PtrSet
  imports Prelude
begin

text \<open>
  The growable pointer arrays of \<open>src/lib/util.h\<close> (\<open>ts_ptr_set_t\<close>), which hold the
  objects a transaction frees, the volatile headers a checkpoint log frees, the read set and
  the thread pool of the recovery. Memory that \<open>malloc\<close> or \<open>realloc\<close> returns is an
  argument: \<open>None\<close> is a failed allocation, \<open>Some a\<close> the (uninitialised) slots. An operation
  is \<open>None\<close> where it would read or write outside the array.
\<close>

record ptr_set =
  num_ptrs :: u32
  num_max_ptrs :: u32
  ptrs :: "ptr list option"

definition ptrset_init :: "ptr list option \<Rightarrow> ptr_set \<Rightarrow> errno option \<times> ptr_set" where
  "ptrset_init mem ps =
     (let ps = ps\<lparr>num_ptrs := 0, num_max_ptrs := TS_INIT_PTR_SET_SIZE, ptrs := mem\<rparr>
      in if ptrs ps = None then (Some ENOMEM, ps) else (None, ps))"

definition ptrset_deinit :: "ptr_set \<Rightarrow> ptr_set" where
  "ptrset_deinit ps = (if ptrs ps \<noteq> None then ps\<lparr>ptrs := None\<rparr> else ps)"

text \<open>\<open>realloc\<close> keeps the old slots; the argument holds the ones it adds.\<close>

definition ptrset_expand :: "ptr list option \<Rightarrow> ptr_set \<Rightarrow> errno option \<times> ptr_set" where
  "ptrset_expand mem ps =
     (let new_num = num_max_ptrs ps + TS_INIT_PTR_SET_SIZE
      in case mem of
           None \<Rightarrow> (Some ENOMEM, ps)
         | Some junk \<Rightarrow>
             (None, ps\<lparr>num_max_ptrs := new_num,
                       ptrs := Some ((case ptrs ps of None \<Rightarrow> [] | Some a \<Rightarrow> a) @ junk)\<rparr>))"

function ptrset_scan :: "ptr list \<Rightarrow> nat \<Rightarrow> nat \<Rightarrow> ptr \<Rightarrow> bool option" where
  "ptrset_scan a i n p =
     (if i < n then
        (if i < length a then (if a ! i = p then Some True else ptrset_scan a (Suc i) n p)
         else None)
      else Some False)"
  by pat_completeness auto
termination
  by (relation "measure (\<lambda>(a, i, n, p). n - i)") auto

declare ptrset_scan.simps [simp del]

definition ptrset_is_member :: "ptr_set \<Rightarrow> ptr \<Rightarrow> bool option" where
  "ptrset_is_member ps p_act =
     (case ptrs ps of
        None \<Rightarrow> (if num_ptrs ps = 0 then Some False else None)
      | Some a \<Rightarrow> ptrset_scan a 0 (unat (num_ptrs ps)) p_act)"

definition ptrset_reset :: "ptr_set \<Rightarrow> ptr_set" where
  "ptrset_reset ps = ps\<lparr>num_ptrs := 0\<rparr>"

definition ptrset_store :: "ptr_set \<Rightarrow> ptr \<Rightarrow> ptr_set option" where
  "ptrset_store ps p =
     (case ptrs ps of
        None \<Rightarrow> None
      | Some a \<Rightarrow>
          if unat (num_ptrs ps) < length a
          then Some (ps\<lparr>ptrs := Some (a[unat (num_ptrs ps) := p]), num_ptrs := num_ptrs ps + 1\<rparr>)
          else None)"

definition ptrset_push :: "ptr list option \<Rightarrow> ptr_set \<Rightarrow> ptr \<Rightarrow> (errno option \<times> ptr_set) option" where
  "ptrset_push mem ps p =
     (if num_ptrs ps \<ge> num_max_ptrs ps then
        (case ptrset_expand mem ps of
           (Some e, ps) \<Rightarrow> Some (Some e, ps)
         | (None, ps) \<Rightarrow> map_option (Pair None) (ptrset_store ps p))
      else map_option (Pair None) (ptrset_store ps p))"

text \<open>\<open>return ptrset->ptrs[ptrset->num_ptrs--]\<close>: the index is the old count.\<close>

definition ptrset_pop :: "ptr_set \<Rightarrow> (ptr \<times> ptr_set) option" where
  "ptrset_pop ps =
     (if num_ptrs ps > 0 then
        (case ptrs ps of
           None \<Rightarrow> None
         | Some a \<Rightarrow>
             if unat (num_ptrs ps) < length a
             then Some (a ! unat (num_ptrs ps), ps\<lparr>num_ptrs := num_ptrs ps - 1\<rparr>)
             else None)
      else Some (Null, ps))"

section \<open>Well-formed sets and their contents\<close>

definition ptrset_wf :: "ptr_set \<Rightarrow> bool" where
  "ptrset_wf ps \<longleftrightarrow>
     (case ptrs ps of
        None \<Rightarrow> False
      | Some a \<Rightarrow> length a = unat (num_max_ptrs ps) \<and> num_ptrs ps \<le> num_max_ptrs ps)"

definition ptrset_list :: "ptr_set \<Rightarrow> ptr list" where
  "ptrset_list ps = (case ptrs ps of None \<Rightarrow> [] | Some a \<Rightarrow> take (unat (num_ptrs ps)) a)"

lemma ptrset_wfE:
  assumes "ptrset_wf ps"
  obtains a where "ptrs ps = Some a" "length a = unat (num_max_ptrs ps)"
    "unat (num_ptrs ps) \<le> unat (num_max_ptrs ps)"
  using assms by (auto simp: ptrset_wf_def word_le_nat_alt split: option.splits)

lemma unat_init_size [simp]: "unat TS_INIT_PTR_SET_SIZE = 512"
  by (simp add: TS_INIT_PTR_SET_SIZE_def)

lemma ptrset_init_wf:
  "length a = 512 \<Longrightarrow> ptrset_init (Some a) ps = (None, ps') \<Longrightarrow> ptrset_wf ps' \<and> ptrset_list ps' = []"
  by (auto simp: ptrset_init_def ptrset_wf_def ptrset_list_def Let_def)

lemma ptrset_scan_iff:
  "n \<le> length a \<Longrightarrow> ptrset_scan a i n p = Some (\<exists>j. i \<le> j \<and> j < n \<and> a ! j = p)"
proof (induction a i n p rule: ptrset_scan.induct)
  case (1 a i n p)
  show ?case
  proof (cases "i < n")
    case False
    then show ?thesis by (subst ptrset_scan.simps) auto
  next
    case True
    with "1.prems" have l: "i < length a" by simp
    show ?thesis
    proof (cases "a ! i = p")
      case True
      with \<open>i < n\<close> l show ?thesis by (subst ptrset_scan.simps) auto
    next
      case False
      then have "(\<exists>j. Suc i \<le> j \<and> j < n \<and> a ! j = p) \<longleftrightarrow> (\<exists>j. i \<le> j \<and> j < n \<and> a ! j = p)"
        by (metis Suc_leD not_less_eq_eq order_antisym)
      with False \<open>i < n\<close> l "1.IH" "1.prems" show ?thesis
        by (subst ptrset_scan.simps) simp
    qed
  qed
qed

lemma ptrset_member_list:
  assumes "ptrset_wf ps"
  shows "ptrset_is_member ps p = Some (p \<in> set (ptrset_list ps))"
proof -
  from assms obtain a where a: "ptrs ps = Some a" "unat (num_ptrs ps) \<le> length a"
    by (metis ptrset_wfE)
  then have "(\<exists>j. 0 \<le> j \<and> j < unat (num_ptrs ps) \<and> a ! j = p)
               \<longleftrightarrow> p \<in> set (take (unat (num_ptrs ps)) a)"
    by (auto simp: in_set_conv_nth)
  with a show ?thesis
    by (simp add: ptrset_is_member_def ptrset_list_def ptrset_scan_iff)
qed

lemma ptrset_store_list:
  assumes "ptrs ps = Some a" "length a = unat (num_max_ptrs ps)" "num_ptrs ps < num_max_ptrs ps"
  shows "\<exists>ps'. ptrset_store ps p = Some ps' \<and> ptrset_wf ps' \<and> ptrset_list ps' = ptrset_list ps @ [p]"
proof -
  have lt: "unat (num_ptrs ps) < length a" using assms by (simp add: word_less_nat_alt)
  have "num_ptrs ps + 1 \<le> num_max_ptrs ps" using assms(3) by (simp add: inc_le)
  moreover have "unat (num_ptrs ps + 1) = Suc (unat (num_ptrs ps))"
    using assms(3) by (intro unat_plus_one_less [of _ "num_max_ptrs ps"]) (simp add: word_less_nat_alt)
  ultimately show ?thesis
    using lt assms by (simp add: ptrset_store_def ptrset_wf_def ptrset_list_def take_list_update_snoc)
qed

section \<open>Properties\<close>

text \<open>
  Pushing a pointer on a well-formed set appends it to the contents, growing the array by
  512 slots when it is full; the set stays well-formed and no slot outside the array is
  touched.
\<close>

theorem ptrset_push_appends:
  assumes "ptrset_wf ps" and "length junk = 512" and "unat (num_max_ptrs ps) + 512 < 2 ^ 32"
  shows "\<exists>ps'. ptrset_push (Some junk) ps p = Some (None, ps') \<and> ptrset_wf ps' \<and>
               ptrset_list ps' = ptrset_list ps @ [p]"
proof (cases "num_ptrs ps \<ge> num_max_ptrs ps")
  case False
  with assms(1) show ?thesis
    by (auto simp: ptrset_push_def not_le elim!: ptrset_wfE dest: ptrset_store_list)
next
  case True
  from assms(1) obtain a where a: "ptrs ps = Some a" "length a = unat (num_max_ptrs ps)"
    "num_ptrs ps = num_max_ptrs ps"
    by (metis True ptrset_wfE order_antisym word_le_nat_alt)
  let ?ps = "ps\<lparr>num_max_ptrs := num_max_ptrs ps + TS_INIT_PTR_SET_SIZE, ptrs := Some (a @ junk)\<rparr>"
  have n: "unat (num_max_ptrs ps + TS_INIT_PTR_SET_SIZE) = unat (num_max_ptrs ps) + 512"
    using assms(3) by (simp add: unat_word_ariths)
  then have "num_ptrs ?ps < num_max_ptrs ?ps" using a(3) by (simp add: word_less_nat_alt)
  moreover have "length (a @ junk) = unat (num_max_ptrs ?ps)" using n a(2) assms(2) by simp
  ultimately obtain ps' where "ptrset_store ?ps p = Some ps'" "ptrset_wf ps'"
    "ptrset_list ps' = ptrset_list ?ps @ [p]"
    using ptrset_store_list [of ?ps "a @ junk" p] by auto
  moreover have "ptrset_list ?ps = ptrset_list ps" using a by (simp add: ptrset_list_def)
  ultimately show ?thesis
    using True a(1) by (simp add: ptrset_push_def ptrset_expand_def Let_def)
qed

theorem ptrset_push_appends_witness:
  "\<exists>ps'. ptrset_push (Some (replicate 512 Null)) \<lparr>num_ptrs = 1, num_max_ptrs = 1, ptrs = Some [Act 3]\<rparr> (Act 7)
           = Some (None, ps') \<and> ptrset_wf ps' \<and> ptrset_list ps' = [Act 3, Act 7]"
  using ptrset_push_appends
    [of "\<lparr>num_ptrs = 1, num_max_ptrs = 1, ptrs = Some [Act 3]\<rparr>" "replicate 512 Null" "Act 7"]
  by (simp add: ptrset_wf_def ptrset_list_def)

text \<open>
  When the array is full and \<open>realloc\<close> fails, the push reports ENOMEM and leaves the set as
  it was.
\<close>

theorem ptrset_push_enomem:
  assumes "num_ptrs ps \<ge> num_max_ptrs ps"
  shows "ptrset_push None ps p = Some (Some ENOMEM, ps)"
  using assms by (simp add: ptrset_push_def ptrset_expand_def)

theorem ptrset_push_enomem_witness:
  "ptrset_push None \<lparr>num_ptrs = 1, num_max_ptrs = 1, ptrs = Some [Act 3]\<rparr> (Act 7)
     = Some (Some ENOMEM, \<lparr>num_ptrs = 1, num_max_ptrs = 1, ptrs = Some [Act 3]\<rparr>)"
  using ptrset_push_enomem [of "\<lparr>num_ptrs = 1, num_max_ptrs = 1, ptrs = Some [Act 3]\<rparr>" "Act 7"]
  by simp

text \<open>
  \<open>ptrset_pop\<close> does not return what was pushed: it reads the slot one past the last
  pushed pointer (\<open>ptrs[num_ptrs--]\<close>), so on a set with a free slot the popped pointer is the
  old contents of that slot, whatever was pushed before.
\<close>

theorem ptrset_pop_reads_past_the_end:
  assumes "ptrset_wf ps" and "unat (num_ptrs ps) + 1 < unat (num_max_ptrs ps)"
    and "ptrset_push mem ps p = Some (None, ps')"
  shows "ptrset_pop ps' = Some (the (ptrs ps) ! Suc (unat (num_ptrs ps)), ps'\<lparr>num_ptrs := num_ptrs ps\<rparr>)"
proof -
  from assms(1) obtain a where a: "ptrs ps = Some a" "length a = unat (num_max_ptrs ps)"
    by (metis ptrset_wfE)
  have s: "unat (num_ptrs ps + 1) = Suc (unat (num_ptrs ps))"
    using assms(2) by (intro unat_plus_one_less [of _ "num_max_ptrs ps"]) simp
  then have ne: "num_ptrs ps + 1 \<noteq> 0" by (metis unat_0 nat.distinct(1))
  have lt: "Suc (unat (num_ptrs ps)) < length a" using assms(2) a(2) by simp
  then have "\<not> num_max_ptrs ps \<le> num_ptrs ps" using a(2) by (simp add: word_le_nat_alt)
  with assms(3) a lt have ps':
    "ps' = ps\<lparr>ptrs := Some (a[unat (num_ptrs ps) := p]), num_ptrs := num_ptrs ps + 1\<rparr>"
    by (auto simp: ptrset_push_def ptrset_store_def split: if_splits)
  show ?thesis
    using ne s lt a by (simp add: ps' ptrset_pop_def word_neq_0_conv)
qed

theorem ptrset_pop_reads_past_the_end_witness:
  "\<exists>ps'. ptrset_push None \<lparr>num_ptrs = 0, num_max_ptrs = 3, ptrs = Some [Null, Null, Null]\<rparr> (Act 7)
            = Some (None, ps') \<and> ptrset_list ps' = [Act 7] \<and>
         ptrset_pop ps' = Some (Null, ps'\<lparr>num_ptrs := 0\<rparr>)"
proof -
  let ?ps = "\<lparr>num_ptrs = 0, num_max_ptrs = 3, ptrs = Some [Null, Null, Null]\<rparr>"
  let ?ps' = "\<lparr>num_ptrs = 1, num_max_ptrs = 3, ptrs = Some [Act 7, Null, Null]\<rparr>"
  have "ptrset_push None ?ps (Act 7) = Some (None, ?ps')"
    by (simp add: ptrset_push_def ptrset_store_def)
  with ptrset_pop_reads_past_the_end [of ?ps None "Act 7" ?ps'] show ?thesis
    by (auto simp: ptrset_wf_def ptrset_list_def)
qed

end
