(* ===== verification/TsList.thy ===== *)
theory TsList
  imports Prelude
begin

text \<open>
  The intrusive circular lists of \<open>src/lib/util.h\<close> (\<open>ts_list_t\<close>) and the thread lists of
  \<open>src/lib/qp.c\<close> built on them. The nodes live in a store that maps a node address to its
  \<open>next\<close> and \<open>prev\<close> fields (\<open>None\<close> is NULL); an operation is \<open>None\<close> where it would
  dereference NULL. The representation predicate \<open>lrep s h xs\<close> says that \<open>h\<close> is the head
  of a well-linked circular list with the elements \<open>xs\<close>; every operation is shown to refine
  the list operation it stands for.
\<close>

record 'a lstore =
  nxt :: "'a \<Rightarrow> 'a option"
  prv :: "'a \<Rightarrow> 'a option"

abbreviation set_nxt :: "'a \<Rightarrow> 'a option \<Rightarrow> 'a lstore \<Rightarrow> 'a lstore" where
  "set_nxt a v s \<equiv> s\<lparr>nxt := (nxt s)(a := v)\<rparr>"

abbreviation set_prv :: "'a \<Rightarrow> 'a option \<Rightarrow> 'a lstore \<Rightarrow> 'a lstore" where
  "set_prv a v s \<equiv> s\<lparr>prv := (prv s)(a := v)\<rparr>"

section \<open>List operations (util.h)\<close>

definition init_ts_list :: "'a \<Rightarrow> 'a lstore \<Rightarrow> 'a lstore" where
  "init_ts_list l s = set_prv l (Some l) (set_nxt l (Some l) s)"

definition ts_list_add :: "'a \<Rightarrow> 'a \<Rightarrow> 'a lstore \<Rightarrow> 'a lstore option" where
  "ts_list_add new head s = do {
     n \<leftarrow> nxt s head;
     let s = set_prv n (Some new) s;
     let s = set_nxt new (nxt s head) s;
     let s = set_prv new (Some head) s;
     Some (set_nxt head (Some new) s) }"

definition ts_list_del :: "'a \<Rightarrow> 'a lstore \<Rightarrow> 'a lstore option" where
  "ts_list_del entry s = do {
     n \<leftarrow> nxt s entry;
     let s = set_prv n (prv s entry) s;
     p \<leftarrow> prv s entry;
     Some (set_nxt p (nxt s entry) s) }"

definition ts_list_empty :: "'a \<Rightarrow> 'a lstore \<Rightarrow> bool" where
  "ts_list_empty head s \<longleftrightarrow> nxt s head = Some head \<and> prv s head = Some head"

definition ts_list_rotate_left :: "'a \<Rightarrow> 'a lstore \<Rightarrow> 'a lstore option" where
  "ts_list_rotate_left head s =
     (if \<not> ts_list_empty head s then do {
        first \<leftarrow> nxt s head;
        s \<leftarrow> ts_list_del first s;
        p \<leftarrow> prv s head;
        ts_list_add first p s }
      else Some s)"

text \<open>The nodes a \<open>thread_list_for_each_safe\<close> visits, from \<open>pos\<close> to the head.\<close>

fun ts_list_walk :: "nat \<Rightarrow> 'a lstore \<Rightarrow> 'a \<Rightarrow> 'a \<Rightarrow> 'a list option" where
  "ts_list_walk 0 s head pos = None"
| "ts_list_walk (Suc fuel) s head pos =
     (if pos = head then Some []
      else do { n \<leftarrow> nxt s pos; xs \<leftarrow> ts_list_walk fuel s head n; Some (pos # xs) })"

section \<open>Thread lists (qp.c)\<close>

text \<open>
  \<open>tl_lock\<close> is the spin lock; a lock operation on a held lock would spin and is \<open>None\<close>. The
  store of the list nodes is passed beside the list.
\<close>

record 'a thread_list =
  tl_lock :: bool
  thread_wait :: bool
  cur_tid :: u32
  tl_num :: u32
  tl_list :: 'a

definition thread_list_has_waiter :: "'a thread_list \<Rightarrow> bool" where
  "thread_list_has_waiter tls = thread_wait tls"

definition init_thread_list :: "'a thread_list \<Rightarrow> 'a lstore \<Rightarrow> 'a thread_list \<times> 'a lstore" where
  "init_thread_list tls s =
     (tls\<lparr>tl_lock := False, cur_tid := 0, tl_num := 0\<rparr>, init_ts_list (tl_list tls) s)"

definition thread_list_lock :: "'a thread_list \<Rightarrow> 'a thread_list option" where
  "thread_list_lock tls = (if tl_lock tls then None else Some (tls\<lparr>tl_lock := True\<rparr>))"

text \<open>
  With a high priority: when the try-lock fails, the waiter flag is raised first, so that a
  lengthy holder gives way. The boolean tells whether the lock was taken.
\<close>

definition thread_list_lock_force :: "'a thread_list \<Rightarrow> bool \<times> 'a thread_list" where
  "thread_list_lock_force tls =
     (if tl_lock tls then (False, tls\<lparr>thread_wait := True\<rparr>) else (True, tls\<lparr>tl_lock := True\<rparr>))"

definition thread_list_unlock :: "'a thread_list \<Rightarrow> 'a thread_list" where
  "thread_list_unlock tls =
     (let tls = (if thread_wait tls then tls\<lparr>thread_wait := False\<rparr> else tls) in tls\<lparr>tl_lock := False\<rparr>)"

text \<open>The result carries the thread id given to the added node.\<close>

definition thread_list_add ::
  "'a thread_list \<Rightarrow> 'a \<Rightarrow> 'a lstore \<Rightarrow> (u32 \<times> 'a thread_list \<times> 'a lstore) option" where
  "thread_list_add tls self s =
     (case thread_list_lock_force tls of
        (False, tls) \<Rightarrow> None
      | (True, tls) \<Rightarrow> do {
          let tid = cur_tid tls;
          let tls = tls\<lparr>cur_tid := cur_tid tls + 1, tl_num := tl_num tls + 1\<rparr>;
          s \<leftarrow> ts_list_add self (tl_list tls) s;
          Some (tid, thread_list_unlock tls, s) })"

definition thread_list_del_unsafe ::
  "'a thread_list \<Rightarrow> 'a \<Rightarrow> 'a lstore \<Rightarrow> ('a thread_list \<times> 'a lstore) option" where
  "thread_list_del_unsafe tls self s = do {
     let tls = tls\<lparr>tl_num := tl_num tls - 1\<rparr>;
     s \<leftarrow> ts_list_del self s;
     Some (tls, set_prv self None (set_nxt self None s)) }"

definition thread_list_del ::
  "'a thread_list \<Rightarrow> 'a \<Rightarrow> 'a lstore \<Rightarrow> ('a thread_list \<times> 'a lstore) option" where
  "thread_list_del tls self s =
     (case thread_list_lock_force tls of
        (False, tls) \<Rightarrow> None
      | (True, tls) \<Rightarrow> do {
          (tls, s) \<leftarrow> thread_list_del_unsafe tls self s;
          Some (thread_list_unlock tls, s) })"

definition thread_list_rotate_left_unsafe :: "'a thread_list \<Rightarrow> 'a lstore \<Rightarrow> 'a lstore option" where
  "thread_list_rotate_left_unsafe tls s = ts_list_rotate_left (tl_list tls) s"

definition thread_list_empty :: "'a thread_list \<Rightarrow> 'a lstore \<Rightarrow> (bool \<times> 'a thread_list) option" where
  "thread_list_empty tls s =
     (case thread_list_lock_force tls of
        (False, tls) \<Rightarrow> None
      | (True, tls) \<Rightarrow> Some (ts_list_empty (tl_list tls) s, thread_list_unlock tls))"

section \<open>Representation\<close>

definition link :: "'a lstore \<Rightarrow> 'a \<Rightarrow> 'a \<Rightarrow> bool" where
  "link s a b \<longleftrightarrow> nxt s a = Some b \<and> prv s b = Some a"

fun chain :: "'a lstore \<Rightarrow> 'a \<Rightarrow> 'a list \<Rightarrow> 'a \<Rightarrow> bool" where
  "chain s a [] b \<longleftrightarrow> link s a b"
| "chain s a (y # ys) b \<longleftrightarrow> link s a y \<and> chain s y ys b"

definition lrep :: "'a lstore \<Rightarrow> 'a \<Rightarrow> 'a list \<Rightarrow> bool" where
  "lrep s h xs \<longleftrightarrow> distinct (h # xs) \<and> chain s h xs h"

lemma chain_append [simp]:
  "chain s a (xs @ y # ys) b \<longleftrightarrow> chain s a xs y \<and> chain s y ys b"
  by (induction xs arbitrary: a) auto

lemma chain_frame:
  "chain s a xs b \<Longrightarrow> \<forall>x \<in> insert a (set xs). nxt s' x = nxt s x \<Longrightarrow>
   \<forall>x \<in> insert b (set xs). prv s' x = prv s x \<Longrightarrow> chain s' a xs b"
  by (induction xs arbitrary: a) (auto simp: link_def)

lemma chain_first: "chain s a xs b \<Longrightarrow> nxt s a = Some (hd (xs @ [b]))"
  by (cases xs) (auto simp: link_def)

lemma chain_last: "chain s a xs b \<Longrightarrow> prv s b = Some (last (a # xs))"
  by (induction xs arbitrary: a) (auto simp: link_def)

lemma init_ts_list_lrep: "lrep (init_ts_list h s) h []"
  by (simp add: lrep_def init_ts_list_def link_def)

lemma ts_list_empty_lrep: "lrep s h xs \<Longrightarrow> ts_list_empty h s \<longleftrightarrow> xs = []"
  by (cases xs) (auto simp: lrep_def ts_list_empty_def link_def)

lemma hd_snoc_in: "hd (ys @ [b]) \<in> insert b (set ys)"
  by (cases ys) auto

lemma tl_snoc_distinct: "distinct (ys @ [b]) \<Longrightarrow> hd (ys @ [b]) \<notin> set (List.tl (ys @ [b]))"
  by (cases ys) auto

lemma chain_rehead:
  assumes "chain s p ys b" "nxt s' new = Some (hd (ys @ [b]))" "prv s' (hd (ys @ [b])) = Some new"
    "\<forall>x \<in> set ys. nxt s' x = nxt s x" "\<forall>x \<in> set (List.tl (ys @ [b])). prv s' x = prv s x"
  shows "chain s' new ys b"
proof (cases ys)
  case Nil
  with assms show ?thesis by (simp add: link_def)
next
  case (Cons y ys')
  with assms(1) have "chain s y ys' b" by simp
  then have "chain s' y ys' b"
    by (rule chain_frame) (use assms(4,5) Cons in auto)
  with Cons assms(2,3) show ?thesis by (simp add: link_def)
qed

text \<open>
  Insertion of \<open>new\<close> behind \<open>p\<close>: the part of the list before \<open>p\<close> is untouched and the
  rest hangs behind \<open>new\<close>.
\<close>

lemma ts_list_add_behind:
  assumes c: "chain s p ys b" and d: "distinct (ys @ [b])" "p \<notin> set ys" "new \<notin> insert p (insert b (set ys))"
  shows "\<exists>s'. ts_list_add new p s = Some s' \<and> link s' p new \<and> chain s' new ys b \<and>
           (\<forall>x. x \<noteq> p \<and> x \<noteq> new \<longrightarrow> nxt s' x = nxt s x) \<and>
           (\<forall>x. x \<noteq> hd (ys @ [b]) \<and> x \<noteq> new \<longrightarrow> prv s' x = prv s x)"
proof -
  define n where "n = hd (ys @ [b])"
  have n: "nxt s p = Some n" using c unfolding n_def by (rule chain_first)
  have nn: "n \<noteq> new" using d(3) hd_snoc_in [of ys b] unfolding n_def by auto
  have nt: "n \<notin> set (List.tl (ys @ [b]))" using d(1) unfolding n_def by (rule tl_snoc_distinct)
  have newt: "new \<notin> set (List.tl (ys @ [b]))"
    using d(3) by (cases ys) auto
  define s' where "s' = set_nxt p (Some new) (set_prv new (Some p) (set_nxt new (Some n) (set_prv n (Some new) s)))"
  have add: "ts_list_add new p s = Some s'" by (simp add: ts_list_add_def n s'_def)
  have np: "new \<noteq> p" using d(3) by simp
  have "link s' p new" using nn by (simp add: s'_def link_def)
  moreover have "chain s' new ys b"
  proof (rule chain_rehead [OF c])
    show "nxt s' new = Some (hd (ys @ [b]))" using np by (simp add: s'_def flip: n_def)
    show "prv s' (hd (ys @ [b])) = Some new" using nn by (simp add: s'_def flip: n_def)
    show "\<forall>x\<in>set ys. nxt s' x = nxt s x" using d by (auto simp: s'_def)
    show "\<forall>x\<in>set (List.tl (ys @ [b])). prv s' x = prv s x" using nt newt by (auto simp: s'_def)
  qed
  ultimately show ?thesis using add by (auto simp: s'_def n_def)
qed

lemma ts_list_add_head:
  assumes "lrep s h xs" "new \<notin> insert h (set xs)"
  shows "\<exists>s'. ts_list_add new h s = Some s' \<and> lrep s' h (new # xs)"
  using ts_list_add_behind [of s h xs h new] assms by (auto simp: lrep_def)

lemma ts_list_add_last:
  assumes "lrep s h (xs @ [p])" "new \<notin> insert h (set (xs @ [p]))"
  shows "\<exists>s'. ts_list_add new p s = Some s' \<and> lrep s' h (xs @ [p, new])"
proof -
  from assms obtain s' where s': "ts_list_add new p s = Some s'" "link s' p new" "chain s' new [] h"
    "\<forall>x. x \<noteq> p \<and> x \<noteq> new \<longrightarrow> nxt s' x = nxt s x" "\<forall>x. x \<noteq> h \<and> x \<noteq> new \<longrightarrow> prv s' x = prv s x"
    using ts_list_add_behind [of s p "[]" h new] by (auto simp: lrep_def)
  have "chain s h xs p" using assms(1) by (simp add: lrep_def)
  then have "chain s' h xs p" by (rule chain_frame) (use assms s' in \<open>auto simp: lrep_def\<close>)
  with s' assms show ?thesis by (auto simp: lrep_def)
qed

lemma ts_list_del_chain:
  assumes c: "chain s a xs e" "chain s e ys b" and d: "distinct (xs @ e # ys)"
    and a: "a \<notin> set (e # xs @ ys)" and b: "b \<notin> set (e # xs @ ys)"
  shows "\<exists>s'. ts_list_del e s = Some s' \<and> chain s' a (xs @ ys) b"
proof -
  define n where "n = hd (ys @ [b])"
  define p where "p = last (a # xs)"
  have n: "nxt s e = Some n" and p: "prv s e = Some p"
    using c unfolding n_def p_def by (auto dest: chain_first chain_last)
  have n_in: "n \<in> insert b (set ys)" unfolding n_def by (rule hd_snoc_in)
  have p_in: "p \<in> insert a (set xs)" unfolding p_def by auto
  have ne: "n \<noteq> e" and p_ys: "p \<notin> set ys" using n_in p_in d a b by auto
  have n_xs: "n \<notin> set xs" using n_in d b by auto
  define s' where "s' = set_nxt p (Some n) (set_prv n (Some p) s)"
  have del: "ts_list_del e s = Some s'" using n p ne by (simp add: ts_list_del_def s'_def)
  have tail: "chain s' p ys b"
  proof (rule chain_rehead [OF c(2)])
    show "nxt s' p = Some (hd (ys @ [b]))" by (simp add: s'_def flip: n_def)
    show "prv s' (hd (ys @ [b])) = Some p" by (simp add: s'_def flip: n_def)
    show "\<forall>x\<in>set ys. nxt s' x = nxt s x" using p_ys by (auto simp: s'_def)
    have "distinct (ys @ [b])" using d b by auto
    then have "n \<notin> set (List.tl (ys @ [b]))" unfolding n_def by (rule tl_snoc_distinct)
    then show "\<forall>x\<in>set (List.tl (ys @ [b])). prv s' x = prv s x" by (auto simp: s'_def)
  qed
  have "chain s' a (xs @ ys) b"
  proof (cases xs rule: rev_cases)
    case Nil
    with tail show ?thesis by (simp add: p_def)
  next
    case (snoc xs' x)
    then have x: "x = p" by (simp add: p_def)
    with c(1) snoc have "chain s a xs' p" by simp
    then have "chain s' a xs' p"
      by (rule chain_frame) (use n_xs a d snoc x in \<open>auto simp: s'_def\<close>)
    with tail snoc x show ?thesis by simp
  qed
  with del show ?thesis by blast
qed

lemma ts_list_del_lrep:
  assumes "lrep s h (xs @ e # ys)"
  shows "\<exists>s'. ts_list_del e s = Some s' \<and> lrep s' h (xs @ ys)"
  using ts_list_del_chain [of s h xs e ys h] assms by (auto simp: lrep_def)

lemma ts_list_walk_chain:
  "chain s a xs h \<Longrightarrow> h \<notin> set xs \<Longrightarrow> length xs < fuel \<Longrightarrow>
   ts_list_walk fuel s h (hd (xs @ [h])) = Some xs"
proof (induction xs arbitrary: a fuel)
  case Nil
  then show ?case by (cases fuel) auto
next
  case (Cons x xs)
  then obtain f where f: "fuel = Suc f" by (cases fuel) auto
  from Cons.prems have "chain s x xs h" by simp
  then have "nxt s x = Some (hd (xs @ [h]))" by (rule chain_first)
  moreover have "ts_list_walk f s h (hd (xs @ [h])) = Some xs"
    using Cons.IH [OF \<open>chain s x xs h\<close>] Cons.prems f by simp
  ultimately show ?case using Cons.prems(2) f by auto
qed

section \<open>Properties\<close>

text \<open>
  Rotating a list moves its first node behind its last one and keeps the list
  well-linked: the pointer surgery of \<open>ts_list_rotate_left\<close> refines
  \<open>x # xs \<mapsto> xs @ [x]\<close> (and leaves an empty list alone).
\<close>

theorem ts_list_rotate_left_refines:
  assumes "lrep s h xs"
  shows "\<exists>s'. ts_list_rotate_left h s = Some s' \<and> lrep s' h (rotate1 xs)"
proof (cases xs)
  case Nil
  with assms show ?thesis by (simp add: ts_list_rotate_left_def ts_list_empty_lrep)
next
  case (Cons x ys)
  then have ne: "\<not> ts_list_empty h s" using assms by (simp add: ts_list_empty_lrep)
  from assms Cons have nx: "nxt s h = Some x" by (simp add: lrep_def link_def)
  from assms Cons have "lrep s h ([] @ x # ys)" by simp
  then obtain s1 where s1: "ts_list_del x s = Some s1" "lrep s1 h ys"
    using ts_list_del_lrep [of s h "[]" x ys] by auto
  from s1(2) have pv: "prv s1 h = Some (last (h # ys))" by (auto simp: lrep_def dest: chain_last)
  have x: "x \<notin> insert h (set ys)" using assms Cons by (auto simp: lrep_def)
  have "\<exists>s'. ts_list_add x (last (h # ys)) s1 = Some s' \<and> lrep s' h (ys @ [x])"
  proof (cases ys rule: rev_cases)
    case Nil
    with s1(2) x show ?thesis using ts_list_add_head [of s1 h ys x] by simp
  next
    case (snoc zs p)
    with s1(2) x show ?thesis using ts_list_add_last [of s1 h zs p x] by simp
  qed
  with ne nx s1(1) pv Cons show ?thesis by (simp add: ts_list_rotate_left_def)
qed

theorem ts_list_rotate_left_refines_witness:
  "\<exists>s'. ts_list_rotate_left (0::nat)
          \<lparr>nxt = (\<lambda>a. Some ((a + 1) mod 3)), prv = (\<lambda>a. Some ((a + 2) mod 3))\<rparr> = Some s' \<and>
        lrep s' 0 [2, 1]"
  using ts_list_rotate_left_refines
    [of "\<lparr>nxt = (\<lambda>a. Some ((a + 1) mod 3)), prv = (\<lambda>a. Some ((a + 2) mod 3))\<rparr>" "0::nat" "[1, 2]"]
  by (simp add: lrep_def link_def)

text \<open>
  Adding a thread to a free thread list links it in front, hands out the next thread id
  and releases the lock; deleting it again restores the list, so registration and
  deregistration are inverse on the list.
\<close>

theorem thread_list_add_del:
  assumes "lrep s (tl_list tls) xs" and "new \<notin> insert (tl_list tls) (set xs)" and "\<not> tl_lock tls"
  shows "\<exists>tls1 s1 tls2 s2. thread_list_add tls new s = Some (cur_tid tls, tls1, s1) \<and>
           lrep s1 (tl_list tls) (new # xs) \<and> tl_num tls1 = tl_num tls + 1 \<and> \<not> tl_lock tls1 \<and>
           thread_list_del tls1 new s1 = Some (tls2, s2) \<and>
           lrep s2 (tl_list tls) xs \<and> tl_num tls2 = tl_num tls \<and> \<not> tl_lock tls2"
proof -
  obtain s1 where s1: "ts_list_add new (tl_list tls) s = Some s1" "lrep s1 (tl_list tls) (new # xs)"
    using ts_list_add_head [OF assms(1,2)] by blast
  obtain s2 where s2: "ts_list_del new s1 = Some s2" "lrep s2 (tl_list tls) xs"
    using ts_list_del_lrep [of s1 "tl_list tls" "[]" new xs] s1(2) by auto
  let ?s3 = "set_prv new None (set_nxt new None s2)"
  have "chain ?s3 (tl_list tls) xs (tl_list tls)"
    by (rule chain_frame [of s2]) (use s2(2) assms(2) in \<open>auto simp: lrep_def\<close>)
  then have "lrep ?s3 (tl_list tls) xs" using s2(2) by (simp add: lrep_def)
  with s1 s2(1) assms(3) show ?thesis
    by (simp add: thread_list_add_def thread_list_del_def thread_list_del_unsafe_def
        thread_list_lock_force_def thread_list_unlock_def Let_def)
qed

theorem thread_list_add_del_witness:
  "\<exists>tls1 s1 tls2 s2.
     thread_list_add \<lparr>tl_lock = False, thread_wait = False, cur_tid = 4, tl_num = 0, tl_list = 0\<rparr> (9::nat)
       (init_ts_list 0 \<lparr>nxt = \<lambda>_. None, prv = \<lambda>_. None\<rparr>) = Some (4, tls1, s1) \<and>
     lrep s1 0 [9] \<and> tl_num tls1 = 1 \<and> \<not> tl_lock tls1 \<and>
     thread_list_del tls1 9 s1 = Some (tls2, s2) \<and> lrep s2 0 [] \<and> tl_num tls2 = 0 \<and> \<not> tl_lock tls2"
  using thread_list_add_del
    [of "init_ts_list (0::nat) \<lparr>nxt = \<lambda>_. None, prv = \<lambda>_. None\<rparr>"
        "\<lparr>tl_lock = False, thread_wait = False, cur_tid = 4, tl_num = 0, tl_list = 0\<rparr>" "[]" 9]
  by (simp add: init_ts_list_lrep)

end
