(* ===== verification/Clock.thy ===== *)
theory Clock
  imports Prelude
begin

text \<open>
  Time stamps: the ordo clock of \<open>src/include/ordo_clock.h\<close> and the comparison macros of
  \<open>src/lib/clock.h\<close> in the configured variant (\<open>TS_ORDO_TIMESTAMPING\<close>). Two readings of
  the time-stamp counter on different cores are ordered only when they differ by more than the
  ordo boundary. The successive values \<open>rdtscp\<close> returns are a parameter
  \<open>tsc :: nat \<Rightarrow> u64\<close> (the \<open>i\<close>-th reading).
\<close>

section \<open>The ordo clock (ordo_clock.h)\<close>

definition ordo_boundary :: u64 where "ordo_boundary = 1"

definition ordo_lt_clock :: "u64 \<Rightarrow> u64 \<Rightarrow> bool" where
  "ordo_lt_clock t1 t2 \<longleftrightarrow> t1 < t2 \<and> t2 - t1 > ordo_boundary"

definition ordo_gt_clock :: "u64 \<Rightarrow> u64 \<Rightarrow> bool" where
  "ordo_gt_clock t1 t2 \<longleftrightarrow> t1 > t2 \<and> t1 - t2 > ordo_boundary"

definition ordo_cmp_clock :: "u64 \<Rightarrow> u64 \<Rightarrow> int" where
  "ordo_cmp_clock t1 t2 = (if ordo_lt_clock t1 t2 then -1 else if ordo_gt_clock t1 t2 then 1 else 0)"

text \<open>The loop of \<open>ordo_new_clock\<close> reads the counter until it has passed \<open>t\<close>.\<close>

partial_function (option) ordo_new_clock :: "(nat \<Rightarrow> u64) \<Rightarrow> nat \<Rightarrow> u64 \<Rightarrow> (u64 \<times> nat) option" where
  "ordo_new_clock tsc i t =
     (if \<not> ordo_gt_clock (tsc i) t then ordo_new_clock tsc (Suc i) t else Some (tsc i, Suc i))"

section \<open>The comparison macros (clock.h)\<close>

definition gte_clock :: "u64 \<Rightarrow> u64 \<Rightarrow> bool" where "gte_clock t1 t2 \<longleftrightarrow> \<not> ordo_lt_clock t1 t2"
definition lte_clock :: "u64 \<Rightarrow> u64 \<Rightarrow> bool" where "lte_clock t1 t2 \<longleftrightarrow> \<not> ordo_gt_clock t1 t2"
definition gt_clock :: "u64 \<Rightarrow> u64 \<Rightarrow> bool" where "gt_clock t1 t2 \<longleftrightarrow> ordo_gt_clock t1 t2"
definition lt_clock :: "u64 \<Rightarrow> u64 \<Rightarrow> bool" where "lt_clock t1 t2 \<longleftrightarrow> ordo_lt_clock t1 t2"

definition new_clock :: "(nat \<Rightarrow> u64) \<Rightarrow> nat \<Rightarrow> u64 \<Rightarrow> (u64 \<times> nat) option" where
  "new_clock tsc i local_clk = ordo_new_clock tsc i (local_clk + ordo_boundary)"

definition correct_qp_clock :: "u64 \<Rightarrow> u64" where
  "correct_qp_clock qp_clk = qp_clk - ordo_boundary"

section \<open>Comparison as arithmetic\<close>

lemma ordo_lt_nat [clock_simps]: "ordo_lt_clock t1 t2 \<longleftrightarrow> unat t1 + 1 < unat t2"
proof -
  have "unat (t2 - t1) = unat t2 - unat t1" if "t1 < t2"
    using that by (simp add: unat_sub order_less_imp_le)
  then show ?thesis
    by (auto simp: ordo_lt_clock_def ordo_boundary_def word_less_nat_alt)
qed

lemma ordo_gt_lt [clock_simps]: "ordo_gt_clock t1 t2 \<longleftrightarrow> ordo_lt_clock t2 t1"
  by (simp add: ordo_lt_clock_def ordo_gt_clock_def)

lemma lt_clock_nat [clock_simps]: "lt_clock t1 t2 \<longleftrightarrow> unat t1 + 1 < unat t2"
  by (simp add: lt_clock_def ordo_lt_nat)

lemma gte_clock_nat [clock_simps]: "gte_clock t1 t2 \<longleftrightarrow> unat t2 \<le> unat t1 + 1"
  by (auto simp: gte_clock_def ordo_lt_nat)

lemma gt_clock_nat [clock_simps]: "gt_clock t1 t2 \<longleftrightarrow> unat t2 + 1 < unat t1"
  by (simp add: gt_clock_def ordo_gt_lt ordo_lt_nat)

lemma lte_clock_nat [clock_simps]: "lte_clock t1 t2 \<longleftrightarrow> unat t1 \<le> unat t2 + 1"
  by (auto simp: lte_clock_def ordo_gt_lt ordo_lt_nat)

lemma unat_max_version [clock_simps]: "unat MAX_VERSION = 2 ^ 64 - 2"
  by (simp add: MAX_VERSION_def)

lemma unat_min_version [clock_simps]: "unat MIN_VERSION = 0"
  by (simp add: MIN_VERSION_def)

lemma max_version_not_lt [simp]: "\<not> lt_clock MAX_VERSION t"
proof -
  have "unat t < 2 ^ 64" using unsigned_less [of t, where ?'a = nat] by simp
  then show ?thesis by (simp add: clock_simps)
qed

text \<open>
  What the version chains and the reclamation rely on: comparison is a strict order in which
  "not comparable" means "less than a boundary apart".
\<close>

locale time_order =
  fixes before :: "'t \<Rightarrow> 't \<Rightarrow> bool"
  assumes irrefl: "\<not> before a a"
    and trans: "before a b \<Longrightarrow> before b c \<Longrightarrow> before a c"
    and ferrers: "before a b \<Longrightarrow> before c d \<Longrightarrow> before a d \<or> before c b"
begin

lemma asym: "before a b \<Longrightarrow> \<not> before b a"
  using irrefl trans by blast

lemma chain_upwards:
  "sorted_wrt (\<lambda>x y. before y x) xs \<Longrightarrow> x \<in> set (dropWhile (\<lambda>y. \<not> before y t) xs) \<Longrightarrow> before x t"
proof (induction xs)
  case Nil
  then show ?case by simp
next
  case (Cons y ys)
  show ?case
  proof (cases "before y t")
    case True
    with Cons.prems have "x = y \<or> before x y" by auto
    with True show ?thesis using trans by blast
  next
    case False
    with Cons show ?thesis by simp
  qed
qed

end

interpretation ordo: time_order lt_clock
proof unfold_locales
  show "\<not> lt_clock a a" for a by (simp add: clock_simps)
  show "lt_clock a c" if "lt_clock a b" "lt_clock b c" for a b c
    using that by (simp add: clock_simps)
  show "lt_clock a d \<or> lt_clock c b" if "lt_clock a b" "lt_clock c d" for a b c d
    using that by (simp add: clock_simps) linarith
qed

lemma ordo_new_clock_here:
  "ordo_gt_clock (tsc i) t \<Longrightarrow> ordo_new_clock tsc i t = Some (tsc i, Suc i)"
  by (subst ordo_new_clock.simps) simp

lemma ordo_new_clock_next:
  "\<not> ordo_gt_clock (tsc i) t \<Longrightarrow> ordo_new_clock tsc i t = ordo_new_clock tsc (Suc i) t"
  by (subst ordo_new_clock.simps) simp

lemma ordo_new_clock_returns:
  "ordo_gt_clock (tsc (i + n)) t \<Longrightarrow>
   \<exists>m \<le> n. ordo_new_clock tsc i t = Some (tsc (i + m), Suc (i + m)) \<and> ordo_gt_clock (tsc (i + m)) t"
proof (induction n arbitrary: i)
  case 0
  then show ?case by (auto simp: ordo_new_clock_here)
next
  case (Suc n)
  show ?case
  proof (cases "ordo_gt_clock (tsc i) t")
    case True
    then show ?thesis by (intro exI [of _ 0]) (simp add: ordo_new_clock_here)
  next
    case False
    with Suc.IH [of "Suc i"] Suc.prems obtain m where
      "m \<le> n" "ordo_new_clock tsc (Suc i) t = Some (tsc (Suc i + m), Suc (Suc i + m))"
      "ordo_gt_clock (tsc (Suc i + m)) t" by auto
    with False show ?thesis by (intro exI [of _ "Suc m"]) (simp add: ordo_new_clock_next)
  qed
qed

section \<open>Properties\<close>

text \<open>
  The comparison of two time stamps is three-way and consistent: it says "before" (-1)
  exactly when the first is more than the ordo boundary below the second, "after" (1) exactly
  in the mirrored case, and "uncertain" (0) exactly when they are at most the boundary apart.
\<close>

theorem ordo_cmp_clock_three_way:
  "(ordo_cmp_clock t1 t2 = -1 \<longleftrightarrow> unat t1 + unat ordo_boundary < unat t2) \<and>
   (ordo_cmp_clock t1 t2 = 1 \<longleftrightarrow> unat t2 + unat ordo_boundary < unat t1) \<and>
   (ordo_cmp_clock t1 t2 = 0 \<longleftrightarrow>
      unat t1 \<le> unat t2 + unat ordo_boundary \<and> unat t2 \<le> unat t1 + unat ordo_boundary) \<and>
   ordo_cmp_clock t2 t1 = - ordo_cmp_clock t1 t2"
  by (auto simp: ordo_cmp_clock_def ordo_boundary_def clock_simps)

text \<open>
  A commit obtains its write clock from \<open>new_clock(local_clk)\<close>: if the time-stamp
  counter eventually passes the local clock by more than two boundaries, the loop terminates,
  and the clock it returns is after the local clock by more than two ordo boundaries (the gap
  the version chain needs).
\<close>

theorem new_clock_gap:
  assumes "ordo_gt_clock (tsc (i + n)) (local_clk + ordo_boundary)" and "local_clk \<le> MAX_VERSION"
  shows "\<exists>clk j. new_clock tsc i local_clk = Some (clk, j) \<and> j \<le> Suc (i + n) \<and>
           unat local_clk + 2 * unat ordo_boundary < unat clk \<and> lt_clock local_clk clk"
proof -
  have l: "unat (local_clk + ordo_boundary) = unat local_clk + 1"
  proof -
    have "unat local_clk \<le> 2 ^ 64 - 2"
      using assms(2) by (simp add: word_le_nat_alt unat_max_version)
    then show ?thesis by (simp add: ordo_boundary_def unat_word_ariths)
  qed
  from ordo_new_clock_returns [of tsc i n "local_clk + ordo_boundary", OF assms(1)] obtain m where
    "m \<le> n" "new_clock tsc i local_clk = Some (tsc (i + m), Suc (i + m))"
    "ordo_gt_clock (tsc (i + m)) (local_clk + ordo_boundary)"
    by (auto simp: new_clock_def)
  with l show ?thesis by (auto simp: clock_simps ordo_boundary_def)
qed

theorem new_clock_gap_witness:
  "\<exists>clk j. new_clock (\<lambda>i. of_nat (10 + i)) 0 10 = Some (clk, j) \<and> j \<le> 11 \<and>
     unat (10::u64) + 2 * unat ordo_boundary < unat clk \<and> lt_clock 10 clk"
  using new_clock_gap [of "\<lambda>i. of_nat (10 + i)" 0 10 10]
  by (simp add: ordo_gt_clock_def ordo_boundary_def word_le_nat_alt clock_simps)

end
