(* ===== verification/TvRegion.thy ===== *)
theory TvRegion
  imports Prelude
begin

text \<open>
  The allocator of transient-version-log memory of \<open>src/lib/port-user.h\<close>: one mapped region
  cut into \<open>num\<close> slots of \<open>size\<close> bytes, with a bitmap of 1024 words of 64 bits for the slots
  in use. \<open>mmap\<close> is a parameter (\<open>Inl\<close> its errno, \<open>Inr\<close> the mapped address). Each
  operation is taken as one atomic step, so the compare-and-swap on a bitmap word succeeds.
\<close>

definition BITMAP_SIZE :: nat where "BITMAP_SIZE = 1024"
definition FULLY_ALLOCATED :: u64 where "FULLY_ALLOCATED = - 1"

record tvlog_region =
  lr_size :: u64
  lr_num :: int
  lr_bitmap :: "u64 list"
  g_start_addr :: u64
  g_end_addr :: u64

definition port_tvlog_region_init ::
  "(errno + u64) \<Rightarrow> u64 \<Rightarrow> u64 \<Rightarrow> tvlog_region \<Rightarrow> errno option \<times> tvlog_region" where
  "port_tvlog_region_init mmap sz n g =
     (let region_size = sz * n;
          g = g\<lparr>lr_size := sz, lr_num := sint (ucast n :: u32), lr_bitmap := replicate BITMAP_SIZE 0\<rparr>
      in case mmap of
           Inl e \<Rightarrow> (Some e, g\<lparr>g_start_addr := - 1\<rparr>)
         | Inr a \<Rightarrow> (None, g\<lparr>g_start_addr := a, g_end_addr := a + region_size\<rparr>))"

definition port_tvlog_region_destroy :: "tvlog_region \<Rightarrow> tvlog_region" where
  "port_tvlog_region_destroy g =
     (if g_start_addr g = 0 then g else g\<lparr>g_start_addr := 0, g_end_addr := 0\<rparr>)"

text \<open>The inner loop over the bits of a word: found, out of slots, or on to the next word.\<close>

datatype scan = Found nat | Out_of_slots | Next_word

function scan_word :: "u64 \<Rightarrow> int \<Rightarrow> nat \<Rightarrow> nat \<Rightarrow> scan" where
  "scan_word bm n i j =
     (if j < 64 then
        (if int (i * 64 + j) \<ge> n then Out_of_slots
         else if bm AND push_bit j 1 = 0 then Found j
         else scan_word bm n i (Suc j))
      else Next_word)"
  by pat_completeness auto
termination
  by (relation "measure (\<lambda>(bm, n, i, j). 64 - j)") auto

function scan_bitmap :: "u64 list \<Rightarrow> int \<Rightarrow> nat \<Rightarrow> (nat \<times> nat) option" where
  "scan_bitmap b n i =
     (if i < BITMAP_SIZE then
        (if b ! i = FULLY_ALLOCATED then scan_bitmap b n (Suc i)
         else case scan_word (b ! i) n i 0 of
                Out_of_slots \<Rightarrow> None
              | Found j \<Rightarrow> Some (i, j)
              | Next_word \<Rightarrow> scan_bitmap b n (Suc i))
      else None)"
  by pat_completeness auto
termination
  by (relation "measure (\<lambda>(b, n, i). BITMAP_SIZE - i)") auto

declare scan_word.simps [simp del] scan_bitmap.simps [simp del]

definition port_alloc_tvlog_mem :: "tvlog_region \<Rightarrow> u64 option \<times> tvlog_region" where
  "port_alloc_tvlog_mem g =
     (case scan_bitmap (lr_bitmap g) (lr_num g) 0 of
        None \<Rightarrow> (None, g)
      | Some (i, j) \<Rightarrow>
          (Some (g_start_addr g + of_nat (i * 64 + j) * lr_size g),
           g\<lparr>lr_bitmap := (lr_bitmap g)[i := (lr_bitmap g ! i) OR push_bit j 1]\<rparr>))"

text \<open>
  Freeing computes the bit position as \<open>pos - (i + 64)\<close>. A shift by a negative amount or by
  64 and more is undefined in C, and \<open>None\<close> here.
\<close>

definition port_free_tvlog_mem :: "u64 \<Rightarrow> tvlog_region \<Rightarrow> tvlog_region option" where
  "port_free_tvlog_mem addr g =
     (let pos = sint (ucast ((addr - g_start_addr g) div lr_size g) :: u32);
          i = pos div 64;
          j = pos - (i + 64)
      in if j < 0 \<or> 64 \<le> j then None
         else Some (g\<lparr>lr_bitmap := (lr_bitmap g)[nat i := (lr_bitmap g ! nat i) AND NOT (push_bit (nat j) 1)]\<rparr>))"

definition port_addr_in_tvlog_region :: "u64 \<Rightarrow> tvlog_region \<Rightarrow> bool" where
  "port_addr_in_tvlog_region addr g \<longleftrightarrow> addr \<ge> g_start_addr g \<and> addr < g_end_addr g"

text \<open>
  \<open>port_initiate_nap\<close>: the point in time, in seconds and nanoseconds, until which the caller waits
  for a wake-up, computed from the time of day.
\<close>

definition port_initiate_nap :: "u64 \<Rightarrow> u64 \<Rightarrow> u64 \<Rightarrow> u64 \<times> u64" where
  "port_initiate_nap tv_sec tv_nsec usecs =
     (let nsecs = usecs * 1000;
          tv_sec = (if tv_nsec + nsecs > 1000000000 then tv_sec + nsecs div 1000000000 else tv_sec)
      in (tv_sec, tv_nsec + nsecs mod 1000000000))"

text \<open>
  A nap of less than a second that crosses the turn of a second is asked to end at an invalid point
  in time: the nanoseconds are not carried over to the seconds.
\<close>

lemma port_initiate_nap_no_carry:
  assumes "unat tv_nsec < 1000000000" "unat usecs < 1000000" "1000000000 \<le> unat tv_nsec + unat usecs * 1000"
  shows "fst (port_initiate_nap tv_sec tv_nsec usecs) = tv_sec \<and> 1000000000 \<le> unat (snd (port_initiate_nap tv_sec tv_nsec usecs))"
proof -
  have n: "unat (usecs * 1000) = unat usecs * 1000" using assms(2) by (simp add: unat_word_ariths)
  then have "unat (usecs * 1000) < unat (1000000000 :: u64)" using assms(2) by simp
  then have d: "usecs * 1000 div 1000000000 = 0" "usecs * 1000 mod 1000000000 = usecs * 1000"
    by (simp_all add: word_unat_eq_iff unat_div_distrib unat_mod_distrib)
  have "unat (tv_nsec + usecs * 1000) = unat tv_nsec + unat usecs * 1000" using assms(1,2) n by (simp add: unat_word_ariths)
  then show ?thesis using assms(3) d by (simp add: port_initiate_nap_def Let_def)
qed

section \<open>Slots\<close>

definition slot_used :: "tvlog_region \<Rightarrow> nat \<Rightarrow> bool" where
  "slot_used g pos \<longleftrightarrow> bit (lr_bitmap g ! (pos div 64)) (pos mod 64)"

definition region_wf :: "tvlog_region \<Rightarrow> bool" where
  "region_wf g \<longleftrightarrow> length (lr_bitmap g) = BITMAP_SIZE \<and> 0 \<le> lr_num g \<and> lr_num g \<le> 65536"

lemma and_push_bit_one: "w AND 2 ^ j = 0 \<longleftrightarrow> \<not> bit w j" if "j < 64" for w :: u64
proof -
  have "w AND 2 ^ j = 0 \<longleftrightarrow> (\<forall>n. bit (w AND 2 ^ j) n = bit (0 :: u64) n)"
    by (metis bit_eqI)
  also have "\<dots> \<longleftrightarrow> \<not> bit w j" using that by (auto simp: bit_and_iff bit_exp_iff)
  finally show ?thesis .
qed

lemma bit_or_push_bit_one:
  "j < 64 \<Longrightarrow> bit (w OR 2 ^ j) n \<longleftrightarrow> bit w n \<or> n = j" for w :: u64
  by (auto simp: bit_or_iff bit_exp_iff)

lemma scan_word_spec:
  "case scan_word bm n i j of
     Found k \<Rightarrow> j \<le> k \<and> k < 64 \<and> int (i * 64 + k) < n \<and> \<not> bit bm k \<and> (\<forall>l. j \<le> l \<and> l < k \<longrightarrow> bit bm l)
   | Out_of_slots \<Rightarrow> (\<exists>k. j \<le> k \<and> k < 64 \<and> int (i * 64 + k) \<ge> n \<and> (\<forall>l. j \<le> l \<and> l < k \<longrightarrow> bit bm l))
   | Next_word \<Rightarrow> (\<forall>l. j \<le> l \<and> l < 64 \<longrightarrow> bit bm l)"
proof (induction bm n i j rule: scan_word.induct)
  case (1 bm n i j)
  show ?case
  proof (cases "j < 64 \<and> int (i * 64 + j) < n \<and> bit bm j")
    case True
    then have e: "scan_word bm n i j = scan_word bm n i (Suc j)"
      by (subst scan_word.simps) (auto simp: and_push_bit_one)
    have "(\<forall>l. j \<le> l \<and> l < k \<longrightarrow> bit bm l) \<longleftrightarrow> (\<forall>l. Suc j \<le> l \<and> l < k \<longrightarrow> bit bm l)" for k
      using True by (metis Suc_leD not_less_eq_eq order_antisym)
    moreover have "case scan_word bm n i (Suc j) of
        Found k \<Rightarrow> Suc j \<le> k \<and> k < 64 \<and> int (i * 64 + k) < n \<and> \<not> bit bm k \<and> (\<forall>l. Suc j \<le> l \<and> l < k \<longrightarrow> bit bm l)
      | Out_of_slots \<Rightarrow> (\<exists>k. Suc j \<le> k \<and> k < 64 \<and> int (i * 64 + k) \<ge> n \<and> (\<forall>l. Suc j \<le> l \<and> l < k \<longrightarrow> bit bm l))
      | Next_word \<Rightarrow> (\<forall>l. Suc j \<le> l \<and> l < 64 \<longrightarrow> bit bm l)"
      using True by (intro "1.IH") (auto simp: and_push_bit_one)
    ultimately show ?thesis unfolding e by (auto split: scan.splits dest: Suc_leD)
  next
    case False
    then show ?thesis by (subst scan_word.simps) (auto simp: and_push_bit_one)
  qed
qed

lemma bit_full [simp]: "bit FULLY_ALLOCATED j \<longleftrightarrow> j < 64"
  by (simp add: FULLY_ALLOCATED_def bit_simps)

definition slot_bit :: "u64 list \<Rightarrow> nat \<Rightarrow> bool" where
  "slot_bit b pos \<longleftrightarrow> bit (b ! (pos div 64)) (pos mod 64)"

lemma slot_bit_word: "l < 64 \<Longrightarrow> slot_bit b (i * 64 + l) \<longleftrightarrow> bit (b ! i) l"
  by (simp add: slot_bit_def)

lemma slots_of_word:
  "\<forall>l. l < k \<longrightarrow> bit (b ! i) l \<Longrightarrow> k \<le> 64 \<Longrightarrow> i * 64 \<le> p \<Longrightarrow> p < i * 64 + k \<Longrightarrow> slot_bit b p"
  using slot_bit_word [of "p - i * 64" b i] by simp

lemma scan_bitmap_spec:
  assumes "n \<le> 65536"
  shows "case scan_bitmap b n i of
     None \<Rightarrow> (\<forall>p. i * 64 \<le> p \<and> int p < n \<longrightarrow> slot_bit b p)
   | Some (i', j) \<Rightarrow> i' < BITMAP_SIZE \<and> j < 64 \<and> int (i' * 64 + j) < n \<and> \<not> slot_bit b (i' * 64 + j) \<and>
       (\<forall>p. i * 64 \<le> p \<and> p < i' * 64 + j \<longrightarrow> slot_bit b p)"
  using assms
proof (induction b n i rule: scan_bitmap.induct)
  case (1 b n i)
  show ?case
  proof (cases "i < BITMAP_SIZE")
    case False
    with "1.prems" show ?thesis
      by (subst scan_bitmap.simps) (auto simp: BITMAP_SIZE_def)
  next
    case True
    note w = scan_word_spec [where bm = "b ! i" and n = n and i = i and j = 0]
    define rest where "rest = scan_bitmap b n (Suc i)"
    have step: ?thesis if full: "\<forall>l. l < 64 \<longrightarrow> bit (b ! i) l" and e: "scan_bitmap b n i = rest"
      and IH: "case rest of
         None \<Rightarrow> (\<forall>p. Suc i * 64 \<le> p \<and> int p < n \<longrightarrow> slot_bit b p)
       | Some (i', j) \<Rightarrow> i' < BITMAP_SIZE \<and> j < 64 \<and> int (i' * 64 + j) < n \<and> \<not> slot_bit b (i' * 64 + j) \<and>
           (\<forall>p. Suc i * 64 \<le> p \<and> p < i' * 64 + j \<longrightarrow> slot_bit b p)"
    proof -
      have "slot_bit b p" if "i * 64 \<le> p" "p < Suc i * 64" for p
        using slots_of_word [OF full, of p] that by simp
      then show ?thesis using IH unfolding e by (auto split: option.splits prod.splits) (metis not_less)+
    qed
    show ?thesis
    proof (cases "b ! i = FULLY_ALLOCATED")
      case True
      with \<open>i < BITMAP_SIZE\<close> "1.IH"(1) "1.prems" show ?thesis
        by (intro step) (simp_all add: rest_def scan_bitmap.simps [of b n i])
    next
      case False
      show ?thesis
      proof (cases "scan_word (b ! i) n i 0")
        case (Found k)
        with w have "\<forall>p. i * 64 \<le> p \<and> p < i * 64 + k \<longrightarrow> slot_bit b p"
          using slots_of_word [of k b i] by simp
        with Found w True \<open>b ! i \<noteq> FULLY_ALLOCATED\<close> show ?thesis
          by (subst scan_bitmap.simps) (simp add: slot_bit_word)
      next
        case Out_of_slots
        with w obtain k where "k < 64" "int (i * 64 + k) \<ge> n" "\<forall>l. l < k \<longrightarrow> bit (b ! i) l" by auto
        then have "\<forall>p. i * 64 \<le> p \<and> int p < n \<longrightarrow> slot_bit b p"
          using slots_of_word [of k b i] by auto
        with Out_of_slots True \<open>b ! i \<noteq> FULLY_ALLOCATED\<close> show ?thesis
          by (subst scan_bitmap.simps) simp
      next
        case Next_word
        with w have "\<forall>l. l < 64 \<longrightarrow> bit (b ! i) l" by simp
        with Next_word True False "1.IH"(2) [OF True False Next_word] "1.prems" show ?thesis
          by (intro step) (simp_all add: rest_def scan_bitmap.simps [of b n i])
      qed
    qed
  qed
qed

lemma slot_bit_set:
  assumes "length b = BITMAP_SIZE" "i < BITMAP_SIZE" "j < 64"
  shows "slot_bit (b[i := (b ! i) OR 2 ^ j]) p \<longleftrightarrow> slot_bit b p \<or> p = i * 64 + j"
proof (cases "p div 64 = i")
  case True
  moreover have "p = p div 64 * 64 + p mod 64" by simp
  ultimately have "p = i * 64 + j \<longleftrightarrow> p mod 64 = j" by linarith
  with True assms show ?thesis by (simp add: slot_bit_def bit_or_push_bit_one)
next
  case False
  then show ?thesis using assms by (auto simp: slot_bit_def)
qed

lemma slot_used_bit: "slot_used g p = slot_bit (lr_bitmap g) p"
  by (simp add: slot_used_def slot_bit_def)

section \<open>Properties\<close>

text \<open>
  Allocating log memory takes the first free slot, returns its address, marks exactly that
  slot and keeps the bitmap well-formed, so no slot is handed out twice; it returns NULL, with
  the bitmap unchanged, exactly when every slot is in use.
\<close>

theorem port_alloc_tvlog_mem_first_free:
  assumes "region_wf g"
  shows "case port_alloc_tvlog_mem g of
     (None, g') \<Rightarrow> g' = g \<and> (\<forall>p. int p < lr_num g \<longrightarrow> slot_used g p)
   | (Some a, g') \<Rightarrow> \<exists>p. int p < lr_num g \<and> \<not> slot_used g p \<and> (\<forall>q < p. slot_used g q) \<and>
       a = g_start_addr g + of_nat p * lr_size g \<and> region_wf g' \<and>
       (\<forall>q. slot_used g' q \<longleftrightarrow> slot_used g q \<or> q = p)"
proof -
  note sp = scan_bitmap_spec [where n = "lr_num g" and b = "lr_bitmap g" and i = 0]
  show ?thesis
  proof (cases "scan_bitmap (lr_bitmap g) (lr_num g) 0")
    case None
    with sp assms show ?thesis
      by (simp add: port_alloc_tvlog_mem_def region_wf_def slot_used_bit)
  next
    case (Some ij)
    then obtain i j where ij: "scan_bitmap (lr_bitmap g) (lr_num g) 0 = Some (i, j)" by (cases ij) auto
    with sp assms have f: "i < BITMAP_SIZE" "j < 64" "int (i * 64 + j) < lr_num g"
      "\<not> slot_bit (lr_bitmap g) (i * 64 + j)" "\<forall>q < i * 64 + j. slot_bit (lr_bitmap g) q"
      by (auto simp: region_wf_def)
    have "\<forall>q. slot_bit ((lr_bitmap g)[i := (lr_bitmap g ! i) OR push_bit j 1]) q
              \<longleftrightarrow> slot_bit (lr_bitmap g) q \<or> q = i * 64 + j"
      using assms f by (simp add: slot_bit_set region_wf_def)
    with f assms ij show ?thesis
      unfolding port_alloc_tvlog_mem_def slot_used_bit
      by (auto simp: region_wf_def intro!: exI [of _ "i * 64 + j"])
  qed
qed

theorem port_alloc_tvlog_mem_first_free_witness:
  "\<exists>g'. port_alloc_tvlog_mem \<lparr>lr_size = 4096, lr_num = 2, lr_bitmap = replicate 1024 1, g_start_addr = 65536, g_end_addr = 73728\<rparr>
      = (Some (65536 + 4096), g')"
proof -
  let ?g = "\<lparr>lr_size = 4096, lr_num = 2, lr_bitmap = replicate 1024 1, g_start_addr = 65536, g_end_addr = 73728\<rparr>"
  have wf: "region_wf ?g" by (simp add: region_wf_def BITMAP_SIZE_def)
  have u: "slot_used ?g 0" "\<not> slot_used ?g 1" by (simp_all add: slot_used_def bit_simps)
  note f = port_alloc_tvlog_mem_first_free [OF wf]
  obtain r g' where r: "port_alloc_tvlog_mem ?g = (r, g')" by (cases "port_alloc_tvlog_mem ?g") auto
  with f u obtain p where "r = Some (65536 + of_nat p * 4096)" "int p < 2" "\<not> slot_used ?g p"
    by (cases r) force+
  moreover then have "p = 1" using u(1) by (cases p) auto
  ultimately show ?thesis using r by simp
qed

text \<open>
  C38. Freeing does not release the slot that was allocated: in the first bitmap word the shift
  amount is negative (undefined), and freeing slot \<open>64 + k\<close> with \<open>0 < k < 64\<close> clears the bit
  of slot \<open>64 + k - 1\<close> instead.
\<close>

theorem port_free_tvlog_mem_wrong_slot:
  assumes "region_wf g" and "0 < unat (lr_size g)" and "unat (lr_size g) * 128 < 2 ^ 64" and "pos < 128"
  shows "port_free_tvlog_mem (g_start_addr g + of_nat pos * lr_size g) g =
     (if pos \<le> 64 then None
      else Some (g\<lparr>lr_bitmap := (lr_bitmap g)[1 := (lr_bitmap g ! 1) AND NOT (push_bit (pos - 65) 1)]\<rparr>))"
proof -
  have "unat (of_nat pos * lr_size g) = pos * unat (lr_size g)"
  proof -
    have "pos * unat (lr_size g) \<le> 128 * unat (lr_size g)" using assms(4) by (intro mult_right_mono) auto
    then have "pos * unat (lr_size g) < 2 ^ 64" using assms(3) by linarith
    moreover have "unat (of_nat pos :: u64) = pos" using assms(4) by (simp add: unat_of_nat)
    ultimately show ?thesis by (simp add: unat_word_ariths)
  qed
  then have "unat ((of_nat pos * lr_size g) div lr_size g) = pos"
    using assms(2) by (simp add: unat_div)
  then have "(of_nat pos * lr_size g) div lr_size g = of_nat pos"
    using assms(4) by (simp add: word_unat_eq_iff unat_of_nat)
  moreover have "sint (ucast (of_nat pos :: u64) :: u32) = int pos"
    using assms(4) by (subst sint_ucast_u32) (simp_all add: unat_of_nat)
  ultimately have p: "sint (ucast ((of_nat pos * lr_size g) div lr_size g) :: u32) = int pos"
    by simp
  show ?thesis
  proof (cases "pos < 64")
    case True
    then show ?thesis by (simp add: port_free_tvlog_mem_def Let_def p)
  next
    case False
    then have "int pos div 64 = 1" using assms(4) by simp
    with False assms(4) show ?thesis
      by (auto simp: port_free_tvlog_mem_def Let_def p nat_diff_distrib')
  qed
qed

theorem port_free_tvlog_mem_wrong_slot_witness:
  "port_free_tvlog_mem (65536 + of_nat 70 * 4096)
      \<lparr>lr_size = 4096, lr_num = 128, lr_bitmap = replicate 1024 (- 1), g_start_addr = 65536, g_end_addr = 589824\<rparr>
    = Some \<lparr>lr_size = 4096, lr_num = 128, lr_bitmap = (replicate 1024 (- 1))[1 := (replicate 1024 (- 1) ! 1) AND NOT (push_bit 5 1)],
            g_start_addr = 65536, g_end_addr = 589824\<rparr>"
  using port_free_tvlog_mem_wrong_slot
    [of "\<lparr>lr_size = 4096, lr_num = 128, lr_bitmap = replicate 1024 (- 1), g_start_addr = 65536, g_end_addr = 589824\<rparr>" 70]
  by (simp add: region_wf_def BITMAP_SIZE_def)

end
