(* ===== verification/TsState.thy ===== *)
theory TsState
  imports NvStore PtrSet TsList Clock TvRegion
begin

text \<open>
  The state the transaction operations work on (\<open>src/lib/timestone_i.h\<close>): actual objects and
  their volatile headers, the copies in the transient version logs, the entries of the operation
  and checkpoint logs, the thread structures, the qp thread and the global lists; and the object
  access functions of \<open>src/lib/util.h\<close> and the statistics functions of \<open>src/lib/debug.h\<close>.

  A pointer names what it points to (\<open>ptr\<close>): \<open>Cpy t i\<close> is the copy whose header lies at byte
  index \<open>i\<close> of the version log of thread \<open>t\<close>, \<open>Ckpt t i\<close> the entry of its checkpoint log. An
  access through a pointer that leads nowhere is \<open>None\<close>. The bytes of an object are a list; the
  assertions of the sources (\<open>ts_assert\<close>) are compiled out by default and are not branches.
\<close>

section \<open>Enumerations\<close>

datatype status = STATUS_NONE | STATUS_TOMBSTONE_MARKED | STATUS_DETACHED
datatype live_status = THREAD_LIVE | THREAD_LIVE_ZOMBIE | THREAD_DEAD_ZOMBIE

definition RECLAIM_TVLOG_BEST_EFFORT :: u8 where "RECLAIM_TVLOG_BEST_EFFORT = 0x10"
definition RECLAIM_TVLOG_CKPT :: u8 where "RECLAIM_TVLOG_CKPT = 0x11"
definition RECLAIM_CKPTLOG_BEST_EFFORT :: u8 where "RECLAIM_CKPTLOG_BEST_EFFORT = 0x20"
definition RECLAIM_CKPTLOG_WRITEBACK :: u8 where "RECLAIM_CKPTLOG_WRITEBACK = 0x21"
definition RECLAIM_CKPTLOG_WRITEBACK_ALL :: u8 where "RECLAIM_CKPTLOG_WRITEBACK_ALL = 0x22"
definition RECLAIM_OPLOG_NORMAL :: u8 where "RECLAIM_OPLOG_NORMAL = 0x30"
definition RECLAIM_OPLOG_FORCE :: u8 where "RECLAIM_OPLOG_FORCE = 0x31"

datatype stat_name =
    n_starts | n_finish | n_aborts | n_aborts_validation | n_flush_new_act_bytes
  | n_alloc_act_obj_bytes | n_tvlog_best_effort | n_tvlog_ckpt | n_tvlog_cpobj_written_bytes
  | n_tvlog_written_bytes | n_tvlog_reclaimed_bytes | n_tvlog_ckpt_bytes | n_oplog_reclaim
  | n_oplog_reclaimed_ops | n_oplog_reclaimed_bytes | n_oplog_written_bytes
  | n_ckptlog_best_effort | n_ckptlog_writeback | n_ckptlog_reclaimed_bytes
  | n_ckptlog_writeback_bytes | n_qp_detect | n_qp_nap

type_synonym stat = "stat_name \<Rightarrow> u64"

section \<open>Statistics (debug.h)\<close>

definition stat_reset :: stat where "stat_reset = (\<lambda>_. 0)"

definition stat_atomic_merge :: "stat \<Rightarrow> stat \<Rightarrow> stat" where
  "stat_atomic_merge tgt src = (\<lambda>i. tgt i + src i)"

definition stat_inc :: "stat \<Rightarrow> stat_name \<Rightarrow> stat" where "stat_inc st s = st(s := st s + 1)"
definition stat_acc :: "stat \<Rightarrow> stat_name \<Rightarrow> u64 \<Rightarrow> stat" where "stat_acc st s v = st(s := st s + v)"
definition stat_asgn :: "stat \<Rightarrow> stat_name \<Rightarrow> u64 \<Rightarrow> stat" where "stat_asgn st s v = st(s := v)"
definition stat_max :: "stat \<Rightarrow> stat_name \<Rightarrow> u64 \<Rightarrow> stat" where
  "stat_max st s v = (if v > st s then st(s := v) else st)"

section \<open>Objects\<close>

text \<open>An actual object with its non-volatile header (\<open>ts_act_hdr_struct_t\<close> and the object).\<close>

record act_obj =
  a_vhdr :: "nat option"
  a_gen_id :: u64
  a_index :: int
  a_obj_size :: u32
  a_type :: obj_type
  a_data :: bytes

text \<open>\<open>ts_act_vhdr_t\<close>.\<close>

record act_vhdr =
  p_copy :: ptr
  p_lock :: ptr
  np_org_act :: ptr
  np_cur_act :: ptr
  tombstone_clk :: u64

text \<open>\<open>ts_wrt_set_t\<close>.\<close>

record wrt_set =
  ws_wrt_clk :: u64
  pending_wrt_clk :: u64
  num_objs :: u32
  start_tail_cnt :: u64
  ws_thread :: nat

datatype chs_body = No_body | Data bytes | Ws wrt_set

text \<open>
  \<open>ts_cpy_hdr_struct_t\<close>: copy header and object header, with the object behind it. The write set
  of a copy lies in the same version log, so \<open>p_ws\<close> is the index of its entry.
\<close>

record chs =
  p_ws :: "u32 option"
  c_wrt_clk :: u64
  wrt_clk_next :: u64
  wrt_clk_prev :: u64
  c_p_copy :: ptr
  c_vhdr :: "nat option"
  c_obj_size :: u32
  c_padding_size :: u16
  c_type :: obj_type
  c_status :: status
  c_body :: chs_body

definition sizeof_chs_hdr :: u32 where "sizeof_chs_hdr = 56"
definition sizeof_ws :: u32 where "sizeof_ws = 40"
definition sizeof_wss :: u32 where "sizeof_wss = 96"
definition TS_AHS_SIZE :: u32 where "TS_AHS_SIZE = 40"

text \<open>\<open>memset\<close> of a header; the body keeps no meaning.\<close>

definition zero_chs :: chs where
  "zero_chs = \<lparr>p_ws = None, c_wrt_clk = 0, wrt_clk_next = 0, wrt_clk_prev = 0, c_p_copy = Null, c_vhdr = None,
     c_obj_size = 0, c_padding_size = 0, c_type = TYPE_ACTUAL, c_status = STATUS_NONE, c_body = No_body\<rparr>"

section \<open>Log entries\<close>

text \<open>The bodies of operation log and checkpoint log entries.\<close>

record op_entry_hdr =
  oe_local_clk :: u64
  oe_op_type :: u64
  oe_opd :: bytes

record ckpt_entry_hdr =
  ckpt_s_clk :: u64
  ck_np_org_act :: ptr
  ck_tombstone :: bool
  ck_obj_size :: u32
  ck_type :: obj_type
  ck_data :: bytes

datatype nv_body = OpBody op_entry_hdr | CkBody ckpt_entry_hdr

type_synonym log = "nv_body nvlog"
type_synonym log_entry = "nv_body nv_entry"

definition sizeof_op_entry_hdr :: u32 where "sizeof_op_entry_hdr = 16"
definition sizeof_ckpt_entry_hdr :: u32 where "sizeof_ckpt_entry_hdr = 24"
definition sizeof_obj_hdr :: u32 where "sizeof_obj_hdr = 8"
definition TS_MAX_OPERAND_SIZE :: u32 where "TS_MAX_OPERAND_SIZE = 256 - sizeof_op_entry_hdr"

section \<open>Threads and the system\<close>

record sys_clks =
  qp0 :: u64
  qp1 :: u64
  qp2 :: u64
  last_ckpt :: u64
  min_ckpt_reclaimed :: u64

text \<open>\<open>ts_reclaim_t\<close>: \<open>requested\<close> overlays the two bytes (and two that stay zero).\<close>

record reclaim =
  rq_tvlog :: u8
  rq_ckptlog :: u8

definition requested :: "reclaim \<Rightarrow> bool" where
  "requested r \<longleftrightarrow> rq_tvlog r \<noteq> 0 \<or> rq_ckptlog r \<noteq> 0"

record tvlog =
  tv_reclaim_lock :: u32
  tv_head_cnt :: u64
  tv_tail_cnt :: u64
  tv_prev_head_cnt :: u64
  cur_wrt_set :: "u32 option"
  tv_buffer :: "u64 option"
  tv_mem :: "u32 \<rightharpoonup> chs"

record op_info =
  op_curr :: u32
  op_type :: u64
  op_opd :: bytes

record isolation =
  iso_level :: int
  stale_read_occured :: bool
  read_set :: ptr_set

record qp_info =
  need_wait :: u32
  qi_run_cnt :: u32

text \<open>
  \<open>ts_thread_struct_t\<close>. \<open>oplog_p\<close> and \<open>ckptlog_p\<close> are the addresses of the two log stores; the
  pointers from a log back to the clocks, the reclaim flags and the free set of its thread are
  the fields of the thread itself, and \<open>ckptlog_free_set\<close> says whether the pointer from the
  checkpoint log to the free set was set.
\<close>

record thread =
  tid :: u32
  in_recovery_mode :: bool
  is_write_detected :: bool
  isolation :: isolation
  tx_alloc_set :: ptr_set
  tx_free_set :: ptr_set
  ckpt_free_set :: ptr_set
  stat :: stat
  op_info :: op_info
  run_cnt :: u32
  live_status :: live_status
  local_clk :: u64
  clks :: sys_clks
  qp_info :: qp_info
  reclaim :: reclaim
  tvlog :: tvlog
  oplog :: log
  oplog_p :: "nat option"
  ckptlog :: log
  ckptlog_p :: "nat option"
  ckptlog_free_set :: bool

record qp_thread =
  qp_clks :: sys_clks
  stop_requested :: bool
  qp_reclaim :: reclaim
  qp_stat :: stat
  wakeups :: nat

datatype node = Live_head | Zombie_head | Thread_node nat

record sys =
  acts :: "nat \<rightharpoonup> act_obj"
  vhdrs :: "nat \<rightharpoonup> act_vhdr"
  thrs :: "nat \<rightharpoonup> thread"
  qp :: qp_thread
  live_threads :: "node thread_list"
  zombie_threads :: "node thread_list"
  links :: "node lstore"
  root :: "nv_body nvm_root"
  region :: tvlog_region
  gen_id :: u64
  g_stat :: stat
  now :: nat

section \<open>Updates\<close>

definition upd_thr :: "nat \<Rightarrow> (thread \<Rightarrow> thread) \<Rightarrow> sys \<Rightarrow> sys" where
  "upd_thr t f s = s\<lparr>thrs := (thrs s)(t := map_option f (thrs s t))\<rparr>"

definition upd_vhdr :: "nat \<Rightarrow> (act_vhdr \<Rightarrow> act_vhdr) \<Rightarrow> sys \<Rightarrow> sys" where
  "upd_vhdr v f s = s\<lparr>vhdrs := (vhdrs s)(v := map_option f (vhdrs s v))\<rparr>"

definition upd_act :: "nat \<Rightarrow> (act_obj \<Rightarrow> act_obj) \<Rightarrow> sys \<Rightarrow> sys" where
  "upd_act a f s = s\<lparr>acts := (acts s)(a := map_option f (acts s a))\<rparr>"

definition upd_tvlog :: "nat \<Rightarrow> (tvlog \<Rightarrow> tvlog) \<Rightarrow> sys \<Rightarrow> sys" where
  "upd_tvlog t f = upd_thr t (\<lambda>th. th\<lparr>tvlog := f (tvlog th)\<rparr>)"

definition upd_chs :: "nat \<Rightarrow> u32 \<Rightarrow> (chs \<Rightarrow> chs) \<Rightarrow> sys \<Rightarrow> sys" where
  "upd_chs t i f = upd_tvlog t (\<lambda>l. l\<lparr>tv_mem := (tv_mem l)(i := map_option f (tv_mem l i))\<rparr>)"

definition get_chs :: "sys \<Rightarrow> nat \<Rightarrow> u32 \<Rightarrow> chs option" where
  "get_chs s t i = do { th \<leftarrow> thrs s t; tv_mem (tvlog th) i }"

definition get_ckpt :: "sys \<Rightarrow> nat \<Rightarrow> u32 \<Rightarrow> ckpt_entry_hdr option" where
  "get_ckpt s t i = do {
     th \<leftarrow> thrs s t;
     e \<leftarrow> nvlog_mem (ckptlog th) i;
     (case e_body e of Some (CkBody c) \<Rightarrow> Some c | _ \<Rightarrow> None) }"

definition get_ws :: "sys \<Rightarrow> nat \<Rightarrow> u32 \<Rightarrow> wrt_set option" where
  "get_ws s t i = do {
     c \<leftarrow> get_chs s t i;
     (case c_body c of Ws w \<Rightarrow> Some w | _ \<Rightarrow> None) }"

definition upd_ws :: "nat \<Rightarrow> u32 \<Rightarrow> (wrt_set \<Rightarrow> wrt_set) \<Rightarrow> sys \<Rightarrow> sys" where
  "upd_ws t i f = upd_chs t i (\<lambda>c. case c_body c of Ws w \<Rightarrow> c\<lparr>c_body := Ws (f w)\<rparr> | _ \<Rightarrow> c)"

definition stat_thread :: "nat \<Rightarrow> (stat \<Rightarrow> stat) \<Rightarrow> sys \<Rightarrow> sys" where
  "stat_thread t f = upd_thr t (\<lambda>th. th\<lparr>stat := f (stat th)\<rparr>)"

section \<open>Object access (util.h)\<close>

text \<open>The copy a pointer leads to (\<open>vobj_to_chs\<close>).\<close>

definition cpy_of :: "ptr \<Rightarrow> (nat \<times> u32) option" where
  "cpy_of p = (case p of Cpy t i \<Rightarrow> Some (t, i) | _ \<Rightarrow> None)"

lemma cpy_of_simps [simp]:
  "cpy_of (Cpy t i) = Some (t, i)" "cpy_of Null = None"
  by (simp_all add: cpy_of_def)

text \<open>The type in the object header in front of an object.\<close>

definition obj_to_obj_type :: "sys \<Rightarrow> ptr \<Rightarrow> obj_type option" where
  "obj_to_obj_type s p =
     (case p of
        Act a \<Rightarrow> map_option a_type (acts s a)
      | Cpy t i \<Rightarrow> map_option c_type (get_chs s t i)
      | Ckpt t i \<Rightarrow> map_option ck_type (get_ckpt s t i)
      | _ \<Rightarrow> None)"

text \<open>The bytes of an object.\<close>

definition obj_data :: "sys \<Rightarrow> ptr \<Rightarrow> bytes option" where
  "obj_data s p =
     (case p of
        Act a \<Rightarrow> map_option a_data (acts s a)
      | Cpy t i \<Rightarrow> do { c \<leftarrow> get_chs s t i; (case c_body c of Data d \<Rightarrow> Some d | _ \<Rightarrow> None) }
      | Ckpt t i \<Rightarrow> map_option ck_data (get_ckpt s t i)
      | _ \<Rightarrow> None)"

text \<open>\<open>is_obj_actual\<close> tests whether the address lies in the region of the version logs.\<close>

definition is_obj_actual :: "ptr \<Rightarrow> bool" where
  "is_obj_actual p = (case p of Cpy t i \<Rightarrow> False | _ \<Rightarrow> True)"

text \<open>The address of the actual object whose non-volatile header is that of an object.\<close>

definition get_act_nvhdr :: "sys \<Rightarrow> ptr \<Rightarrow> nat option" where
  "get_act_nvhdr s obj = do {
     obj \<leftarrow> (if \<not> is_obj_actual obj
             then (case obj of
                     Cpy t i \<Rightarrow> do { c \<leftarrow> get_chs s t i; v \<leftarrow> c_vhdr c; h \<leftarrow> vhdrs s v; Some (np_org_act h) }
                   | _ \<Rightarrow> None)
             else Some obj);
     (case obj of Act a \<Rightarrow> if acts s a = None then None else Some a | _ \<Rightarrow> None) }"

text \<open>
  The volatile header of an object, or NULL (\<open>Some None\<close>); an object of another type falls into
  the default branch and gives NULL.
\<close>

definition get_act_vhdr :: "sys \<Rightarrow> ptr \<Rightarrow> nat option option" where
  "get_act_vhdr s obj = do {
     ty \<leftarrow> obj_to_obj_type s obj;
     (case (ty, obj) of
        (TYPE_ACTUAL, Act a) \<Rightarrow> map_option a_vhdr (acts s a)
      | (TYPE_NVLOG_ENTRY, Ckpt t i) \<Rightarrow> do {
          c \<leftarrow> get_ckpt s t i;
          (case ck_np_org_act c of Act a \<Rightarrow> map_option a_vhdr (acts s a) | _ \<Rightarrow> None) }
      | (TYPE_COPY, Cpy t i) \<Rightarrow> map_option c_vhdr (get_chs s t i)
      | _ \<Rightarrow> Some None) }"

definition get_cur_act_obj :: "sys \<Rightarrow> ptr \<Rightarrow> ptr option" where
  "get_cur_act_obj s obj = do {
     v \<leftarrow> get_act_vhdr s obj;
     (case v of Some v \<Rightarrow> map_option np_cur_act (vhdrs s v) | None \<Rightarrow> Some obj) }"

definition get_org_act_obj :: "sys \<Rightarrow> ptr \<Rightarrow> ptr option" where
  "get_org_act_obj s obj = do {
     v \<leftarrow> get_act_vhdr s obj;
     (case v of Some v \<Rightarrow> map_option np_org_act (vhdrs s v) | None \<Rightarrow> Some obj) }"

text \<open>\<open>get_entry_size\<close> adds a 32-bit and a 16-bit field.\<close>

definition get_entry_size :: "chs \<Rightarrow> u32" where
  "get_entry_size c = c_obj_size c + ucast (c_padding_size c)"

definition sizeof_chs :: "chs \<Rightarrow> u32" where
  "sizeof_chs c = sizeof_chs_hdr + get_entry_size c"

text \<open>\<open>alloc_act_vhdr\<close>; \<open>mem\<close> is the result of the allocator.\<close>

definition alloc_act_vhdr :: "nat option \<Rightarrow> ptr \<Rightarrow> sys \<Rightarrow> nat option \<times> sys" where
  "alloc_act_vhdr mem np s =
     (case mem of
        None \<Rightarrow> (None, s)
      | Some v \<Rightarrow>
          (Some v, s\<lparr>vhdrs := (vhdrs s)(v \<mapsto>
             \<lparr>p_copy = Null, p_lock = Null, np_org_act = np, np_cur_act = np, tombstone_clk = MAX_VERSION\<rparr>)\<rparr>))"

definition free_act_vhdr :: "nat \<Rightarrow> sys \<Rightarrow> sys" where
  "free_act_vhdr v s = s\<lparr>vhdrs := (vhdrs s)(v := None)\<rparr>"

section \<open>Reads after updates\<close>

lemma thrs_upd_thr [store_simps]:
  "thrs (upd_thr t f s) t' = (if t' = t then map_option f (thrs s t) else thrs s t')"
  by (simp add: upd_thr_def)

lemma upd_thr_other [store_simps]:
  "acts (upd_thr t f s) = acts s" "vhdrs (upd_thr t f s) = vhdrs s" "qp (upd_thr t f s) = qp s"
  "root (upd_thr t f s) = root s" "now (upd_thr t f s) = now s" "gen_id (upd_thr t f s) = gen_id s"
  by (simp_all add: upd_thr_def)

lemma upd_vhdr_reads [store_simps]:
  "vhdrs (upd_vhdr v f s) v' = (if v' = v then map_option f (vhdrs s v) else vhdrs s v')"
  "thrs (upd_vhdr v f s) = thrs s" "acts (upd_vhdr v f s) = acts s" "qp (upd_vhdr v f s) = qp s"
  "root (upd_vhdr v f s) = root s" "now (upd_vhdr v f s) = now s" "gen_id (upd_vhdr v f s) = gen_id s"
  by (simp_all add: upd_vhdr_def)

lemma upd_act_reads [store_simps]:
  "acts (upd_act a f s) a' = (if a' = a then map_option f (acts s a) else acts s a')"
  "thrs (upd_act a f s) = thrs s" "vhdrs (upd_act a f s) = vhdrs s" "qp (upd_act a f s) = qp s"
  "root (upd_act a f s) = root s" "now (upd_act a f s) = now s" "gen_id (upd_act a f s) = gen_id s"
  by (simp_all add: upd_act_def)

lemma get_chs_upd_vhdr [store_simps]: "get_chs (upd_vhdr v f s) t i = get_chs s t i"
  by (simp add: get_chs_def upd_vhdr_def)

lemma get_chs_upd_act [store_simps]: "get_chs (upd_act v f s) t i = get_chs s t i"
  by (simp add: get_chs_def upd_act_def)

lemma get_chs_upd_chs [store_simps]:
  "get_chs (upd_chs t i f s) t' i' =
     (if t' = t \<and> i' = i then map_option f (get_chs s t i) else get_chs s t' i')"
  by (cases "thrs s t") (auto simp: get_chs_def upd_chs_def upd_tvlog_def upd_thr_def)

lemma get_chs_upd_thr [store_simps]:
  "(\<And>th. tvlog (f th) = tvlog th) \<Longrightarrow> get_chs (upd_thr t f s) t' i = get_chs s t' i"
  by (cases "thrs s t") (auto simp: get_chs_def upd_thr_def)

lemma upd_chs_other [store_simps]:
  "acts (upd_chs t i f s) = acts s" "vhdrs (upd_chs t i f s) = vhdrs s" "qp (upd_chs t i f s) = qp s"
  "root (upd_chs t i f s) = root s" "now (upd_chs t i f s) = now s" "gen_id (upd_chs t i f s) = gen_id s"
  by (simp_all add: upd_chs_def upd_tvlog_def upd_thr_def)

lemma get_ws_upd_vhdr [store_simps]: "get_ws (upd_vhdr v f s) t i = get_ws s t i"
  by (simp add: get_ws_def get_chs_upd_vhdr)

section \<open>Reclamation requests (qp.c)\<close>

text \<open>
  \<open>_request_reclaim\<close>: a request is recorded, and the qp thread woken up, only when it is stronger
  than the one that is pending. It returns whether it was recorded.
\<close>

definition request_reclaim :: "u8 \<Rightarrow> u8 \<Rightarrow> bool \<times> u8" where
  "request_reclaim old_req new_req = (if new_req > old_req then (True, new_req) else (False, old_req))"

definition wakeup_qp_thread :: "sys \<Rightarrow> sys" where
  "wakeup_qp_thread s = s\<lparr>qp := (qp s)\<lparr>wakeups := Suc (wakeups (qp s))\<rparr>\<rparr>"

definition request_tvlog_reclaim :: "u8 \<Rightarrow> sys \<Rightarrow> bool \<times> sys" where
  "request_tvlog_reclaim new_req s =
     (let r = qp_reclaim (qp s); (ok, v) = request_reclaim (rq_tvlog r) new_req;
          s = s\<lparr>qp := (qp s)\<lparr>qp_reclaim := r\<lparr>rq_tvlog := v\<rparr>\<rparr>\<rparr>
      in if ok then (True, wakeup_qp_thread s) else (False, s))"

definition request_ckptlog_reclaim :: "u8 \<Rightarrow> sys \<Rightarrow> bool \<times> sys" where
  "request_ckptlog_reclaim new_req s =
     (let r = qp_reclaim (qp s); (ok, v) = request_reclaim (rq_ckptlog r) new_req;
          s = s\<lparr>qp := (qp s)\<lparr>qp_reclaim := r\<lparr>rq_ckptlog := v\<rparr>\<rparr>\<rparr>
      in if ok then (True, wakeup_qp_thread s) else (False, s))"

lemma request_other [store_simps]:
  "acts (snd (request_tvlog_reclaim r s)) = acts s" "vhdrs (snd (request_tvlog_reclaim r s)) = vhdrs s"
  "thrs (snd (request_tvlog_reclaim r s)) = thrs s" "root (snd (request_tvlog_reclaim r s)) = root s"
  "acts (snd (request_ckptlog_reclaim r s)) = acts s" "vhdrs (snd (request_ckptlog_reclaim r s)) = vhdrs s"
  "thrs (snd (request_ckptlog_reclaim r s)) = thrs s" "root (snd (request_ckptlog_reclaim r s)) = root s"
  by (simp_all add: request_tvlog_reclaim_def request_ckptlog_reclaim_def wakeup_qp_thread_def Let_def
      split: prod.splits)

end
