(* ===== verification/Fixtures.thy ===== *)
theory Fixtures
  imports TsState
begin

text \<open>
  Concrete states the witnesses of the development evaluate: a thread with empty logs of the
  configured sizes, and a system with that thread.
\<close>

definition zero_clks :: sys_clks where
  "zero_clks = \<lparr>qp0 = 0, qp1 = 0, qp2 = 0, last_ckpt = MIN_VERSION, min_ckpt_reclaimed = MAX_VERSION\<rparr>"

definition empty_set :: ptr_set where
  "empty_set = \<lparr>num_ptrs = 0, num_max_ptrs = 0, ptrs = None\<rparr>"

definition demo_big_store :: "nv_body nvlog_store" where
  "demo_big_store =
     \<lparr>s_head_cnt = 0, s_tail_cnt = 0, s_buffer_raw = 0, s_buffer = 0, s_mem = Map.empty,
      s_log_size = TS_OPLOG_SIZE, s_mask = NOT (TS_OPLOG_SIZE - 1), s_type = TYPE_OPLOG,
      s_status = STATUS_NVLOG_NORMAL, s_next = None\<rparr>"

definition demo_tvlog :: tvlog where
  "demo_tvlog = \<lparr>tv_reclaim_lock = 0, tv_head_cnt = 0, tv_tail_cnt = 0, tv_prev_head_cnt = 0,
     cur_wrt_set = None, tv_buffer = Some 0, tv_mem = Map.empty\<rparr>"

definition demo_thread :: thread where
  "demo_thread =
     \<lparr>tid = 1, in_recovery_mode = False, is_write_detected = False,
      isolation = \<lparr>iso_level = 0, stale_read_occured = False, read_set = empty_set\<rparr>,
      tx_alloc_set = empty_set, tx_free_set = empty_set, ckpt_free_set = empty_set, stat = stat_reset,
      op_info = \<lparr>op_curr = 0, op_type = 0, op_opd = replicate 240 0\<rparr>, run_cnt = 0, live_status = THREAD_LIVE,
      local_clk = 0, clks = zero_clks, qp_info = \<lparr>need_wait = 0, qi_run_cnt = 0\<rparr>,
      reclaim = \<lparr>rq_tvlog = 0, rq_ckptlog = 0\<rparr>, tvlog = demo_tvlog,
      oplog = nvlog_load demo_big_store, oplog_p = Some 1,
      ckptlog = nvlog_load demo_big_store, ckptlog_p = Some 2, ckptlog_free_set = True\<rparr>"

definition demo_qp :: qp_thread where
  "demo_qp = \<lparr>qp_clks = zero_clks, stop_requested = False, qp_reclaim = \<lparr>rq_tvlog = 0, rq_ckptlog = 0\<rparr>,
     qp_stat = stat_reset, wakeups = 0\<rparr>"

definition demo_list :: "node \<Rightarrow> node thread_list" where
  "demo_list h = \<lparr>tl_lock = False, thread_wait = False, cur_tid = 0, tl_num = 0, tl_list = h\<rparr>"

definition demo_sys :: sys where
  "demo_sys =
     \<lparr>acts = Map.empty, vhdrs = Map.empty, thrs = [1 \<mapsto> demo_thread], qp = demo_qp,
      live_threads = demo_list Live_head, zombie_threads = demo_list Zombie_head,
      links = \<lparr>nxt = Map.empty, prv = Map.empty\<rparr>, root = demo_root,
      region = \<lparr>lr_size = 0, lr_num = 0, lr_bitmap = [], g_start_addr = 0, g_end_addr = 0\<rparr>, gen_id = 1, g_stat = stat_reset, now = 0\<rparr>"

lemma demo_big_rep: "nvlog_rep 20 (nvlog_load demo_big_store) []"
  by (simp add: nvlog_rep_def nvlog_load_def demo_big_store_def nvlog_used_def TS_OPLOG_SIZE_def)

lemma demo_big_entries: "nvlog_entries (nvlog_load demo_big_store) = []"
  using rep_entries [OF demo_big_rep] by simp

end
