(* ===== verification/OpLog.thy ===== *)
theory OpLog
  imports Fixtures
begin

text \<open>
  The operation log of a thread (\<open>src/lib/oplog.c\<close>): every committed transaction appends one entry
  with its operation type, its operands and its time stamps, and the tail is persisted before the
  commit becomes visible; entries older than the last checkpoint are dropped from the head.
\<close>

section \<open>Operations\<close>

abbreviation upd_oplog :: "nat \<Rightarrow> (log \<Rightarrow> log) \<Rightarrow> sys \<Rightarrow> sys" where
  "upd_oplog t f \<equiv> upd_thr t (\<lambda>th. th\<lparr>oplog := f (oplog th)\<rparr>)"

definition oplog_create ::
  "nat \<Rightarrow> nat option \<Rightarrow> (u64 \<times> nv_body nv_mem) option \<Rightarrow> u64 \<Rightarrow> nvlog_status \<Rightarrow> sys \<Rightarrow> (errno option \<times> sys) option" where
  "oplog_create self a1 a2 sz st s = do {
     (rc, l, r) \<leftarrow> nvlog_create (root s) a1 a2 sz TYPE_OPLOG st;
     let s = s\<lparr>root := r\<rparr>;
     (case l of
        None \<Rightarrow> Some (rc, s)
      | Some (p, l) \<Rightarrow> Some (rc, upd_thr self (\<lambda>th. th\<lparr>oplog := l, oplog_p := Some p\<rparr>) s)) }"

definition oplog_destroy :: "nat \<Rightarrow> sys \<Rightarrow> sys option" where
  "oplog_destroy self s = do {
     th \<leftarrow> thrs s self;
     (r, p, l) \<leftarrow> nvlog_destroy (root s) (oplog_p th, oplog th);
     Some (upd_thr self (\<lambda>th. th\<lparr>oplog := l, oplog_p := p\<rparr>) (s\<lparr>root := r\<rparr>)) }"

text \<open>
  \<open>oplog_enq\<close>: when \<open>nvlog_enq\<close> returns NULL the entry is written through the null pointer
  (\<open>None\<close>); copying more operand bytes than the buffer of the thread holds is \<open>None\<close> too.
\<close>

definition oplog_enq :: "nat \<Rightarrow> u64 \<Rightarrow> u64 \<Rightarrow> op_info \<Rightarrow> sys \<Rightarrow> (u32 \<times> sys) option" where
  "oplog_enq self lclk wclk info s = do {
     th \<leftarrow> thrs s self;
     (if length (op_opd info) < unat (op_curr info) then None
      else
        (case nvlog_enq (oplog th) (sizeof_op_entry_hdr + op_curr info) of
           (None, l) \<Rightarrow> None
         | (Some i, l) \<Rightarrow>
             let l = nvlog_fill i wclk
                       (OpBody \<lparr>oe_local_clk = lclk, oe_op_type = op_type info,
                                oe_opd = take (unat (op_curr info)) (op_opd info)\<rparr>) l
             in Some (i, stat_thread self (\<lambda>st. stat_asgn st n_oplog_written_bytes (tail_cnt l))
                          (upd_oplog self (\<lambda>_. l) s)))) }"

definition oplog_enq_persist :: "nat \<Rightarrow> sys \<Rightarrow> sys" where
  "oplog_enq_persist self s = upd_oplog self (\<lambda>l. snd (nvlog_enq_persist l)) s"

definition oplog_deq :: "log \<Rightarrow> (log_entry option \<times> log) option" where
  "oplog_deq l = nvlog_deq l"

definition oplog_deq_persist :: "log \<Rightarrow> log" where
  "oplog_deq_persist l = snd (nvlog_deq_persist l)"

definition oplog_peek_head :: "log \<Rightarrow> (log_entry option \<times> log) option" where
  "oplog_peek_head l = nvlog_peek_head l"

definition oplog_used :: "log \<Rightarrow> u64" where
  "oplog_used l = nvlog_used l"

text \<open>
  The loop of \<open>oplog_reclaim\<close> is a drain of the log; its fuel is the number of live bytes, and an
  entry has more than one.
\<close>

definition oplog_reclaim :: "nat \<Rightarrow> u8 \<Rightarrow> sys \<Rightarrow> (bool \<times> sys) option" where
  "oplog_reclaim self force s = do {
     th \<leftarrow> thrs s self;
     let (ok, lock) = try_lock (reclaim_lock (oplog th));
     (if \<not> ok then Some (False, s)
      else do {
        let l = (oplog th)\<lparr>reclaim_lock := lock\<rparr>;
        let old_head_cnt = head_cnt l;
        let last = last_ckpt (clks th);
        (reclaimed_ops, l) \<leftarrow>
          log_drain oplog_peek_head oplog_deq
            (\<lambda>e. lt_clock (e_wrt_clk e) last \<or> force = RECLAIM_OPLOG_FORCE)
            (Suc (unat (oplog_used l))) l;
        let (l, s) =
          (if head_cnt l \<noteq> old_head_cnt
           then (oplog_deq_persist l,
                 stat_thread self
                   (\<lambda>st. stat_acc (stat_acc (stat_inc st n_oplog_reclaim) n_oplog_reclaimed_ops (of_nat reclaimed_ops))
                           n_oplog_reclaimed_bytes (head_cnt l - old_head_cnt)) s)
           else (l, s));
        Some (True, upd_oplog self (\<lambda>_. l\<lparr>reclaim_lock := unlock (reclaim_lock l)\<rparr>) s) }) }"

definition oplog_try_request_ckpt_if_needed :: "nat \<Rightarrow> sys \<Rightarrow> (bool \<times> sys) option" where
  "oplog_try_request_ckpt_if_needed self s = do {
     th \<leftarrow> thrs s self;
     (if oplog_used (oplog th) \<ge> TS_OPLOG_HIGH_MARK then do {
        (_, s) \<leftarrow> oplog_reclaim self RECLAIM_OPLOG_NORMAL s;
        th \<leftarrow> thrs s self;
        (if oplog_used (oplog th) \<ge> TS_OPLOG_HIGH_MARK
         then Some (True, snd (request_tvlog_reclaim RECLAIM_TVLOG_CKPT s))
         else Some (False, s)) }
      else Some (False, s)) }"

section \<open>The queue of operations\<close>

interpretation opq: fifo_log nvlog_wf nvlog_entries oplog_peek_head oplog_deq
  unfolding oplog_peek_head_def oplog_deq_def by (rule nvq.fifo_log_axioms)

lemma length_le_total:
  "tiles k m c es \<Longrightarrow> length es \<le> total_size es"
proof (induction es arbitrary: c)
  case (Cons e es)
  then have "length es \<le> total_size es" "0 < unat (e_size e)" by (auto simp: unat_gt_0)
  then show ?case by simp
qed simp

lemma entries_le_used: "nvlog_wf l \<Longrightarrow> length (nvlog_entries l) < Suc (unat (nvlog_used l))"
proof -
  assume "nvlog_wf l"
  then obtain k es where r: "nvlog_rep k l es" "nvlog_entries l = filter is_real es" by (rule wf_repE)
  then have "length es \<le> total_size es" "unat (nvlog_used l) = total_size es"
    by (auto simp: nvlog_rep_def unat_total [of k] intro: length_le_total)
  then show ?thesis unfolding r(2) using length_filter_le [of is_real es] by linarith
qed

text \<open>Fields that do not matter for the queue.\<close>

lemma rep_reclaim_lock [simp]: "nvlog_rep k (l\<lparr>reclaim_lock := x\<rparr>) es = nvlog_rep k l es"
  by (simp add: nvlog_rep_def nvlog_mem_def nvlog_used_def)

lemma wf_reclaim_lock [simp]: "nvlog_wf (l\<lparr>reclaim_lock := x\<rparr>) = nvlog_wf l"
  using rep_wf wf_repE rep_reclaim_lock by metis

lemma entries_reclaim_lock [simp]: "nvlog_wf l \<Longrightarrow> nvlog_entries (l\<lparr>reclaim_lock := x\<rparr>) = nvlog_entries l"
  using rep_entries wf_repE rep_reclaim_lock by metis

lemma rep_deq_persist: "nvlog_rep k l es \<Longrightarrow> nvlog_rep k (snd (nvlog_deq_persist l)) es"
  by (auto simp: nvlog_deq_persist_def nvlog_rep_def nvlog_mem_def nvlog_used_def split: option.splits)

lemma rep_enq_persist: "nvlog_rep k l es \<Longrightarrow> nvlog_rep k (snd (nvlog_enq_persist l)) es"
  by (auto simp: nvlog_enq_persist_def nvlog_rep_def nvlog_mem_def nvlog_used_def Let_def split: option.splits)

lemma wf_deq_persist:
  assumes "nvlog_wf l"
  shows "nvlog_wf (snd (nvlog_deq_persist l))" "nvlog_entries (snd (nvlog_deq_persist l)) = nvlog_entries l"
  using assms by (metis wf_repE rep_deq_persist rep_wf, metis wf_repE rep_deq_persist rep_entries)

text \<open>The effect of a reclamation on the queue of operations.\<close>

lemma oplog_reclaim_drops:
  assumes "thrs s t = Some th" "nvlog_wf (oplog th)"
    "\<And>st. nvl_store (oplog th) = Some st \<Longrightarrow> s_head_cnt st = head_cnt (oplog th)"
  shows "\<exists>s' th'. oplog_reclaim t force s = Some (reclaim_lock (oplog th) = 0, s') \<and> thrs s' t = Some th' \<and>
     (if reclaim_lock (oplog th) = 0 then
        nvlog_wf (oplog th') \<and> reclaim_lock (oplog th') = 0 \<and>
        nvlog_entries (oplog th') =
          dropWhile (\<lambda>e. lt_clock (e_wrt_clk e) (last_ckpt (clks th)) \<or> force = RECLAIM_OPLOG_FORCE)
            (nvlog_entries (oplog th)) \<and>
        (\<exists>st. nvl_store (oplog th') = Some st \<and> s_head_cnt st = head_cnt (oplog th'))
      else s' = s)"
proof (cases "reclaim_lock (oplog th) = 0")
  case False
  with assms(1) show ?thesis by (simp add: oplog_reclaim_def try_lock_def)
next
  case True
  let ?P = "\<lambda>e. lt_clock (e_wrt_clk e) (last_ckpt (clks th)) \<or> force = RECLAIM_OPLOG_FORCE"
  let ?l = "(oplog th)\<lparr>reclaim_lock := 1\<rparr>"
  have "nvlog_wf ?l" "nvlog_entries ?l = nvlog_entries (oplog th)" using assms(2) by simp_all
  moreover have "length (nvlog_entries ?l) < Suc (unat (oplog_used ?l))"
    unfolding oplog_used_def by (rule entries_le_used) (use assms(2) in simp)
  ultimately obtain l' where l': "log_drain oplog_peek_head oplog_deq ?P (Suc (unat (oplog_used ?l))) ?l
      = Some (length (takeWhile ?P (nvlog_entries (oplog th))), l')"
    "nvlog_wf l'" "nvlog_entries l' = dropWhile ?P (nvlog_entries (oplog th))"
    using opq.drain_dropWhile [of ?l _ ?P] by metis
  have keep: "nvl_store l' = nvl_store (oplog th)"
    by (rule log_drain_keeps [where Q = "\<lambda>l. nvl_store l = nvl_store (oplog th)", OF _ _ l'(1)])
      (auto simp: oplog_peek_head_def oplog_deq_def dest: peek_deq_keep_store)
  obtain st where st: "nvl_store (oplog th) = Some st" using assms(2) by (auto simp: nvlog_wf_def nvlog_rep_def)
  let ?l' = "if head_cnt l' \<noteq> head_cnt ?l then oplog_deq_persist l' else l'"
  have q: "nvlog_wf ?l'" "nvlog_entries ?l' = nvlog_entries l'"
    using l'(2) by (auto simp: oplog_deq_persist_def wf_deq_persist)
  have h: "\<exists>st. nvl_store ?l' = Some st \<and> s_head_cnt st = head_cnt ?l'"
    using keep st assms(3) by (auto simp: oplog_deq_persist_def nvlog_deq_persist_def)
  let ?s = "if head_cnt l' \<noteq> head_cnt ?l
      then stat_thread t (\<lambda>st. stat_acc (stat_acc (stat_inc st n_oplog_reclaim) n_oplog_reclaimed_ops
             (of_nat (length (takeWhile ?P (nvlog_entries (oplog th)))))) n_oplog_reclaimed_bytes (head_cnt l' - head_cnt ?l)) s
      else s"
  let ?th = "if head_cnt l' \<noteq> head_cnt ?l
      then th\<lparr>stat := stat_acc (stat_acc (stat_inc (stat th) n_oplog_reclaim) n_oplog_reclaimed_ops
             (of_nat (length (takeWhile ?P (nvlog_entries (oplog th)))))) n_oplog_reclaimed_bytes (head_cnt l' - head_cnt ?l)\<rparr>
      else th"
  have "oplog_reclaim t force s = Some (True, upd_oplog t (\<lambda>_. ?l'\<lparr>reclaim_lock := 0\<rparr>) ?s)"
    unfolding oplog_reclaim_def using True assms(1) l'(1) by (simp add: try_lock_def unlock_def Let_def)
  moreover have "thrs (upd_oplog t (\<lambda>_. ?l'\<lparr>reclaim_lock := 0\<rparr>) ?s) t = Some (?th\<lparr>oplog := ?l'\<lparr>reclaim_lock := 0\<rparr>\<rparr>)"
    using assms(1) by (simp add: stat_thread_def store_simps)
  ultimately show ?thesis using True q h l'(3) by simp
qed

text \<open>
  C29. Reclaiming the operation log drops exactly the longest prefix of operations that committed
  before the last checkpoint (all of them when forced) and keeps the rest in order; the log stays
  well formed, the new head is persisted in the log store and the reclamation lock is released.
  When the lock is taken nothing happens.
\<close>

theorem oplog_reclaim_drops_checkpointed:
  assumes "thrs s t = Some th" "nvlog_wf (oplog th)"
    "\<And>st. nvl_store (oplog th) = Some st \<Longrightarrow> s_head_cnt st = head_cnt (oplog th)"
  shows "\<exists>s' th'. oplog_reclaim t force s = Some (reclaim_lock (oplog th) = 0, s') \<and> thrs s' t = Some th' \<and>
     (if reclaim_lock (oplog th) = 0 then
        nvlog_wf (oplog th') \<and> reclaim_lock (oplog th') = 0 \<and>
        nvlog_entries (oplog th') =
          dropWhile (\<lambda>e. lt_clock (e_wrt_clk e) (last_ckpt (clks th)) \<or> force = RECLAIM_OPLOG_FORCE)
            (nvlog_entries (oplog th)) \<and>
        (\<exists>st. nvl_store (oplog th') = Some st \<and> s_head_cnt st = head_cnt (oplog th'))
      else s' = s)"
  using assms by (rule oplog_reclaim_drops)

section \<open>Durability of a commit record\<close>

definition same_store :: "'e nvlog_store \<Rightarrow> 'e nvlog_store \<Rightarrow> bool" where
  "same_store st st' \<longleftrightarrow> s_head_cnt st' = s_head_cnt st \<and> s_tail_cnt st' = s_tail_cnt st \<and>
     s_log_size st' = s_log_size st \<and> s_mask st' = s_mask st"

lemma upd_mem_store: "nvl_store l = Some st \<Longrightarrow> \<exists>st'. nvl_store (upd_mem f l) = Some st' \<and> same_store st st'"
  by (simp add: upd_mem_def same_store_def)

lemma same_store_trans: "same_store a b \<Longrightarrow> same_store b c \<Longrightarrow> same_store a c"
  by (simp add: same_store_def)

lemma enq_fill_store:
  assumes "nvl_store l = Some st" "nvlog_enq l n = (Some i, l')"
  shows "\<exists>st'. nvl_store (nvlog_fill i c b l') = Some st' \<and> same_store st st'"
proof -
  have "\<exists>st'. nvl_store (nvlog_skip_end l (entry_size_of n)) = Some st' \<and> same_store st st'"
    using upd_mem_store [OF assms(1)] assms(1) by (auto simp: nvlog_skip_end_def Let_def same_store_def)
  then obtain st1 where st1: "nvl_store (nvlog_skip_end l (entry_size_of n)) = Some st1" "same_store st st1" by blast
  then have "\<exists>st'. nvl_store l' = Some st' \<and> same_store st st'"
    using assms(2) upd_mem_store [OF st1(1)] by (fastforce simp: nvlog_enq_def Let_def intro: same_store_trans split: if_splits)
  then show ?thesis unfolding nvlog_fill_def using upd_mem_store same_store_trans by blast
qed

lemma enq_fill_tail:
  assumes "nvlog_rep k l es" "unat n + 79 < 2 ^ 32" "unat (entry_size_of n) < 2 ^ k"
    "nvlog_enq l n = (Some i, l')"
  shows "tail_cnt (nvlog_fill i c b l') = tail_cnt l + of_nat (nvlog_gap l (entry_size_of n) + unat (entry_size_of n))"
    and "head_cnt (nvlog_fill i c b l') = head_cnt l" and "log_size (nvlog_fill i c b l') = log_size l"
    and "nvl_mask (nvlog_fill i c b l') = nvl_mask l"
proof -
  have "0 < entry_size_of n" using unat_entry_size(3) [OF assms(2)] by (simp add: word_less_nat_alt)
  note sk = skip_end_tail [OF assms(1) this assms(3)]
  show "tail_cnt (nvlog_fill i c b l') = tail_cnt l + of_nat (nvlog_gap l (entry_size_of n) + unat (entry_size_of n))"
    "head_cnt (nvlog_fill i c b l') = head_cnt l" "log_size (nvlog_fill i c b l') = log_size l"
    using assms(4) sk by (auto simp: nvlog_enq_def nvlog_fill_def Let_def split: if_splits)
  show "nvl_mask (nvlog_fill i c b l') = nvl_mask l"
    using assms(4) by (auto simp: nvlog_enq_def nvlog_fill_def nvlog_skip_end_def Let_def split: if_splits)
qed

text \<open>An entry of at most 320 bytes fits in an operation log below its high watermark.\<close>

lemma op_entry_small:
  assumes "unat c \<le> 240"
  shows "unat (sizeof_op_entry_hdr + c) + 79 < 2 ^ 32" "unat (entry_size_of (sizeof_op_entry_hdr + c)) \<le> 320"
proof -
  have e: "unat (sizeof_op_entry_hdr + c) = 16 + unat c"
    using assms by (simp add: sizeof_op_entry_hdr_def unat_word_ariths)
  show "unat (sizeof_op_entry_hdr + c) + 79 < 2 ^ 32" using assms by (simp add: e)
  then show "unat (entry_size_of (sizeof_op_entry_hdr + c)) \<le> 320"
    using assms by (simp add: unat_entry_size(1) e)
qed

lemma unat_add_le: "unat (a + b :: 'a::len word) \<le> unat a + unat b"
  by (simp add: unat_word_ariths)

lemma gap_le: "nvlog_rep k l es \<Longrightarrow> nvlog_gap l s \<le> unat s"
  by (simp add: nvlog_gap_def Let_def) linarith

text \<open>The store after an operation was enqueued and persisted.\<close>

lemma oplog_enq_durable:
  assumes "thrs s t = Some th" "nvlog_wf (oplog th)" "log_size (oplog th) = TS_OPLOG_SIZE"
    "nvl_store (oplog th) = Some st" "s_head_cnt st = head_cnt (oplog th)" "s_tail_cnt st = tail_cnt (oplog th)"
    "s_log_size st = log_size (oplog th)" "s_mask st = nvl_mask (oplog th)"
    "oplog_used (oplog th) < TS_OPLOG_HIGH_MARK"
    "op_curr info \<le> TS_MAX_OPERAND_SIZE" "length (op_opd info) = 240"
  shows "\<exists>i s1 th' st'. oplog_enq t lc wc info s = Some (i, s1) \<and> thrs (oplog_enq_persist t s1) t = Some th' \<and>
     nvl_store (oplog th') = Some st' \<and> nvlog_wf (oplog th') \<and> s_head_cnt st' = head_cnt (oplog th') \<and>
     unat (oplog_used (oplog th')) \<le> unat (oplog_used (oplog th)) + 640 \<and> nvlog_wf (nvlog_load st') \<and>
     nvlog_entries (nvlog_load st') = nvlog_entries (oplog th) @
       [\<lparr>e_wrt_clk = wc, e_size = entry_size_of (sizeof_op_entry_hdr + op_curr info), e_type = TYPE_ACTUAL,
         e_body = Some (OpBody \<lparr>oe_local_clk = lc, oe_op_type = op_type info,
                                oe_opd = take (unat (op_curr info)) (op_opd info)\<rparr>)\<rparr>]"
proof -
  let ?l = "oplog th" and ?n = "sizeof_op_entry_hdr + op_curr info"
  let ?b = "OpBody \<lparr>oe_local_clk = lc, oe_op_type = op_type info, oe_opd = take (unat (op_curr info)) (op_opd info)\<rparr>"
  have c: "unat (op_curr info) \<le> 240"
    using assms(10) by (simp add: TS_MAX_OPERAND_SIZE_def sizeof_op_entry_hdr_def word_le_nat_alt)
  note small = op_entry_small [OF c]
  from assms(2) obtain k es where r: "nvlog_rep k ?l es" by (rule wf_repE)
  have ls: "unat (log_size ?l) = 1048576" by (simp add: assms(3) TS_OPLOG_SIZE_def)
  then have k: "2 ^ k = (1048576::nat)" using r by (auto simp: nvlog_rep_def unat_pow2_u64)
  have hm: "unat (nvlog_used ?l) < 786432"
    using assms(9) by (simp add: oplog_used_def TS_OPLOG_HIGH_MARK_def TS_OPLOG_SIZE_def word_less_nat_alt)
  have fits: "nvlog_fits ?l (entry_size_of ?n)"
    using hm gap_le [OF r, of "entry_size_of ?n"] small(2) by (simp add: nvlog_fits_def ls)
  moreover have lt: "ucast (entry_size_of ?n) < log_size ?l" using small(2) by (simp add: word_less_nat_alt ls)
  ultimately obtain i l' where e: "nvlog_enq ?l ?n = (Some i, l')"
    and w: "nvlog_wf (nvlog_fill i wc ?b l')"
    and en: "nvlog_entries (nvlog_fill i wc ?b l') = nvlog_entries ?l @
       [\<lparr>e_wrt_clk = wc, e_size = entry_size_of ?n, e_type = TYPE_ACTUAL, e_body = Some ?b\<rparr>]"
    using enq_fill_entries [OF assms(2) small(1) lt, of wc ?b] by (auto split: prod.splits option.splits)
  let ?f = "nvlog_fill i wc ?b l'"
  note f = enq_fill_tail [OF r small(1) _ e, of wc ?b]
  have sk: "unat (entry_size_of ?n) < 2 ^ k" using small(2) by (simp add: k)
  obtain st1 where st1: "nvl_store ?f = Some st1" "same_store st st1" using enq_fill_store [OF assms(4) e] by blast
  have "nvlog_unpersisted ?f = of_nat (nvlog_gap ?l (entry_size_of ?n) + unat (entry_size_of ?n))"
    using st1 assms(6) f(1) [OF sk] by (simp add: nvlog_unpersisted_def same_store_def)
  then have grow: "unat (nvlog_unpersisted ?f) \<le> 640"
    using gap_le [OF r, of "entry_size_of ?n"] small(2) by (simp only: unat_of_nat) (simp add: mod_le_divisor)
  have u: "unat (nvlog_unpersisted ?f) < unat (log_size ?f)" using grow f(3) [OF sk] ls by simp
  have "nvlog_used ?f = nvlog_used ?l + nvlog_unpersisted ?f"
    using st1 assms(6) f(2) [OF sk] by (simp add: nvlog_used_def nvlog_unpersisted_def same_store_def)
  then have used: "unat (nvlog_used ?f) \<le> unat (oplog_used ?l) + 640"
    using unat_add_le [of "nvlog_used ?l" "nvlog_unpersisted ?f"] grow by (simp add: oplog_used_def)
  have st1c: "s_log_size st1 = log_size ?f" "s_mask st1 = nvl_mask ?f" "s_head_cnt st1 = head_cnt ?f"
    using st1(2) assms f [OF sk] by (simp_all add: same_store_def)
  then obtain st' where st': "nvl_store (snd (nvlog_deq_persist (snd (nvlog_enq_persist ?f)))) = Some st'"
    "nvlog_wf (nvlog_load st')" "nvlog_entries (nvlog_load st') = nvlog_entries ?f"
    using persist_loads [OF w st1(1) u] by auto
  have "nvl_store (snd (nvlog_enq_persist ?f)) = Some st'"
    using st'(1) st1(1) st1c(3) by (auto simp: nvlog_deq_persist_def nvlog_enq_persist_def Let_def split: if_splits)
  moreover from this have "s_head_cnt st' = head_cnt (snd (nvlog_enq_persist ?f))"
    using st1(1) st1c(3) by (auto simp: nvlog_enq_persist_def Let_def split: if_splits)
  moreover have "nvlog_wf (snd (nvlog_enq_persist ?f))" using w by (metis wf_repE rep_enq_persist rep_wf)
  moreover have "oplog_used (snd (nvlog_enq_persist ?f)) = nvlog_used ?f"
    by (simp add: nvlog_enq_persist_def oplog_used_def nvlog_used_def Let_def split: option.splits)
  ultimately show ?thesis using st' en e assms(1,11) c used
    by (auto simp: oplog_enq_def oplog_enq_persist_def stat_thread_def store_simps Let_def)
qed

text \<open>
  C25. The record of a commit is durable before the commit proceeds: below the high watermark of
  the operation log, and for operands within the operand buffer, \<open>oplog_enq\<close> finds room, and once
  \<open>oplog_enq_persist\<close> has run, the log that a restart would load from NVM is the old log with
  exactly one more entry, carrying the operation, its operands and both time stamps.
\<close>

theorem oplog_commit_durable:
  assumes "thrs s t = Some th" "nvlog_wf (oplog th)" "log_size (oplog th) = TS_OPLOG_SIZE"
    "nvl_store (oplog th) = Some st" "s_head_cnt st = head_cnt (oplog th)" "s_tail_cnt st = tail_cnt (oplog th)"
    "s_log_size st = log_size (oplog th)" "s_mask st = nvl_mask (oplog th)"
    "oplog_used (oplog th) < TS_OPLOG_HIGH_MARK"
    "op_curr info \<le> TS_MAX_OPERAND_SIZE" "length (op_opd info) = 240"
  shows "\<exists>i s1 th' st'. oplog_enq t lc wc info s = Some (i, s1) \<and> thrs (oplog_enq_persist t s1) t = Some th' \<and>
     nvl_store (oplog th') = Some st' \<and> nvlog_wf (nvlog_load st') \<and>
     nvlog_entries (nvlog_load st') = nvlog_entries (oplog th) @
       [\<lparr>e_wrt_clk = wc, e_size = entry_size_of (sizeof_op_entry_hdr + op_curr info), e_type = TYPE_ACTUAL,
         e_body = Some (OpBody \<lparr>oe_local_clk = lc, oe_op_type = op_type info,
                                oe_opd = take (unat (op_curr info)) (op_opd info)\<rparr>)\<rparr>]"
  using oplog_enq_durable [OF assms] by blast

section \<open>Witnesses\<close>

theorem oplog_reclaim_drops_checkpointed_witness:
  "\<exists>s' th'. oplog_reclaim 1 RECLAIM_OPLOG_NORMAL demo_sys = Some (True, s') \<and> thrs s' 1 = Some th' \<and>
     nvlog_entries (oplog th') = []"
proof -
  have "thrs demo_sys 1 = Some demo_thread" "nvlog_wf (oplog demo_thread)"
    "reclaim_lock (oplog demo_thread) = 0" "nvlog_entries (oplog demo_thread) = []"
    using rep_wf [OF demo_big_rep] demo_big_entries by (simp_all add: demo_sys_def demo_thread_def nvlog_load_def)
  moreover have "s_head_cnt st = head_cnt (oplog demo_thread)" if "nvl_store (oplog demo_thread) = Some st" for st
    using that by (simp add: demo_thread_def nvlog_load_def)
  ultimately show ?thesis
    using oplog_reclaim_drops_checkpointed [of demo_sys 1 demo_thread RECLAIM_OPLOG_NORMAL] by fastforce
qed

theorem oplog_commit_durable_witness:
  "\<exists>i s1 th' st'. oplog_enq 1 5 9 (op_info demo_thread) demo_sys = Some (i, s1) \<and>
     thrs (oplog_enq_persist 1 s1) 1 = Some th' \<and> nvl_store (oplog th') = Some st' \<and>
     length (nvlog_entries (nvlog_load st')) = 1"
proof -
  have "thrs demo_sys 1 = Some demo_thread" "nvlog_wf (oplog demo_thread)"
    "nvlog_entries (oplog demo_thread) = []" "nvl_store (oplog demo_thread) = Some demo_big_store"
    using rep_wf [OF demo_big_rep] demo_big_entries by (simp_all add: demo_sys_def demo_thread_def nvlog_load_def)
  moreover have "op_curr (op_info demo_thread) \<le> TS_MAX_OPERAND_SIZE" "length (op_opd (op_info demo_thread)) = 240"
    by (simp_all add: demo_thread_def)
  moreover have "oplog_used (oplog demo_thread) < TS_OPLOG_HIGH_MARK"
    by (simp add: demo_thread_def nvlog_load_def demo_big_store_def oplog_used_def nvlog_used_def
        TS_OPLOG_HIGH_MARK_def TS_OPLOG_SIZE_def)
  moreover have "log_size (oplog demo_thread) = TS_OPLOG_SIZE" "s_head_cnt demo_big_store = head_cnt (oplog demo_thread)"
    "s_tail_cnt demo_big_store = tail_cnt (oplog demo_thread)" "s_log_size demo_big_store = log_size (oplog demo_thread)"
    "s_mask demo_big_store = nvl_mask (oplog demo_thread)"
    by (simp_all add: demo_thread_def nvlog_load_def demo_big_store_def)
  ultimately show ?thesis
    using oplog_commit_durable [of demo_sys 1 demo_thread demo_big_store "op_info demo_thread" 5 9] by fastforce
qed

end
