(* ===== verification/CkptLog.thy ===== *)
theory CkptLog
  imports OpLog
begin

text \<open>
  The checkpoint log of a thread (\<open>src/lib/ckptlog.c\<close>). Checkpointing a copy appends its bytes and
  makes the entry the current master of the object; reclaiming the log first drops the entries
  that an earlier reclamation wrote back, then writes the entries that are still current masters
  back to the original objects. Freed objects leave a tombstone; their originals and volatile
  headers are freed by \<open>ckptlog_cleanup\<close> once no one can reach them.
\<close>

section \<open>Operations\<close>

abbreviation upd_ckptlog :: "nat \<Rightarrow> (log \<Rightarrow> log) \<Rightarrow> sys \<Rightarrow> sys" where
  "upd_ckptlog t f \<equiv> upd_thr t (\<lambda>th. th\<lparr>ckptlog := f (ckptlog th)\<rparr>)"

definition ckptlog_used :: "log \<Rightarrow> u64" where
  "ckptlog_used l = nvlog_used l"

definition ckptlog_create ::
  "nat \<Rightarrow> nat option \<Rightarrow> (u64 \<times> nv_body nv_mem) option \<Rightarrow> u64 \<Rightarrow> nvlog_status \<Rightarrow> sys \<Rightarrow> (errno option \<times> sys) option" where
  "ckptlog_create self a1 a2 sz st s = do {
     (rc, l, r) \<leftarrow> nvlog_create (root s) a1 a2 sz TYPE_CKPTLOG st;
     let s = s\<lparr>root := r\<rparr>;
     (case l of
        None \<Rightarrow> Some (rc, s)
      | Some (p, l) \<Rightarrow>
          Some (rc, upd_thr self (\<lambda>th. th\<lparr>ckptlog := l, ckptlog_p := Some p, ckptlog_free_set := True\<rparr>) s)) }"

text \<open>
  The loop of \<open>ckptlog_cleanup\<close>: the originals and headers tombstoned before \<open>until\<close> are freed,
  the other pointers are moved to the front of the array. The result is the array, the number of
  pointers kept and the state.
\<close>

fun ckptlog_cleanup_loop ::
  "u64 \<Rightarrow> nat \<Rightarrow> nat \<Rightarrow> nat \<Rightarrow> ptr list \<Rightarrow> sys \<Rightarrow> (ptr list \<times> nat \<times> sys) option" where
  "ckptlog_cleanup_loop until 0 i first ps s = Some (ps, first, s)"
| "ckptlog_cleanup_loop until (Suc n) i first ps s =
     (if length ps \<le> i then None
      else
        (case ps ! i of
           Vhdr v \<Rightarrow> do {
             h \<leftarrow> vhdrs s v;
             (if lt_clock (tombstone_clk h) until then
                (case np_org_act h of
                   Act a \<Rightarrow>
                     ckptlog_cleanup_loop until n (Suc i) first ps
                       (free_act_vhdr v (s\<lparr>acts := (acts s)(a := None)\<rparr>))
                 | _ \<Rightarrow> None)
              else ckptlog_cleanup_loop until n (Suc i) (Suc first) (ps[first := Vhdr v]) s) }
         | _ \<Rightarrow> None))"

definition ckptlog_cleanup :: "nat \<Rightarrow> u64 \<Rightarrow> sys \<Rightarrow> sys option" where
  "ckptlog_cleanup self until s = do {
     th \<leftarrow> thrs s self;
     (if \<not> ckptlog_free_set th then Some s
      else
        (case ptrs (ckpt_free_set th) of
           None \<Rightarrow> Some s
         | Some ps \<Rightarrow> do {
             (ps, first, s) \<leftarrow> ckptlog_cleanup_loop until (unat (num_ptrs (ckpt_free_set th))) 0 0 ps s;
             Some (upd_thr self (\<lambda>th. th\<lparr>ckpt_free_set :=
               (ckpt_free_set th)\<lparr>ptrs := Some ps, num_ptrs := of_nat first\<rparr>\<rparr>) s) })) }"

definition ckptlog_destroy :: "nat \<Rightarrow> sys \<Rightarrow> sys option" where
  "ckptlog_destroy self s = do {
     th \<leftarrow> thrs s self;
     s \<leftarrow> (if ckptlog_free_set th then ckptlog_cleanup self MAX_VERSION s else Some s);
     th \<leftarrow> thrs s self;
     (r, p, l) \<leftarrow> nvlog_destroy (root s) (ckptlog_p th, ckptlog th);
     Some (upd_thr self (\<lambda>th. th\<lparr>ckptlog := l, ckptlog_p := p\<rparr>) (s\<lparr>root := r\<rparr>)) }"

text \<open>
  \<open>_ckptlog_enq\<close> for the copy at index \<open>i\<close> of the version log of thread \<open>t\<close>; the contents of a
  tombstone are not written.
\<close>

definition ckptlog_enq_x :: "nat \<Rightarrow> u64 \<Rightarrow> u64 \<Rightarrow> nat \<Rightarrow> u32 \<Rightarrow> sys \<Rightarrow> (u32 \<times> sys) option" where
  "ckptlog_enq_x self wclk sclk t i s = do {
     c \<leftarrow> get_chs s t i;
     v \<leftarrow> c_vhdr c;
     h \<leftarrow> vhdrs s v;
     let is_tombstone = (c_type c = TYPE_FREE);
     let obj_size = c_obj_size c;
     th \<leftarrow> thrs s self;
     (case nvlog_enq (ckptlog th) (sizeof_ckpt_entry_hdr + sizeof_obj_hdr + obj_size) of
        (None, l) \<Rightarrow> None
      | (Some j, l) \<Rightarrow> do {
          d \<leftarrow> (if is_tombstone then Some []
                else (case c_body c of
                        Data d \<Rightarrow> if length d < unat obj_size then None else Some (take (unat obj_size) d)
                      | _ \<Rightarrow> None));
          let l = nvlog_fill j wclk
                    (CkBody \<lparr>ckpt_s_clk = sclk, ck_np_org_act = np_org_act h, ck_tombstone = is_tombstone,
                             ck_obj_size = obj_size, ck_type = TYPE_NVLOG_ENTRY, ck_data = d\<rparr>) l;
          Some (j, upd_vhdr v (\<lambda>h. h\<lparr>np_cur_act := Ckpt self j\<rparr>) (upd_ckptlog self (\<lambda>_. l) s)) }) }"

definition ckptlog_enq :: "nat \<Rightarrow> u64 \<Rightarrow> u64 \<Rightarrow> nat \<Rightarrow> u32 \<Rightarrow> sys \<Rightarrow> (u32 \<times> sys) option" where
  "ckptlog_enq self wclk sclk t i s = ckptlog_enq_x self wclk sclk t i s"

definition ckptlog_enq_tombstone :: "nat \<Rightarrow> u64 \<Rightarrow> u64 \<Rightarrow> nat \<Rightarrow> u32 \<Rightarrow> sys \<Rightarrow> (u32 \<times> sys) option" where
  "ckptlog_enq_tombstone self wclk sclk t i s = ckptlog_enq_x self wclk sclk t i s"

definition ckptlog_try_request_reclaim_if_needed :: "nat \<Rightarrow> sys \<Rightarrow> sys option" where
  "ckptlog_try_request_reclaim_if_needed self s = do {
     th \<leftarrow> thrs s self;
     let used = ckptlog_used (ckptlog th);
     Some (if used > TS_CKPTLOG_LOW_MARK then
             (if used > TS_CKPTLOG_HIGH_MARK
              then snd (request_ckptlog_reclaim RECLAIM_CKPTLOG_WRITEBACK s)
              else snd (request_ckptlog_reclaim RECLAIM_CKPTLOG_BEST_EFFORT s))
           else s) }"

definition ckptlog_enq_persist :: "nat \<Rightarrow> sys \<Rightarrow> sys option" where
  "ckptlog_enq_persist self s =
     ckptlog_try_request_reclaim_if_needed self (upd_ckptlog self (\<lambda>l. snd (nvlog_enq_persist l)) s)"

definition ckptlog_peek_head :: "nat \<Rightarrow> sys \<Rightarrow> (log_entry option \<times> sys) option" where
  "ckptlog_peek_head self s = do {
     th \<leftarrow> thrs s self;
     (e, l) \<leftarrow> nvlog_peek_head (ckptlog th);
     Some (e, upd_ckptlog self (\<lambda>_. l) s) }"

definition ckptlog_deq :: "nat \<Rightarrow> sys \<Rightarrow> (log_entry option \<times> sys) option" where
  "ckptlog_deq self s = do {
     th \<leftarrow> thrs s self;
     (e, l) \<leftarrow> nvlog_deq (ckptlog th);
     Some (e, upd_ckptlog self (\<lambda>_. l) s) }"

definition ckptlog_deq_persist :: "nat \<Rightarrow> sys \<Rightarrow> sys" where
  "ckptlog_deq_persist self s = upd_ckptlog self (\<lambda>l. snd (nvlog_deq_persist l)) s"

definition ck_body :: "log_entry \<Rightarrow> ckpt_entry_hdr option" where
  "ck_body e = (case e_body e of Some (CkBody c) \<Rightarrow> Some c | _ \<Rightarrow> None)"

section \<open>Reclamation\<close>

text \<open>
  The first loop of \<open>ckptlog_reclaim_x\<close>: entries up to \<open>prev_head_cnt\<close> are dropped; the headers of
  tombstoned objects go to the free set (\<open>ra\<close> is what \<open>realloc\<close> gives). The result is the entry
  at which the loop stopped.
\<close>

fun ckptlog_reclaim_step1 ::
  "ptr list option \<Rightarrow> nat \<Rightarrow> u64 \<Rightarrow> nat \<Rightarrow> sys \<Rightarrow> (log_entry option \<times> sys) option" where
  "ckptlog_reclaim_step1 ra self prev 0 s = None"
| "ckptlog_reclaim_step1 ra self prev (Suc n) s = do {
     (e, s) \<leftarrow> ckptlog_peek_head self s;
     (case e of
        None \<Rightarrow> Some (None, s)
      | Some e \<Rightarrow> do {
          th \<leftarrow> thrs s self;
          (if head_cnt (ckptlog th) = prev then Some (Some e, s)
           else do {
             c \<leftarrow> ck_body e;
             s \<leftarrow> (if ck_tombstone c then do {
                     v \<leftarrow> get_act_vhdr s (ck_np_org_act c);
                     (_, fs) \<leftarrow> ptrset_push ra (ckpt_free_set th) (case v of None \<Rightarrow> Null | Some v \<Rightarrow> Vhdr v);
                     Some (upd_thr self (\<lambda>th. th\<lparr>ckpt_free_set := fs\<rparr>) s) }
                   else Some s);
             (_, s) \<leftarrow> ckptlog_deq self s;
             ckptlog_reclaim_step1 ra self prev n s }) }) }"

text \<open>
  Writing back one entry, at index \<open>i\<close> of the log: when it is the current master of its object
  and no tombstone, its bytes go to the original object, which becomes the current master. The
  result says whether to stop because enough space is free, and how many bytes were written.
\<close>

definition overwrite :: "bytes \<Rightarrow> bytes \<Rightarrow> bytes" where
  "overwrite new old = new @ drop (length new) old"

definition ckptlog_writeback_entry ::
  "nat \<Rightarrow> u64 \<Rightarrow> u32 \<Rightarrow> ckpt_entry_hdr \<Rightarrow> sys \<Rightarrow> (bool \<times> u64 \<times> sys) option" where
  "ckptlog_writeback_entry self watermark i c s = do {
     vo \<leftarrow> get_act_vhdr s (ck_np_org_act c);
     v \<leftarrow> vo;
     h \<leftarrow> vhdrs s v;
     (if np_cur_act h = Ckpt self i \<and> \<not> ck_tombstone c then do {
        th \<leftarrow> thrs s self;
        (if ckptlog_used (ckptlog th) < watermark then Some (True, 0, s)
         else
           (case np_org_act h of
              Act a \<Rightarrow>
                Some (False, ucast (ck_obj_size c),
                      upd_vhdr v (\<lambda>h. h\<lparr>np_cur_act := np_org_act h\<rparr>)
                        (upd_act a (\<lambda>ao. ao\<lparr>a_data := overwrite (take (unat (ck_obj_size c)) (ck_data c)) (a_data ao)\<rparr>) s))
            | _ \<Rightarrow> None)) }
      else Some (False, 0, s)) }"

fun ckptlog_reclaim_step2 ::
  "nat \<Rightarrow> u64 \<Rightarrow> u64 \<Rightarrow> nat \<Rightarrow> u64 \<Rightarrow> sys \<Rightarrow> (u64 \<times> sys) option" where
  "ckptlog_reclaim_step2 self watermark wb_limit_clk 0 wb s = None"
| "ckptlog_reclaim_step2 self watermark wb_limit_clk (Suc n) wb s = do {
     (e, s) \<leftarrow> ckptlog_peek_head self s;
     (case e of
        None \<Rightarrow> Some (wb, s)
      | Some e \<Rightarrow> do {
          c \<leftarrow> ck_body e;
          (if gt_clock (ckpt_s_clk c) wb_limit_clk then Some (wb, s)
           else do {
             th \<leftarrow> thrs s self;
             (stop, bytes, s) \<leftarrow>
               ckptlog_writeback_entry self watermark (nvlog_index (ckptlog th) (head_cnt (ckptlog th))) c s;
             (if stop then Some (wb, s)
              else do {
                (_, s) \<leftarrow> ckptlog_deq self s;
                ckptlog_reclaim_step2 self watermark wb_limit_clk n (wb + bytes) s }) }) }) }"

definition ckptlog_reclaim_x :: "ptr list option \<Rightarrow> nat \<Rightarrow> u64 \<Rightarrow> sys \<Rightarrow> (bool \<times> sys) option" where
  "ckptlog_reclaim_x ra self watermark s = do {
     th \<leftarrow> thrs s self;
     (if rq_ckptlog (reclaim th) = 0 then Some (False, s)
      else do {
        let (ok, lock) = try_lock (reclaim_lock (ckptlog th));
        (if \<not> ok then Some (False, s)
         else do {
           let s = upd_ckptlog self (\<lambda>l. l\<lparr>reclaim_lock := lock\<rparr>) s;
           let old_head_cnt = head_cnt (ckptlog th);
           let wb_limit_clk = qp2 (clks th);
           let fuel = Suc (unat (ckptlog_used (ckptlog th)));
           (e, s) \<leftarrow> ckptlog_reclaim_step1 ra self (prev_head_cnt (ckptlog th)) fuel s;
           s \<leftarrow> (case e of
                   None \<Rightarrow> Some s
                 | Some e \<Rightarrow> do {
                     c \<leftarrow> ck_body e;
                     Some (upd_thr self (\<lambda>th. th\<lparr>clks := (clks th)\<lparr>min_ckpt_reclaimed := ckpt_s_clk c\<rparr>\<rparr>) s) });
           th \<leftarrow> thrs s self;
           let new_head_cnt = head_cnt (ckptlog th);
           (wb, s) \<leftarrow> ckptlog_reclaim_step2 self watermark wb_limit_clk fuel 0 s;
           let s = upd_ckptlog self (\<lambda>l. l\<lparr>prev_head_cnt := head_cnt l, head_cnt := new_head_cnt\<rparr>) s;
           let s = (if new_head_cnt \<noteq> old_head_cnt
                    then stat_thread self (\<lambda>st. stat_acc st n_ckptlog_reclaimed_bytes (new_head_cnt - old_head_cnt))
                           (ckptlog_deq_persist self s)
                    else s);
           let s = stat_thread self (\<lambda>st. stat_acc st n_ckptlog_writeback_bytes wb) s;
           let s = upd_thr self (\<lambda>th. th\<lparr>reclaim := (reclaim th)\<lparr>rq_ckptlog := 0\<rparr>\<rparr>) s;
           Some (True, upd_ckptlog self (\<lambda>l. l\<lparr>reclaim_lock := unlock (reclaim_lock l)\<rparr>) s) }) }) }"

definition ckptlog_reclaim :: "ptr list option \<Rightarrow> nat \<Rightarrow> sys \<Rightarrow> sys option" where
  "ckptlog_reclaim ra self s = do {
     th \<leftarrow> thrs s self;
     let rq = rq_ckptlog (reclaim th);
     (if rq = RECLAIM_CKPTLOG_BEST_EFFORT then do {
        (ret, s) \<leftarrow> ckptlog_reclaim_x ra self (log_size (ckptlog th) + 1) s;
        Some (if ret then stat_thread self (\<lambda>st. stat_inc st n_ckptlog_best_effort) s else s) }
      else if rq = RECLAIM_CKPTLOG_WRITEBACK then do {
        (ret, s) \<leftarrow> ckptlog_reclaim_x ra self TS_CKPTLOG_LOW_MARK s;
        Some (if ret then stat_thread self (\<lambda>st. stat_inc st n_ckptlog_writeback) s else s) }
      else if rq = RECLAIM_CKPTLOG_WRITEBACK_ALL then do {
        (ret, s) \<leftarrow> ckptlog_reclaim_x ra self 0 s;
        Some (if ret then stat_thread self (\<lambda>st. stat_inc st n_ckptlog_writeback) s else s) }
      else Some s) }"

text \<open>
  \<open>ckptlog_flush\<close> waits for the qp thread: \<open>env k\<close> is what the other threads do while this one
  yields for the \<open>k\<close>-th time. A wait that never ends is \<open>None\<close>.
\<close>

partial_function (option) ckptlog_flush_wait ::
  "(nat \<Rightarrow> sys \<Rightarrow> sys) \<Rightarrow> nat \<Rightarrow> nat \<Rightarrow> nat \<Rightarrow> sys \<Rightarrow> (nat \<times> sys) option" where
  "ckptlog_flush_wait env self k count s = do {
     let s = env k s;
     let count = Suc count;
     let (count, s) = (if count = 1000 then (0, snd (request_ckptlog_reclaim RECLAIM_CKPTLOG_WRITEBACK_ALL s)) else (count, s));
     th \<leftarrow> thrs s self;
     (if rq_ckptlog (reclaim th) = 0 then ckptlog_flush_wait env self (Suc k) count s else Some (Suc k, s)) }"

partial_function (option) ckptlog_flush_loop ::
  "(nat \<Rightarrow> sys \<Rightarrow> sys) \<Rightarrow> ptr list option \<Rightarrow> nat \<Rightarrow> nat \<Rightarrow> sys \<Rightarrow> (nat \<times> sys) option" where
  "ckptlog_flush_loop env ra self k s = do {
     th \<leftarrow> thrs s self;
     (if head_cnt (ckptlog th) = tail_cnt (ckptlog th) then Some (k, s)
      else do {
        let s = snd (request_ckptlog_reclaim RECLAIM_CKPTLOG_WRITEBACK_ALL s);
        (k, s) \<leftarrow> ckptlog_flush_wait env self k 0 s;
        s \<leftarrow> ckptlog_reclaim ra self s;
        ckptlog_flush_loop env ra self k s }) }"

definition ckptlog_flush :: "(nat \<Rightarrow> sys \<Rightarrow> sys) \<Rightarrow> ptr list option \<Rightarrow> nat \<Rightarrow> nat \<Rightarrow> sys \<Rightarrow> (nat \<times> sys) option" where
  "ckptlog_flush env ra self k s = do {
     th \<leftarrow> thrs s self;
     s \<leftarrow> (if rq_ckptlog (reclaim th) \<noteq> 0 then ckptlog_reclaim ra self s else Some s);
     ckptlog_flush_loop env ra self k s }"

end
