(* ===== verification/CkptReclaim.thy ===== *)
theory CkptReclaim
  imports CkptLog
begin

text \<open>
  Correctness of the reclamation of the checkpoint log: the compaction of the free set, the write
  back of current masters, and where the reclamation goes wrong.
\<close>

section \<open>Cleaning up freed objects\<close>

definition tomb_before :: "sys \<Rightarrow> u64 \<Rightarrow> nat \<Rightarrow> bool" where
  "tomb_before s until v \<longleftrightarrow> (case vhdrs s v of None \<Rightarrow> False | Some h \<Rightarrow> lt_clock (tombstone_clk h) until)"

definition org_of :: "sys \<Rightarrow> nat \<Rightarrow> nat option" where
  "org_of s v = (case vhdrs s v of Some h \<Rightarrow> (case np_org_act h of Act a \<Rightarrow> Some a | _ \<Rightarrow> None) | None \<Rightarrow> None)"

lemma free_vhdr_reads [store_simps]:
  "vhdrs (free_act_vhdr v s) v' = (if v' = v then None else vhdrs s v')"
  "acts (free_act_vhdr v s) = acts s" "thrs (free_act_vhdr v s) = thrs s"
  by (simp_all add: free_act_vhdr_def)

lemma cleanup_loop:
  assumes "distinct vs" "\<And>v. v \<in> set vs \<Longrightarrow> org_of s v \<noteq> None"
    "first \<le> i" "i + length vs \<le> length ps" "take (length vs) (drop i ps) = map Vhdr vs"
  shows "\<exists>ps' s'. ckptlog_cleanup_loop until (length vs) i first ps s =
           Some (ps', first + length (filter (\<lambda>v. \<not> tomb_before s until v) vs), s') \<and>
         length ps' = length ps \<and>
         take (first + length (filter (\<lambda>v. \<not> tomb_before s until v) vs)) ps' =
           take first ps @ map Vhdr (filter (\<lambda>v. \<not> tomb_before s until v) vs) \<and>
         thrs s' = thrs s \<and>
         (\<forall>v. vhdrs s' v = (if v \<in> set vs \<and> tomb_before s until v then None else vhdrs s v)) \<and>
         (\<forall>a. acts s' a = (if \<exists>v\<in>set vs. tomb_before s until v \<and> org_of s v = Some a then None else acts s a))"
  using assms
proof (induction vs arbitrary: i first ps s)
  case Nil
  then show ?case by simp
next
  case (Cons v vs)
  have pi: "ps ! i = Vhdr v" and rest: "take (length vs) (drop (Suc i) ps) = map Vhdr vs" and il: "i < length ps"
    using Cons.prems(4,5) by (auto simp: Cons_nth_drop_Suc [symmetric])
  obtain h a where h: "vhdrs s v = Some h" "np_org_act h = Act a"
    using Cons.prems(2) [of v] by (auto simp: org_of_def split: option.splits ptr.splits)
  show ?case
  proof (cases "lt_clock (tombstone_clk h) until")
    case True
    let ?s = "free_act_vhdr v (s\<lparr>acts := (acts s)(a := None)\<rparr>)"
    have eq: "tomb_before ?s until w = tomb_before s until w" "org_of ?s w = org_of s w" if "w \<noteq> v" for w
      using that by (simp_all add: tomb_before_def org_of_def free_act_vhdr_def)
    have ne: "org_of ?s w = org_of s w" if "w \<in> set vs" for w
      using that Cons.prems(1) eq(2) by (metis distinct.simps(2))
    have nt: "tomb_before ?s until w = tomb_before s until w" if "w \<in> set vs" for w
      using that Cons.prems(1) eq(1) by (metis distinct.simps(2))
    have f: "filter (\<lambda>w. \<not> tomb_before ?s until w) vs = filter (\<lambda>w. \<not> tomb_before s until w) vs"
      using nt by (simp cong: filter_cong)
    obtain ps' s' where r: "ckptlog_cleanup_loop until (length vs) (Suc i) first ps ?s =
           Some (ps', first + length (filter (\<lambda>v. \<not> tomb_before s until v) vs), s')"
         "length ps' = length ps"
         "take (first + length (filter (\<lambda>v. \<not> tomb_before s until v) vs)) ps' =
           take first ps @ map Vhdr (filter (\<lambda>v. \<not> tomb_before s until v) vs)"
         "thrs s' = thrs ?s"
         "\<forall>w. vhdrs s' w = (if w \<in> set vs \<and> tomb_before ?s until w then None else vhdrs ?s w)"
         "\<forall>b. acts s' b = (if \<exists>w\<in>set vs. tomb_before ?s until w \<and> org_of ?s w = Some b then None else acts ?s b)"
      using Cons.IH [of ?s first "Suc i" ps] Cons.prems rest unfolding f by (auto simp: ne)
    have tv: "tomb_before s until v" "org_of s v = Some a" using h True by (simp_all add: tomb_before_def org_of_def)
    have "vhdrs s' w = (if w \<in> set (v # vs) \<and> tomb_before s until w then None else vhdrs s w)" for w
      using r(5) nt tv by (auto simp: store_simps)
    moreover have "acts s' b = (if \<exists>w\<in>set (v # vs). tomb_before s until w \<and> org_of s w = Some b then None else acts s b)" for b
      using r(6) ne nt tv by (auto simp: store_simps)
    moreover have "thrs s' = thrs s" using r(4) by (simp add: store_simps)
    moreover have "ckptlog_cleanup_loop until (length (v # vs)) i first ps s = ckptlog_cleanup_loop until (length vs) (Suc i) first ps ?s"
      using pi il h True by simp
    ultimately show ?thesis using r(1-3) tv by auto
  next
    case False
    let ?ps = "ps[first := Vhdr v]"
    have "take (length vs) (drop (Suc i) ?ps) = map Vhdr vs"
      using rest Cons.prems(3) by (simp add: drop_update_cancel)
    then have "\<exists>ps' s'. ckptlog_cleanup_loop until (length vs) (Suc i) (Suc first) ?ps s =
           Some (ps', Suc first + length (filter (\<lambda>v. \<not> tomb_before s until v) vs), s') \<and>
         length ps' = length ?ps \<and>
         take (Suc first + length (filter (\<lambda>v. \<not> tomb_before s until v) vs)) ps' =
           take (Suc first) ?ps @ map Vhdr (filter (\<lambda>v. \<not> tomb_before s until v) vs) \<and>
         thrs s' = thrs s \<and>
         (\<forall>v. vhdrs s' v = (if v \<in> set vs \<and> tomb_before s until v then None else vhdrs s v)) \<and>
         (\<forall>a. acts s' a = (if \<exists>v\<in>set vs. tomb_before s until v \<and> org_of s v = Some a then None else acts s a))"
      using Cons.prems by (intro Cons.IH) auto
    moreover have "\<not> tomb_before s until v" using h False by (simp add: tomb_before_def)
    moreover have "take (Suc first) ?ps = take first ps @ [Vhdr v]"
      using Cons.prems(3) il by (intro take_list_update_snoc) simp
    ultimately show ?thesis using pi il h False by auto
  qed
qed

text \<open>
  C30. Cleaning up the free set of a checkpoint log frees exactly the objects tombstoned before
  the given clock: their original and their volatile header are released, every other header and
  original is untouched, and the pointers that remain keep their order.
\<close>

theorem ckptlog_cleanup_filters:
  assumes "thrs s t = Some th" "ckptlog_free_set th" "ptrset_wf (ckpt_free_set th)"
    "ptrset_list (ckpt_free_set th) = map Vhdr vs" "distinct vs" "\<And>v. v \<in> set vs \<Longrightarrow> org_of s v \<noteq> None"
  shows "\<exists>s' th'. ckptlog_cleanup t until s = Some s' \<and> thrs s' t = Some th' \<and>
     ptrset_wf (ckpt_free_set th') \<and>
     ptrset_list (ckpt_free_set th') = map Vhdr (filter (\<lambda>v. \<not> tomb_before s until v) vs) \<and>
     (\<forall>v. vhdrs s' v = (if v \<in> set vs \<and> tomb_before s until v then None else vhdrs s v)) \<and>
     (\<forall>a. acts s' a = (if \<exists>v\<in>set vs. tomb_before s until v \<and> org_of s v = Some a then None else acts s a))"
proof -
  let ?fs = "ckpt_free_set th" and ?keep = "filter (\<lambda>v. \<not> tomb_before s until v) vs"
  obtain ps where ps: "ptrs ?fs = Some ps" "length ps = unat (num_max_ptrs ?fs)" "unat (num_ptrs ?fs) \<le> length ps"
    using assms(3) by (auto simp: ptrset_wf_def word_le_nat_alt split: option.splits)
  have l: "take (unat (num_ptrs ?fs)) ps = map Vhdr vs" using assms(4) ps by (simp add: ptrset_list_def)
  then have n: "length vs = unat (num_ptrs ?fs)" using ps(3) by (metis length_map length_take min.absorb2)
  obtain ps' s' where loop: "ckptlog_cleanup_loop until (unat (num_ptrs ?fs)) 0 0 ps s = Some (ps', length ?keep, s')"
    "length ps' = length ps" "take (length ?keep) ps' = map Vhdr ?keep" "thrs s' = thrs s"
    "\<forall>v. vhdrs s' v = (if v \<in> set vs \<and> tomb_before s until v then None else vhdrs s v)"
    "\<forall>a. acts s' a = (if \<exists>v\<in>set vs. tomb_before s until v \<and> org_of s v = Some a then None else acts s a)"
    using cleanup_loop [OF assms(5,6), of 0 0 ps until] n l ps(3) by (auto simp: n)
  have k: "length ?keep \<le> unat (num_ptrs ?fs)" using n length_filter_le [of "\<lambda>v. \<not> tomb_before s until v" vs] by simp
  have u: "unat (of_nat (length ?keep) :: u32) = length ?keep"
    using k unsigned_less [of "num_ptrs ?fs", where ?'a = nat] by (simp only: unat_of_nat) simp
  show ?thesis
    using assms(1,2) ps loop u k
    by (auto simp: ckptlog_cleanup_def store_simps ptrset_wf_def ptrset_list_def word_le_nat_alt)
qed

definition demo_vhdr :: "nat \<Rightarrow> u64 \<Rightarrow> act_vhdr" where
  "demo_vhdr a clk = \<lparr>p_copy = Null, p_lock = Act 0, np_org_act = Act a, np_cur_act = Act a, tombstone_clk = clk\<rparr>"

definition demo_free_sys :: sys where
  "demo_free_sys =
     demo_sys\<lparr>vhdrs := [1 \<mapsto> demo_vhdr 10 100, 2 \<mapsto> demo_vhdr 20 5000],
       thrs := [1 \<mapsto> demo_thread\<lparr>ckpt_free_set :=
         \<lparr>num_ptrs = 2, num_max_ptrs = 3, ptrs = Some [Vhdr 1, Vhdr 2, Null]\<rparr>\<rparr>]\<rparr>"

theorem ckptlog_cleanup_filters_witness:
  "\<exists>s' th'. ckptlog_cleanup 1 5000 demo_free_sys = Some s' \<and> thrs s' 1 = Some th' \<and>
     ptrset_list (ckpt_free_set th') = [Vhdr 2] \<and> vhdrs s' 1 = None \<and> vhdrs s' 2 \<noteq> None"
proof -
  let ?fs = "\<lparr>num_ptrs = 2, num_max_ptrs = 3, ptrs = Some [Vhdr 1, Vhdr 2, Null]\<rparr>"
  let ?th = "demo_thread\<lparr>ckpt_free_set := ?fs\<rparr>"
  have th: "thrs demo_free_sys 1 = Some ?th" by (simp add: demo_free_sys_def)
  have f: "ckptlog_free_set ?th" by (simp add: demo_thread_def)
  have v: "tomb_before demo_free_sys 5000 1" "\<not> tomb_before demo_free_sys 5000 2"
    "org_of demo_free_sys 1 = Some 10" "org_of demo_free_sys 2 = Some 20"
    by (simp_all add: tomb_before_def org_of_def demo_free_sys_def demo_vhdr_def lt_clock_def ordo_lt_clock_def
        ordo_boundary_def)
  have "vhdrs demo_free_sys 2 \<noteq> None" by (simp add: demo_free_sys_def)
  moreover have "ptrset_wf (ckpt_free_set ?th)" "ptrset_list (ckpt_free_set ?th) = map Vhdr [1, 2]"
    by (simp_all add: ptrset_wf_def ptrset_list_def)
  ultimately show ?thesis
    using ckptlog_cleanup_filters [OF th f, of "[1, 2]" 5000] v by fastforce
qed

section \<open>Writing back current masters\<close>

text \<open>The value of an object as its master copy has it.\<close>

definition master_value :: "sys \<Rightarrow> nat \<Rightarrow> bytes option" where
  "master_value s v = do { h \<leftarrow> vhdrs s v; obj_data s (np_cur_act h) }"

text \<open>
  The master pointers are consistent: the current master of an object is its original or a
  checkpoint entry made for it, with as many bytes as the original.
\<close>

definition master_ok :: "sys \<Rightarrow> nat \<Rightarrow> act_vhdr \<Rightarrow> bool" where
  "master_ok s v h \<longleftrightarrow>
     (case np_org_act h of
        Act a \<Rightarrow>
          (case acts s a of
             None \<Rightarrow> False
           | Some ao \<Rightarrow>
               a_vhdr ao = Some v \<and> a_type ao = TYPE_ACTUAL \<and>
               (case np_cur_act h of
                  Act b \<Rightarrow> b = a
                | Ckpt t i \<Rightarrow>
                    (case get_ckpt s t i of
                       None \<Rightarrow> False
                     | Some c \<Rightarrow> ck_np_org_act c = Act a \<and> length (ck_data c) = unat (ck_obj_size c) \<and>
                         (ck_tombstone c \<or> length (a_data ao) = unat (ck_obj_size c)))
                | _ \<Rightarrow> False))
      | _ \<Rightarrow> False)"

definition masters_ok :: "sys \<Rightarrow> bool" where
  "masters_ok s \<longleftrightarrow> (\<forall>v h. vhdrs s v = Some h \<longrightarrow> master_ok s v h)"

definition is_current :: "sys \<Rightarrow> nat \<Rightarrow> u32 \<Rightarrow> bool" where
  "is_current s t i \<longleftrightarrow> (\<exists>v h. vhdrs s v = Some h \<and> np_cur_act h = Ckpt t i)"

text \<open>An entry can be resolved to the header of its object.\<close>

definition entry_ok :: "sys \<Rightarrow> ckpt_entry_hdr \<Rightarrow> bool" where
  "entry_ok s c \<longleftrightarrow>
     (case ck_np_org_act c of
        Act a \<Rightarrow>
          (case acts s a of
             None \<Rightarrow> False
           | Some ao \<Rightarrow> a_type ao = TYPE_ACTUAL \<and>
               (case a_vhdr ao of
                  None \<Rightarrow> False
                | Some v \<Rightarrow> (case vhdrs s v of None \<Rightarrow> False | Some h \<Rightarrow> np_org_act h = Act a)))
      | _ \<Rightarrow> False)"

lemma entry_okE:
  assumes "entry_ok s c"
  obtains a ao v h where "ck_np_org_act c = Act a" "acts s a = Some ao" "a_type ao = TYPE_ACTUAL"
    "a_vhdr ao = Some v" "vhdrs s v = Some h" "np_org_act h = Act a"
  using assms by (auto simp: entry_ok_def split: ptr.splits option.splits)

lemma master_ok_ckpt:
  assumes "master_ok s w g" "np_cur_act g = Ckpt t i" "get_ckpt s t i = Some c" "ck_np_org_act c = Act a"
  obtains ao where "acts s a = Some ao" "a_vhdr ao = Some w"
  using assms by (auto simp: master_ok_def split: ptr.splits option.splits)

lemma get_ckpt_upds [store_simps]:
  "get_ckpt (upd_vhdr v f s) t i = get_ckpt s t i" "get_ckpt (upd_act a g s) t i = get_ckpt s t i"
  by (simp_all add: get_ckpt_def store_simps)

lemma writeback_entry:
  assumes ok: "masters_ok s" "entry_ok s c" and c: "get_ckpt s t i = Some c" and th: "thrs s t = Some th"
  shows "\<exists>stop b s'. ckptlog_writeback_entry t wm i c s = Some (stop, b, s') \<and> thrs s' = thrs s \<and> masters_ok s' \<and>
     (\<forall>v. master_value s' v = master_value s v) \<and> (\<forall>d. entry_ok s d \<longrightarrow> entry_ok s' d) \<and>
     (\<forall>t' j. is_current s' t' j \<longrightarrow> is_current s t' j) \<and>
     (\<not> stop \<longrightarrow> \<not> ck_tombstone c \<longrightarrow> \<not> is_current s' t i)"
proof -
  from ok(2) obtain a ao v h where e: "ck_np_org_act c = Act a" "acts s a = Some ao" "a_type ao = TYPE_ACTUAL"
    "a_vhdr ao = Some v" "vhdrs s v = Some h" "np_org_act h = Act a" by (rule entry_okE)
  have gv: "get_act_vhdr s (ck_np_org_act c) = Some (Some v)"
    using e by (simp add: get_act_vhdr_def obj_to_obj_type_def)
  have only: "w = v" if g: "vhdrs s w = Some g" "np_cur_act g = Ckpt t i" for w g
  proof -
    have "master_ok s w g" using ok(1) g(1) by (simp add: masters_ok_def)
    then obtain ao' where "acts s a = Some ao'" "a_vhdr ao' = Some w" using g(2) c e(1) by (rule master_ok_ckpt)
    with e show ?thesis by simp
  qed
  show ?thesis
  proof (cases "np_cur_act h = Ckpt t i \<and> \<not> ck_tombstone c")
    case False
    then have "ckptlog_writeback_entry t wm i c s = Some (False, 0, s)"
      using gv e(5) by (auto simp: ckptlog_writeback_entry_def)
    moreover have "\<not> ck_tombstone c \<longrightarrow> \<not> is_current s t i"
      using False only e(5) by (auto simp: is_current_def)
    ultimately show ?thesis using ok by auto
  next
    case True
    show ?thesis
    proof (cases "ckptlog_used (ckptlog th) < wm")
      case low: True
      then have "ckptlog_writeback_entry t wm i c s = Some (True, 0, s)"
        using gv e(5) True th by (simp add: ckptlog_writeback_entry_def)
      then show ?thesis using ok by auto
    next
      case high: False
      let ?d = "take (unat (ck_obj_size c)) (ck_data c)"
      define s1 where "s1 = upd_vhdr v (\<lambda>h. h\<lparr>np_cur_act := np_org_act h\<rparr>)
                  (upd_act a (\<lambda>ao. ao\<lparr>a_data := overwrite ?d (a_data ao)\<rparr>) s)"
      have r: "ckptlog_writeback_entry t wm i c s = Some (False, ucast (ck_obj_size c), s1)"
        using gv e True th high by (simp add: ckptlog_writeback_entry_def s1_def)
      have len: "length (ck_data c) = unat (ck_obj_size c)" "length (a_data ao) = unat (ck_obj_size c)"
        using ok(1) [unfolded masters_ok_def, rule_format, OF e(5)] e True c by (simp_all add: master_ok_def)
      have vh: "vhdrs s1 w = (if w = v then Some (h\<lparr>np_cur_act := Act a\<rparr>) else vhdrs s w)" for w
        using e by (simp add: s1_def store_simps)
      have ac: "acts s1 b = (if b = a then Some (ao\<lparr>a_data := ck_data c\<rparr>) else acts s b)" for b
        using e len by (simp add: s1_def store_simps overwrite_def)
      have gc: "get_ckpt s1 = get_ckpt s" by (intro ext) (simp add: s1_def store_simps)
      have mo: "masters_ok s1"
        unfolding masters_ok_def
      proof (intro allI impI)
        fix w g assume w: "vhdrs s1 w = Some g"
        show "master_ok s1 w g"
        proof (cases "w = v")
          case True
          with w vh e show ?thesis by (auto simp: master_ok_def ac)
        next
          case False
          with w vh have "vhdrs s w = Some g" by simp
          then have m: "master_ok s w g" using ok(1) by (simp add: masters_ok_def)
          then obtain b where b: "np_org_act g = Act b" by (auto simp: master_ok_def split: ptr.splits)
          then have "b \<noteq> a" using m e False by (auto simp: master_ok_def)
          then show ?thesis using m b unfolding master_ok_def gc by (simp add: ac)
        qed
      qed
      have mv: "master_value s1 w = master_value s w" for w
      proof (cases "w = v")
        case True
        have "master_value s v = Some (ck_data c)"
          using e(5) \<open>np_cur_act h = Ckpt t i \<and> \<not> ck_tombstone c\<close> c by (simp add: master_value_def obj_data_def)
        moreover have "master_value s1 v = Some (ck_data c)"
          by (simp add: master_value_def vh obj_data_def ac)
        ultimately show ?thesis using True by simp
      next
        case False
        show ?thesis
        proof (cases "vhdrs s w")
          case None
          with False show ?thesis by (simp add: master_value_def vh)
        next
          case (Some g)
          then have m: "master_ok s w g" using ok(1) by (simp add: masters_ok_def)
          then have "np_cur_act g \<noteq> Act a" using e False by (auto simp: master_ok_def split: ptr.splits option.splits)
          moreover have "\<And>t i. np_cur_act g \<noteq> Cpy t i" using m by (auto simp: master_ok_def split: ptr.splits option.splits)
          ultimately show ?thesis using False Some
            by (auto simp: master_value_def vh obj_data_def ac gc split: ptr.splits)
        qed
      qed
      have "entry_ok s1 d" if "entry_ok s d" for d
        using that e by (auto simp: entry_ok_def vh ac split: ptr.splits option.splits if_splits)
      moreover have "is_current s t' j" if "is_current s1 t' j" for t' j
        using that by (auto simp: is_current_def vh split: if_splits)
      moreover have "\<not> is_current s1 t i"
        using only by (auto simp: is_current_def vh split: if_splits)
      moreover have "thrs s1 = thrs s" by (simp add: s1_def store_simps)
      ultimately show ?thesis using r mo mv by blast
    qed
  qed
qed

section \<open>The write-back loop\<close>

text \<open>The buffer indices of the tiles of a log.\<close>

fun starts :: "u64 \<Rightarrow> u64 \<Rightarrow> 'e nv_entry list \<Rightarrow> u32 list" where
  "starts msk c [] = []"
| "starts msk c (e # es) = ring_index msk c # starts msk (c + ucast (e_size e)) es"

text \<open>States with the same objects, headers, copies and checkpoint entries.\<close>

definition same_objs :: "sys \<Rightarrow> sys \<Rightarrow> bool" where
  "same_objs s s' \<longleftrightarrow> vhdrs s' = vhdrs s \<and> acts s' = acts s \<and> get_ckpt s' = get_ckpt s \<and> get_chs s' = get_chs s"

lemma same_objs_keep:
  assumes "same_objs s s'"
  shows "masters_ok s' = masters_ok s" "entry_ok s' = entry_ok s" "is_current s' = is_current s"
    "master_value s' = master_value s" "get_ckpt s' = get_ckpt s" "get_act_vhdr s' = get_act_vhdr s"
proof -
  have eqs: "vhdrs s' = vhdrs s" "acts s' = acts s" "get_ckpt s' = get_ckpt s" "get_chs s' = get_chs s"
    using assms by (simp_all add: same_objs_def)
  show "masters_ok s' = masters_ok s" unfolding masters_ok_def master_ok_def eqs ..
  show "entry_ok s' = entry_ok s" by (intro ext) (unfold entry_ok_def eqs, rule refl)
  show "is_current s' = is_current s" by (intro ext) (simp add: is_current_def eqs)
  show "master_value s' = master_value s" by (intro ext) (unfold master_value_def obj_data_def eqs, rule refl)
  show "get_ckpt s' = get_ckpt s" by (rule eqs)
  show "get_act_vhdr s' = get_act_vhdr s" by (intro ext) (unfold get_act_vhdr_def obj_to_obj_type_def eqs, rule refl)
qed

lemma same_objs_ckptlog:
  assumes "thrs s t = Some th" "nvlog_mem l = nvlog_mem (ckptlog th)"
  shows "same_objs s (upd_ckptlog t (\<lambda>_. l) s)"
  using assms by (auto simp: same_objs_def get_ckpt_def get_chs_def upd_thr_def fun_eq_iff)

lemma mem_head_cnt [simp]: "nvlog_mem (l\<lparr>head_cnt := c\<rparr>) = nvlog_mem l"
  by (simp add: nvlog_mem_def)

lemma rep_peek_exact:
  assumes "nvlog_rep k l es"
  shows "\<exists>l' es'. nvlog_rep k l' es' \<and>
     (l' = l \<and> es' = es \<or>
      (\<exists>b. es = b # es' \<and> e_type b = TYPE_BOGUS \<and> l' = l\<lparr>head_cnt := head_cnt l + ucast (e_size b)\<rparr>)) \<and>
     (case es' of
        [] \<Rightarrow> nvlog_peek_head l = Some (None, l')
      | e # _ \<Rightarrow> is_real e \<and> nvlog_peek_head l = Some (Some e, l'))"
proof (cases es)
  case Nil
  with assms show ?thesis by (auto simp: nvlog_peek_head_def rep_head_tail [OF assms])
next
  case (Cons b fs)
  note at = rep_head_at [OF assms [unfolded Cons]]
  show ?thesis
  proof (cases "e_type b = TYPE_BOGUS")
    case False
    with Cons at assms show ?thesis
      by (intro exI [of _ l] exI [of _ es]) (auto simp: nvlog_peek_head_def rep_head_tail [OF assms])
  next
    case True
    let ?l = "l\<lparr>head_cnt := head_cnt l + ucast (e_size b)\<rparr>"
    have r: "nvlog_rep k ?l fs" using assms Cons by (auto intro: rep_advance)
    have p: "case fs of
        [] \<Rightarrow> nvlog_peek_head l = Some (None, ?l)
      | e # _ \<Rightarrow> is_real e \<and> nvlog_peek_head l = Some (Some e, ?l)"
    proof (cases fs)
      case Nil
      with Cons True at rep_head_tail [OF r] show ?thesis
        by (simp add: nvlog_peek_head_def Let_def rep_head_tail [OF assms] \<open>es = b # fs\<close>)
    next
      case (Cons e gs)
      have "is_real e"
        using assms \<open>es = b # fs\<close> Cons True after_bogus_real [of k "nvlog_mem l" "head_cnt l" b e gs]
        by (auto simp: nvlog_rep_def)
      moreover have "nvlog_at ?l (head_cnt ?l) = Some e" using r Cons rep_head_at by metis
      ultimately show ?thesis
        using Cons True at rep_head_tail [OF r] \<open>es = b # fs\<close>
        by (simp add: nvlog_peek_head_def Let_def rep_head_tail [OF assms] nvlog_at_def nvlog_index_def)
    qed
    show ?thesis using r p Cons True by (intro exI [of _ ?l] exI [of _ fs]) simp
  qed
qed

lemma rep_deq_real:
  assumes "nvlog_rep k l (e # es)" "is_real e"
  shows "nvlog_deq l = Some (Some e, l\<lparr>head_cnt := head_cnt l + ucast (e_size e)\<rparr>)"
  using rep_head_at [OF assms(1)] rep_head_tail [OF assms(1)] assms(2) by (simp add: nvlog_deq_def)

text \<open>
  The invariant of the loop: the masters are consistent, every entry of the log resolves to a
  header, and an entry that is a current master is still in the log, unless it is a tombstone.
\<close>

definition wb_inv :: "nat \<Rightarrow> nat \<Rightarrow> log_entry list \<Rightarrow> sys \<Rightarrow> bool" where
  "wb_inv t k es s \<longleftrightarrow>
     (case thrs s t of
        None \<Rightarrow> False
      | Some th \<Rightarrow>
          nvlog_rep k (ckptlog th) es \<and> masters_ok s \<and>
          (\<forall>e\<in>set es. is_real e \<longrightarrow> (\<exists>c. ck_body e = Some c \<and> entry_ok s c)) \<and>
          (\<forall>e\<in>set es. e_type e = TYPE_BOGUS \<longrightarrow> ck_body e = None) \<and>
          (\<forall>i. is_current s t i \<longrightarrow> i \<in> set (starts (ring_mask (2 ^ k)) (head_cnt (ckptlog th)) es) \<or>
                 (\<exists>c. get_ckpt s t i = Some c \<and> ck_tombstone c)))"

lemma current_has_entry: "masters_ok s \<Longrightarrow> is_current s t i \<Longrightarrow> get_ckpt s t i \<noteq> None"
proof -
  assume mo: "masters_ok s" and "is_current s t i"
  then obtain v h where h: "vhdrs s v = Some h" "np_cur_act h = Ckpt t i" by (auto simp: is_current_def)
  then have "master_ok s v h" using mo by (simp add: masters_ok_def)
  then show ?thesis using h(2) by (auto simp: master_ok_def split: ptr.splits option.splits)
qed

lemma wb_inv_thr:
  assumes "wb_inv t k es s"
  obtains th where "thrs s t = Some th" "nvlog_rep k (ckptlog th) es"
  using assms by (auto simp: wb_inv_def split: option.splits)

lemma get_ckpt_head:
  assumes "thrs s t = Some th" "nvlog_rep k (ckptlog th) (e # es)"
  shows "get_ckpt s t (ring_index (ring_mask (2 ^ k)) (head_cnt (ckptlog th))) = ck_body e"
  using assms by (simp add: get_ckpt_def ck_body_def nvlog_rep_def split: option.splits nv_body.splits)

text \<open>Dropping the first tile when it is not the current master of an object.\<close>

lemma wb_inv_advance:
  assumes inv: "wb_inv t k (e # es) s" and th: "thrs s t = Some th"
    and dead: "\<not> is_current s t (ring_index (ring_mask (2 ^ k)) (head_cnt (ckptlog th))) \<or>
               (\<exists>c. ck_body e = Some c \<and> ck_tombstone c)"
  shows "wb_inv t k es (upd_ckptlog t (\<lambda>_. (ckptlog th)\<lparr>head_cnt := head_cnt (ckptlog th) + ucast (e_size e)\<rparr>) s)"
    (is "wb_inv t k es ?s")
proof -
  have so: "same_objs s ?s" by (rule same_objs_ckptlog [OF th]) simp
  have r: "nvlog_rep k (ckptlog th) (e # es)" using inv th by (simp add: wb_inv_def)
  have "get_ckpt s t (ring_index (ring_mask (2 ^ k)) (head_cnt (ckptlog th))) = ck_body e"
    by (rule get_ckpt_head [OF th r])
  then show ?thesis
    using inv th dead rep_advance [OF r] same_objs_keep [OF so] by (auto simp: wb_inv_def store_simps)
qed

lemma wb_peek:
  assumes inv: "wb_inv t k es s"
  shows "\<exists>s' es' th'. wb_inv t k es' s' \<and> same_objs s s' \<and> thrs s' t = Some th' \<and> (\<exists>ps. es = ps @ es') \<and>
     (case es' of
        [] \<Rightarrow> ckptlog_peek_head t s = Some (None, s')
      | e # _ \<Rightarrow> is_real e \<and> ckptlog_peek_head t s = Some (Some e, s'))"
proof -
  from inv obtain th where th: "thrs s t = Some th" and r: "nvlog_rep k (ckptlog th) es" by (rule wb_inv_thr)
  obtain l' es' where l': "nvlog_rep k l' es'"
    "l' = ckptlog th \<and> es' = es \<or>
      (\<exists>b. es = b # es' \<and> e_type b = TYPE_BOGUS \<and> l' = (ckptlog th)\<lparr>head_cnt := head_cnt (ckptlog th) + ucast (e_size b)\<rparr>)"
    "case es' of
        [] \<Rightarrow> nvlog_peek_head (ckptlog th) = Some (None, l')
      | e # _ \<Rightarrow> is_real e \<and> nvlog_peek_head (ckptlog th) = Some (Some e, l')"
    using rep_peek_exact [OF r] by blast
  let ?s = "upd_ckptlog t (\<lambda>_. l') s"
  have so: "same_objs s ?s" using l'(2) by (intro same_objs_ckptlog [OF th]) auto
  have inv': "wb_inv t k es' ?s"
    using l'(2)
  proof
    assume "l' = ckptlog th \<and> es' = es"
    with inv th same_objs_keep [OF so] show ?thesis by (auto simp: wb_inv_def store_simps split: option.splits)
  next
    assume "\<exists>b. es = b # es' \<and> e_type b = TYPE_BOGUS \<and> l' = (ckptlog th)\<lparr>head_cnt := head_cnt (ckptlog th) + ucast (e_size b)\<rparr>"
    then obtain b where b: "es = b # es'" "e_type b = TYPE_BOGUS"
      "l' = (ckptlog th)\<lparr>head_cnt := head_cnt (ckptlog th) + ucast (e_size b)\<rparr>" by blast
    have "ck_body b = None" "masters_ok s" using inv th b by (auto simp: wb_inv_def)
    then have "\<not> is_current s t (ring_index (ring_mask (2 ^ k)) (head_cnt (ckptlog th)))"
      using get_ckpt_head [OF th r [unfolded b(1)]] current_has_entry by metis
    then show ?thesis using wb_inv_advance [OF inv [unfolded b(1)] th] b by simp
  qed
  moreover have "thrs ?s t = Some (th\<lparr>ckptlog := l'\<rparr>)" using th by (simp add: store_simps)
  moreover have "\<exists>ps. es = ps @ es'" using l'(2) by (auto intro: exI [of _ "[]"] exI [of _ "[b]" for b])
  ultimately show ?thesis
    using so l'(3) th by (intro exI [of _ ?s] exI [of _ es']) (auto simp: ckptlog_peek_head_def split: list.splits)
qed

lemma wb_writeback:
  assumes inv: "wb_inv t k (e # es) s" "is_real e" and th: "thrs s t = Some th"
  shows "\<exists>c stop b s'. ck_body e = Some c \<and>
     ckptlog_writeback_entry t wm (nvlog_index (ckptlog th) (head_cnt (ckptlog th))) c s = Some (stop, b, s') \<and>
     wb_inv t k (e # es) s' \<and> thrs s' = thrs s \<and> (\<forall>v. master_value s' v = master_value s v) \<and>
     (\<not> stop \<longrightarrow> \<not> is_current s' t (ring_index (ring_mask (2 ^ k)) (head_cnt (ckptlog th))) \<or> ck_tombstone c)"
proof -
  let ?i = "ring_index (ring_mask (2 ^ k)) (head_cnt (ckptlog th))"
  have r: "nvlog_rep k (ckptlog th) (e # es)" and mo: "masters_ok s" using inv th by (auto simp: wb_inv_def)
  have ix: "nvlog_index (ckptlog th) (head_cnt (ckptlog th)) = ?i" using r by (simp add: nvlog_index_def nvlog_rep_def)
  obtain c where c: "ck_body e = Some c" "entry_ok s c"
    using inv th by (auto simp: wb_inv_def split: option.splits)
  have gc: "get_ckpt s t ?i = Some c" using get_ckpt_head [OF th r] c by simp
  obtain stop b s' where w: "ckptlog_writeback_entry t wm ?i c s = Some (stop, b, s')" "thrs s' = thrs s" "masters_ok s'"
     "\<forall>v. master_value s' v = master_value s v" "\<forall>d. entry_ok s d \<longrightarrow> entry_ok s' d"
     "\<forall>t' j. is_current s' t' j \<longrightarrow> is_current s t' j" "\<not> stop \<longrightarrow> \<not> ck_tombstone c \<longrightarrow> \<not> is_current s' t ?i"
    using writeback_entry [OF mo c(2) gc th, of wm] by blast
  have "get_ckpt s' = get_ckpt s" using w(2) by (simp add: get_ckpt_def fun_eq_iff)
  then have "wb_inv t k (e # es) s'"
    using inv(1) th w by (auto simp: wb_inv_def split: option.splits)
  then show ?thesis using c w ix by auto
qed

lemma step2_inv:
  assumes "wb_inv t k es s" "length es < n"
  shows "\<exists>wb' s' es'. ckptlog_reclaim_step2 t wm lim n wb s = Some (wb', s') \<and> wb_inv t k es' s' \<and>
     (\<exists>ps. es = ps @ es') \<and> (\<forall>v. master_value s' v = master_value s v)"
  using assms
proof (induction n arbitrary: es s wb)
  case 0
  then show ?case by simp
next
  case (Suc n)
  obtain s1 es1 th1 where p: "wb_inv t k es1 s1" "same_objs s s1" "thrs s1 t = Some th1" "\<exists>ps. es = ps @ es1"
    "case es1 of
        [] \<Rightarrow> ckptlog_peek_head t s = Some (None, s1)
      | e # _ \<Rightarrow> is_real e \<and> ckptlog_peek_head t s = Some (Some e, s1)"
    using wb_peek [OF Suc.prems(1)] by blast
  note mv1 = same_objs_keep(4) [OF p(2)]
  show ?case
  proof (cases es1)
    case Nil
    then show ?thesis using p mv1 by auto
  next
    case (Cons e fs)
    obtain c stop b s2 where w: "ck_body e = Some c"
      "ckptlog_writeback_entry t wm (nvlog_index (ckptlog th1) (head_cnt (ckptlog th1))) c s1 = Some (stop, b, s2)"
      "wb_inv t k (e # fs) s2" "thrs s2 = thrs s1" "\<forall>v. master_value s2 v = master_value s1 v"
      "\<not> stop \<longrightarrow> \<not> is_current s2 t (ring_index (ring_mask (2 ^ k)) (head_cnt (ckptlog th1))) \<or> ck_tombstone c"
      using wb_writeback [of t k e fs s1 th1 wm] p Cons by auto
    have pk: "ckptlog_peek_head t s = Some (Some e, s1)" "is_real e" using p(5) Cons by auto
    show ?thesis
    proof (cases "gt_clock (ckpt_s_clk c) lim")
      case True
      then show ?thesis using pk w(1) p mv1 by auto
    next
      case False
      show ?thesis
      proof (cases stop)
        case True
        then show ?thesis using False pk w p(3,4) mv1 Cons by (intro exI [of _ wb] exI [of _ s2] exI [of _ es1]) auto
      next
        case go: False
        have th2: "thrs s2 t = Some th1" using w(4) p(3) by simp
        let ?s3 = "upd_ckptlog t (\<lambda>_. (ckptlog th1)\<lparr>head_cnt := head_cnt (ckptlog th1) + ucast (e_size e)\<rparr>) s2"
        have "nvlog_rep k (ckptlog th1) (e # fs)" using w(3) th2 by (simp add: wb_inv_def)
        then have dq: "ckptlog_deq t s2 = Some (Some e, ?s3)"
          using th2 pk(2) by (simp add: ckptlog_deq_def rep_deq_real)
        have i3: "wb_inv t k fs ?s3" using w(3,6) go w(1) th2 by (intro wb_inv_advance) auto
        have so: "same_objs s2 ?s3" by (rule same_objs_ckptlog [OF th2]) simp
        have "length fs < n" using Suc.prems(2) p(4) Cons by auto
        then obtain wb' s' es' where ih: "ckptlog_reclaim_step2 t wm lim n (wb + b) ?s3 = Some (wb', s')" "wb_inv t k es' s'"
          "\<exists>ps. fs = ps @ es'" "\<forall>v. master_value s' v = master_value ?s3 v"
          using Suc.IH [OF i3] by blast
        have "\<exists>ps. es = ps @ es'" using p(4) Cons ih(3) by (metis append.assoc append_Cons)
        moreover have "\<forall>v. master_value s' v = master_value s v"
          using ih(4) same_objs_keep(4) [OF so] w(5) mv1 by simp
        moreover have "ckptlog_reclaim_step2 t wm lim (Suc n) wb s = Some (wb', s')"
          using pk w p(3) False go dq ih(1) by simp
        ultimately show ?thesis using ih(2) by blast
      qed
    qed
  qed
qed


text \<open>
  C34. The reclamation phase can drop an entry that was never written back. When the last
  write-back stopped at the end of the log and the next entry was enqueued after a bogus entry
  (because it would have wrapped), the head skips the bogus entry, never equals \<open>prev_head_cnt\<close>,
  and the loop goes on to drop the live entry behind it: the log ends up empty although the entry
  is still the current master of its object.
\<close>

theorem ckptlog_reclaim_drops_current:
  assumes inv: "wb_inv t k [b, e] s" and th: "thrs s t = Some th"
    and ty: "e_type b = TYPE_BOGUS" "is_real e" and c: "ck_body e = Some c" "\<not> ck_tombstone c"
    and cur: "is_current s t (nvlog_index (ckptlog th) (head_cnt (ckptlog th) + ucast (e_size b)))"
  shows "\<exists>s' th'. ckptlog_reclaim_step1 ra t (head_cnt (ckptlog th)) (Suc (Suc n)) s = Some (None, s') \<and>
     thrs s' t = Some th' \<and> nvlog_entries (ckptlog th') = [] \<and>
     is_current s' t (nvlog_index (ckptlog th) (head_cnt (ckptlog th) + ucast (e_size b)))"
proof -
  let ?l = "ckptlog th"
  let ?l1 = "?l\<lparr>head_cnt := head_cnt ?l + ucast (e_size b)\<rparr>"
  let ?l2 = "?l\<lparr>head_cnt := head_cnt ?l + ucast (e_size b) + ucast (e_size e)\<rparr>"
  let ?s1 = "upd_ckptlog t (\<lambda>_. ?l1) s" and ?s2 = "upd_ckptlog t (\<lambda>_. ?l2) (upd_ckptlog t (\<lambda>_. ?l1) s)"
  let ?s3 = "upd_ckptlog t (\<lambda>_. ?l2) ?s2"
  have r: "nvlog_rep k ?l [b, e]" using inv th by (simp add: wb_inv_def)
  have r1: "nvlog_rep k ?l1 [e]" by (rule rep_advance [OF r])
  have r2: "nvlog_rep k ?l2 []" using rep_advance [OF r1] by simp
  have b: "nvlog_at ?l (head_cnt ?l) = Some b" "e_size b \<noteq> 0"
    using rep_head_at [OF r] r by (auto simp: nvlog_rep_def)
  have at1: "nvlog_at ?l1 (head_cnt ?l1) = Some e" by (rule rep_head_at [OF r1])
  have "nvlog_peek_head ?l = Some (Some e, ?l1)"
    using b at1 ty rep_head_tail [OF r] rep_head_tail [OF r1] by (simp add: nvlog_peek_head_def Let_def)
  then have p1: "ckptlog_peek_head t s = Some (Some e, ?s1)" using th by (simp add: ckptlog_peek_head_def)
  have th1: "thrs ?s1 t = Some (th\<lparr>ckptlog := ?l1\<rparr>)" using th by (simp add: store_simps)
  have "(ucast (e_size b) :: u64) \<noteq> 0" using b(2) by (metis unat_0 unat_eq_0 unat_ucast_u64)
  then have ne: "head_cnt ?l1 \<noteq> head_cnt ?l" by simp
  have d: "ckptlog_deq t ?s1 = Some (Some e, ?s2)"
    using th1 rep_deq_real [OF r1 ty(2)] by (simp add: ckptlog_deq_def)
  have th2: "thrs ?s2 t = Some (th\<lparr>ckptlog := ?l2\<rparr>)" using th by (simp add: store_simps)
  have "nvlog_peek_head ?l2 = Some (None, ?l2)" using rep_head_tail [OF r2] by (simp add: nvlog_peek_head_def)
  then have p2: "ckptlog_peek_head t ?s2 = Some (None, ?s3)" using th2 by (simp add: ckptlog_peek_head_def)
  have th3: "thrs ?s3 t = Some (th\<lparr>ckptlog := ?l2\<rparr>)" using th by (simp add: store_simps)
  have "vhdrs ?s3 = vhdrs s" by (simp add: store_simps)
  then have "is_current ?s3 t (nvlog_index ?l (head_cnt ?l + ucast (e_size b)))" using cur by (simp add: is_current_def)
  moreover have "ckptlog_reclaim_step1 ra t (head_cnt ?l) (Suc (Suc n)) s = Some (None, ?s3)"
    using p1 th1 ne c d p2 by simp
  ultimately show ?thesis using th3 rep_entries [OF r2] by auto
qed

section \<open>Witnesses of the reclamation\<close>

definition demo_ck :: ckpt_entry_hdr where
  "demo_ck = \<lparr>ckpt_s_clk = 5, ck_np_org_act = Act 10, ck_tombstone = False, ck_obj_size = 2,
     ck_type = TYPE_NVLOG_ENTRY, ck_data = [1, 2]\<rparr>"

definition demo_ck_entry :: log_entry where
  "demo_ck_entry = (fresh_entry 64)\<lparr>e_wrt_clk := 4, e_body := Some (CkBody demo_ck)\<rparr>"

definition demo_ck_log :: log where
  "demo_ck_log = (nvlog_load (demo_store 192 192 [192 \<mapsto> bogus_entry 64, 0 \<mapsto> demo_ck_entry]))\<lparr>tail_cnt := 320\<rparr>"

definition demo_ck_sys :: sys where
  "demo_ck_sys =
     demo_sys\<lparr>acts := [10 \<mapsto> \<lparr>a_vhdr = Some 1, a_gen_id = 1, a_index = 0, a_obj_size = 2, a_type = TYPE_ACTUAL, a_data = [7, 7]\<rparr>],
       vhdrs := [1 \<mapsto> (demo_vhdr 10 MAX_VERSION)\<lparr>np_cur_act := Ckpt 1 0\<rparr>],
       thrs := [1 \<mapsto> demo_thread\<lparr>ckptlog := demo_ck_log\<rparr>]\<rparr>"

lemma demo_ck_log_rep: "nvlog_rep 8 demo_ck_log [bogus_entry 64, demo_ck_entry]"
  by (simp add: nvlog_rep_def demo_ck_log_def nvlog_load_def demo_store_def nvlog_mem_def nvlog_used_def ring_index_def
      bogus_entry_def demo_ck_entry_def fresh_entry_def)

lemma demo_ck_head: "head_cnt demo_ck_log = 192" "nvl_mask demo_ck_log = NOT 255"
  by (simp_all add: demo_ck_log_def nvlog_load_def demo_store_def)

lemma demo_ck_cur: "is_current demo_ck_sys 1 i \<longleftrightarrow> i = 0"
  by (auto simp: is_current_def demo_ck_sys_def)

lemma demo_ck_body: "ck_body demo_ck_entry = Some demo_ck" "ck_body (bogus_entry 64) = None"
  by (simp_all add: ck_body_def demo_ck_entry_def bogus_entry_def)

lemma demo_ck_get: "get_ckpt demo_ck_sys 1 0 = Some demo_ck"
  by (simp add: get_ckpt_def demo_ck_sys_def demo_ck_log_def nvlog_load_def demo_store_def nvlog_mem_def demo_ck_entry_def)

lemma demo_ck_inv: "wb_inv 1 8 [bogus_entry 64, demo_ck_entry] demo_ck_sys"
proof -
  have "masters_ok demo_ck_sys"
    using demo_ck_get by (simp add: masters_ok_def master_ok_def) (simp add: demo_ck_sys_def demo_vhdr_def demo_ck_def)
  moreover have "entry_ok demo_ck_sys demo_ck" by (simp add: entry_ok_def demo_ck_sys_def demo_ck_def demo_vhdr_def)
  moreover have "thrs demo_ck_sys 1 = Some (demo_thread\<lparr>ckptlog := demo_ck_log\<rparr>)" by (simp add: demo_ck_sys_def)
  moreover have "e_type (bogus_entry 64 :: log_entry) = TYPE_BOGUS" "e_type demo_ck_entry = TYPE_ACTUAL"
    "e_size (bogus_entry 64 :: log_entry) = 64"
    by (simp_all add: bogus_entry_def demo_ck_entry_def fresh_entry_def)
  ultimately show ?thesis
    using demo_ck_log_rep demo_ck_body demo_ck_cur by (simp add: wb_inv_def demo_ck_head ring_index_def)
qed


theorem ckptlog_reclaim_drops_current_witness:
  "\<exists>s' th'. ckptlog_reclaim_step1 None 1 192 3 demo_ck_sys = Some (None, s') \<and> thrs s' 1 = Some th' \<and>
     nvlog_entries (ckptlog th') = [] \<and> is_current s' 1 0"
proof -
  have "thrs demo_ck_sys 1 = Some (demo_thread\<lparr>ckptlog := demo_ck_log\<rparr>)" by (simp add: demo_ck_sys_def)
  moreover have "e_type (bogus_entry 64 :: log_entry) = TYPE_BOGUS" "is_real demo_ck_entry" "\<not> ck_tombstone demo_ck"
    "e_size (bogus_entry 64 :: log_entry) = 64"
    by (simp_all add: bogus_entry_def demo_ck_entry_def fresh_entry_def demo_ck_def)
  moreover have "nvlog_index demo_ck_log (192 + 64) = 0" by (simp add: nvlog_index_def demo_ck_head ring_index_def)
  ultimately show ?thesis
    using ckptlog_reclaim_drops_current [OF demo_ck_inv, of "demo_thread\<lparr>ckptlog := demo_ck_log\<rparr>" demo_ck None "Suc 0"]
      demo_ck_body demo_ck_cur
    by (simp add: demo_ck_head numeral_3_eq_3)
qed

end
