(* ===== verification/TvLog.thy ===== *)
theory TvLog
  imports CkptLog
begin

text \<open>
  The transient version log of a thread (\<open>src/lib/tvlog.c\<close>, \<open>src/lib/tvlog.h\<close>) and the clock of a
  version (\<open>src/lib/clock.h\<close>). A transaction appends a write set header and the copies it locks;
  commit links the copies into the version chains of their objects, fixes the write clock, logs
  the operation and publishes the clock in one store; reclamation checkpoints the newest versions
  before the quiescent clock and drops what no reader can reach.

  The operations of one API call are one step: the compare-and-swaps inside a step succeed. What
  other threads do while a thread waits is the argument \<open>env\<close>. Waiting that never ends is \<open>None\<close>.
\<close>

section \<open>The clock of a version (clock.h)\<close>

definition get_raw_wrt_clk :: "chs \<Rightarrow> u64" where
  "get_raw_wrt_clk c = c_wrt_clk c"

text \<open>
  \<open>get_wrt_clk\<close> for a copy in the log of thread \<open>t\<close>; \<open>None\<close> when it has to wait for the commit in
  progress (or when the copy has no write set).
\<close>

definition get_wrt_clk :: "sys \<Rightarrow> nat \<Rightarrow> chs \<Rightarrow> u64 \<Rightarrow> u64 option" where
  "get_wrt_clk s t c lclk =
     (if c_wrt_clk c \<noteq> MAX_VERSION then Some (c_wrt_clk c)
      else do {
        i \<leftarrow> p_ws c;
        ws \<leftarrow> get_ws s t i;
        (if pending_wrt_clk ws = MAX_VERSION then Some MAX_VERSION
         else if lclk < pending_wrt_clk ws then Some MAX_VERSION
         else if ws_wrt_clk ws = MAX_VERSION then None
         else Some (ws_wrt_clk ws)) })"

section \<open>Allocation\<close>

definition tvlog_used :: "tvlog \<Rightarrow> u64" where
  "tvlog_used l = tv_tail_cnt l - tv_head_cnt l"

definition tvlog_index :: "u64 \<Rightarrow> u32" where
  "tvlog_index cnt = ring_index TS_TVLOG_MASK cnt"

definition tvlog_at_chs :: "tvlog \<Rightarrow> u64 \<Rightarrow> chs option" where
  "tvlog_at_chs l cnt = tv_mem l (tvlog_index cnt)"

definition add_extra_padding :: "u64 \<Rightarrow> u32 \<Rightarrow> u32 \<Rightarrow> bool \<Rightarrow> u32" where
  "add_extra_padding tail tvlog_size extra_size bogus =
     (let extra_size = align_uint_to_cacheline (extra_size + sizeof_chs_hdr)
      in if \<not> bogus \<and> tvlog_index (tail + ucast (tvlog_size + extra_size)) < tvlog_index tail
         then ucast (TS_TVLOG_SIZE - ucast (tvlog_index (tail + ucast tvlog_size)))
         else 0)"

definition tvlog_entry_size :: "u32 \<Rightarrow> u32" where
  "tvlog_entry_size obj_size = align_uint_to_cacheline (obj_size + sizeof_chs_hdr)"

text \<open>The bogus copy at the end of the buffer; its size goes through the 16-bit padding field.\<close>

definition tvlog_skip_end :: "tvlog \<Rightarrow> u32 \<Rightarrow> bool \<Rightarrow> bool \<times> tvlog" where
  "tvlog_skip_end l entry_size bogus =
     (if tvlog_index (tv_tail_cnt l + ucast entry_size) < tvlog_index (tv_tail_cnt l) then
        (let bogus_size = ucast (TS_TVLOG_SIZE - ucast (tvlog_index (tv_tail_cnt l))) :: u32;
             c = zero_chs\<lparr>c_padding_size := ucast bogus_size, c_type := TYPE_BOGUS\<rparr>
         in (True, l\<lparr>tv_mem := buf_put (tvlog_index (tv_tail_cnt l)) sizeof_chs_hdr c (tv_mem l),
                     tv_tail_cnt := tv_tail_cnt l + ucast bogus_size\<rparr>))
      else (bogus, l))"

definition tvlog_alloc :: "tvlog \<Rightarrow> u32 \<Rightarrow> bool \<Rightarrow> u32 \<times> bool \<times> tvlog" where
  "tvlog_alloc l obj_size bogus =
     (let entry_size = tvlog_entry_size obj_size;
          (bogus, l) = tvlog_skip_end l entry_size bogus;
          entry_size = entry_size + add_extra_padding (tv_tail_cnt l) entry_size sizeof_wss bogus;
          i = tvlog_index (tv_tail_cnt l);
          c = zero_chs\<lparr>c_wrt_clk := MAX_VERSION, c_obj_size := obj_size, c_padding_size := ucast (entry_size - obj_size)\<rparr>
      in (i, bogus, l\<lparr>tv_mem := buf_put i sizeof_chs_hdr c (tv_mem l)\<rparr>))"

definition upd_entry :: "u32 \<Rightarrow> (chs \<Rightarrow> chs) \<Rightarrow> tvlog \<Rightarrow> tvlog" where
  "upd_entry i f l = l\<lparr>tv_mem := (tv_mem l)(i := map_option f (tv_mem l i))\<rparr>"

definition new_wrt_set :: "nat \<Rightarrow> u64 \<Rightarrow> wrt_set" where
  "new_wrt_set self tail =
     \<lparr>ws_wrt_clk = MAX_VERSION, pending_wrt_clk = MAX_VERSION, num_objs = 0, start_tail_cnt = tail, ws_thread = self\<rparr>"

text \<open>The write set header of a transaction, added with its first copy.\<close>

definition tvlog_open_ws :: "nat \<Rightarrow> tvlog \<Rightarrow> (bool \<times> tvlog) option" where
  "tvlog_open_ws self l =
     (case cur_wrt_set l of
        Some _ \<Rightarrow> Some (False, l)
      | None \<Rightarrow>
          let (i, bogus, l) = tvlog_alloc l sizeof_ws False;
              l = upd_entry i (\<lambda>c. c\<lparr>p_ws := Some i, c_type := TYPE_WRT_SET, c_body := Ws (new_wrt_set self (tv_tail_cnt l))\<rparr>) l
          in do {
            c \<leftarrow> tv_mem l i;
            Some (bogus, l\<lparr>cur_wrt_set := Some i, tv_tail_cnt := tv_tail_cnt l + ucast (get_entry_size c)\<rparr>) })"

definition tvlog_append_begin :: "nat \<Rightarrow> nat \<Rightarrow> u32 \<Rightarrow> sys \<Rightarrow> (u32 \<times> bool \<times> sys) option" where
  "tvlog_append_begin self v obj_size s = do {
     th \<leftarrow> thrs s self;
     (bogus, l) \<leftarrow> tvlog_open_ws self (tvlog th);
     let (i, bogus, l) = tvlog_alloc l obj_size bogus;
     let l = upd_entry i (\<lambda>c. c\<lparr>p_ws := cur_wrt_set l, c_vhdr := Some v, c_type := TYPE_COPY\<rparr>) l;
     c \<leftarrow> tv_mem l i;
     Some (i, bogus,
       stat_thread self (\<lambda>st. stat_acc st n_tvlog_cpobj_written_bytes (ucast (get_entry_size c)))
         (upd_tvlog self (\<lambda>_. l) s)) }"

definition tvlog_append_abort :: "nat \<Rightarrow> u32 \<Rightarrow> sys \<Rightarrow> sys" where
  "tvlog_append_abort self i s = s"

definition tvlog_append_end :: "nat \<Rightarrow> u32 \<Rightarrow> bool \<Rightarrow> sys \<Rightarrow> sys option" where
  "tvlog_append_end self i bogus_allocated s = do {
     c \<leftarrow> get_chs s self i;
     th \<leftarrow> thrs s self;
     w \<leftarrow> cur_wrt_set (tvlog th);
     let tail = tv_tail_cnt (tvlog th) + ucast (get_entry_size c);
     Some (stat_thread self (\<lambda>st. stat_asgn st n_tvlog_written_bytes tail)
       (upd_ws self w (\<lambda>ws. ws\<lparr>num_objs := num_objs ws + 1 + (if bogus_allocated then 1 else 0)\<rparr>)
         (upd_tvlog self (\<lambda>l. l\<lparr>tv_tail_cnt := tail\<rparr>) s))) }"

section \<open>Iteration over a write set\<close>

definition ws_iter_begin :: "sys \<Rightarrow> nat \<Rightarrow> u32 \<Rightarrow> u64 option" where
  "ws_iter_begin s self w = do {
     c \<leftarrow> get_chs s self w;
     ws \<leftarrow> get_ws s self w;
     Some (start_tail_cnt ws + ucast (get_entry_size c)) }"

definition ws_iter_next :: "u64 \<Rightarrow> chs \<Rightarrow> u64" where
  "ws_iter_next iter c = iter + ucast (get_entry_size c)"

text \<open>
  \<open>ws_for_each\<close> with a body that may leave the loop (\<open>True\<close>) and carries a value \<open>'x\<close>. The result
  says whether the body left the loop, and the log counter reached.
\<close>

fun ws_for_each ::
  "nat \<Rightarrow> (u32 \<Rightarrow> chs \<Rightarrow> 'x \<times> sys \<Rightarrow> (bool \<times> 'x \<times> sys) option) \<Rightarrow> nat \<Rightarrow> u64 \<Rightarrow> 'x \<times> sys \<Rightarrow>
   (bool \<times> u64 \<times> 'x \<times> sys) option" where
  "ws_for_each self f 0 cnt (x, s) = Some (False, cnt, x, s)"
| "ws_for_each self f (Suc n) cnt (x, s) = do {
     c \<leftarrow> get_chs s self (tvlog_index cnt);
     (stop, x, s) \<leftarrow> f (tvlog_index cnt) c (x, s);
     (if stop then Some (True, cnt, x, s)
      else do {
        c \<leftarrow> get_chs s self (tvlog_index cnt);
        ws_for_each self f n (ws_iter_next cnt c) (x, s) }) }"

definition ws_loop ::
  "nat \<Rightarrow> u32 \<Rightarrow> (u32 \<Rightarrow> chs \<Rightarrow> 'x \<times> sys \<Rightarrow> (bool \<times> 'x \<times> sys) option) \<Rightarrow> 'x \<times> sys \<Rightarrow>
   (bool \<times> u64 \<times> 'x \<times> sys) option" where
  "ws_loop self w f xs = do {
     ws \<leftarrow> get_ws (snd xs) self w;
     cnt \<leftarrow> ws_iter_begin (snd xs) self w;
     ws_for_each self f (unat (num_objs ws)) cnt xs }"

section \<open>Commit and abort\<close>

text \<open>Linking one copy into the version chain of its object; \<open>num_free\<close> counts the frees left.\<close>

definition move_lock_to_copy :: "nat \<Rightarrow> ptr_set \<Rightarrow> u32 \<Rightarrow> chs \<Rightarrow> u32 \<times> sys \<Rightarrow> (bool \<times> u32 \<times> sys) option" where
  "move_lock_to_copy self free_set i c = (\<lambda>(num_free, s).
     if c_type c = TYPE_BOGUS then Some (False, num_free, s)
     else do {
       v \<leftarrow> c_vhdr c;
       h \<leftarrow> vhdrs s v;
       is_free \<leftarrow> (if num_free > 0 then ptrset_is_member free_set (np_org_act h) else Some False);
       (if is_free then Some (False, num_free - 1, upd_chs self i (\<lambda>c. c\<lparr>c_type := TYPE_FREE\<rparr>) s)
        else if c_obj_size c = 0 then Some (False, num_free, s)
        else do {
          clk \<leftarrow> (case p_copy h of
                    Null \<Rightarrow> Some MIN_VERSION
                  | Cpy t j \<Rightarrow> map_option get_raw_wrt_clk (get_chs s t j)
                  | _ \<Rightarrow> None);
          Some (False, num_free,
            upd_vhdr v (\<lambda>h. h\<lparr>p_copy := Cpy self i\<rparr>)
              (upd_chs self i (\<lambda>c. c\<lparr>wrt_clk_prev := MAX_VERSION, c_p_copy := p_copy h, wrt_clk_next := clk\<rparr>) s)) }) })"

definition ws_move_lock_to_copy :: "nat \<Rightarrow> sys \<Rightarrow> sys option" where
  "ws_move_lock_to_copy self s = do {
     th \<leftarrow> thrs s self;
     w \<leftarrow> cur_wrt_set (tvlog th);
     (_, _, _, s) \<leftarrow> ws_loop self w (move_lock_to_copy self (tx_free_set th)) (num_ptrs (tx_free_set th), s);
     Some s }"

definition unlock_obj :: "nat \<Rightarrow> u32 \<Rightarrow> nat \<Rightarrow> sys \<Rightarrow> sys" where
  "unlock_obj self i v s = upd_vhdr v (\<lambda>h. if p_lock h = Cpy self i then h\<lparr>p_lock := Null\<rparr> else h) s"

definition unlock_commit :: "nat \<Rightarrow> u64 \<Rightarrow> u32 \<Rightarrow> chs \<Rightarrow> unit \<times> sys \<Rightarrow> (bool \<times> unit \<times> sys) option" where
  "unlock_commit self wclk i c = (\<lambda>(_, s).
     (case c_type c of
        TYPE_COPY \<Rightarrow> do {
          v \<leftarrow> c_vhdr c;
          let s = unlock_obj self i v (upd_chs self i (\<lambda>c. c\<lparr>c_wrt_clk := wclk\<rparr>) s);
          (case c_p_copy c of
             Null \<Rightarrow> Some (False, (), s)
           | Cpy t j \<Rightarrow> Some (False, (), upd_chs t j (\<lambda>c. c\<lparr>wrt_clk_prev := wclk\<rparr>) s)
           | _ \<Rightarrow> None) }
      | TYPE_FREE \<Rightarrow> Some (False, (), upd_chs self i (\<lambda>c. c\<lparr>c_wrt_clk := wclk, c_p_copy := Null\<rparr>) s)
      | _ \<Rightarrow> Some (False, (), s)))"

definition ws_unlock_commit :: "nat \<Rightarrow> sys \<Rightarrow> sys option" where
  "ws_unlock_commit self s = do {
     th \<leftarrow> thrs s self;
     w \<leftarrow> cur_wrt_set (tvlog th);
     ws \<leftarrow> get_ws s self w;
     (_, _, _, s) \<leftarrow> ws_loop self w (unlock_commit self (ws_wrt_clk ws)) ((), s);
     Some s }"

definition unlock_abort :: "nat \<Rightarrow> u32 \<Rightarrow> chs \<Rightarrow> unit \<times> sys \<Rightarrow> (bool \<times> unit \<times> sys) option" where
  "unlock_abort self i c = (\<lambda>(_, s).
     if c_type c = TYPE_COPY \<or> c_type c = TYPE_FREE
     then do { v \<leftarrow> c_vhdr c; Some (False, (), unlock_obj self i v s) }
     else Some (False, (), s))"

definition ws_unlock_abort :: "nat \<Rightarrow> sys \<Rightarrow> sys option" where
  "ws_unlock_abort self s = do {
     th \<leftarrow> thrs s self;
     w \<leftarrow> cur_wrt_set (tvlog th);
     (_, _, _, s) \<leftarrow> ws_loop self w (unlock_abort self) ((), s);
     Some s }"

definition tvlog_try_request_reclaim_if_needed :: "nat \<Rightarrow> sys \<Rightarrow> sys option" where
  "tvlog_try_request_reclaim_if_needed self s = do {
     th \<leftarrow> thrs s self;
     let used = tvlog_used (tvlog th);
     Some (if used > TS_TVLOG_LOW_MARK then
             (if used > TS_TVLOG_HIGH_MARK
              then snd (request_tvlog_reclaim RECLAIM_TVLOG_CKPT s)
              else snd (request_tvlog_reclaim RECLAIM_TVLOG_BEST_EFFORT s))
           else s) }"

text \<open>
  The phases of \<open>tvlog_commit\<close>: link the copies, fix the pending clock, log the operation, publish
  the clock, unlock.
\<close>

definition commit_pending :: "(nat \<Rightarrow> u64) \<Rightarrow> nat \<Rightarrow> u64 \<Rightarrow> sys \<Rightarrow> (u64 \<times> sys) option" where
  "commit_pending tsc self lclk s = do {
     th \<leftarrow> thrs s self;
     w \<leftarrow> cur_wrt_set (tvlog th);
     (clk, i) \<leftarrow> new_clock tsc (now s) lclk;
     Some (clk, upd_ws self w (\<lambda>ws. ws\<lparr>pending_wrt_clk := clk\<rparr>) (s\<lparr>now := i\<rparr>)) }"

definition commit_publish :: "nat \<Rightarrow> u64 \<Rightarrow> sys \<Rightarrow> sys option" where
  "commit_publish self clk s = do {
     th \<leftarrow> thrs s self;
     w \<leftarrow> cur_wrt_set (tvlog th);
     Some (upd_ws self w (\<lambda>ws. ws\<lparr>ws_wrt_clk := clk\<rparr>) s) }"

definition tvlog_commit :: "(nat \<Rightarrow> u64) \<Rightarrow> nat \<Rightarrow> u64 \<Rightarrow> sys \<Rightarrow> sys option" where
  "tvlog_commit tsc self lclk s = do {
     s \<leftarrow> ws_move_lock_to_copy self s;
     (clk, s) \<leftarrow> commit_pending tsc self lclk s;
     th \<leftarrow> thrs s self;
     (_, s) \<leftarrow> oplog_enq self lclk clk (op_info th) s;
     let s = oplog_enq_persist self s;
     s \<leftarrow> commit_publish self clk s;
     s \<leftarrow> ws_unlock_commit self s;
     (ckpt_requested, s) \<leftarrow> oplog_try_request_ckpt_if_needed self s;
     s \<leftarrow> (if ckpt_requested then Some s else tvlog_try_request_reclaim_if_needed self s);
     Some (upd_thr self (\<lambda>th. th\<lparr>tvlog := (tvlog th)\<lparr>cur_wrt_set := None\<rparr>, tx_free_set := ptrset_reset (tx_free_set th)\<rparr>) s) }"

definition tvlog_abort :: "nat \<Rightarrow> sys \<Rightarrow> sys option" where
  "tvlog_abort self s = do {
     s \<leftarrow> ws_unlock_abort self s;
     th \<leftarrow> thrs s self;
     w \<leftarrow> cur_wrt_set (tvlog th);
     ws \<leftarrow> get_ws s self w;
     Some (upd_thr self (\<lambda>th. th\<lparr>tvlog := (tvlog th)\<lparr>tv_tail_cnt := start_tail_cnt ws, cur_wrt_set := None\<rparr>,
                                  tx_free_set := ptrset_reset (tx_free_set th)\<rparr>) s) }"

end
