(* ===== verification/TvReclaim.thy ===== *)
theory TvReclaim
  imports TvLog CkptReclaim
begin

text \<open>
  Reclamation of the transient version log (\<open>src/lib/tvlog.c\<close>): dropping the write sets an earlier
  reclamation checkpointed, checkpointing the versions nearest below the quiescent clock, and the
  loops that block until the log is below its high watermark or empty.
\<close>

section \<open>Deciding what to checkpoint\<close>

definition is_copy_latest :: "sys \<Rightarrow> nat \<Rightarrow> u32 \<Rightarrow> bool option" where
  "is_copy_latest s t i = do {
     c \<leftarrow> get_chs s t i;
     v \<leftarrow> c_vhdr c;
     h \<leftarrow> vhdrs s v;
     Some (p_copy h = Cpy t i) }"

definition try_detach_obj :: "nat \<Rightarrow> u32 \<Rightarrow> sys \<Rightarrow> sys option" where
  "try_detach_obj t i s = do {
     let s = upd_chs t i (\<lambda>c. c\<lparr>c_status := STATUS_DETACHED\<rparr>) s;
     c \<leftarrow> get_chs s t i;
     v \<leftarrow> c_vhdr c;
     h \<leftarrow> vhdrs s v;
     Some (if p_copy h \<noteq> Cpy t i then s else upd_vhdr v (\<lambda>h. h\<lparr>p_copy := Null\<rparr>) s) }"

definition is_at_borderline :: "chs \<Rightarrow> u64 \<Rightarrow> u64 \<Rightarrow> bool" where
  "is_at_borderline c sclk last_clk =
     (if wrt_clk_prev c = MAX_VERSION then lt_clock (get_raw_wrt_clk c) sclk
      else gte_clock (wrt_clk_prev c) sclk \<and> lt_clock (get_raw_wrt_clk c) sclk \<and> gte_clock (get_raw_wrt_clk c) last_clk)"

text \<open>\<open>get_ckpt_chs\<close>: the search in the version chain, starting at \<open>p\<close>.\<close>

partial_function (option) ckpt_chs_search :: "sys \<Rightarrow> u64 \<Rightarrow> u64 \<Rightarrow> ptr \<Rightarrow> ptr option" where
  "ckpt_chs_search s sclk last_clk p =
     (if p = Null then Some Null
      else do {
        (t, i) \<leftarrow> cpy_of p;
        c \<leftarrow> get_chs s t i;
        (if get_raw_wrt_clk c = MAX_VERSION then ckpt_chs_search s sclk last_clk (c_p_copy c)
         else if lt_clock (get_raw_wrt_clk c) sclk then Some p
         else if lt_clock (wrt_clk_next c) last_clk then Some Null
         else ckpt_chs_search s sclk last_clk (c_p_copy c)) })"

definition get_ckpt_chs :: "sys \<Rightarrow> chs \<Rightarrow> u64 \<Rightarrow> u64 \<Rightarrow> ptr option" where
  "get_ckpt_chs s c sclk last_clk = do {
     v \<leftarrow> c_vhdr c;
     h \<leftarrow> vhdrs s v;
     ckpt_chs_search s sclk last_clk (p_copy h) }"

section \<open>Reclaiming\<close>

definition upd_ckpt :: "nat \<Rightarrow> u32 \<Rightarrow> (ckpt_entry_hdr \<Rightarrow> ckpt_entry_hdr) \<Rightarrow> sys \<Rightarrow> sys" where
  "upd_ckpt t i f = upd_ckptlog t (upd_mem (\<lambda>m. m(i := map_option
     (\<lambda>e. case e_body e of Some (CkBody c) \<Rightarrow> e\<lparr>e_body := Some (CkBody (f c))\<rparr> | _ \<Rightarrow> e) (m i))))"

text \<open>The body of the first loop; the carried flag says whether the checkpoint log was written.\<close>

definition reclaim_step1_body ::
  "nat \<Rightarrow> u8 \<Rightarrow> u64 \<Rightarrow> u64 \<Rightarrow> u32 \<Rightarrow> chs \<Rightarrow> bool \<times> sys \<Rightarrow> (bool \<times> bool \<times> sys) option" where
  "reclaim_step1_body self mode sclk wclk i c = (\<lambda>(dirty, s).
     (case c_type c of
        TYPE_COPY \<Rightarrow>
          Some (mode = RECLAIM_TVLOG_BEST_EFFORT \<and> gte_clock (wrt_clk_prev c) sclk, dirty, s)
      | TYPE_FREE \<Rightarrow>
          if c_status c = STATUS_TOMBSTONE_MARKED then Some (False, dirty, s)
          else do {
            v \<leftarrow> c_vhdr c;
            h \<leftarrow> vhdrs s v;
            (dirty, s) \<leftarrow>
              (if np_cur_act h = np_org_act h then do {
                 let s = upd_vhdr v (\<lambda>h. h\<lparr>tombstone_clk := sclk\<rparr>) s;
                 (_, s) \<leftarrow> ckptlog_enq_tombstone self wclk sclk self i s;
                 Some (True, s) }
               else
                 (case np_cur_act h of
                    Ckpt t j \<Rightarrow> Some (dirty, upd_ckpt t j (\<lambda>ck. ck\<lparr>ck_tombstone := True\<rparr>) s)
                  | _ \<Rightarrow> None));
            Some (False, dirty, upd_chs self i (\<lambda>c. c\<lparr>c_status := STATUS_TOMBSTONE_MARKED\<rparr>) s) }
      | _ \<Rightarrow> Some (False, dirty, s)))"

fun tvlog_reclaim_step1 ::
  "nat \<Rightarrow> u8 \<Rightarrow> u64 \<Rightarrow> u64 \<Rightarrow> u64 \<Rightarrow> nat \<Rightarrow> u64 \<Rightarrow> bool \<times> sys \<Rightarrow> (u64 \<times> bool \<times> sys) option" where
  "tvlog_reclaim_step1 self mode sclk prev tail 0 start xs = None"
| "tvlog_reclaim_step1 self mode sclk prev tail (Suc n) start (dirty, s) =
     (if \<not> start < tail then Some (start, dirty, s)
      else if start = prev then Some (start, dirty, s)
      else do {
        ws \<leftarrow> get_ws s self (tvlog_index start);
        (if ws_wrt_clk ws = MAX_VERSION then Some (start, dirty, s)
         else do {
           (stop, cnt, dirty, s) \<leftarrow>
             ws_loop self (tvlog_index start) (reclaim_step1_body self mode sclk (ws_wrt_clk ws)) (dirty, s);
           (if stop then Some (start, dirty, s)
            else tvlog_reclaim_step1 self mode sclk prev tail n cnt (dirty, s)) }) })"

text \<open>The body of the second loop; it carries the dirty flag and the bytes checkpointed.\<close>

definition reclaim_step2_body ::
  "nat \<Rightarrow> u8 \<Rightarrow> u64 \<Rightarrow> u64 \<Rightarrow> u64 \<Rightarrow> u32 \<Rightarrow> chs \<Rightarrow> (bool \<times> u64) \<times> sys \<Rightarrow> (bool \<times> (bool \<times> u64) \<times> sys) option" where
  "reclaim_step2_body self mode sclk last_clk wclk i c = (\<lambda>((dirty, bytes), s).
     if c_type c \<noteq> TYPE_COPY then Some (False, (dirty, bytes), s)
     else if c_status c \<noteq> STATUS_DETACHED \<and> is_at_borderline c sclk last_clk then
       (if mode = RECLAIM_TVLOG_CKPT then do {
          (_, s) \<leftarrow> ckptlog_enq self wclk sclk self i s;
          s \<leftarrow> try_detach_obj self i s;
          Some (False, (True, bytes + ucast (sizeof_chs c)), s) }
        else Some (True, (dirty, bytes), s))
     else Some (False, (dirty, bytes), s))"

fun tvlog_reclaim_step2 ::
  "nat \<Rightarrow> u8 \<Rightarrow> u64 \<Rightarrow> u64 \<Rightarrow> u64 \<Rightarrow> nat \<Rightarrow> u64 \<Rightarrow> (bool \<times> u64) \<times> sys \<Rightarrow> (u64 \<times> (bool \<times> u64) \<times> sys) option" where
  "tvlog_reclaim_step2 self mode sclk last_clk tail 0 start xs = None"
| "tvlog_reclaim_step2 self mode sclk last_clk tail (Suc n) start (x, s) =
     (if \<not> start < tail then Some (start, x, s)
      else do {
        ws \<leftarrow> get_ws s self (tvlog_index start);
        (if gte_clock (ws_wrt_clk ws) sclk \<or> ws_wrt_clk ws = MAX_VERSION then Some (start, x, s)
         else do {
           (stop, cnt, x, s) \<leftarrow>
             ws_loop self (tvlog_index start) (reclaim_step2_body self mode sclk last_clk (ws_wrt_clk ws)) (x, s);
           (if stop then Some (start, x, s)
            else tvlog_reclaim_step2 self mode sclk last_clk tail n cnt (x, s)) }) })"

definition tvlog_reclaim_x :: "nat \<Rightarrow> u8 \<Rightarrow> sys \<Rightarrow> (bool \<times> sys) option" where
  "tvlog_reclaim_x self mode s = do {
     th \<leftarrow> thrs s self;
     (if rq_tvlog (reclaim th) = 0 then Some (False, s)
      else do {
        let (ok, lock) = try_lock (tv_reclaim_lock (tvlog th));
        (if \<not> ok then Some (False, s)
         else do {
           let s = upd_tvlog self (\<lambda>l. l\<lparr>tv_reclaim_lock := lock\<rparr>) s;
           let sclk = qp0 (clks th);
           let last_clk = last_ckpt (clks th);
           let old_head_cnt = tv_head_cnt (tvlog th);
           let tail = tv_tail_cnt (tvlog th);
           let fuel = Suc (unat (tvlog_used (tvlog th)));
           (new_head_cnt, dirty, s) \<leftarrow>
             tvlog_reclaim_step1 self mode sclk (tv_prev_head_cnt (tvlog th)) tail fuel old_head_cnt (False, s);
           (start_cnt, (dirty, bytes), s) \<leftarrow>
             tvlog_reclaim_step2 self mode sclk last_clk tail fuel new_head_cnt ((dirty, 0), s);
           let s = upd_tvlog self (\<lambda>l. l\<lparr>tv_prev_head_cnt := start_cnt, tv_head_cnt := new_head_cnt\<rparr>) s;
           s \<leftarrow> (if dirty then ckptlog_enq_persist self s else Some s);
           th \<leftarrow> thrs s self;
           let s = (if new_head_cnt = old_head_cnt \<and> tvlog_used (tvlog th) > TS_TVLOG_LOW_MARK \<and>
                       mode = RECLAIM_TVLOG_BEST_EFFORT
                    then snd (request_tvlog_reclaim RECLAIM_TVLOG_CKPT s) else s);
           let s = (if new_head_cnt \<noteq> old_head_cnt
                    then stat_thread self (\<lambda>st. stat_acc st n_tvlog_reclaimed_bytes (new_head_cnt - old_head_cnt)) s else s);
           let s = stat_thread self (\<lambda>st. stat_acc st n_tvlog_ckpt_bytes bytes) s;
           let s = upd_thr self (\<lambda>th. th\<lparr>reclaim := (reclaim th)\<lparr>rq_tvlog := 0\<rparr>\<rparr>) s;
           Some (True, upd_tvlog self (\<lambda>l. l\<lparr>tv_reclaim_lock := unlock (tv_reclaim_lock l)\<rparr>) s) }) }) }"

definition tvlog_reclaim :: "nat \<Rightarrow> sys \<Rightarrow> sys option" where
  "tvlog_reclaim self s = do {
     th \<leftarrow> thrs s self;
     let rq = rq_tvlog (reclaim th);
     (if rq = RECLAIM_TVLOG_BEST_EFFORT then do {
        (ret, s) \<leftarrow> tvlog_reclaim_x self RECLAIM_TVLOG_BEST_EFFORT s;
        Some (if ret then stat_thread self (\<lambda>st. stat_inc st n_tvlog_best_effort) s else s) }
      else if rq = RECLAIM_TVLOG_CKPT then do {
        (ret, s) \<leftarrow> tvlog_reclaim_x self RECLAIM_TVLOG_CKPT s;
        Some (if ret then stat_thread self (\<lambda>st. stat_inc st n_tvlog_ckpt) s else s) }
      else Some s) }"

definition reclaim_tvlog_ckptlog :: "ptr list option \<Rightarrow> nat \<Rightarrow> sys \<Rightarrow> (nat \<times> sys) option" where
  "reclaim_tvlog_ckptlog ra self s = do {
     th \<leftarrow> thrs s self;
     (n, s) \<leftarrow> (if rq_tvlog (reclaim th) \<noteq> 0 then do { s \<leftarrow> tvlog_reclaim self s; Some (1, s) } else Some (0, s));
     th \<leftarrow> thrs s self;
     (if rq_ckptlog (reclaim th) \<noteq> 0 then do { s \<leftarrow> ckptlog_reclaim ra self s; Some (Suc n, s) } else Some (n, s)) }"

text \<open>The inner loop of the two blocking operations: yield, renew the request, help, until something was reclaimed.\<close>

partial_function (option) tvlog_wait_reclaim ::
  "(nat \<Rightarrow> sys \<Rightarrow> sys) \<Rightarrow> ptr list option \<Rightarrow> nat \<Rightarrow> nat \<Rightarrow> nat \<Rightarrow> sys \<Rightarrow> (nat \<times> sys) option" where
  "tvlog_wait_reclaim env ra self k count s = do {
     let s = env k s;
     let count = Suc count;
     let (count, s) = (if count = 1000 then (0, snd (request_tvlog_reclaim RECLAIM_TVLOG_CKPT s)) else (count, s));
     (n, s) \<leftarrow> reclaim_tvlog_ckptlog ra self s;
     (if n = 0 then tvlog_wait_reclaim env ra self (Suc k) count s else Some (Suc k, s)) }"

partial_function (option) tvlog_reclaim_below_high_watermark ::
  "(nat \<Rightarrow> sys \<Rightarrow> sys) \<Rightarrow> ptr list option \<Rightarrow> nat \<Rightarrow> nat \<Rightarrow> sys \<Rightarrow> (nat \<times> sys) option" where
  "tvlog_reclaim_below_high_watermark env ra self k s = do {
     th \<leftarrow> thrs s self;
     (if tvlog_used (tvlog th) < TS_TVLOG_HIGH_MARK then Some (k, s)
      else do {
        let s = snd (request_tvlog_reclaim RECLAIM_TVLOG_CKPT s);
        (k, s) \<leftarrow> tvlog_wait_reclaim env ra self k 0 s;
        tvlog_reclaim_below_high_watermark env ra self k s }) }"

partial_function (option) tvlog_flush ::
  "(nat \<Rightarrow> sys \<Rightarrow> sys) \<Rightarrow> ptr list option \<Rightarrow> nat \<Rightarrow> nat \<Rightarrow> sys \<Rightarrow> (nat \<times> sys) option" where
  "tvlog_flush env ra self k s = do {
     th \<leftarrow> thrs s self;
     (if tv_head_cnt (tvlog th) = tv_tail_cnt (tvlog th) then Some (k, s)
      else do {
        let s = snd (request_tvlog_reclaim RECLAIM_TVLOG_CKPT s);
        (k, s) \<leftarrow> tvlog_wait_reclaim env ra self k 0 s;
        tvlog_flush env ra self k s }) }"

section \<open>Creation\<close>

definition tvlog_create :: "nat \<Rightarrow> sys \<Rightarrow> errno option \<times> sys" where
  "tvlog_create self s =
     (let (buffer, g) = port_alloc_tvlog_mem (region s);
          s = upd_tvlog self (\<lambda>_. \<lparr>tv_reclaim_lock = 0, tv_head_cnt = 0, tv_tail_cnt = 0, tv_prev_head_cnt = 0,
                                   cur_wrt_set = None, tv_buffer = buffer, tv_mem = Map.empty\<rparr>) (s\<lparr>region := g\<rparr>)
      in (if buffer = None then Some ENOMEM else None, s))"

definition tvtlog_destroy :: "nat \<Rightarrow> sys \<Rightarrow> sys option" where
  "tvtlog_destroy self s = do {
     th \<leftarrow> thrs s self;
     (case tv_buffer (tvlog th) of
        None \<Rightarrow> Some s
      | Some b \<Rightarrow> do {
          g \<leftarrow> port_free_tvlog_mem b (region s);
          Some (upd_tvlog self (\<lambda>l. l\<lparr>tv_buffer := None\<rparr>) (s\<lparr>region := g\<rparr>)) }) }"

end
