(* ===== verification/Isolation.thy ===== *)
theory Isolation
  imports Fixtures
begin

text \<open>
  Read-set tracking for the stronger isolation levels (\<open>src/lib/isolation.h\<close>). The first argument
  \<open>ser\<close> says whether the library was built with \<open>TS_ENABLE_SERIALIZABILITY_LINEARIZABILITY\<close>; without
  it only snapshot isolation is tracked, which needs no read set. \<open>ra\<close> is what \<open>realloc\<close> gives when
  the read set has to grow.
\<close>

definition TS_INVALID :: int where "TS_INVALID = - 1"
definition TS_SNAPSHOT :: int where "TS_SNAPSHOT = 0"
definition TS_SERIALIZABILITY :: int where "TS_SERIALIZABILITY = 1"
definition TS_LINEARIZABILITY :: int where "TS_LINEARIZABILITY = 2"

section \<open>Operations\<close>

definition isolation_reset :: "bool \<Rightarrow> isolation \<Rightarrow> int \<Rightarrow> isolation" where
  "isolation_reset ser info level =
     (let info = (if ser then info\<lparr>read_set := ptrset_reset (read_set info), stale_read_occured := False\<rparr> else info)
      in info\<lparr>iso_level := level\<rparr>)"

definition isolation_init :: "bool \<Rightarrow> ptr list option \<Rightarrow> isolation \<Rightarrow> errno option \<times> isolation" where
  "isolation_init ser mem info =
     (if ser then
        (let (rc, rs) = ptrset_init mem (read_set info)
         in (rc, isolation_reset ser (info\<lparr>read_set := rs\<rparr>) TS_INVALID))
      else (None, info))"

definition isolation_deinit :: "bool \<Rightarrow> isolation \<Rightarrow> isolation" where
  "isolation_deinit ser info =
     (if ser then
        (let info = isolation_reset ser info TS_INVALID in info\<lparr>read_set := ptrset_deinit (read_set info)\<rparr>)
      else info)"

definition stale_read_occurred :: "bool \<Rightarrow> isolation \<Rightarrow> bool" where
  "stale_read_occurred ser info = (if ser then stale_read_occured info \<and> iso_level info = TS_LINEARIZABILITY else False)"

text \<open>The three pushes; their error codes are ignored.\<close>

definition read_set_push3 :: "ptr list option \<Rightarrow> ptr_set \<Rightarrow> ptr \<Rightarrow> ptr \<Rightarrow> ptr \<Rightarrow> ptr_set option" where
  "read_set_push3 ra rs a b c = do {
     (_, rs) \<leftarrow> ptrset_push ra rs a;
     (_, rs) \<leftarrow> ptrset_push ra rs b;
     (_, rs) \<leftarrow> ptrset_push ra rs c;
     Some rs }"

definition vhdr_ptr :: "nat option \<Rightarrow> ptr" where
  "vhdr_ptr v = (case v of None \<Rightarrow> Null | Some v \<Rightarrow> Vhdr v)"

definition read_set_add :: "bool \<Rightarrow> ptr list option \<Rightarrow> isolation \<Rightarrow> nat option \<Rightarrow> ptr \<Rightarrow> ptr \<Rightarrow> isolation option" where
  "read_set_add ser ra info v p_latest p =
     (if \<not> ser then Some info
      else if iso_level info = TS_LINEARIZABILITY \<and> \<not> stale_read_occurred ser info \<and> p_latest \<noteq> Null \<and> p_latest \<noteq> p
      then Some (info\<lparr>stale_read_occured := True\<rparr>)
      else if iso_level info = TS_LINEARIZABILITY \<or> iso_level info = TS_SERIALIZABILITY
      then do {
        rs \<leftarrow> read_set_push3 ra (read_set info) (vhdr_ptr v) p_latest p;
        Some (info\<lparr>read_set := rs\<rparr>) }
      else Some info)"

definition write_set_add :: "isolation \<Rightarrow> ptr \<Rightarrow> isolation" where
  "write_set_add info p = info"

text \<open>
  One read is still valid: no newer version was linked to the object since. A read of an object
  that had no volatile header then is looked up again.
\<close>

definition read_valid :: "sys \<Rightarrow> ptr \<Rightarrow> ptr \<Rightarrow> ptr \<Rightarrow> bool option" where
  "read_valid s pv p_latest p =
     (case pv of
        Vhdr v \<Rightarrow> map_option (\<lambda>h. p_copy h = p_latest) (vhdrs s v)
      | Null \<Rightarrow> do {
          vo \<leftarrow> get_act_vhdr s p;
          (case vo of None \<Rightarrow> Some True | Some v \<Rightarrow> map_option (\<lambda>h. p_copy h = Null) (vhdrs s v)) }
      | _ \<Rightarrow> None)"

text \<open>The loop of \<open>validate_read_set\<close> over the array of pointers, three at a time.\<close>

function validate_loop :: "sys \<Rightarrow> ptr list \<Rightarrow> nat \<Rightarrow> nat \<Rightarrow> bool option" where
  "validate_loop s a num i =
     (if i < num then
        (if length a \<le> i + 2 then None
         else do {
           ok \<leftarrow> read_valid s (a ! i) (a ! (i + 1)) (a ! (i + 2));
           (if \<not> ok then Some False else validate_loop s a num (i + 3)) })
      else Some True)"
  by pat_completeness auto
termination
  by (relation "measure (\<lambda>(s, a, num, i). num - i)") auto

declare validate_loop.simps [simp del]

definition validate_read_set :: "bool \<Rightarrow> sys \<Rightarrow> isolation \<Rightarrow> bool option" where
  "validate_read_set ser s info =
     (if \<not> ser then Some True
      else if iso_level info = TS_LINEARIZABILITY \<and> stale_read_occurred ser info then Some False
      else if iso_level info = TS_LINEARIZABILITY \<or> iso_level info = TS_SERIALIZABILITY then
        (case ptrs (read_set info) of
           None \<Rightarrow> if num_ptrs (read_set info) = 0 then Some True else None
         | Some a \<Rightarrow> validate_loop s a (nat (sint (num_ptrs (read_set info)))) 0)
      else if iso_level info = TS_SNAPSHOT then Some True
      else Some False)"

definition ts_isolation_supported :: "bool \<Rightarrow> int \<Rightarrow> bool" where
  "ts_isolation_supported ser level \<longleftrightarrow>
     level = TS_SNAPSHOT \<or> ser \<and> (level = TS_SERIALIZABILITY \<or> level = TS_LINEARIZABILITY)"

section \<open>Correctness of validation\<close>

text \<open>The reads recorded in a set: header, latest version at the time of the read, version read.\<close>

fun triples :: "'a list \<Rightarrow> ('a \<times> 'a \<times> 'a) list" where
  "triples (a # b # c # xs) = (a, b, c) # triples xs"
| "triples _ = []"

lemma triples_append3: "length xs mod 3 = 0 \<Longrightarrow> triples (xs @ [a, b, c]) = triples xs @ [(a, b, c)]"
  by (induction xs rule: triples.induct) auto

lemma validate_loop_all:
  assumes "length a mod 3 = 0" "i \<le> length a" "i mod 3 = 0"
    "\<And>x y z. (x, y, z) \<in> set (triples (drop i a)) \<Longrightarrow> read_valid s x y z \<noteq> None"
  shows "validate_loop s (a @ r) (length a) i = Some (\<forall>(x, y, z)\<in>set (triples (drop i a)). read_valid s x y z = Some True)"
  using assms
proof (induction "length a - i" arbitrary: i rule: less_induct)
  case less
  show ?case
  proof (cases "i < length a")
    case False
    with less.prems show ?thesis by (subst validate_loop.simps) simp
  next
    case True
    have l: "i + 3 \<le> length a"
    proof (rule ccontr)
      assume "\<not> i + 3 \<le> length a"
      with True have "length a = i + 1 \<or> length a = i + 2" by linarith
      with less.prems(1,3) show False by presburger
    qed
    have d: "drop i a = a ! i # a ! (i + 1) # a ! (i + 2) # drop (i + 3) a"
      using l by (simp add: Cons_nth_drop_Suc numeral_3_eq_3)
    obtain ok where ok: "read_valid s (a ! i) (a ! (i + 1)) (a ! (i + 2)) = Some ok"
      using less.prems(4) [of "a ! i" "a ! (i + 1)" "a ! (i + 2)"] d by auto
    have ih: "validate_loop s (a @ r) (length a) (i + 3) =
        Some (\<forall>(x, y, z)\<in>set (triples (drop (i + 3) a)). read_valid s x y z = Some True)"
      using less.prems l d by (intro less.hyps) auto
    have n: "(a @ r) ! i = a ! i" "(a @ r) ! (i + 1) = a ! (i + 1)" "(a @ r) ! (i + 2) = a ! (i + 2)"
      using l by (simp_all add: nth_append)
    have "validate_loop s (a @ r) (length a) i = (if \<not> ok then Some False else validate_loop s (a @ r) (length a) (i + 3))"
      using True l ok by (subst validate_loop.simps) (simp add: n n(2) [simplified] del: add_2_eq_Suc')
    also have "\<dots> = Some (\<forall>(x, y, z)\<in>set (triples (drop i a)). read_valid s x y z = Some True)"
      unfolding ih d using ok by auto
    finally show ?thesis .
  qed
qed


definition demo_reads :: isolation where
  "demo_reads = \<lparr>iso_level = TS_SERIALIZABILITY, stale_read_occured = False,
     read_set = \<lparr>num_ptrs = 3, num_max_ptrs = 4, ptrs = Some [Vhdr 1, Cpy 1 0, Cpy 1 0, Null]\<rparr>\<rparr>"


end
