(* ===== verification/Timestone.thy ===== *)
theory Timestone
  imports TvReclaim Isolation
begin

text \<open>
  The transaction interface (\<open>src/lib/timestone.c\<close>): beginning, committing and aborting a
  transaction, dereferencing, locking, allocating and freeing objects, operation records and the
  life cycle of a thread. One call is one step on the system state. \<open>ser\<close> is the build option for
  the stronger isolation levels, \<open>tsc\<close> the readings of the time stamp counter, \<open>env\<close> what other
  threads do while a call waits, \<open>ra\<close> what \<open>realloc\<close> gives, and the results of other allocations are
  arguments. \<open>TS_NESTED_LOCKING\<close> is off, as in \<open>config.h\<close>.
\<close>

section \<open>Dereferencing\<close>

text \<open>The walk along the version chain; NULL when it falls back to the current master.\<close>

partial_function (option) deref_chain :: "sys \<Rightarrow> u64 \<Rightarrow> u64 \<Rightarrow> ptr \<Rightarrow> ptr option" where
  "deref_chain s lclk last_clk p =
     (if p = Null then Some Null
      else do {
        (t, i) \<leftarrow> cpy_of p;
        c \<leftarrow> get_chs s t i;
        w \<leftarrow> get_wrt_clk s t c lclk;
        (if lt_clock w lclk then Some p
         else if lt_clock (wrt_clk_next c) last_clk then Some Null
         else deref_chain s lclk last_clk (c_p_copy c)) })"

definition add_read :: "bool \<Rightarrow> ptr list option \<Rightarrow> nat \<Rightarrow> nat option \<Rightarrow> ptr \<Rightarrow> ptr \<Rightarrow> sys \<Rightarrow> sys option" where
  "add_read ser ra self v p_latest p s = do {
     th \<leftarrow> thrs s self;
     info \<leftarrow> read_set_add ser ra (isolation th) v p_latest p;
     Some (upd_thr self (\<lambda>th. th\<lparr>isolation := info\<rparr>) s) }"

definition ts_deref :: "bool \<Rightarrow> ptr list option \<Rightarrow> nat \<Rightarrow> ptr \<Rightarrow> sys \<Rightarrow> (ptr \<times> sys) option" where
  "ts_deref ser ra self obj s =
     (if obj = Null then Some (Null, s)
      else if \<not> is_obj_actual obj then Some (obj, s)
      else do {
        vo \<leftarrow> get_act_vhdr s obj;
        (case vo of
           None \<Rightarrow> do { s \<leftarrow> add_read ser ra self None Null obj s; Some (obj, s) }
         | Some v \<Rightarrow> do {
             h \<leftarrow> vhdrs s v;
             th \<leftarrow> thrs s self;
             p \<leftarrow> deref_chain s (local_clk th) (last_ckpt (clks th)) (p_copy h);
             let obj = (if p \<noteq> Null then p else np_cur_act h);
             s \<leftarrow> add_read ser ra self (Some v) (p_copy h) obj s;
             Some (obj, s) }) })"

section \<open>Locking\<close>

definition try_lock_obj :: "nat \<Rightarrow> ptr \<Rightarrow> ptr \<Rightarrow> sys \<Rightarrow> (bool \<times> sys) option" where
  "try_lock_obj v p_old_copy p_new_copy s = do {
     h \<leftarrow> vhdrs s v;
     (if p_lock h \<noteq> Null \<or> p_copy h \<noteq> p_old_copy then Some (False, s)
      else Some (True, upd_vhdr v (\<lambda>h. h\<lparr>p_lock := p_new_copy\<rparr>) s)) }"

text \<open>\<open>mem\<close> is what the allocator gives for the volatile header.\<close>

definition try_alloc_act_vhdr :: "nat option \<Rightarrow> ptr \<Rightarrow> sys \<Rightarrow> (bool \<times> sys) option" where
  "try_alloc_act_vhdr mem obj s = do {
     a \<leftarrow> get_act_nvhdr s obj;
     ao \<leftarrow> acts s a;
     (if a_vhdr ao \<noteq> None then Some (False, s)
      else
        (case alloc_act_vhdr mem obj s of
           (None, s) \<Rightarrow> Some (False, s)
         | (Some v, s) \<Rightarrow> Some (True, upd_act a (\<lambda>ao. ao\<lparr>a_vhdr := Some v, a_gen_id := gen_id s\<rparr>) s))) }"

text \<open>Copying the bytes of an object behind a copy header destroys what lay there.\<close>

definition write_body :: "nat \<Rightarrow> u32 \<Rightarrow> bytes \<Rightarrow> sys \<Rightarrow> sys" where
  "write_body self i d s =
     upd_tvlog self (\<lambda>l. l\<lparr>tv_mem :=
       (case tv_mem l i of
          None \<Rightarrow> tv_mem l
        | Some c \<Rightarrow> buf_put i (sizeof_chs_hdr + of_nat (length d)) (c\<lparr>c_body := Data d\<rparr>) (tv_mem l))\<rparr>) s"

text \<open>The last part of \<open>_ts_try_lock\<close>, once the version check has passed.\<close>

definition lock_copy :: "nat \<Rightarrow> ptr \<Rightarrow> nat \<Rightarrow> u32 \<Rightarrow> sys \<Rightarrow> (bool \<times> ptr \<times> sys) option" where
  "lock_copy self obj v sz s = do {
     h \<leftarrow> vhdrs s v;
     let p_old_copy = p_copy h;
     (i, bogus, s) \<leftarrow> tvlog_append_begin self v sz s;
     (ok, s) \<leftarrow> try_lock_obj v p_old_copy (Cpy self i) s;
     (if \<not> ok then Some (False, obj, tvlog_append_abort self i s)
      else do {
        d \<leftarrow> obj_data s (if p_old_copy = Null then np_cur_act h else p_old_copy);
        (if length d < unat sz then None
         else do {
           let s = write_body self i (take (unat sz) d) s;
           s \<leftarrow> tvlog_append_end self i bogus s;
           Some (True, Cpy self i,
             upd_thr self (\<lambda>th. th\<lparr>is_write_detected := True, isolation := write_set_add (isolation th) (Cpy self i)\<rparr>) s) }) }) }"

definition ts_try_lock :: "bool \<Rightarrow> nat option \<Rightarrow> nat \<Rightarrow> ptr \<Rightarrow> u32 \<Rightarrow> sys \<Rightarrow> (bool \<times> ptr \<times> sys) option" where
  "ts_try_lock ser mem self obj sz s = do {
     th \<leftarrow> thrs s self;
     (if stale_read_occurred ser (isolation th) then Some (False, obj, s)
      else do {
        vo \<leftarrow> get_act_vhdr s obj;
        (vo, s) \<leftarrow>
          (case vo of
             Some v \<Rightarrow> Some (Some v, s)
           | None \<Rightarrow> do {
               (ok, s) \<leftarrow> try_alloc_act_vhdr mem obj s;
               (if ok then do { a \<leftarrow> get_act_nvhdr s obj; ao \<leftarrow> acts s a; Some (a_vhdr ao, s) } else Some (None, s)) });
        (case vo of
           None \<Rightarrow> Some (False, obj, s)
         | Some v \<Rightarrow> do {
             h \<leftarrow> vhdrs s v;
             (if p_lock h \<noteq> Null then Some (False, obj, s)
              else if p_copy h = Null then lock_copy self obj v sz s
              else do {
                (t, i) \<leftarrow> cpy_of (p_copy h);
                c \<leftarrow> get_chs s t i;
                w \<leftarrow> get_wrt_clk s t c (local_clk th);
                (if gte_clock w (local_clk th) then Some (False, obj, s) else lock_copy self obj v sz s) }) }) }) }"

definition ts_try_lock_const :: "bool \<Rightarrow> nat option \<Rightarrow> nat \<Rightarrow> ptr \<Rightarrow> sys \<Rightarrow> (bool \<times> sys) option" where
  "ts_try_lock_const ser mem self obj s = do {
     (ok, _, s) \<leftarrow> ts_try_lock ser mem self obj 0 s;
     Some (ok, s) }"

text \<open>What the caller does with a locked copy: writing to it.\<close>

definition user_write :: "nat \<Rightarrow> u32 \<Rightarrow> bytes \<Rightarrow> sys \<Rightarrow> sys" where
  "user_write self i d s = upd_chs self i (\<lambda>c. c\<lparr>c_body := Data d\<rparr>) s"

section \<open>Objects\<close>

text \<open>\<open>ts_alloc\<close> with the address the NVM allocator gives, holding the bytes \<open>junk\<close>.\<close>

definition ts_alloc :: "nat option \<Rightarrow> u32 \<Rightarrow> bytes \<Rightarrow> sys \<Rightarrow> ptr \<times> sys" where
  "ts_alloc mem sz junk s =
     (case mem of
        None \<Rightarrow> (Null, s)
      | Some a \<Rightarrow>
          (Act a, s\<lparr>acts := (acts s)(a \<mapsto> \<lparr>a_vhdr = None, a_gen_id = INVALID_GEN_ID, a_index = 0, a_obj_size = sz,
                                          a_type = TYPE_ACTUAL, a_data = junk\<rparr>)\<rparr>))"

definition ts_free :: "ptr list option \<Rightarrow> nat option \<Rightarrow> ptr \<Rightarrow> sys \<Rightarrow> sys option" where
  "ts_free ra self obj s =
     (if obj = Null then Some s
      else
        (case self of
           None \<Rightarrow> (case obj of Act a \<Rightarrow> Some (s\<lparr>acts := (acts s)(a := None)\<rparr>) | _ \<Rightarrow> None)
         | Some self \<Rightarrow> do {
             p_act \<leftarrow> get_org_act_obj s obj;
             th \<leftarrow> thrs s self;
             (_, fs) \<leftarrow> ptrset_push ra (tx_free_set th) p_act;
             Some (upd_thr self (\<lambda>th. th\<lparr>tx_free_set := fs\<rparr>) s) }))"

definition ts_cmp_ptrs :: "sys \<Rightarrow> ptr \<Rightarrow> ptr \<Rightarrow> bool option" where
  "ts_cmp_ptrs s obj1 obj2 = do {
     obj1 \<leftarrow> (if obj1 \<noteq> Null then get_org_act_obj s obj1 else Some obj1);
     obj2 \<leftarrow> (if obj2 \<noteq> Null then get_org_act_obj s obj2 else Some obj2);
     Some (obj1 = obj2) }"

text \<open>\<open>_ts_assign_pointer\<close>: the pointer that is stored.\<close>

definition ts_assign_pointer :: "sys \<Rightarrow> ptr \<Rightarrow> ptr option" where
  "ts_assign_pointer s obj = (if obj \<noteq> Null then get_org_act_obj s obj else Some obj)"

definition ts_update_index :: "ptr \<Rightarrow> int \<Rightarrow> sys \<Rightarrow> sys option" where
  "ts_update_index obj index s = do {
     a \<leftarrow> get_act_nvhdr s obj;
     Some (upd_act a (\<lambda>ao. ao\<lparr>a_index := index\<rparr>) s) }"

definition ts_get_index :: "sys \<Rightarrow> ptr \<Rightarrow> int option" where
  "ts_get_index s obj = do {
     a \<leftarrow> get_act_nvhdr s obj;
     ao \<leftarrow> acts s a;
     Some (a_index ao) }"

text \<open>Objects allocated together lie \<open>TS_AHS_SIZE + size\<close> bytes apart.\<close>

definition ts_get_base_addr :: "sys \<Rightarrow> ptr \<Rightarrow> nat option" where
  "ts_get_base_addr s obj = do {
     a \<leftarrow> get_act_nvhdr s obj;
     ao \<leftarrow> acts s a;
     (if a_index ao = 0 then Some a
      else do {
        let base = int a - int (unat TS_AHS_SIZE + unat (a_obj_size ao)) * a_index ao;
        (if base < 0 \<or> acts s (nat base) = None then None else Some (nat base)) }) }"

definition ts_get_offset :: "sys \<Rightarrow> ptr \<Rightarrow> int \<Rightarrow> nat option" where
  "ts_get_offset s obj index = do {
     base \<leftarrow> ts_get_base_addr s obj;
     ao \<leftarrow> acts s base;
     let off = int base + int (unat TS_AHS_SIZE + unat (a_obj_size ao)) * index;
     (if off < 0 \<or> acts s (nat off) = None then None else Some (nat off)) }"

definition ts_stat_alloc_act_obj :: "nat \<Rightarrow> u64 \<Rightarrow> sys \<Rightarrow> sys" where
  "ts_stat_alloc_act_obj self sz s = stat_thread self (\<lambda>st. stat_acc st n_alloc_act_obj_bytes (ucast TS_AHS_SIZE + sz)) s"

section \<open>Operation records\<close>

definition ts_set_op :: "nat \<Rightarrow> u64 \<Rightarrow> sys \<Rightarrow> sys" where
  "ts_set_op self ty s = upd_thr self (\<lambda>th. th\<lparr>op_info := (op_info th)\<lparr>op_curr := 0, op_type := ty\<rparr>\<rparr>) s"

text \<open>\<open>ts_alloc_operand\<close> returns the offset of the operand in the buffer; the size is an int.\<close>

definition ts_alloc_operand :: "nat \<Rightarrow> 32 word \<Rightarrow> sys \<Rightarrow> (u32 \<times> sys) option" where
  "ts_alloc_operand self sz s = do {
     th \<leftarrow> thrs s self;
     Some (op_curr (op_info th), upd_thr self (\<lambda>th. th\<lparr>op_info := (op_info th)\<lparr>op_curr := op_curr (op_info th) + sz\<rparr>\<rparr>) s) }"

text \<open>Writing behind the operand buffer is \<open>None\<close>.\<close>

definition ts_memcpy_operand :: "nat \<Rightarrow> bytes \<Rightarrow> sys \<Rightarrow> sys option" where
  "ts_memcpy_operand self opd s = do {
     (off, s) \<leftarrow> ts_alloc_operand self (of_nat (length opd)) s;
     th \<leftarrow> thrs s self;
     let buf = op_opd (op_info th);
     (if length buf < unat off + length opd then None
      else Some (upd_thr self (\<lambda>th. th\<lparr>op_info := (op_info th)\<lparr>op_opd :=
              take (unat off) buf @ opd @ drop (unat off + length opd) buf\<rparr>\<rparr>) s)) }"

section \<open>Transactions\<close>

definition try_reclaim_logs :: "ptr list option \<Rightarrow> nat \<Rightarrow> sys \<Rightarrow> sys option" where
  "try_reclaim_logs ra self s = do {
     th \<leftarrow> thrs s self;
     (if requested (reclaim th) then do {
        s \<leftarrow> (if rq_tvlog (reclaim th) \<noteq> 0 then tvlog_reclaim self s else Some s);
        th \<leftarrow> thrs s self;
        (if rq_ckptlog (reclaim th) \<noteq> 0 then ckptlog_reclaim ra self s else Some s) }
      else Some s) }"

definition ts_begin ::
  "bool \<Rightarrow> (nat \<Rightarrow> u64) \<Rightarrow> (nat \<Rightarrow> sys \<Rightarrow> sys) \<Rightarrow> ptr list option \<Rightarrow> nat \<Rightarrow> int \<Rightarrow> sys \<Rightarrow> sys option" where
  "ts_begin ser tsc env ra self level s = do {
     s \<leftarrow> try_reclaim_logs ra self s;
     (_, s) \<leftarrow> tvlog_reclaim_below_high_watermark env ra self 0 s;
     Some (upd_thr self (\<lambda>th. th\<lparr>isolation := isolation_reset ser (isolation th) level, run_cnt := run_cnt th + 1,
                                  local_clk := tsc (now s), stat := stat_inc (stat th) n_starts\<rparr>)
            (s\<lparr>now := Suc (now s)\<rparr>)) }"

text \<open>The loops over the newly allocated objects; the pointers are those of the object headers.\<close>

fun flush_new_act_loop :: "nat \<Rightarrow> nat \<Rightarrow> sys \<Rightarrow> sys option" where
  "flush_new_act_loop self 0 s = None"
| "flush_new_act_loop self (Suc n) s = do {
     th \<leftarrow> thrs s self;
     (p, ps) \<leftarrow> ptrset_pop (tx_alloc_set th);
     let s = upd_thr self (\<lambda>th. th\<lparr>tx_alloc_set := ps\<rparr>) s;
     (case p of
        Null \<Rightarrow> Some s
      | Act a \<Rightarrow> do {
          ao \<leftarrow> acts s a;
          flush_new_act_loop self n (stat_thread self (\<lambda>st. stat_acc st n_flush_new_act_bytes (ucast (TS_AHS_SIZE + a_obj_size ao))) s) }
      | _ \<Rightarrow> None) }"

definition flush_new_act :: "nat \<Rightarrow> sys \<Rightarrow> sys option" where
  "flush_new_act self s = do { th \<leftarrow> thrs s self; flush_new_act_loop self (Suc (unat (num_ptrs (tx_alloc_set th)))) s }"

fun free_new_act_loop :: "nat \<Rightarrow> nat \<Rightarrow> sys \<Rightarrow> sys option" where
  "free_new_act_loop self 0 s = None"
| "free_new_act_loop self (Suc n) s = do {
     th \<leftarrow> thrs s self;
     (p, ps) \<leftarrow> ptrset_pop (tx_alloc_set th);
     let s = upd_thr self (\<lambda>th. th\<lparr>tx_alloc_set := ps\<rparr>) s;
     (case p of
        Null \<Rightarrow> Some s
      | Act a \<Rightarrow> free_new_act_loop self n (s\<lparr>acts := (acts s)(a := None)\<rparr>)
      | _ \<Rightarrow> None) }"

definition free_new_act :: "nat \<Rightarrow> sys \<Rightarrow> sys option" where
  "free_new_act self s = do { th \<leftarrow> thrs s self; free_new_act_loop self (Suc (unat (num_ptrs (tx_alloc_set th)))) s }"

definition ts_abort :: "ptr list option \<Rightarrow> nat \<Rightarrow> sys \<Rightarrow> sys option" where
  "ts_abort ra self s = do {
     th \<leftarrow> thrs s self;
     let s = upd_thr self (\<lambda>th. th\<lparr>run_cnt := run_cnt th + 1\<rparr>) s;
     s \<leftarrow> (if cur_wrt_set (tvlog th) \<noteq> None then do {
             s \<leftarrow> tvlog_abort self s;
             Some (upd_thr self (\<lambda>th. th\<lparr>is_write_detected := False\<rparr>) s) }
           else Some s);
     s \<leftarrow> free_new_act self s;
     s \<leftarrow> try_reclaim_logs ra self s;
     (_, s) \<leftarrow> oplog_reclaim self RECLAIM_OPLOG_NORMAL s;
     Some (stat_thread self (\<lambda>st. stat_inc st n_aborts) s) }"

definition ts_end :: "bool \<Rightarrow> (nat \<Rightarrow> u64) \<Rightarrow> ptr list option \<Rightarrow> nat \<Rightarrow> sys \<Rightarrow> (bool \<times> sys) option" where
  "ts_end ser tsc ra self s = do {
     th \<leftarrow> thrs s self;
     (if in_recovery_mode th then Some (True, s)
      else do {
        valid \<leftarrow> validate_read_set ser s (isolation th);
        (if \<not> valid then do {
           s \<leftarrow> ts_abort ra self s;
           Some (False, stat_thread self (\<lambda>st. stat_inc st n_aborts_validation) s) }
         else do {
           s \<leftarrow> (if is_write_detected th then do {
                   s \<leftarrow> tvlog_commit tsc self (local_clk th) s;
                   Some (upd_thr self (\<lambda>th. th\<lparr>is_write_detected := False\<rparr>) s) }
                 else Some s);
           let s = upd_thr self (\<lambda>th. th\<lparr>run_cnt := run_cnt th + 1\<rparr>) s;
           s \<leftarrow> flush_new_act self s;
           s \<leftarrow> try_reclaim_logs ra self s;
           Some (True, stat_thread self (\<lambda>st. stat_inc st n_finish) s) }) }) }"

definition ts_flush_log :: "(nat \<Rightarrow> sys \<Rightarrow> sys) \<Rightarrow> ptr list option \<Rightarrow> nat \<Rightarrow> sys \<Rightarrow> sys option" where
  "ts_flush_log env ra self s = do {
     (k, s) \<leftarrow> tvlog_flush env ra self 0 s;
     (k, s) \<leftarrow> ckptlog_flush env ra self k s;
     Some s }"

section \<open>Threads\<close>

text \<open>A zeroed thread structure.\<close>

definition zero_set :: ptr_set where
  "zero_set = \<lparr>num_ptrs = 0, num_max_ptrs = 0, ptrs = None\<rparr>"

definition zero_log :: log where
  "zero_log = \<lparr>head_cnt = 0, tail_cnt = 0, prev_head_cnt = 0, reclaim_lock = 0, nvl_store = None, log_size = 0,
     nvl_mask = 0, nvl_type = TYPE_NVLOG, nvl_status = STATUS_NVLOG_NORMAL\<rparr>"

definition zero_thread :: thread where
  "zero_thread =
     \<lparr>tid = 0, in_recovery_mode = False, is_write_detected = False,
      isolation = \<lparr>iso_level = 0, stale_read_occured = False, read_set = zero_set\<rparr>,
      tx_alloc_set = zero_set, tx_free_set = zero_set, ckpt_free_set = zero_set, stat = stat_reset,
      op_info = \<lparr>op_curr = 0, op_type = 0, op_opd = replicate 240 0\<rparr>, run_cnt = 0, live_status = THREAD_LIVE,
      local_clk = 0, clks = \<lparr>qp0 = 0, qp1 = 0, qp2 = 0, last_ckpt = 0, min_ckpt_reclaimed = 0\<rparr>,
      qp_info = \<lparr>need_wait = 0, qi_run_cnt = 0\<rparr>, reclaim = \<lparr>rq_tvlog = 0, rq_ckptlog = 0\<rparr>,
      tvlog = \<lparr>tv_reclaim_lock = 0, tv_head_cnt = 0, tv_tail_cnt = 0, tv_prev_head_cnt = 0, cur_wrt_set = None,
               tv_buffer = None, tv_mem = Map.empty\<rparr>,
      oplog = zero_log, oplog_p = None, ckptlog = zero_log, ckptlog_p = None, ckptlog_free_set = False\<rparr>"

text \<open>The lists of threads (qp.c).\<close>

definition register_thread :: "nat \<Rightarrow> sys \<Rightarrow> sys option" where
  "register_thread self s = do {
     (t, tls, ls) \<leftarrow> thread_list_add (live_threads s) (Thread_node self) (links s);
     Some (upd_thr self (\<lambda>th. th\<lparr>tid := t\<rparr>) (s\<lparr>live_threads := tls, links := ls\<rparr>)) }"

definition deregister_thread :: "nat \<Rightarrow> sys \<Rightarrow> sys option" where
  "deregister_thread self s = do {
     (tls, ls) \<leftarrow> thread_list_del (live_threads s) (Thread_node self) (links s);
     Some (s\<lparr>live_threads := tls, links := ls\<rparr>) }"

definition zombinize_thread :: "nat \<Rightarrow> sys \<Rightarrow> sys option" where
  "zombinize_thread self s = do {
     (t, tls, ls) \<leftarrow> thread_list_add (zombie_threads s) (Thread_node self) (links s);
     Some (upd_thr self (\<lambda>th. th\<lparr>tid := t\<rparr>) (s\<lparr>zombie_threads := tls, links := ls\<rparr>)) }"

text \<open>\<open>stat_thread_merge\<close>.\<close>

definition stat_thread_merge :: "nat \<Rightarrow> sys \<Rightarrow> sys option" where
  "stat_thread_merge self s = do { th \<leftarrow> thrs s self; Some (s\<lparr>g_stat := stat_atomic_merge (g_stat s) (stat th)\<rparr>) }"

definition ts_thread_alloc :: "nat option \<Rightarrow> thread \<Rightarrow> sys \<Rightarrow> nat option \<times> sys" where
  "ts_thread_alloc mem junk s =
     (case mem of None \<Rightarrow> (None, s) | Some t \<Rightarrow> (Some t, s\<lparr>thrs := (thrs s)(t \<mapsto> junk)\<rparr>))"

definition ts_thread_free :: "nat \<Rightarrow> sys \<Rightarrow> sys option" where
  "ts_thread_free self s = do {
     let s = upd_thr self (\<lambda>th. th\<lparr>live_status := THREAD_DEAD_ZOMBIE\<rparr>) s;
     th \<leftarrow> thrs s self;
     (if tvlog_used (tvlog th) = 0 \<and> ckptlog_used (ckptlog th) = 0 then do {
        s \<leftarrow> stat_thread_merge self s;
        s \<leftarrow> tvtlog_destroy self s;
        s \<leftarrow> ckptlog_destroy self s;
        s \<leftarrow> oplog_destroy self s;
        Some (s\<lparr>thrs := (thrs s)(self := None)\<rparr>) }
      else Some s) }"

text \<open>
  \<open>ts_thread_init_x\<close>; \<open>m1\<close>, \<open>m2\<close>, \<open>m3\<close> and \<open>m4\<close> are the arrays of the pointer sets, \<open>o1\<close>, \<open>o2\<close>,
  \<open>c1\<close> and \<open>c2\<close> the allocations of the two logs. An error leaves the thread unregistered.
\<close>

definition thread_init_sets ::
  "bool \<Rightarrow> ptr list option \<Rightarrow> ptr list option \<Rightarrow> ptr list option \<Rightarrow> ptr list option \<Rightarrow> thread \<Rightarrow> errno option \<times> thread" where
  "thread_init_sets ser m1 m2 m3 m4 th =
     (case ptrset_init m1 (tx_alloc_set th) of
        (Some e, fs) \<Rightarrow> (Some e, th\<lparr>tx_alloc_set := fs\<rparr>)
      | (None, fs) \<Rightarrow>
          let th = th\<lparr>tx_alloc_set := fs\<rparr>
          in case ptrset_init m2 (tx_free_set th) of
               (Some e, fs) \<Rightarrow> (Some e, th\<lparr>tx_free_set := fs\<rparr>)
             | (None, fs) \<Rightarrow>
                 let th = th\<lparr>tx_free_set := fs\<rparr>
                 in case ptrset_init m3 (ckpt_free_set th) of
                      (Some e, fs) \<Rightarrow> (Some e, th\<lparr>ckpt_free_set := fs\<rparr>)
                    | (None, fs) \<Rightarrow>
                        let th = th\<lparr>ckpt_free_set := fs\<rparr>
                        in case isolation_init ser m4 (isolation th) of
                             (rc, info) \<Rightarrow> (rc, th\<lparr>isolation := info\<rparr>))"

definition ts_thread_init_x ::
  "bool \<Rightarrow> ptr list option \<Rightarrow> ptr list option \<Rightarrow> ptr list option \<Rightarrow> ptr list option \<Rightarrow>
   nat option \<Rightarrow> (u64 \<times> nv_body nv_mem) option \<Rightarrow> nat option \<Rightarrow> (u64 \<times> nv_body nv_mem) option \<Rightarrow>
   nat \<Rightarrow> nvlog_status \<Rightarrow> sys \<Rightarrow> sys option" where
  "ts_thread_init_x ser m1 m2 m3 m4 o1 o2 c1 c2 self flags s = do {
     _ \<leftarrow> thrs s self;
     let th = zero_thread\<lparr>clks := (clks zero_thread)\<lparr>last_ckpt := MIN_VERSION, min_ckpt_reclaimed := MAX_VERSION\<rparr>\<rparr>;
     let (rc, th) = thread_init_sets ser m1 m2 m3 m4 th;
     let s = upd_thr self (\<lambda>_. th) s;
     (if rc \<noteq> None then Some s
      else do {
        let (rc, s) = tvlog_create self s;
        (if rc \<noteq> None then Some s
         else do {
           let s = upd_thr self (\<lambda>th. th\<lparr>in_recovery_mode := (flags = STATUS_NVLOG_RECOVERY)\<rparr>) s;
           (_, s) \<leftarrow> oplog_create self o1 o2 TS_OPLOG_SIZE flags s;
           (_, s) \<leftarrow> ckptlog_create self c1 c2 TS_CKPTLOG_SIZE flags s;
           register_thread self s }) }) }"

definition ts_thread_init ::
  "bool \<Rightarrow> ptr list option \<Rightarrow> ptr list option \<Rightarrow> ptr list option \<Rightarrow> ptr list option \<Rightarrow>
   nat option \<Rightarrow> (u64 \<times> nv_body nv_mem) option \<Rightarrow> nat option \<Rightarrow> (u64 \<times> nv_body nv_mem) option \<Rightarrow> nat \<Rightarrow> sys \<Rightarrow> sys option" where
  "ts_thread_init ser m1 m2 m3 m4 o1 o2 c1 c2 self s =
     ts_thread_init_x ser m1 m2 m3 m4 o1 o2 c1 c2 self STATUS_NVLOG_NORMAL s"

definition ts_thread_finish :: "bool \<Rightarrow> ptr list option \<Rightarrow> nat \<Rightarrow> sys \<Rightarrow> sys option" where
  "ts_thread_finish ser ra self s = do {
     s \<leftarrow> try_reclaim_logs ra self s;
     (_, s) \<leftarrow> oplog_reclaim self RECLAIM_OPLOG_NORMAL s;
     let s = upd_thr self (\<lambda>th. th\<lparr>qp_info := (qp_info th)\<lparr>need_wait := 0\<rparr>\<rparr>) s;
     s \<leftarrow> deregister_thread self s;
     th \<leftarrow> thrs s self;
     (if tvlog_used (tvlog th) \<noteq> 0 \<or> ckptlog_used (ckptlog th) \<noteq> 0
      then zombinize_thread self (upd_thr self (\<lambda>th. th\<lparr>live_status := THREAD_LIVE_ZOMBIE\<rparr>) s)
      else do {
        let s = upd_thr self (\<lambda>th. th\<lparr>isolation := isolation_deinit ser (isolation th)\<rparr>) s;
        s \<leftarrow> tvtlog_destroy self s;
        s \<leftarrow> ckptlog_destroy self s;
        s \<leftarrow> oplog_destroy self s;
        stat_thread_merge self s }) }"

end
