(* ===== verification/Visibility.thy ===== *)
theory Visibility
  imports Timestone
begin

text \<open>
  What a reader sees of a transaction that is being committed, and which version a reader finds.
  The commit of a write set is a state machine (\<open>commit_step\<close>): the pending clock is fixed, the
  clock of the write set is published, the copies are stamped one by one; other threads do
  anything in between that leaves the write set of the committing thread alone (\<open>rely\<close>). The
  theorems say that a reader sees all of a write set or nothing of it at every point, that it
  never changes its mind, and that the walk along a version chain finds the newest version of
  the snapshot.
\<close>

section \<open>The commit as a state machine\<close>

definition is_visible :: "sys \<Rightarrow> nat \<Rightarrow> chs \<Rightarrow> u64 \<Rightarrow> bool option" where
  "is_visible s t c lclk = map_option (\<lambda>w. lt_clock w lclk) (get_wrt_clk s t c lclk)"

definition cur_ws :: "sys \<Rightarrow> nat \<Rightarrow> u32 option" where
  "cur_ws s self = do { th \<leftarrow> thrs s self; cur_wrt_set (tvlog th) }"

definition ws_copy :: "sys \<Rightarrow> nat \<Rightarrow> u32 \<Rightarrow> u32 \<Rightarrow> chs \<Rightarrow> bool" where
  "ws_copy s self w i c \<longleftrightarrow> get_chs s self i = Some c \<and> p_ws c = Some w"

text \<open>What the other threads leave alone.\<close>

definition rely :: "nat \<Rightarrow> u32 \<Rightarrow> sys \<Rightarrow> sys \<Rightarrow> bool" where
  "rely self w s s' \<longleftrightarrow>
     now s \<le> now s' \<and> cur_ws s' self = cur_ws s self \<and> get_ws s' self w = get_ws s self w \<and>
     (\<forall>i. map_option (\<lambda>c. (p_ws c, c_wrt_clk c)) (get_chs s' self i) =
          map_option (\<lambda>c. (p_ws c, c_wrt_clk c)) (get_chs s self i))"

inductive commit_step :: "(nat \<Rightarrow> u64) \<Rightarrow> nat \<Rightarrow> u32 \<Rightarrow> sys \<Rightarrow> sys \<Rightarrow> bool" for tsc self w where
  pending: "cur_ws s self = Some w \<Longrightarrow> get_ws s self w = Some ws \<Longrightarrow> pending_wrt_clk ws = MAX_VERSION \<Longrightarrow>
            commit_pending tsc self wclk s = Some (clk, s') \<Longrightarrow> commit_step tsc self w s s'"
| publish: "cur_ws s self = Some w \<Longrightarrow> get_ws s self w = Some ws \<Longrightarrow> pending_wrt_clk ws \<noteq> MAX_VERSION \<Longrightarrow>
            commit_publish self (pending_wrt_clk ws) s = Some s' \<Longrightarrow> commit_step tsc self w s s'"
| stamp: "get_ws s self w = Some ws \<Longrightarrow> ws_wrt_clk ws \<noteq> MAX_VERSION \<Longrightarrow> ws_copy s self w i c \<Longrightarrow>
          unlock_commit self (ws_wrt_clk ws) i c ((), s) = Some (stop, u, s') \<Longrightarrow> commit_step tsc self w s s'"
| other: "rely self w s s' \<Longrightarrow> commit_step tsc self w s s'"

inductive_cases commit_stepE: "commit_step tsc self w s s'"

abbreviation commit_steps :: "(nat \<Rightarrow> u64) \<Rightarrow> nat \<Rightarrow> u32 \<Rightarrow> sys \<Rightarrow> sys \<Rightarrow> bool" where
  "commit_steps tsc self w \<equiv> (commit_step tsc self w)\<^sup>*\<^sup>*"

section \<open>The phases of a write set\<close>

definition ws_phase :: "sys \<Rightarrow> nat \<Rightarrow> u32 \<Rightarrow> (u64 \<times> u64) option" where
  "ws_phase s self w = map_option (\<lambda>ws. (pending_wrt_clk ws, ws_wrt_clk ws)) (get_ws s self w)"

definition ws_inv :: "nat \<Rightarrow> u32 \<Rightarrow> sys \<Rightarrow> bool" where
  "ws_inv self w s \<longleftrightarrow>
     (case ws_phase s self w of
        None \<Rightarrow> False
      | Some (p, q) \<Rightarrow>
          (q = MAX_VERSION \<or> q = p) \<and>
          (\<forall>i c. ws_copy s self w i c \<longrightarrow> c_wrt_clk c = MAX_VERSION \<or> c_wrt_clk c = q))"

definition later :: "(nat \<Rightarrow> u64) \<Rightarrow> nat \<Rightarrow> u32 \<Rightarrow> sys \<Rightarrow> sys \<Rightarrow> bool" where
  "later tsc self w s s' \<longleftrightarrow>
     now s \<le> now s' \<and>
     (case (ws_phase s self w, ws_phase s' self w) of
        (Some (p, q), Some (p', q')) \<Rightarrow>
          (if p = MAX_VERSION then p' = MAX_VERSION \<or> tsc (now s) \<le> p' else p' = p) \<and>
          (q = MAX_VERSION \<or> q' = q)
      | _ \<Rightarrow> False)"

lemma ordo_new_clock_reads:
  assumes "ordo_new_clock tsc i t = Some r"
  shows "\<exists>j\<ge>i. r = (tsc j, Suc j)"
  by (rule ordo_new_clock.raw_induct [OF _ assms]) (fastforce split: if_splits dest: Suc_leD)

lemma new_clock_reads: "new_clock tsc i lclk = Some (clk, k) \<Longrightarrow> \<exists>j\<ge>i. clk = tsc j \<and> k = Suc j"
  by (auto simp: new_clock_def dest: ordo_new_clock_reads)

lemma get_ws_upd_chs_body:
  "(\<And>c. c_body (f c) = c_body c) \<Longrightarrow> get_ws (upd_chs t i f s) t' j = get_ws s t' j"
  by (cases "get_chs s t i") (auto simp: get_ws_def get_chs_upd_chs split: bind_splits)

lemma get_ws_upd_ws: "get_ws (upd_ws t i f s) t i = map_option f (get_ws s t i)"
  by (cases "get_chs s t i") (auto simp: get_ws_def upd_ws_def get_chs_upd_chs split: chs_body.splits)

lemma get_chs_upd_ws:
  "map_option (\<lambda>c. (p_ws c, c_wrt_clk c)) (get_chs (upd_ws t i f s) t' j) =
   map_option (\<lambda>c. (p_ws c, c_wrt_clk c)) (get_chs s t' j)"
  by (cases "get_chs s t i") (auto simp: upd_ws_def get_chs_upd_chs split: chs_body.splits)

lemma now_upd_ws [simp]: "now (upd_ws t i f s) = now s"
  by (simp add: upd_ws_def upd_chs_other)

lemma get_now [simp]: "get_ws (s\<lparr>now := n\<rparr>) t i = get_ws s t i" "get_chs (s\<lparr>now := n\<rparr>) t i = get_chs s t i"
  by (simp_all add: get_ws_def get_chs_def)

text \<open>Copies keep their write set and their stamp when nothing but the body changes.\<close>

lemma ws_copy_same:
  assumes "\<And>i. map_option (\<lambda>c. (p_ws c, c_wrt_clk c)) (get_chs s' self i) =
                map_option (\<lambda>c. (p_ws c, c_wrt_clk c)) (get_chs s self i)" "ws_copy s' self w i c"
  shows "\<exists>c0. ws_copy s self w i c0 \<and> c_wrt_clk c0 = c_wrt_clk c"
  using assms(1) [of i] assms(2) by (cases "get_chs s self i") (auto simp: ws_copy_def)

lemma ws_invI:
  assumes "ws_inv self w s" "ws_phase s' self w = Some (p, q)" "q = MAX_VERSION \<or> q = p"
    "\<And>i c. ws_copy s' self w i c \<Longrightarrow> c_wrt_clk c = q \<or> (\<exists>c0. ws_copy s self w i c0 \<and> c_wrt_clk c0 = c_wrt_clk c)"
    "\<And>p' q'. ws_phase s self w = Some (p', q') \<Longrightarrow> q' = MAX_VERSION \<or> q' = q"
  shows "ws_inv self w s'"
proof -
  obtain p' q' where s: "ws_phase s self w = Some (p', q')"
    and cs: "\<And>i c. ws_copy s self w i c \<Longrightarrow> c_wrt_clk c = MAX_VERSION \<or> c_wrt_clk c = q'"
    using assms(1) by (auto simp: ws_inv_def split: option.splits)
  have "c_wrt_clk c = MAX_VERSION \<or> c_wrt_clk c = q" if "ws_copy s' self w i c" for i c
    using assms(4) [OF that] cs assms(5) [OF s] by metis
  then show ?thesis using assms(2,3) by (simp add: ws_inv_def)
qed

lemma ws_inv_sameI:
  assumes "ws_inv self w s" "ws_phase s' self w = Some (p, q)" "q = MAX_VERSION \<or> q = p"
    "\<And>i. map_option (\<lambda>c. (p_ws c, c_wrt_clk c)) (get_chs s' self i) =
         map_option (\<lambda>c. (p_ws c, c_wrt_clk c)) (get_chs s self i)"
    "\<And>p' q'. ws_phase s self w = Some (p', q') \<Longrightarrow> q' = MAX_VERSION \<or> q' = q"
  shows "ws_inv self w s'"
  using ws_copy_same [OF assms(4)] by (intro ws_invI [OF assms(1-3) _ assms(5)]) blast

lemma unlock_commit_keeps:
  assumes "unlock_commit self clk i c ((), s) = Some (stop, u, s')" "get_chs s self i = Some c"
  shows "get_ws s' self w = get_ws s self w" "now s' = now s"
    "\<forall>j. map_option p_ws (get_chs s' self j) = map_option p_ws (get_chs s self j) \<and>
         (\<forall>c'. get_chs s' self j = Some c' \<longrightarrow> c_wrt_clk c' = clk \<or> map_option c_wrt_clk (get_chs s self j) = Some (c_wrt_clk c'))"
  using assms
  by (auto simp: unlock_commit_def unlock_obj_def get_ws_upd_chs_body store_simps Let_def option.map_comp o_def
      split: obj_type.splits bind_splits ptr.splits if_splits)

lemma commit_step_keeps:
  assumes st: "commit_step tsc self w s s'" and inv: "ws_inv self w s" and tsc: "mono tsc"
  shows "ws_inv self w s' \<and> later tsc self w s s'"
  using st
proof cases
  case (pending ws wclk clk)
  then obtain i where i: "new_clock tsc (now s) wclk = Some (clk, i)"
    and s': "s' = upd_ws self w (\<lambda>ws. ws\<lparr>pending_wrt_clk := clk\<rparr>) (s\<lparr>now := i\<rparr>)"
    by (auto simp: commit_pending_def cur_ws_def split: bind_splits)
  from new_clock_reads [OF i] obtain j where j: "now s \<le> j" "clk = tsc j" "i = Suc j" by auto
  have ph: "ws_phase s self w = Some (MAX_VERSION, ws_wrt_clk ws)" "ws_phase s' self w = Some (clk, ws_wrt_clk ws)"
    using pending by (simp_all add: ws_phase_def s' get_ws_upd_ws)
  have q: "ws_wrt_clk ws = MAX_VERSION" using inv ph(1) by (auto simp: ws_inv_def)
  have "ws_inv self w s'"
    using ph q by (intro ws_inv_sameI [OF inv ph(2)]) (simp_all add: s' get_chs_upd_ws)
  moreover have "later tsc self w s s'"
    using ph q j monoD [OF tsc j(1)] by (simp add: later_def s')
  ultimately show ?thesis ..
next
  case (publish ws)
  then have s': "s' = upd_ws self w (\<lambda>ws'. ws'\<lparr>ws_wrt_clk := pending_wrt_clk ws\<rparr>) s"
    by (auto simp: commit_publish_def cur_ws_def split: bind_splits)
  have ph: "ws_phase s self w = Some (pending_wrt_clk ws, ws_wrt_clk ws)"
    "ws_phase s' self w = Some (pending_wrt_clk ws, pending_wrt_clk ws)"
    using publish by (simp_all add: ws_phase_def s' get_ws_upd_ws)
  have q: "ws_wrt_clk ws = MAX_VERSION \<or> ws_wrt_clk ws = pending_wrt_clk ws" using inv ph(1) by (auto simp: ws_inv_def)
  have "ws_inv self w s'"
    using ph q by (intro ws_inv_sameI [OF inv ph(2)]) (simp_all add: s' get_chs_upd_ws)
  then show ?thesis using ph q publish by (auto simp: later_def s')
next
  case (stamp ws i c stop u)
  note k = unlock_commit_keeps [OF stamp(4), unfolded ws_copy_def]
  have c: "get_chs s self i = Some c" using stamp by (simp add: ws_copy_def)
  have ph: "ws_phase s' self w = ws_phase s self w" "ws_phase s self w = Some (pending_wrt_clk ws, ws_wrt_clk ws)"
    using k(1) [OF c, of w] stamp by (simp_all add: ws_phase_def)
  have "ws_copy s' self w j c' \<Longrightarrow> c_wrt_clk c' = ws_wrt_clk ws \<or> (\<exists>c0. ws_copy s self w j c0 \<and> c_wrt_clk c0 = c_wrt_clk c')" for j c'
    using k(3) [OF c, rule_format, of j] by (cases "get_chs s self j") (auto simp: ws_copy_def)
  then have "ws_inv self w s'"
    using ph inv by (intro ws_invI [OF inv]) (auto simp: ws_inv_def)
  then show ?thesis using ph k(2) [OF c] by (simp add: later_def)
next
  case other
  then have ph: "ws_phase s' self w = ws_phase s self w" by (simp add: rely_def ws_phase_def)
  from inv obtain p q where pq: "ws_phase s self w = Some (p, q)" "q = MAX_VERSION \<or> q = p"
    by (auto simp: ws_inv_def split: option.splits)
  have "ws_inv self w s'"
    using other ph pq by (intro ws_inv_sameI [OF inv, of s' p q]) (simp_all add: rely_def)
  then show ?thesis using other ph pq by (simp add: later_def rely_def)
qed

lemma later_refl: "ws_inv self w s \<Longrightarrow> later tsc self w s s"
  by (simp add: later_def ws_inv_def split: option.splits prod.splits)

lemma laterE:
  assumes "later tsc self w s s'"
  obtains p q p' q' where "ws_phase s self w = Some (p, q)" "ws_phase s' self w = Some (p', q')" "now s \<le> now s'"
    "if p = MAX_VERSION then p' = MAX_VERSION \<or> tsc (now s) \<le> p' else p' = p" "q = MAX_VERSION \<or> q' = q"
proof (cases "ws_phase s self w"; cases "ws_phase s' self w")
  fix x y assume "ws_phase s self w = Some x" "ws_phase s' self w = Some y"
  with assms that show thesis by (cases x; cases y) (simp add: later_def)
qed (use assms in \<open>simp_all add: later_def\<close>)

lemma later_trans:
  assumes "later tsc self w s s'" "later tsc self w s' s''" "mono tsc"
  shows "later tsc self w s s''"
proof -
  obtain p q p1 q1 where 1: "ws_phase s self w = Some (p, q)" "ws_phase s' self w = Some (p1, q1)" "now s \<le> now s'"
    "if p = MAX_VERSION then p1 = MAX_VERSION \<or> tsc (now s) \<le> p1 else p1 = p" "q = MAX_VERSION \<or> q1 = q"
    using assms(1) by (rule laterE)
  obtain p2 q2 where 2: "ws_phase s'' self w = Some (p2, q2)" "now s' \<le> now s''"
    "if p1 = MAX_VERSION then p2 = MAX_VERSION \<or> tsc (now s') \<le> p2 else p2 = p1" "q1 = MAX_VERSION \<or> q2 = q1"
    using assms(2) by (rule laterE) (use 1(2) in simp)
  have "tsc (now s) \<le> tsc (now s')" using monoD [OF assms(3) 1(3)] .
  then have "if p = MAX_VERSION then p2 = MAX_VERSION \<or> tsc (now s) \<le> p2 else p2 = p"
    using 1(4) 2(3) by (metis order_trans)
  then show ?thesis using 1 2 by (auto simp: later_def)
qed

interpretation commit: guarantee "commit_step tsc self w" "\<lambda>s. mono tsc \<and> ws_inv self w s" "later tsc self w" for tsc self w
proof unfold_locales
  show "commit_step tsc self w s s' \<Longrightarrow> mono tsc \<and> ws_inv self w s \<Longrightarrow> (mono tsc \<and> ws_inv self w s') \<and> later tsc self w s s'" for s s'
    using commit_step_keeps by blast
  show "mono tsc \<and> ws_inv self w s \<Longrightarrow> later tsc self w s s" for s
    by (simp add: later_refl)
  show "mono tsc \<and> ws_inv self w s \<Longrightarrow> later tsc self w s s' \<Longrightarrow> later tsc self w s' s'' \<Longrightarrow> later tsc self w s s''" for s s' s''
    using later_trans by blast
qed

lemma commit_steps_keep:
  "commit_steps tsc self w s s' \<Longrightarrow> ws_inv self w s \<Longrightarrow> mono tsc \<Longrightarrow> ws_inv self w s' \<and> later tsc self w s s'"
  using commit.steps_keep by blast

text \<open>What a reader sees of a copy depends on the phase of its write set only.\<close>

definition ws_view :: "u64 \<Rightarrow> u64 \<Rightarrow> u64 \<Rightarrow> bool option" where
  "ws_view p q lclk =
     (if p = MAX_VERSION \<or> lclk < p then Some False
      else if q = MAX_VERSION then None else Some (lt_clock p lclk))"

lemma is_visible_phase:
  assumes "ws_inv self w s" "ws_phase s self w = Some (p, q)" "ws_copy s self w i c"
  shows "is_visible s self c lclk = ws_view p q lclk"
proof -
  obtain ws where ws: "get_ws s self w = Some ws" "p = pending_wrt_clk ws" "q = ws_wrt_clk ws"
    using assms(2) by (auto simp: ws_phase_def)
  have c: "c_wrt_clk c = MAX_VERSION \<or> c_wrt_clk c = q" "q = MAX_VERSION \<or> q = p" "p_ws c = Some w"
    using assms by (auto simp: ws_inv_def ws_copy_def)
  have "\<not> lt_clock p lclk" if "lclk < p" using that by (simp add: clock_simps word_less_nat_alt)
  with c ws show ?thesis by (auto simp: is_visible_def get_wrt_clk_def ws_view_def)
qed

lemma ws_view_later:
  assumes "later tsc self w s s'" "ws_phase s self w = Some (p, q)" "ws_phase s' self w = Some (p', q')"
    "ws_view p q lclk = Some b" "b \<or> lclk \<le> tsc (now s)"
  shows "ws_view p' q' lclk = Some b \<or> (\<not> b \<and> ws_view p' q' lclk = None)"
proof -
  have "\<not> lt_clock p' lclk" if "lclk \<le> tsc (now s)" "tsc (now s) \<le> p'"
    using that by (simp add: clock_simps word_le_nat_alt)
  with assms show ?thesis
    by (auto simp: later_def ws_view_def split: if_splits)
qed

section \<open>Properties\<close>

text \<open>A write set whose transaction has not started to commit.\<close>

definition ws_open :: "nat \<Rightarrow> u32 \<Rightarrow> sys \<Rightarrow> bool" where
  "ws_open self w s \<longleftrightarrow>
     ws_phase s self w = Some (MAX_VERSION, MAX_VERSION) \<and>
     (\<forall>i c. ws_copy s self w i c \<longrightarrow> c_wrt_clk c = MAX_VERSION)"

lemma ws_open_inv: "ws_open self w s \<Longrightarrow> ws_inv self w s"
  by (simp add: ws_open_def ws_inv_def)

text \<open>
  C1. A transaction becomes visible atomically and a snapshot is stable. Take any state in the
  course of committing a write set, with any interference of other threads, and any reader that
  has read its clock: once it has decided for one copy of the write set whether it sees it, it
  makes the same decision for every copy of the write set then and at every later point. (A
  reader that does not see the write set may at most be told to wait; one that does see it is
  never made to wait.)
\<close>

theorem commit_atomic_visibility:
  assumes "mono tsc" "ws_open self w s" "commit_steps tsc self w s s1" "commit_steps tsc self w s1 s2"
    and "ws_copy s1 self w i c1" "ws_copy s2 self w j c2"
    and "is_visible s1 self c1 lclk = Some b" "b \<or> lclk \<le> tsc (now s1)"
  shows "is_visible s2 self c2 lclk = Some b \<or> (\<not> b \<and> is_visible s2 self c2 lclk = None)"
proof -
  have i1: "ws_inv self w s1" using commit_steps_keep [OF assms(3) ws_open_inv [OF assms(2)] assms(1)] by blast
  have i2: "ws_inv self w s2" "later tsc self w s1 s2" using commit_steps_keep [OF assms(4) i1 assms(1)] by blast+
  obtain p q p' q' where ph: "ws_phase s1 self w = Some (p, q)" "ws_phase s2 self w = Some (p', q')"
    using i1 i2 by (auto simp: ws_inv_def split: option.splits)
  show ?thesis
    using ws_view_later [OF i2(2) ph _ assms(8)] assms(7)
      is_visible_phase [OF i1 ph(1) assms(5)] is_visible_phase [OF i2(1) ph(2) assms(6)] by simp
qed

text \<open>A write set with one copy, in the log of thread 3, and the states of its commit.\<close>

definition demo_copy :: "u64 \<Rightarrow> chs" where
  "demo_copy clk = zero_chs\<lparr>p_ws := Some 0, c_wrt_clk := clk, c_type := TYPE_COPY, c_vhdr := Some 5, c_obj_size := 8\<rparr>"

definition demo_wss :: "u64 \<Rightarrow> u64 \<Rightarrow> chs" where
  "demo_wss p q = zero_chs\<lparr>p_ws := Some 0, c_wrt_clk := MAX_VERSION, c_type := TYPE_WRT_SET,
     c_body := Ws ((new_wrt_set 3 0)\<lparr>pending_wrt_clk := p, ws_wrt_clk := q\<rparr>)\<rparr>"

definition demo_ws :: "u64 \<Rightarrow> u64 \<Rightarrow> u64 \<Rightarrow> nat \<Rightarrow> sys" where
  "demo_ws p q clk n =
     demo_sys\<lparr>now := n, thrs := [3 \<mapsto> demo_thread\<lparr>tvlog := demo_tvlog\<lparr>cur_wrt_set := Some 0,
       tv_mem := [0 \<mapsto> demo_wss p q, 128 \<mapsto> demo_copy clk]\<rparr>\<rparr>]\<rparr>"

lemma demo_ws_reads:
  "cur_ws (demo_ws p q clk n) 3 = Some 0"
  "get_ws (demo_ws p q clk n) 3 0 = Some ((new_wrt_set 3 0)\<lparr>pending_wrt_clk := p, ws_wrt_clk := q\<rparr>)"
  "get_chs (demo_ws p q clk n) 3 i = (if i = 128 then Some (demo_copy clk) else if i = 0 then Some (demo_wss p q) else None)"
  "now (demo_ws p q clk n) = n"
  by (simp_all add: demo_ws_def demo_wss_def cur_ws_def get_ws_def get_chs_def)

lemma demo_ws_upd:
  "upd_ws 3 0 (\<lambda>ws. ws\<lparr>pending_wrt_clk := p\<rparr>) ((demo_ws p0 q clk n)\<lparr>now := m\<rparr>) = demo_ws p q clk m"
  "upd_ws 3 0 (\<lambda>ws. ws\<lparr>ws_wrt_clk := q\<rparr>) (demo_ws p q0 clk n) = demo_ws p q clk n"
  by (simp_all add: demo_ws_def upd_ws_def upd_chs_def upd_tvlog_def upd_thr_def demo_wss_def new_wrt_set_def fun_upd_twist)

definition demo_tsc :: "nat \<Rightarrow> u64" where "demo_tsc i = (if i = 0 then 20 else 1000)"

lemma demo_tsc_mono: "mono demo_tsc"
  by (rule monoI) (auto simp: demo_tsc_def)

lemma demo_ws_open: "ws_open 3 0 (demo_ws MAX_VERSION MAX_VERSION MAX_VERSION 0)"
  by (auto simp: ws_open_def ws_phase_def demo_ws_reads ws_copy_def demo_copy_def demo_wss_def split: if_splits)

lemma demo_commit:
  "commit_steps demo_tsc 3 0 (demo_ws MAX_VERSION MAX_VERSION MAX_VERSION 0) (demo_ws 20 20 MAX_VERSION 1)"
proof -
  let ?s = "demo_ws MAX_VERSION MAX_VERSION MAX_VERSION 0" let ?s1 = "demo_ws 20 MAX_VERSION MAX_VERSION 1"
  obtain th where th: "thrs ?s 3 = Some th" "cur_wrt_set (tvlog th) = Some 0" by (simp add: demo_ws_def)
  have "new_clock demo_tsc 0 7 = Some (20, Suc 0)"
    by (simp add: new_clock_def ordo_new_clock_here demo_tsc_def ordo_gt_clock_def ordo_boundary_def)
  then have "commit_pending demo_tsc 3 7 ?s = Some (20, ?s1)"
    using th by (simp add: commit_pending_def demo_ws_reads demo_ws_upd)
  then have 1: "commit_step demo_tsc 3 0 ?s ?s1"
    by (intro pending [of _ _ _ "(new_wrt_set 3 0)\<lparr>pending_wrt_clk := MAX_VERSION, ws_wrt_clk := MAX_VERSION\<rparr>"])
      (simp_all add: demo_ws_reads)
  obtain th where "thrs ?s1 3 = Some th" "cur_wrt_set (tvlog th) = Some 0" by (simp add: demo_ws_def)
  then have "commit_publish 3 20 ?s1 = Some (demo_ws 20 20 MAX_VERSION 1)"
    by (simp add: commit_publish_def demo_ws_upd)
  then have "commit_step demo_tsc 3 0 ?s1 (demo_ws 20 20 MAX_VERSION 1)"
    by (intro publish [of _ _ _ "(new_wrt_set 3 0)\<lparr>pending_wrt_clk := 20, ws_wrt_clk := MAX_VERSION\<rparr>"])
      (simp_all add: demo_ws_reads MAX_VERSION_def)
  with 1 show ?thesis by auto
qed

theorem commit_atomic_visibility_witness:
  "is_visible (demo_ws 20 20 MAX_VERSION 1) 3 (demo_copy MAX_VERSION) 19 \<noteq> Some True"
  using commit_atomic_visibility
    [OF demo_tsc_mono demo_ws_open rtranclp.rtrancl_refl demo_commit, of 128 "demo_copy MAX_VERSION" 128 "demo_copy MAX_VERSION" 19 False]
  by (simp add: ws_copy_def demo_ws_reads is_visible_def get_wrt_clk_def demo_tsc_def) (simp add: demo_copy_def demo_ws_reads)

section \<open>The version a reader finds\<close>

text \<open>
  The copies of an object that a reader can reach from \<open>p\<close>, newest first: the walk ends with the
  chain, or behind a copy whose next older version was checkpointed before \<open>last_clk\<close> (that
  version may be reclaimed and must not be touched).
\<close>

fun version_chain :: "sys \<Rightarrow> u64 \<Rightarrow> ptr \<Rightarrow> (nat \<times> u32 \<times> chs) list \<Rightarrow> bool" where
  "version_chain s last_clk p [] \<longleftrightarrow> p = Null"
| "version_chain s last_clk p ((t, i, c) # cs) \<longleftrightarrow>
     p = Cpy t i \<and> get_chs s t i = Some c \<and>
     (if lt_clock (wrt_clk_next c) last_clk then cs = [] else version_chain s last_clk (c_p_copy c) cs)"

lemma deref_chain_finds:
  assumes "version_chain s last_clk p cs" "\<forall>(t, i, c)\<in>set cs. is_visible s t c lclk \<noteq> None"
  shows "deref_chain s lclk last_clk p =
           Some (case dropWhile (\<lambda>(t, i, c). is_visible s t c lclk = Some False) cs of
                   [] \<Rightarrow> Null | (t, i, c) # _ \<Rightarrow> Cpy t i)"
  using assms
proof (induction cs arbitrary: p)
  case Nil
  then show ?case by (subst deref_chain.simps) simp
next
  case (Cons x cs)
  obtain t i c where x: "x = (t, i, c)" by (cases x)
  with Cons.prems obtain w where w: "get_wrt_clk s t c lclk = Some w" by (auto simp: is_visible_def)
  show ?case
  proof (cases "\<not> lt_clock w lclk \<and> \<not> lt_clock (wrt_clk_next c) last_clk")
    case True
    with Cons x w show ?thesis by (subst deref_chain.simps) (simp add: is_visible_def)
  next
    case False
    with Cons.prems x w show ?thesis by (subst deref_chain.simps) (auto simp: is_visible_def)
  qed
qed

text \<open>
  C2. Dereferencing an object that has versions returns, after finitely many steps, the newest
  version of the reader's snapshot: the first copy on the version chain that is visible to it,
  all newer ones being invisible, and if no copy it may still touch is visible, the current
  master. The state changes only by the record of the read.
\<close>

theorem ts_deref_newest:
  assumes "get_act_vhdr s obj = Some (Some v)" "is_obj_actual obj" "obj \<noteq> Null" "vhdrs s v = Some h" "thrs s self = Some th"
    and "version_chain s (last_ckpt (clks th)) (p_copy h) cs"
    and "\<forall>(t, i, c)\<in>set cs. is_visible s t c (local_clk th) \<noteq> None"
  shows "\<exists>q. ts_deref ser ra self obj s = map_option (Pair q) (add_read ser ra self (Some v) (p_copy h) q s) \<and>
           ((\<exists>xs t i c ys. cs = xs @ (t, i, c) # ys \<and> q = Cpy t i \<and> is_visible s t c (local_clk th) = Some True \<and>
               (\<forall>(t, i, c)\<in>set xs. is_visible s t c (local_clk th) = Some False)) \<or>
            (q = np_cur_act h \<and> (\<forall>(t, i, c)\<in>set cs. is_visible s t c (local_clk th) = Some False)))"
proof -
  let ?P = "\<lambda>(t, i, c). is_visible s t c (local_clk th) = Some False"
  note d = deref_chain_finds [OF assms(6,7)]
  have r: "ts_deref ser ra self obj s = map_option (Pair q) (add_read ser ra self (Some v) (p_copy h) q s)"
    if "deref_chain s (local_clk th) (last_ckpt (clks th)) (p_copy h) = Some p" "q = (if p \<noteq> Null then p else np_cur_act h)" for p q
    using that assms by (cases "add_read ser ra self (Some v) (p_copy h) q s") (auto simp: ts_deref_def)
  show ?thesis
  proof (cases "dropWhile ?P cs")
    case Nil
    then have all: "\<forall>x\<in>set cs. ?P x" by (simp only: dropWhile_eq_Nil_conv)
    have "ts_deref ser ra self obj s = map_option (Pair (np_cur_act h)) (add_read ser ra self (Some v) (p_copy h) (np_cur_act h) s)"
      by (rule r [of Null]) (simp_all add: d Nil)
    with all show ?thesis by blast
  next
    case (Cons x ys)
    then have cs: "cs = takeWhile ?P cs @ x # ys" using takeWhile_dropWhile_id [of ?P cs] by simp
    obtain t i c where x: "x = (t, i, c)" by (cases x)
    have "\<not> ?P x" using hd_dropWhile [of ?P cs] Cons by simp
    moreover have "x \<in> set cs" using set_dropWhileD [of x ?P cs] Cons by simp
    ultimately have "is_visible s t c (local_clk th) = Some True"
      using assms(7) x by auto
    moreover have "\<forall>x\<in>set (takeWhile ?P cs). ?P x" by (auto dest: set_takeWhileD)
    ultimately have "(\<exists>xs t' i' c' ys. cs = xs @ (t', i', c') # ys \<and> Cpy t i = Cpy t' i' \<and>
      is_visible s t' c' (local_clk th) = Some True \<and> (\<forall>x\<in>set xs. ?P x))"
      using cs unfolding x by blast
    moreover have "ts_deref ser ra self obj s = map_option (Pair (Cpy t i)) (add_read ser ra self (Some v) (p_copy h) (Cpy t i) s)"
      by (rule r [of "Cpy t i"]) (simp_all add: d Cons x)
    ultimately show ?thesis by blast
  qed
qed

text \<open>A chain of two versions, the newer one committed at 50 and the older one at 30.\<close>

definition demo_new :: chs where "demo_new = (demo_copy 50)\<lparr>c_p_copy := Cpy 3 256, wrt_clk_next := 30\<rparr>"

definition demo_vh :: act_vhdr where
  "demo_vh = \<lparr>p_copy = Cpy 3 128, p_lock = Null, np_org_act = Act 9, np_cur_act = Act 9, tombstone_clk = MAX_VERSION\<rparr>"

definition demo_reader :: thread where
  "demo_reader = demo_thread\<lparr>local_clk := 40, tvlog := demo_tvlog\<lparr>tv_mem := [128 \<mapsto> demo_new, 256 \<mapsto> demo_copy 30]\<rparr>\<rparr>"

definition demo_versions :: sys where
  "demo_versions =
     demo_sys\<lparr>acts := [9 \<mapsto> \<lparr>a_vhdr = Some 5, a_gen_id = 1, a_index = 0, a_obj_size = 8, a_type = TYPE_ACTUAL, a_data = []\<rparr>],
       vhdrs := [5 \<mapsto> demo_vh], thrs := [3 \<mapsto> demo_reader]\<rparr>"

lemma demo_versions_reads:
  "thrs demo_versions 3 = Some demo_reader" "vhdrs demo_versions 5 = Some demo_vh"
  "get_act_vhdr demo_versions (Act 9) = Some (Some 5)"
  "get_chs demo_versions 3 128 = Some demo_new" "get_chs demo_versions 3 256 = Some (demo_copy 30)"
  by (simp_all add: demo_versions_def get_act_vhdr_def obj_to_obj_type_def get_chs_def demo_reader_def)

lemma demo_reader_reads: "local_clk demo_reader = 40" "last_ckpt (clks demo_reader) = MIN_VERSION"
  by (simp_all add: demo_reader_def demo_thread_def zero_clks_def)

lemma demo_versions_visible:
  "is_visible demo_versions 3 demo_new 40 = Some False" "is_visible demo_versions 3 (demo_copy 30) 40 = Some True"
  by (simp_all add: is_visible_def get_wrt_clk_def demo_new_def demo_copy_def clock_simps MAX_VERSION_def)

lemma demo_versions_chain: "version_chain demo_versions MIN_VERSION (Cpy 3 128) [(3, 128, demo_new), (3, 256, demo_copy 30)]"
  by (simp add: demo_versions_reads clock_simps) (simp add: demo_new_def demo_copy_def zero_chs_def)

theorem ts_deref_newest_witness:
  "map_option fst (ts_deref False None 3 (Act 9) demo_versions) = Some (Cpy 3 256)"
proof -
  let ?cs = "[(3, 128, demo_new), (3, 256, demo_copy 30)]"
  have "\<exists>s'. add_read False None 3 (Some 5) (Cpy 3 128) q demo_versions = Some s'" for q
    by (simp add: add_read_def read_set_add_def demo_versions_reads)
  moreover have "q = Cpy 3 256" if "?cs = xs @ (t, i, c) # ys" "q = Cpy t i" "is_visible demo_versions t c 40 = Some True" for q xs t i c ys
    using that demo_versions_visible by (auto simp: Cons_eq_append_conv)
  ultimately show ?thesis
    using ts_deref_newest [OF demo_versions_reads(3) _ _ demo_versions_reads(2,1), of ?cs False None]
      demo_versions_chain demo_versions_visible
    by (simp only: demo_reader_reads) (fastforce simp: demo_vh_def is_obj_actual_def)
qed

end
