(* ===== verification/Borderline.thy ===== *)
theory Borderline
  imports Visibility
begin

text \<open>
  Which version of an object a checkpoint takes. During reclamation every thread looks at its own
  copies only and decides by \<open>is_at_borderline\<close>, from the clocks of the neighbours that are kept in
  the copy, whether the copy is to be checkpointed; \<open>get_ckpt_chs\<close> is the reference: it walks the
  whole version chain. The assertion \<open>_dbg_assert_is_at_borderline\<close> of \<open>src/lib/tvlog.c\<close> compares the
  two at run time in debugging builds; here the comparison is a theorem.
\<close>

section \<open>The clocks of a version chain\<close>

text \<open>
  Committed versions, newest first, below a version written at \<open>prev\<close> (\<open>MAX_VERSION\<close> when there is
  none): every copy knows the clocks of its neighbours, and clocks decrease by more than the
  uncertainty of the clock.
\<close>

fun chain_clocks :: "u64 \<Rightarrow> (nat \<times> u32 \<times> chs) list \<Rightarrow> bool" where
  "chain_clocks prev [] \<longleftrightarrow> True"
| "chain_clocks prev ((t, i, c) # cs) \<longleftrightarrow>
     c_wrt_clk c \<noteq> MAX_VERSION \<and> wrt_clk_prev c = prev \<and> (prev = MAX_VERSION \<or> lt_clock (c_wrt_clk c) prev) \<and>
     (case cs of [] \<Rightarrow> True | (_, _, d) # _ \<Rightarrow> wrt_clk_next c = c_wrt_clk d) \<and>
     chain_clocks (c_wrt_clk c) cs"

lemma chain_clocks_below:
  "chain_clocks prev cs \<Longrightarrow> prev \<noteq> MAX_VERSION \<Longrightarrow> (t, i, c) \<in> set cs \<Longrightarrow> lt_clock (c_wrt_clk c) prev"
proof (induction cs arbitrary: prev)
  case Nil
  then show ?case by simp
next
  case (Cons x cs)
  then show ?case by (cases x) (auto intro: ordo.trans)
qed

lemma ckpt_search_finds:
  assumes "version_chain s last_clk p cs" "chain_clocks prev cs"
  shows "ckpt_chs_search s sclk last_clk p =
           Some (case dropWhile (\<lambda>(t, i, c). \<not> lt_clock (c_wrt_clk c) sclk) cs of
                   [] \<Rightarrow> Null | (t, i, c) # _ \<Rightarrow> Cpy t i)"
  using assms
proof (induction cs arbitrary: p prev)
  case Nil
  then show ?case by (subst ckpt_chs_search.simps) simp
next
  case (Cons x cs)
  obtain t i c where x: "x = (t, i, c)" by (cases x)
  show ?case
  proof (cases "\<not> lt_clock (c_wrt_clk c) sclk \<and> \<not> lt_clock (wrt_clk_next c) last_clk")
    case True
    with Cons x show ?thesis by (subst ckpt_chs_search.simps) (auto simp: get_raw_wrt_clk_def)
  next
    case False
    with Cons.prems x show ?thesis by (subst ckpt_chs_search.simps) (auto simp: get_raw_wrt_clk_def)
  qed
qed

text \<open>Versions of a transaction that is still being committed are skipped.\<close>

lemma ckpt_search_skips:
  assumes "version_chain s last_clk p (us @ cs)" "cs \<noteq> []" "\<forall>(t, i, c)\<in>set us. c_wrt_clk c = MAX_VERSION"
  shows "\<exists>q. version_chain s last_clk q cs \<and> ckpt_chs_search s sclk last_clk p = ckpt_chs_search s sclk last_clk q"
  using assms
proof (induction us arbitrary: p)
  case Nil
  then show ?case by auto
next
  case (Cons x us)
  obtain t i c where x: "x = (t, i, c)" by (cases x)
  with Cons.prems have "\<not> lt_clock (wrt_clk_next c) last_clk" by (auto split: if_splits)
  with Cons x have "\<exists>q. version_chain s last_clk q cs \<and>
      ckpt_chs_search s sclk last_clk (c_p_copy c) = ckpt_chs_search s sclk last_clk q" by simp
  then show ?case
    using Cons.prems x by (subst ckpt_chs_search.simps) (auto simp: get_raw_wrt_clk_def)
qed

lemma version_chain_next:
  assumes "version_chain s last_clk p (xs @ (t, i, c) # (u, j, d) # ys)"
  shows "\<not> lt_clock (wrt_clk_next c) last_clk"
  using assms by (induction xs arbitrary: p) (auto split: if_splits)

lemma chain_clocks_append:
  assumes "chain_clocks prev (xs @ (t, i, c) # ys)"
  shows "wrt_clk_prev c = (if xs = [] then prev else c_wrt_clk (snd (snd (last xs))))"
    and "\<forall>(u, j, d)\<in>set xs. lt_clock (c_wrt_clk c) (c_wrt_clk d)"
    and "xs \<noteq> [] \<Longrightarrow> wrt_clk_next (snd (snd (last xs))) = c_wrt_clk c"
  using assms
proof (induction xs arbitrary: prev)
  case Nil
  {
    case 1 then show ?case by simp
  next
    case 2 then show ?case by simp
  next
    case 3 then show ?case by simp
  }
next
  case (Cons x xs)
  obtain u j d where x: "x = (u, j, d)" by (cases x)
  {
    case 1
    with Cons.IH(1) [of "c_wrt_clk d"] x show ?case by (cases xs) auto
  next
    case 2
    with Cons.IH(2) [of "c_wrt_clk d"] x chain_clocks_below [of "c_wrt_clk d" "xs @ (t, i, c) # ys" t i c]
    show ?case by auto
  next
    case 3
    with Cons.IH(3) [of "c_wrt_clk d"] x show ?case by (cases xs) auto
  }
qed

lemma chain_clocks_committed: "chain_clocks prev cs \<Longrightarrow> (t, i, c) \<in> set cs \<Longrightarrow> c_wrt_clk c \<noteq> MAX_VERSION"
  by (induction cs arbitrary: prev) auto

lemma borderline_first:
  assumes "version_chain s last_clk p (xs @ (t, i, c) # ys)" "chain_clocks MAX_VERSION (xs @ (t, i, c) # ys)"
  shows "is_at_borderline c sclk last_clk \<longleftrightarrow>
           lt_clock (c_wrt_clk c) sclk \<and> (\<forall>(u, j, d)\<in>set xs. \<not> lt_clock (c_wrt_clk d) sclk)"
proof (cases xs rule: rev_cases)
  case Nil
  with chain_clocks_append(1) [OF assms(2)] show ?thesis
    by (auto simp: is_at_borderline_def get_raw_wrt_clk_def)
next
  case (snoc zs z)
  obtain u j d where z: "z = (u, j, d)" by (cases z)
  have d: "wrt_clk_prev c = c_wrt_clk d" "wrt_clk_next d = c_wrt_clk c"
    using chain_clocks_append(1,3) [OF assms(2)] snoc z by simp_all
  have "chain_clocks MAX_VERSION (zs @ (u, j, d) # (t, i, c) # ys)" using assms(2) snoc z by simp
  from chain_clocks_append(2) [OF this] have newer: "\<forall>(u', j', d')\<in>set zs. lt_clock (c_wrt_clk d) (c_wrt_clk d')" .
  have "c_wrt_clk d \<noteq> MAX_VERSION" using chain_clocks_committed [OF assms(2)] snoc z by auto
  moreover have "\<not> lt_clock (c_wrt_clk c) last_clk"
    using version_chain_next [of s last_clk p zs u j d t i c ys] assms(1) snoc z d by simp
  moreover have "\<not> lt_clock (c_wrt_clk d) sclk \<longleftrightarrow> (\<forall>(u, j, d)\<in>set xs. \<not> lt_clock (c_wrt_clk d) sclk)"
    using newer snoc z ordo.trans by fastforce
  ultimately show ?thesis
    using d by (simp add: is_at_borderline_def get_raw_wrt_clk_def gte_clock_def lt_clock_def conj_commute)
qed

lemma dropWhile_first:
  "\<not> P x \<Longrightarrow> (\<forall>y\<in>set xs. P y) \<Longrightarrow> dropWhile P (xs @ x # ys) = x # ys"
  by (induction xs) auto

text \<open>
  C13. The local decision of a thread agrees with the walk along the version chain. On a chain
  whose clocks are in order, with the versions of a transaction that is just committing in front,
  \<open>get_ckpt_chs\<close> returns, and a committed copy is the one it returns exactly when
  \<open>is_at_borderline\<close> holds for the copy. So of every object at most one version is checkpointed,
  the newest one before the checkpoint clock, although no thread looks at another's copies.
\<close>

theorem borderline_is_ckpt_copy:
  assumes "c_vhdr c = Some v" "vhdrs s v = Some h"
    and "version_chain s last_clk (p_copy h) (us @ cs)" "\<forall>(t, i, c)\<in>set us. c_wrt_clk c = MAX_VERSION"
    and "chain_clocks MAX_VERSION cs" "(t, i, c) \<in> set cs"
  shows "\<exists>q. get_ckpt_chs s c sclk last_clk = Some q \<and> (q = Cpy t i \<longleftrightarrow> is_at_borderline c sclk last_clk)"
proof -
  let ?P = "\<lambda>(t, i, c). \<not> lt_clock (c_wrt_clk c) sclk"
  obtain p where p: "version_chain s last_clk p cs"
      "get_ckpt_chs s c sclk last_clk = ckpt_chs_search s sclk last_clk p"
    using ckpt_search_skips [OF assms(3) _ assms(4)] assms(1,2,6) by (force simp: get_ckpt_chs_def)
  obtain xs ys where cs: "cs = xs @ (t, i, c) # ys" using split_list [OF assms(6)] by blast
  note b = borderline_first [OF p(1) [unfolded cs] assms(5) [unfolded cs], of sclk]
  note f = ckpt_search_finds [OF p(1) assms(5), of sclk]
  show ?thesis
  proof (cases "is_at_borderline c sclk last_clk")
    case True
    with b f cs p(2) dropWhile_first [of ?P "(t, i, c)" xs ys] show ?thesis by auto
  next
    case False
    have "ckpt_chs_search s sclk last_clk p \<noteq> Some (Cpy t i)"
    proof
      assume "ckpt_chs_search s sclk last_clk p = Some (Cpy t i)"
      with f obtain d zs where z: "dropWhile ?P cs = (t, i, d) # zs" by (auto split: list.splits)
      have "cs = takeWhile ?P cs @ (t, i, d) # zs" using takeWhile_dropWhile_id [of ?P cs] z by simp
      then have k: "version_chain s last_clk p (takeWhile ?P cs @ (t, i, d) # zs)"
        "chain_clocks MAX_VERSION (takeWhile ?P cs @ (t, i, d) # zs)" using p(1) assms(5) by simp_all
      have "\<not> ?P (t, i, d)" using hd_dropWhile [of ?P cs] z by simp
      then have "is_at_borderline d sclk last_clk"
        using borderline_first [OF k, of sclk] by (auto dest: set_takeWhileD)
      moreover have "get_chs s t i = Some e" if "version_chain s last_clk q es" "(t, i, e) \<in> set es" for q es e
        using that by (induction es arbitrary: q) (auto split: if_splits)
      then have "d = c" using p(1) k(1) assms(6) by (metis in_set_conv_decomp option.inject)
      ultimately show False using False by simp
    qed
    with False f p(2) show ?thesis by auto
  qed
qed

text \<open>The version of the example that was committed at 30 is the one to checkpoint at 40.\<close>

definition demo_old :: chs where "demo_old = (demo_copy 30)\<lparr>wrt_clk_prev := 50\<rparr>"

definition demo_two :: sys where
  "demo_two = demo_sys\<lparr>vhdrs := [5 \<mapsto> demo_vh], thrs := [3 \<mapsto> demo_thread\<lparr>tvlog := demo_tvlog\<lparr>tv_mem :=
     [128 \<mapsto> demo_new\<lparr>wrt_clk_prev := MAX_VERSION\<rparr>, 256 \<mapsto> demo_old]\<rparr>\<rparr>]\<rparr>"

lemma demo_two_chain:
  "version_chain demo_two 10 (Cpy 3 128) [(3, 128, demo_new\<lparr>wrt_clk_prev := MAX_VERSION\<rparr>), (3, 256, demo_old)]"
  "chain_clocks MAX_VERSION [(3, 128, demo_new\<lparr>wrt_clk_prev := MAX_VERSION\<rparr>), (3, 256, demo_old)]"
  by (simp_all add: demo_two_def get_chs_def demo_new_def demo_old_def demo_copy_def clock_simps)
    (simp_all add: zero_chs_def MAX_VERSION_def)

theorem borderline_is_ckpt_copy_witness: "get_ckpt_chs demo_two demo_old 40 10 = Some (Cpy 3 256)"
proof -
  have "vhdrs demo_two 5 = Some demo_vh" by (simp add: demo_two_def)
  moreover have "c_vhdr demo_old = Some 5" "p_copy demo_vh = Cpy 3 128" "is_at_borderline demo_old 40 10"
    by (simp_all add: demo_old_def demo_copy_def demo_vh_def is_at_borderline_def get_raw_wrt_clk_def clock_simps MAX_VERSION_def)
  ultimately show ?thesis
    using borderline_is_ckpt_copy [of demo_old 5 demo_two demo_vh 10 "[]" _ 3 256 40] demo_two_chain
    by (metis append_Nil empty_iff list.set(1) list.set_intros(1,2))
qed

end
