(* ===== verification/Qp.thy ===== *)
theory Qp
  imports Timestone
begin

text \<open>
  The quiescence thread (\<open>src/lib/qp.c\<close>): it detects grace periods, advances the system clocks,
  distributes reclamation requests to the threads, helps them, waits until all have finished and
  frees what can no longer be reached. \<open>env k\<close> is what the application threads do while it yields
  or naps for the \<open>k\<close>-th time.
\<close>

section \<open>Iteration over a thread list\<close>

definition node_thread :: "node \<Rightarrow> nat option" where
  "node_thread n = (case n of Thread_node t \<Rightarrow> Some t | _ \<Rightarrow> None)"

fun map_opt :: "('a \<Rightarrow> 'b option) \<Rightarrow> 'a list \<Rightarrow> 'b list option" where
  "map_opt f [] = Some []"
| "map_opt f (x # xs) = do { y \<leftarrow> f x; ys \<leftarrow> map_opt f xs; Some (y # ys) }"

text \<open>The threads that \<open>thread_list_for_each_safe\<close> visits.\<close>

definition list_threads :: "node thread_list \<Rightarrow> node lstore \<Rightarrow> nat list option" where
  "list_threads tls ls = do {
     n \<leftarrow> nxt ls (tl_list tls);
     ns \<leftarrow> ts_list_walk (Suc (unat (tl_num tls))) ls (tl_list tls) n;
     map_opt node_thread ns }"

fun for_threads :: "(nat \<Rightarrow> sys \<Rightarrow> sys option) \<Rightarrow> nat list \<Rightarrow> sys \<Rightarrow> sys option" where
  "for_threads f [] s = Some s"
| "for_threads f (t # ts) s = do { s \<leftarrow> f t s; for_threads f ts s }"

definition lock_live :: "sys \<Rightarrow> sys option" where
  "lock_live s = do { tls \<leftarrow> thread_list_lock (live_threads s); Some (s\<lparr>live_threads := tls\<rparr>) }"

definition unlock_live :: "sys \<Rightarrow> sys" where
  "unlock_live s = s\<lparr>live_threads := thread_list_unlock (live_threads s)\<rparr>"

definition lock_zombie :: "sys \<Rightarrow> sys option" where
  "lock_zombie s = do { tls \<leftarrow> thread_list_lock (zombie_threads s); Some (s\<lparr>zombie_threads := tls\<rparr>) }"

definition unlock_zombie :: "sys \<Rightarrow> sys" where
  "unlock_zombie s = s\<lparr>zombie_threads := thread_list_unlock (zombie_threads s)\<rparr>"

section \<open>Detecting a grace period\<close>

definition advance_qp_clock :: "sys_clks \<Rightarrow> u64 \<Rightarrow> sys_clks" where
  "advance_qp_clock cs qp0_clk =
     (let cs = cs\<lparr>qp2 := qp1 cs\<rparr>; cs = cs\<lparr>qp1 := qp0 cs\<rparr> in cs\<lparr>qp0 := qp0_clk\<rparr>)"

definition qp_init_thread :: "nat \<Rightarrow> sys \<Rightarrow> sys option" where
  "qp_init_thread t s = do {
     _ \<leftarrow> thrs s t;
     Some (upd_thr t (\<lambda>th. th\<lparr>qp_info := \<lparr>need_wait = run_cnt th AND 1, qi_run_cnt = run_cnt th\<rparr>\<rparr>) s) }"

definition qp_init :: "sys \<Rightarrow> sys option" where
  "qp_init s = do {
     s \<leftarrow> lock_live s;
     ts \<leftarrow> list_threads (live_threads s) (links s);
     s \<leftarrow> for_threads qp_init_thread ts s;
     Some (unlock_live s) }"

definition passed_quiescence :: "u64 \<Rightarrow> thread \<Rightarrow> bool" where
  "passed_quiescence qp_clk th \<longleftrightarrow> qi_run_cnt (qp_info th) \<noteq> run_cnt th \<or> gte_clock (local_clk th) qp_clk"

text \<open>Spinning on one thread; the flag says that the list is to be released and scanned again.\<close>

partial_function (option) qp_wait_thread ::
  "(nat \<Rightarrow> sys \<Rightarrow> sys) \<Rightarrow> u64 \<Rightarrow> nat \<Rightarrow> nat \<Rightarrow> sys \<Rightarrow> (bool \<times> nat \<times> sys) option" where
  "qp_wait_thread env qp_clk t k s = do {
     th \<leftarrow> thrs s t;
     (if passed_quiescence qp_clk th
      then Some (False, k, upd_thr t (\<lambda>th. th\<lparr>qp_info := (qp_info th)\<lparr>need_wait := 0\<rparr>\<rparr>) s)
      else if thread_list_has_waiter (live_threads s) then Some (True, k, s)
      else qp_wait_thread env qp_clk t (Suc k) (env k s)) }"

fun qp_wait_list ::
  "(nat \<Rightarrow> sys \<Rightarrow> sys) \<Rightarrow> u64 \<Rightarrow> nat list \<Rightarrow> nat \<Rightarrow> sys \<Rightarrow> (bool \<times> nat \<times> sys) option" where
  "qp_wait_list env qp_clk [] k s = Some (False, k, s)"
| "qp_wait_list env qp_clk (t # ts) k s = do {
     th \<leftarrow> thrs s t;
     (if need_wait (qp_info th) = 0 then qp_wait_list env qp_clk ts k s
      else do {
        (retry, k, s) \<leftarrow> qp_wait_thread env qp_clk t k s;
        (if retry then Some (True, k, s) else qp_wait_list env qp_clk ts k s) }) }"

partial_function (option) qp_wait :: "(nat \<Rightarrow> sys \<Rightarrow> sys) \<Rightarrow> u64 \<Rightarrow> nat \<Rightarrow> sys \<Rightarrow> (nat \<times> sys) option" where
  "qp_wait env qp_clk k s = do {
     s \<leftarrow> lock_live s;
     ts \<leftarrow> list_threads (live_threads s) (links s);
     (retry, k, s) \<leftarrow> qp_wait_list env qp_clk ts k s;
     (if retry then qp_wait env qp_clk (Suc k) (env k (unlock_live s)) else Some (k, unlock_live s)) }"

definition qp_cleanup_ckptlogs :: "sys \<Rightarrow> sys option" where
  "qp_cleanup_ckptlogs s = do {
     let until = correct_qp_clock (min_ckpt_reclaimed (qp_clks (qp s)));
     s \<leftarrow> lock_live s;
     ts \<leftarrow> list_threads (live_threads s) (links s);
     s \<leftarrow> for_threads (\<lambda>t. ckptlog_cleanup t until) ts s;
     Some (unlock_live s) }"

definition stat_qp :: "(stat \<Rightarrow> stat) \<Rightarrow> sys \<Rightarrow> sys" where
  "stat_qp f s = s\<lparr>qp := (qp s)\<lparr>qp_stat := f (qp_stat (qp s))\<rparr>\<rparr>"

definition qp_detect ::
  "(nat \<Rightarrow> u64) \<Rightarrow> (nat \<Rightarrow> sys \<Rightarrow> sys) \<Rightarrow> bool \<Rightarrow> nat \<Rightarrow> sys \<Rightarrow> (nat \<times> sys) option" where
  "qp_detect tsc env need_free k s = do {
     let qp0_clk = tsc (now s);
     s \<leftarrow> qp_init (s\<lparr>now := Suc (now s)\<rparr>);
     let s = stat_qp (\<lambda>st. stat_inc st n_qp_detect) s;
     s \<leftarrow> (if need_free then qp_cleanup_ckptlogs s else Some s);
     let (k, s) = (if \<not> requested (qp_reclaim (qp s)) then (Suc k, stat_qp (\<lambda>st. stat_inc st n_qp_nap) (env k s)) else (k, s));
     (k, s) \<leftarrow> qp_wait env qp0_clk k s;
     Some (k, s\<lparr>qp := (qp s)\<lparr>qp_clks := advance_qp_clock (qp_clks (qp s)) (correct_qp_clock qp0_clk)\<rparr>\<rparr>) }"

section \<open>Reclamation\<close>

definition help_thread :: "ptr list option \<Rightarrow> nat \<Rightarrow> sys \<Rightarrow> sys option" where
  "help_thread ra t s = do {
     th \<leftarrow> thrs s t;
     (if requested (reclaim th) then do {
        s \<leftarrow> (if rq_tvlog (reclaim th) \<noteq> 0 then tvlog_reclaim t s else Some s);
        th \<leftarrow> thrs s t;
        (if rq_ckptlog (reclaim th) \<noteq> 0 then ckptlog_reclaim ra t s else Some s) }
      else Some s) }"

partial_function (option) qp_help_reclaim_log ::
  "(nat \<Rightarrow> sys \<Rightarrow> sys) \<Rightarrow> ptr list option \<Rightarrow> nat \<Rightarrow> sys \<Rightarrow> (nat \<times> sys) option" where
  "qp_help_reclaim_log env ra k s = do {
     s \<leftarrow> lock_live s;
     ts \<leftarrow> list_threads (live_threads s) (links s);
     (if ts \<noteq> [] \<and> thread_list_has_waiter (live_threads s) then qp_help_reclaim_log env ra (Suc k) (env k (unlock_live s))
      else do {
        s \<leftarrow> for_threads (help_thread ra) ts s;
        ls \<leftarrow> thread_list_rotate_left_unsafe (live_threads s) (links s);
        Some (k, unlock_live (s\<lparr>links := ls\<rparr>)) }) }"

definition reap_thread :: "ptr list option \<Rightarrow> nat \<Rightarrow> sys \<Rightarrow> sys option" where
  "reap_thread ra t s = do {
     let s = upd_thr t (\<lambda>th. th\<lparr>clks := qp_clks (qp s)\<rparr>) s;
     th \<leftarrow> thrs s t;
     s \<leftarrow> (if tvlog_used (tvlog th) \<noteq> 0
           then tvlog_reclaim t (upd_thr t (\<lambda>th. th\<lparr>reclaim := (reclaim th)\<lparr>rq_tvlog := RECLAIM_TVLOG_CKPT\<rparr>\<rparr>) s)
           else Some s);
     th \<leftarrow> thrs s t;
     s \<leftarrow> (if ckptlog_used (ckptlog th) \<noteq> 0
           then ckptlog_reclaim ra t (upd_thr t (\<lambda>th. th\<lparr>reclaim := (reclaim th)\<lparr>rq_ckptlog := RECLAIM_CKPTLOG_WRITEBACK_ALL\<rparr>\<rparr>) s)
           else Some s);
     th \<leftarrow> thrs s t;
     (if tvlog_used (tvlog th) = 0 \<and> ckptlog_used (ckptlog th) = 0 then do {
        s \<leftarrow> tvtlog_destroy t s;
        s \<leftarrow> ckptlog_destroy t s;
        s \<leftarrow> oplog_destroy t s;
        th \<leftarrow> thrs s t;
        (if live_status th = THREAD_DEAD_ZOMBIE then do {
           (tls, ls) \<leftarrow> thread_list_del_unsafe (zombie_threads s) (Thread_node t) (links s);
           ts_thread_free t (s\<lparr>zombie_threads := tls, links := ls\<rparr>) }
         else Some s) }
      else Some s) }"

partial_function (option) qp_reap_zombie_threads ::
  "(nat \<Rightarrow> sys \<Rightarrow> sys) \<Rightarrow> ptr list option \<Rightarrow> nat \<Rightarrow> sys \<Rightarrow> (nat \<times> sys) option" where
  "qp_reap_zombie_threads env ra k s = do {
     s \<leftarrow> lock_zombie s;
     ts \<leftarrow> list_threads (zombie_threads s) (links s);
     (if ts \<noteq> [] \<and> thread_list_has_waiter (zombie_threads s) then qp_reap_zombie_threads env ra (Suc k) (env k (unlock_zombie s))
      else do {
        s \<leftarrow> for_threads (reap_thread ra) ts s;
        Some (k, unlock_zombie s) }) }"

text \<open>One scan of the barrier: \<open>None\<close> inside when a thread has not finished, else the minimum.\<close>

fun barrier_scan :: "sys \<Rightarrow> nat list \<Rightarrow> u64 \<Rightarrow> u64 option option" where
  "barrier_scan s [] m = Some (Some m)"
| "barrier_scan s (t # ts) m = do {
     th \<leftarrow> thrs s t;
     (if requested (reclaim th) then Some None
      else barrier_scan s ts (if min_ckpt_reclaimed (clks th) < m then min_ckpt_reclaimed (clks th) else m)) }"

partial_function (option) qp_reclaim_barrier :: "(nat \<Rightarrow> sys \<Rightarrow> sys) \<Rightarrow> nat \<Rightarrow> sys \<Rightarrow> (nat \<times> sys) option" where
  "qp_reclaim_barrier env k s = do {
     let m = min_ckpt_reclaimed (qp_clks (qp s));
     s \<leftarrow> lock_live s;
     ts \<leftarrow> list_threads (live_threads s) (links s);
     r \<leftarrow> barrier_scan s ts m;
     (if r = None then qp_reclaim_barrier env (Suc k) (env k (unlock_live s))
      else Some (k, unlock_live (s\<lparr>qp := (qp s)\<lparr>qp_clks := (qp_clks (qp s))\<lparr>min_ckpt_reclaimed := the r\<rparr>\<rparr>\<rparr>))) }"

definition trigger_thread :: "reclaim \<Rightarrow> nat \<Rightarrow> sys \<Rightarrow> sys option" where
  "trigger_thread r t s = do {
     _ \<leftarrow> thrs s t;
     Some (upd_thr t (\<lambda>th. th\<lparr>clks := qp_clks (qp s), reclaim := r\<rparr>) s) }"

definition qp_trigger_reclaim :: "reclaim \<Rightarrow> sys \<Rightarrow> sys option" where
  "qp_trigger_reclaim r s = do {
     s \<leftarrow> lock_live s;
     ts \<leftarrow> list_threads (live_threads s) (links s);
     s \<leftarrow> for_threads (trigger_thread r) ts s;
     Some (unlock_live s) }"

definition should_stop :: "sys \<Rightarrow> bool option" where
  "should_stop s =
     (if \<not> stop_requested (qp s) then Some False
      else do {
        (z, _) \<leftarrow> thread_list_empty (zombie_threads s) (links s);
        (if \<not> z then Some False
         else do { (l, _) \<leftarrow> thread_list_empty (live_threads s) (links s); Some l }) })"

text \<open>One round of the main loop; the result carries \<open>need_free\<close> for the next one.\<close>

definition qp_main_round ::
  "(nat \<Rightarrow> u64) \<Rightarrow> (nat \<Rightarrow> sys \<Rightarrow> sys) \<Rightarrow> ptr list option \<Rightarrow> bool \<Rightarrow> nat \<Rightarrow> sys \<Rightarrow> (bool \<times> nat \<times> sys) option" where
  "qp_main_round tsc env ra need_free k s = do {
     (k, s) \<leftarrow> qp_detect tsc env need_free k s;
     let s = (if stop_requested (qp s)
              then snd (request_ckptlog_reclaim RECLAIM_CKPTLOG_WRITEBACK_ALL (snd (request_tvlog_reclaim RECLAIM_TVLOG_CKPT s)))
              else s);
     (if \<not> requested (qp_reclaim (qp s)) then Some (False, k, s)
      else do {
        let r = qp_reclaim (qp s);
        let s = s\<lparr>qp := (qp s)\<lparr>qp_reclaim := \<lparr>rq_tvlog = 0, rq_ckptlog = 0\<rparr>\<rparr>\<rparr>;
        s \<leftarrow> qp_trigger_reclaim r s;
        (k, s) \<leftarrow> qp_reap_zombie_threads env ra k s;
        (k, s) \<leftarrow> qp_help_reclaim_log env ra k s;
        (k, s) \<leftarrow> qp_reclaim_barrier env k s;
        let s = (if rq_tvlog r = RECLAIM_TVLOG_CKPT
                 then (let c = qp0 (qp_clks (qp s))
                       in s\<lparr>root := nvlog_set_last_ckpt_clk (root s) c,
                            qp := (qp s)\<lparr>qp_clks := (qp_clks (qp s))\<lparr>last_ckpt := c\<rparr>\<rparr>\<rparr>)
                 else s);
        Some (rq_ckptlog r \<noteq> 0, k, s) }) }"

partial_function (option) qp_thread_main ::
  "(nat \<Rightarrow> u64) \<Rightarrow> (nat \<Rightarrow> sys \<Rightarrow> sys) \<Rightarrow> ptr list option \<Rightarrow> bool \<Rightarrow> nat \<Rightarrow> sys \<Rightarrow> (nat \<times> sys) option" where
  "qp_thread_main tsc env ra need_free k s = do {
     stop \<leftarrow> should_stop s;
     (if stop then Some (k, s)
      else do {
        (need_free, k, s) \<leftarrow> qp_main_round tsc env ra need_free k s;
        qp_thread_main tsc env ra need_free k s }) }"

section \<open>Start and stop\<close>

text \<open>\<open>rc\<close> is the result of creating the thread.\<close>

definition init_qp_thread :: "errno option \<Rightarrow> sys \<Rightarrow> errno option \<times> sys" where
  "init_qp_thread rc s =
     (rc, s\<lparr>qp := \<lparr>qp_clks = \<lparr>qp0 = 0, qp1 = 0, qp2 = 0, last_ckpt = MIN_VERSION, min_ckpt_reclaimed = MAX_VERSION\<rparr>,
                   stop_requested = False, qp_reclaim = \<lparr>rq_tvlog = 0, rq_ckptlog = 0\<rparr>, qp_stat = stat_reset, wakeups = 0\<rparr>\<rparr>)"

definition init_qp :: "errno option \<Rightarrow> sys \<Rightarrow> errno option \<times> sys" where
  "init_qp rc s =
     (let (l, ls) = init_thread_list (live_threads s) (links s);
          (z, ls) = init_thread_list (zombie_threads s) ls
      in init_qp_thread rc (s\<lparr>live_threads := l, zombie_threads := z, links := ls\<rparr>))"

text \<open>\<open>finish_qp_thread\<close> up to the join, and after it.\<close>

definition finish_qp_thread :: "(sys \<Rightarrow> sys) \<Rightarrow> sys \<Rightarrow> sys" where
  "finish_qp_thread join s =
     (let s = s\<lparr>qp := (qp s)\<lparr>stop_requested := True\<rparr>\<rparr>;
          s = join (wakeup_qp_thread s)
      in s\<lparr>g_stat := stat_atomic_merge (g_stat s) (qp_stat (qp s))\<rparr>)"

definition deinit_qp :: "(sys \<Rightarrow> sys) \<Rightarrow> sys \<Rightarrow> sys" where
  "deinit_qp join s = finish_qp_thread join s"

definition reset_all_stats :: "sys \<Rightarrow> sys option" where
  "reset_all_stats s = do {
     s \<leftarrow> lock_zombie s;
     ts \<leftarrow> list_threads (zombie_threads s) (links s);
     s \<leftarrow> for_threads (\<lambda>t s. do { _ \<leftarrow> thrs s t; Some (stat_thread t (\<lambda>_. stat_reset) s) }) ts s;
     s \<leftarrow> lock_live (unlock_zombie s);
     ts \<leftarrow> list_threads (live_threads s) (links s);
     s \<leftarrow> for_threads (\<lambda>t s. do { _ \<leftarrow> thrs s t; Some (stat_thread t (\<lambda>_. stat_reset) s) }) ts s;
     Some (unlock_live s) }"

text \<open>\<open>ts_reset_stats\<close> (\<open>src/lib/debug.c\<close>).\<close>

definition ts_reset_stats :: "sys \<Rightarrow> sys option" where
  "ts_reset_stats s = do { s \<leftarrow> reset_all_stats s; Some (s\<lparr>g_stat := stat_reset\<rparr>) }"

end
