(* ===== verification/Recovery.thy ===== *)
theory Recovery
  imports Qp
begin

text \<open>
  Recovery after a crash (\<open>src/lib/recovery.c\<close>) and the start and the end of the library
  (\<open>ts_init\<close>, \<open>ts_finish\<close> of \<open>src/lib/timestone.c\<close>). Recovery walks the list of log stores of the
  root object before any thread is registered, so in this theory the entry of a checkpoint log is
  named by the address of its store: \<open>Ckpt p i\<close> is the entry at byte index \<open>i\<close> of the store at \<open>p\<close>.
  \<open>nvl_mem p\<close> says whether the control structure for the store at \<open>p\<close> can be allocated, \<open>mem\<close> is
  the allocator of volatile headers. A NULL pointer that is dereferenced is \<open>None\<close>.
\<close>

section \<open>Walking the stores\<close>

definition rec_entry :: "sys \<Rightarrow> nat \<Rightarrow> u32 \<Rightarrow> log_entry option" where
  "rec_entry s p i = do { st \<leftarrow> r_stores (root s) p; s_mem st i }"

definition reconstruct_volatile_nvlog :: "bool \<Rightarrow> nv_body nvlog_store \<Rightarrow> log option" where
  "reconstruct_volatile_nvlog ok st = (if ok then Some (nvlog_load st) else None)"

text \<open>What a log wrote to its store.\<close>

definition put_store :: "nat \<Rightarrow> log \<Rightarrow> sys \<Rightarrow> sys" where
  "put_store p l s = s\<lparr>root := (root s)\<lparr>r_stores := (r_stores (root s))(p := nvl_store l)\<rparr>\<rparr>"

section \<open>The checkpoint logs\<close>

definition reconstruct_volatile_header ::
  "(sys \<Rightarrow> nat option) \<Rightarrow> nat \<Rightarrow> u32 \<Rightarrow> u64 \<Rightarrow> sys \<Rightarrow> (errno option \<times> sys) option" where
  "reconstruct_volatile_header mem p i gid s = do {
     e \<leftarrow> rec_entry s p i;
     c \<leftarrow> ck_body e;
     a \<leftarrow> (case ck_np_org_act c of Act a \<Rightarrow> Some a | _ \<Rightarrow> None);
     ao \<leftarrow> acts s a;
     (if a_gen_id ao \<noteq> gid \<or> a_vhdr ao = None then
        (case alloc_act_vhdr (mem s) (Ckpt p i) s of
           (None, s) \<Rightarrow> Some (Some ENOMEM, s)
         | (Some v, s) \<Rightarrow> Some (None, upd_act a (\<lambda>ao. ao\<lparr>a_vhdr := Some v, a_gen_id := gid\<rparr>) s))
      else do {
        v \<leftarrow> a_vhdr ao;
        h \<leftarrow> vhdrs s v;
        cur \<leftarrow> (case np_cur_act h of Ckpt q j \<Rightarrow> rec_entry s q j | _ \<Rightarrow> None);
        Some (None,
              if e_wrt_clk cur < e_wrt_clk e then upd_vhdr v (\<lambda>h. h\<lparr>np_cur_act := Ckpt p i\<rparr>) s else s) }) }"

text \<open>The loop over the entries of one checkpoint log, until the last checkpoint clock.\<close>

partial_function (option) ckptlog_recover_log ::
  "(sys \<Rightarrow> nat option) \<Rightarrow> u64 \<Rightarrow> u64 \<Rightarrow> nat \<Rightarrow> log \<Rightarrow> sys \<Rightarrow> (errno option \<times> log \<times> sys) option" where
  "ckptlog_recover_log mem last_ckpt_clk gid p l s =
     (if head_cnt l = tail_cnt l then Some (None, l, s)
      else do {
        (h, l) \<leftarrow> nvlog_peek_head l;
        e \<leftarrow> h;
        c \<leftarrow> ck_body e;
        (if ckpt_s_clk c > last_ckpt_clk then Some (None, l, s)
         else do {
           (rc, s) \<leftarrow> reconstruct_volatile_header mem p (nvlog_index l (head_cnt l)) gid s;
           (if rc \<noteq> None then Some (Some ENOMEM, l, s)
            else do {
              (_, l) \<leftarrow> nvlog_deq l;
              ckptlog_recover_log mem last_ckpt_clk gid p l s }) }) })"

partial_function (option) ckptlog_recover_stores ::
  "(nat \<Rightarrow> bool) \<Rightarrow> (sys \<Rightarrow> nat option) \<Rightarrow> u64 \<Rightarrow> u64 \<Rightarrow> nat option \<Rightarrow> sys \<Rightarrow> (errno option \<times> sys) option" where
  "ckptlog_recover_stores nvl_mem mem last_ckpt_clk gid current s =
     (case current of
        None \<Rightarrow> Some (None, s)
      | Some p \<Rightarrow> do {
          st \<leftarrow> r_stores (root s) p;
          (if s_type st \<noteq> TYPE_CKPTLOG \<or> s_status st \<noteq> STATUS_NVLOG_NORMAL
           then ckptlog_recover_stores nvl_mem mem last_ckpt_clk gid (s_next st) s
           else
             (case reconstruct_volatile_nvlog (nvl_mem p) st of
                None \<Rightarrow> Some (Some ENOMEM, s)
              | Some l \<Rightarrow> do {
                  (rc, l, s) \<leftarrow> ckptlog_recover_log mem last_ckpt_clk gid p l s;
                  (if rc \<noteq> None then Some (rc, s)
                   else
                     ckptlog_recover_stores nvl_mem mem last_ckpt_clk gid (s_next st)
                       (put_store p (snd (nvlog_truncate_tail l (head_cnt l))) s)) })) })"

definition ckptlog_recovery :: "(nat \<Rightarrow> bool) \<Rightarrow> (sys \<Rightarrow> nat option) \<Rightarrow> sys \<Rightarrow> (errno option \<times> sys) option" where
  "ckptlog_recovery nvl_mem mem s =
     ckptlog_recover_stores nvl_mem mem (nvlog_get_last_ckpt_clk (root s)) (nvm_get_gen_id (root s)) (r_next (root s)) s"

section \<open>The operation logs\<close>

datatype replay_type = OPLOG_REPLAY_TYPE_EXEC | OPLOG_REPLAY_TYPE_COMMIT

definition replay_type_int :: "replay_type \<Rightarrow> 32 word" where
  "replay_type_int ty = (case ty of OPLOG_REPLAY_TYPE_EXEC \<Rightarrow> 0 | OPLOG_REPLAY_TYPE_COMMIT \<Rightarrow> 1)"

text \<open>
  \<open>ts_op_context_t\<close> with the entry as store address and index; \<open>ts_replay_entry_t\<close> with its context
  as an index of the context array. A slot of either array is \<open>None\<close> until it is written.
\<close>

record op_context =
  oc_thread :: "nat option"
  oc_op_entry :: "nat \<times> u32"

record replay_entry =
  time_stamp :: u64
  re_type :: replay_type
  re_context :: nat

definition op_body :: "log_entry \<Rightarrow> op_entry_hdr option" where
  "op_body e = (case e_body e of Some (OpBody b) \<Rightarrow> Some b | _ \<Rightarrow> None)"

definition is_op_entry_valid :: "op_entry_hdr \<Rightarrow> u64 \<Rightarrow> bool" where
  "is_op_entry_valid b last_ckpt_clk \<longleftrightarrow> oe_local_clk b > last_ckpt_clk"

text \<open>The loop over the entries of one operation log that counts what is to be replayed.\<close>

partial_function (option) count_ops :: "u64 \<Rightarrow> log \<Rightarrow> u64 \<Rightarrow> nat \<Rightarrow> (u64 \<times> nat \<times> log) option" where
  "count_ops last_ckpt_clk l hd_cnt ops_cnt =
     (if head_cnt l = tail_cnt l then Some (hd_cnt, ops_cnt, l)
      else do {
        (h, l) \<leftarrow> nvlog_peek_head l;
        e \<leftarrow> h;
        b \<leftarrow> op_body e;
        (_, l') \<leftarrow> nvlog_deq l;
        (if is_op_entry_valid b last_ckpt_clk
         then count_ops last_ckpt_clk l' (if ops_cnt = 0 then head_cnt l else hd_cnt) (Suc ops_cnt)
         else count_ops last_ckpt_clk l' hd_cnt ops_cnt) })"

partial_function (option) count_stores ::
  "(nat \<Rightarrow> bool) \<Rightarrow> u64 \<Rightarrow> nat option \<Rightarrow> nat \<Rightarrow> sys \<Rightarrow> (errno option \<times> nat \<times> sys) option" where
  "count_stores nvl_mem last_ckpt_clk current ops_cnt s =
     (case current of
        None \<Rightarrow> Some (None, ops_cnt, s)
      | Some p \<Rightarrow> do {
          st \<leftarrow> r_stores (root s) p;
          (if s_type st \<noteq> TYPE_OPLOG \<or> s_status st \<noteq> STATUS_NVLOG_NORMAL
           then count_stores nvl_mem last_ckpt_clk (s_next st) ops_cnt s
           else
             (case reconstruct_volatile_nvlog (nvl_mem p) st of
                None \<Rightarrow> Some (Some ENOMEM, ops_cnt, s)
              | Some l \<Rightarrow> do {
                  (hd_cnt, ops_cnt, l) \<leftarrow> count_ops last_ckpt_clk l (head_cnt l) ops_cnt;
                  count_stores nvl_mem last_ckpt_clk (s_next st) ops_cnt
                    (put_store p (snd (nvlog_truncate_head l hd_cnt)) s) })) })"

text \<open>
  \<open>alloc_replay_array\<close>. The sizes are ints, so with more than \<open>2 ^ 31\<close> bytes they are no longer
  those of the arrays; a failed allocation is only reported and the array then cleared through
  NULL. \<open>m1\<close> and \<open>m2\<close> say whether the two allocations succeed.
\<close>

definition alloc_replay_array ::
  "(nat \<Rightarrow> bool) \<Rightarrow> bool \<Rightarrow> bool \<Rightarrow> sys \<Rightarrow>
   ((errno option \<times> replay_entry option list \<times> op_context option list) \<times> sys) option" where
  "alloc_replay_array nvl_mem m1 m2 s = do {
     (rc, ops_cnt, s) \<leftarrow> count_stores nvl_mem (nvlog_get_last_ckpt_clk (root s)) (r_next (root s)) 0 s;
     (if rc \<noteq> None then Some ((rc, [], []), s)
      else if 48 * ops_cnt \<ge> 2 ^ 31 \<or> (ops_cnt > 0 \<and> (\<not> m1 \<or> \<not> m2)) then None
      else Some ((None, replicate (2 * ops_cnt) None, replicate ops_cnt None), s)) }"

text \<open>\<open>add_op_replay\<close>: the context and the two entries that refer to it.\<close>

definition add_op_replay :: "nat \<Rightarrow> u32 \<Rightarrow> log_entry \<Rightarrow> op_entry_hdr \<Rightarrow> nat \<Rightarrow> op_context \<times> replay_entry \<times> replay_entry" where
  "add_op_replay p i e b ctx =
     (\<lparr>oc_thread = None, oc_op_entry = (p, i)\<rparr>,
      \<lparr>time_stamp = oe_local_clk b, re_type = OPLOG_REPLAY_TYPE_EXEC, re_context = ctx\<rparr>,
      \<lparr>time_stamp = e_wrt_clk e, re_type = OPLOG_REPLAY_TYPE_COMMIT, re_context = ctx\<rparr>)"

type_synonym replay_arrays = "replay_entry option list \<times> op_context option list"

text \<open>Storing them at \<open>replay_array[i]\<close>, \<open>replay_array[i + 1]\<close> and \<open>context_array[i / 2]\<close>.\<close>

definition put_replay :: "nat \<Rightarrow> op_context \<times> replay_entry \<times> replay_entry \<Rightarrow> replay_arrays \<Rightarrow> replay_arrays option" where
  "put_replay i x ar =
     (case (x, ar) of
        ((c, r0, r1), (rs, cs)) \<Rightarrow>
          if i + 1 < length rs \<and> i div 2 < length cs
          then Some (rs[i := Some r0, i + 1 := Some r1], cs[i div 2 := Some c]) else None)"

partial_function (option) collect_ops ::
  "u64 \<Rightarrow> nat \<Rightarrow> log \<Rightarrow> nat \<Rightarrow> replay_arrays \<Rightarrow> (nat \<times> replay_arrays \<times> log) option" where
  "collect_ops last_ckpt_clk p l i ar =
     (if head_cnt l = tail_cnt l then Some (i, ar, l)
      else do {
        (h, l) \<leftarrow> nvlog_peek_head l;
        e \<leftarrow> h;
        b \<leftarrow> op_body e;
        (_, l') \<leftarrow> nvlog_deq l;
        (if is_op_entry_valid b last_ckpt_clk
         then do {
           ar \<leftarrow> put_replay i (add_op_replay p (nvlog_index l (head_cnt l)) e b (i div 2)) ar;
           collect_ops last_ckpt_clk p l' (i + 2) ar }
         else collect_ops last_ckpt_clk p l' i ar) })"

partial_function (option) collect_stores ::
  "(nat \<Rightarrow> bool) \<Rightarrow> u64 \<Rightarrow> nat option \<Rightarrow> nat \<Rightarrow> replay_arrays \<Rightarrow> sys \<Rightarrow> (errno option \<times> nat \<times> replay_arrays \<times> sys) option" where
  "collect_stores nvl_mem last_ckpt_clk current i ar s =
     (case current of
        None \<Rightarrow> Some (None, i, ar, s)
      | Some p \<Rightarrow> do {
          st \<leftarrow> r_stores (root s) p;
          (if s_type st \<noteq> TYPE_OPLOG \<or> s_status st \<noteq> STATUS_NVLOG_NORMAL
           then collect_stores nvl_mem last_ckpt_clk (s_next st) i ar s
           else
             (case reconstruct_volatile_nvlog (nvl_mem p) st of
                None \<Rightarrow> Some (Some ENOMEM, i, ar, s)
              | Some l \<Rightarrow> do {
                  let hd_cnt = head_cnt l;
                  (i, ar, l) \<leftarrow> collect_ops last_ckpt_clk p l i ar;
                  collect_stores nvl_mem last_ckpt_clk (s_next st) i ar
                    (put_store p (snd (nvlog_truncate_head l hd_cnt)) s) })) })"

definition collect_replay_entries ::
  "(nat \<Rightarrow> bool) \<Rightarrow> replay_arrays \<Rightarrow> sys \<Rightarrow> (errno option \<times> nat \<times> replay_arrays \<times> sys) option" where
  "collect_replay_entries nvl_mem ar s = do {
     (rc, i, ar, s) \<leftarrow> collect_stores nvl_mem (nvlog_get_last_ckpt_clk (root s)) (r_next (root s)) 0 ar s;
     Some (rc, i div 2, ar, s) }"

section \<open>Sorting\<close>

text \<open>The difference of the time stamps is cut to an int.\<close>

definition comp_replay_entries :: "replay_entry \<Rightarrow> replay_entry \<Rightarrow> int" where
  "comp_replay_entries r1 r2 =
     (let d = ucast (time_stamp r1 - time_stamp r2) :: 32 word;
          d = (if d = 0 then replay_type_int (re_type r1) - replay_type_int (re_type r2) else d)
      in sint d)"

text \<open>\<open>qsort\<close> of the C library: a merge sort that halves the array (glibc).\<close>

fun merge_by :: "('a \<Rightarrow> 'a \<Rightarrow> int) \<Rightarrow> 'a list \<Rightarrow> 'a list \<Rightarrow> 'a list" where
  "merge_by cmp [] ys = ys"
| "merge_by cmp (x # xs) [] = x # xs"
| "merge_by cmp (x # xs) (y # ys) =
     (if cmp x y \<le> 0 then x # merge_by cmp xs (y # ys) else y # merge_by cmp (x # xs) ys)"

function qsort :: "('a \<Rightarrow> 'a \<Rightarrow> int) \<Rightarrow> 'a list \<Rightarrow> 'a list" where
  "qsort cmp xs =
     (let n = length xs
      in if n \<le> 1 then xs else merge_by cmp (qsort cmp (take (n div 2) xs)) (qsort cmp (drop (n div 2) xs)))"
  by pat_completeness auto
termination
  by (relation "measure (\<lambda>(cmp, xs). length xs)") auto

declare qsort.simps [simp del]

text \<open>The first \<open>2 * ops_cnt\<close> slots are sorted; comparing a slot that was not written is \<open>None\<close>.\<close>

definition sort_replay_array :: "replay_entry option list \<Rightarrow> nat \<Rightarrow> replay_entry option list option" where
  "sort_replay_array rs ops_cnt =
     (if length rs < 2 * ops_cnt \<or> None \<in> set (take (2 * ops_cnt) rs) then None
      else Some (map Some (qsort comp_replay_entries (map the (take (2 * ops_cnt) rs))) @ drop (2 * ops_cnt) rs))"

section \<open>Replay\<close>

text \<open>
  Allocations of the replay: the thread, its pointer sets and its two logs. \<open>op_exec\<close> is the
  callback of the application.
\<close>

record replay_mem =
  rm_thread :: "sys \<Rightarrow> nat option"
  rm_junk :: thread
  rm_set :: "ptr list option"
  rm_oplog :: "sys \<Rightarrow> nat option"
  rm_ckptlog :: "sys \<Rightarrow> nat option"
  rm_buf :: "(u64 \<times> nv_body nv_mem) option"

type_synonym contexts = "op_context option list"

definition acquire_thread ::
  "bool \<Rightarrow> replay_mem \<Rightarrow> replay_entry \<Rightarrow> ptr_set \<Rightarrow> contexts \<Rightarrow> sys \<Rightarrow>
   (errno option \<times> ptr_set \<times> contexts \<times> sys) option" where
  "acquire_thread ser rm re threads cs s = do {
     c \<leftarrow> (if re_context re < length cs then cs ! re_context re else None);
     (if oc_thread c \<noteq> None then Some (None, threads, cs, s)
      else do {
        (p, threads) \<leftarrow> ptrset_pop threads;
        (rc, t, s) \<leftarrow>
          (case p of
             Thr t \<Rightarrow> Some (None, t, s)
           | Null \<Rightarrow>
               (case ts_thread_alloc (rm_thread rm s) (rm_junk rm) s of
                  (None, s) \<Rightarrow> Some (Some ENOMEM, 0, s)
                | (Some t, s) \<Rightarrow> do {
                    s \<leftarrow> ts_thread_init_x ser (rm_set rm) (rm_set rm) (rm_set rm) (rm_set rm)
                           (rm_oplog rm s) (rm_buf rm) (rm_ckptlog rm s) (rm_buf rm) t STATUS_NVLOG_RECOVERY s;
                    Some (None, t, s) })
           | _ \<Rightarrow> None);
        (if rc \<noteq> None then Some (rc, threads, cs, s)
         else Some (None, threads, cs[re_context re := Some (c\<lparr>oc_thread := Some t\<rparr>)], s)) }) }"

definition release_thread ::
  "ptr list option \<Rightarrow> replay_entry \<Rightarrow> ptr_set \<Rightarrow> contexts \<Rightarrow> (ptr_set \<times> contexts) option" where
  "release_thread ra re threads cs =
     (if re_type re = OPLOG_REPLAY_TYPE_EXEC then Some (threads, cs)
      else do {
        c \<leftarrow> (if re_context re < length cs then cs ! re_context re else None);
        (_, threads) \<leftarrow> ptrset_push ra threads (case oc_thread c of None \<Rightarrow> Null | Some t \<Rightarrow> Thr t);
        Some (threads, cs[re_context re := Some (c\<lparr>oc_thread := None\<rparr>)]) })"

definition init_threads :: "ptr list option \<Rightarrow> ptr_set \<Rightarrow> ptr_set" where
  "init_threads mem threads = snd (ptrset_init mem threads)"

partial_function (option) deinit_loop :: "bool \<Rightarrow> ptr list option \<Rightarrow> ptr_set \<Rightarrow> sys \<Rightarrow> (ptr_set \<times> sys) option" where
  "deinit_loop ser ra threads s = do {
     (p, threads) \<leftarrow> ptrset_pop threads;
     (if p = Null then Some (threads, s)
      else do {
        t \<leftarrow> (case p of Thr t \<Rightarrow> Some t | _ \<Rightarrow> None);
        s \<leftarrow> ts_thread_finish ser ra t s;
        s \<leftarrow> ts_thread_free t s;
        deinit_loop ser ra threads s }) }"

definition deinit_threads :: "bool \<Rightarrow> ptr list option \<Rightarrow> ptr_set \<Rightarrow> nat option \<Rightarrow> sys \<Rightarrow> (ptr_set \<times> sys) option" where
  "deinit_threads ser ra threads thr s = do {
     threads \<leftarrow> (case thr of None \<Rightarrow> Some threads | Some t \<Rightarrow> map_option snd (ptrset_push ra threads (Thr t)));
     (threads, s) \<leftarrow> deinit_loop ser ra threads s;
     Some (ptrset_deinit threads, s) }"

text \<open>\<open>execute_op\<close> hands the type of the replay entry to the callback as the operation type.\<close>

definition execute_op ::
  "bool \<Rightarrow> (nat \<Rightarrow> u64) \<Rightarrow> ptr list option \<Rightarrow> (nat \<Rightarrow> u64 \<Rightarrow> bytes \<Rightarrow> sys \<Rightarrow> sys option) \<Rightarrow>
   replay_entry \<Rightarrow> contexts \<Rightarrow> sys \<Rightarrow> (errno option \<times> sys) option" where
  "execute_op ser tsc ra op_exec re cs s = do {
     c \<leftarrow> (if re_context re < length cs then cs ! re_context re else None);
     t \<leftarrow> oc_thread c;
     _ \<leftarrow> thrs s t;
     s \<leftarrow>
       (case re_type re of
          OPLOG_REPLAY_TYPE_EXEC \<Rightarrow> do {
            let s = upd_thr t (\<lambda>th. th\<lparr>in_recovery_mode := True\<rparr>) s;
            e \<leftarrow> (case oc_op_entry c of (p, i) \<Rightarrow> rec_entry s p i);
            b \<leftarrow> op_body e;
            op_exec t (ucast (replay_type_int (re_type re))) (oe_opd b) s }
        | OPLOG_REPLAY_TYPE_COMMIT \<Rightarrow>
            map_option snd (ts_end ser tsc ra t (upd_thr t (\<lambda>th. th\<lparr>in_recovery_mode := False\<rparr>) s)));
     Some (None, upd_thr t (\<lambda>th. th\<lparr>in_recovery_mode := True\<rparr>) s) }"

fun replay_loop ::
  "bool \<Rightarrow> (nat \<Rightarrow> u64) \<Rightarrow> ptr list option \<Rightarrow> replay_mem \<Rightarrow> (nat \<Rightarrow> u64 \<Rightarrow> bytes \<Rightarrow> sys \<Rightarrow> sys option) \<Rightarrow>
   replay_entry list \<Rightarrow> ptr_set \<Rightarrow> contexts \<Rightarrow> sys \<Rightarrow> (errno option \<times> ptr_set \<times> contexts \<times> sys) option" where
  "replay_loop ser tsc ra rm op_exec [] threads cs s = Some (None, threads, cs, s)"
| "replay_loop ser tsc ra rm op_exec (re # res) threads cs s = do {
     (rc, threads, cs, s) \<leftarrow> acquire_thread ser rm re threads cs s;
     (if rc \<noteq> None then Some (rc, threads, cs, s)
      else do {
        (rc, s) \<leftarrow> execute_op ser tsc ra op_exec re cs s;
        (if rc \<noteq> None then Some (rc, threads, cs, s)
         else do {
           (threads, cs) \<leftarrow> release_thread ra re threads cs;
           replay_loop ser tsc ra rm op_exec res threads cs s }) }) }"

definition replay_ops ::
  "bool \<Rightarrow> (nat \<Rightarrow> u64) \<Rightarrow> ptr list option \<Rightarrow> replay_mem \<Rightarrow> (nat \<Rightarrow> u64 \<Rightarrow> bytes \<Rightarrow> sys \<Rightarrow> sys option) \<Rightarrow>
   replay_entry list \<Rightarrow> nat \<Rightarrow> contexts \<Rightarrow> sys \<Rightarrow> (errno option \<times> sys) option" where
  "replay_ops ser tsc ra rm op_exec res ops_cnt cs s = do {
     let threads = init_threads (rm_set rm) zero_set;
     (rc, threads, cs, s) \<leftarrow> replay_loop ser tsc ra rm op_exec (take (2 * ops_cnt) res) threads cs s;
     (_, s) \<leftarrow> deinit_threads ser ra threads None s;
     Some (rc, s) }"

section \<open>Recovery\<close>

text \<open>
  \<open>oplog_recovery\<close>; the call of \<open>replay_ops\<close> is commented out in the source. The sorted array is
  returned here although the function frees it, so that its contents can be stated.
\<close>

definition oplog_recovery ::
  "(nat \<Rightarrow> bool) \<Rightarrow> bool \<Rightarrow> bool \<Rightarrow> sys \<Rightarrow> ((errno option \<times> replay_arrays) \<times> sys) option" where
  "oplog_recovery nvl_mem m1 m2 s = do {
     ((rc, ar), s) \<leftarrow> alloc_replay_array nvl_mem m1 m2 s;
     (if rc \<noteq> None then Some ((rc, ar), s)
      else do {
        (rc, ops_cnt, (rs, cs), s) \<leftarrow> collect_replay_entries nvl_mem ar s;
        (if rc \<noteq> None then Some ((rc, rs, cs), s)
         else do {
           rs \<leftarrow> sort_replay_array rs ops_cnt;
           Some ((None, rs, cs), s) }) }) }"

text \<open>\<open>has_root\<close> is whether the root pointer of the recovery structure is not NULL.\<close>

definition perform_recovery ::
  "bool \<Rightarrow> (nat \<Rightarrow> bool) \<Rightarrow> (sys \<Rightarrow> nat option) \<Rightarrow> bool \<Rightarrow> bool \<Rightarrow> sys \<Rightarrow> (errno option \<times> sys) option" where
  "perform_recovery has_root nvl_mem mem m1 m2 s =
     (if \<not> has_root then Some (Some ENOMEM, s)
      else if r_next (root s) = None then Some (None, s)
      else do {
        (rc, s) \<leftarrow> ckptlog_recovery nvl_mem mem s;
        (if rc \<noteq> None then Some (rc, s)
         else do {
           ((rc, _), s) \<leftarrow> oplog_recovery nvl_mem m1 m2 s;
           Some (rc, s) }) })"

section \<open>Start and end of the library\<close>

text \<open>
  \<open>ts_init\<close>; \<open>init\<close> is the static flag, \<open>heap\<close> what loading the heap gives, \<open>nr0\<close> the value of the
  uninitialised \<open>need_recovery\<close>, \<open>rmap\<close> and \<open>qp_rc\<close> the results of mapping the region and of
  creating the qp thread. The result carries the flag; the sign of an error number is not kept.
\<close>

definition ts_init ::
  "(nv_body nvm_root \<times> bool) option \<Rightarrow> bool \<Rightarrow> errno + u64 \<Rightarrow> errno option \<Rightarrow> (nat \<Rightarrow> bool) \<Rightarrow>
   (sys \<Rightarrow> nat option) \<Rightarrow> bool \<Rightarrow> bool \<Rightarrow> bool \<Rightarrow> sys \<Rightarrow> (bool \<times> errno option \<times> sys) option" where
  "ts_init heap nr0 rmap qp_rc nvl_mem mem m1 m2 init s =
     (if init then Some (True, Some EBUSY, s)
      else
        (case nvm_init_heap heap nr0 of
           None \<Rightarrow> Some (True, Some ENOMEM, s)
         | Some (rt, need_recovery) \<Rightarrow>
             let (rc, rt) = nvlog_init rt; s = s\<lparr>root := rt\<rparr>
             in if rc \<noteq> None then Some (True, rc, s)
                else
                  let s = s\<lparr>gen_id := nvm_get_gen_id rt\<rparr>;
                      (rc, rg) = port_tvlog_region_init rmap TS_TVLOG_SIZE TS_MAX_THREAD_NUM (region s);
                      s = s\<lparr>region := rg\<rparr>
                  in if rc \<noteq> None then Some (True, rc, s)
                     else
                       let (rc, s) = init_qp qp_rc s
                       in if rc \<noteq> None then Some (True, rc, s)
                          else if need_recovery then do {
                            (rc, s) \<leftarrow> perform_recovery True nvl_mem mem m1 m2 s;
                            Some (True, rc, s) }
                          else Some (True, None, s)))"

text \<open>
  \<open>__ts_finish\<close> and \<open>ts_finish\<close>; \<open>join\<close> is what happens until the qp thread has ended and \<open>unload\<close> what
  the heap library does to unload the heap (\<open>nvm_heap_destroy\<close>).
\<close>

definition ts_finish_x :: "(sys \<Rightarrow> sys) \<Rightarrow> sys \<Rightarrow> sys" where
  "ts_finish_x join s = (let s = deinit_qp join s in s\<lparr>region := port_tvlog_region_destroy (region s)\<rparr>)"

definition ts_unload_nvm :: "(sys \<Rightarrow> sys) \<Rightarrow> sys \<Rightarrow> sys" where
  "ts_unload_nvm unload s = unload s"

definition ts_finish :: "(sys \<Rightarrow> sys) \<Rightarrow> (sys \<Rightarrow> sys) \<Rightarrow> sys \<Rightarrow> sys" where
  "ts_finish join unload s = ts_unload_nvm unload (ts_finish_x join s)"

end
