(* ===== verification/ReplayOrder.thy ===== *)
theory ReplayOrder
  imports Recovery "HOL-Library.Multiset"
begin

text \<open>
  The order in which recovery replays the operation logs (\<open>sort_replay_array\<close> and
  \<open>comp_replay_entries\<close> of \<open>src/lib/recovery.c\<close>). What \<open>qsort\<close> needs of a comparison function is the
  locale \<open>sort_order\<close>; the comparison of replay entries meets it on entries whose time stamps are
  less than \<open>2 ^ 31\<close> apart, and not beyond, because the difference is cut to an int.
\<close>

section \<open>Sorting by a comparison function\<close>

lemma mset_merge_by: "mset (merge_by cmp xs ys) = mset xs + mset ys"
  by (induction cmp xs ys rule: merge_by.induct) auto

lemma set_merge_by [simp]: "set (merge_by cmp xs ys) = set xs \<union> set ys"
  using mset_merge_by [of cmp xs ys] by (metis set_mset_mset set_mset_union)

lemma mset_qsort: "mset (qsort cmp xs) = mset xs"
proof (induction cmp xs rule: qsort.induct)
  case (1 cmp xs)
  show ?case
  proof (cases "length xs \<le> 1")
    case True
    then show ?thesis by (subst qsort.simps) simp
  next
    case False
    with 1 have "mset (qsort cmp xs) = mset (take (length xs div 2) xs) + mset (drop (length xs div 2) xs)"
      by (subst qsort.simps) (simp add: mset_merge_by Let_def)
    then show ?thesis by (simp flip: mset_append)
  qed
qed

lemma set_qsort [simp]: "set (qsort cmp xs) = set xs"
  by (rule mset_eq_setD) (rule mset_qsort)

text \<open>A comparison function is a total preorder on the elements it is used on.\<close>

locale sort_order =
  fixes cmp :: "'a \<Rightarrow> 'a \<Rightarrow> int" and A :: "'a set"
  assumes total: "x \<in> A \<Longrightarrow> y \<in> A \<Longrightarrow> cmp x y \<le> 0 \<or> cmp y x \<le> 0"
    and trans: "x \<in> A \<Longrightarrow> y \<in> A \<Longrightarrow> z \<in> A \<Longrightarrow> cmp x y \<le> 0 \<Longrightarrow> cmp y z \<le> 0 \<Longrightarrow> cmp x z \<le> 0"
begin

abbreviation in_order :: "'a list \<Rightarrow> bool" where
  "in_order \<equiv> sorted_wrt (\<lambda>x y. cmp x y \<le> 0)"

lemma merge_by_in_order:
  "set xs \<subseteq> A \<Longrightarrow> set ys \<subseteq> A \<Longrightarrow> in_order xs \<Longrightarrow> in_order ys \<Longrightarrow> in_order (merge_by cmp xs ys)"
proof (induction xs arbitrary: ys)
  case Nil
  then show ?case by simp
next
  case (Cons x xs)
  note outer = Cons.IH
  show ?case
    using Cons.prems
  proof (induction ys)
    case Nil
    then show ?case by simp
  next
    case (Cons y ys)
    have el: "x \<in> A" "y \<in> A" "\<forall>z\<in>set xs. z \<in> A \<and> cmp x z \<le> 0" "\<forall>z\<in>set ys. z \<in> A \<and> cmp y z \<le> 0"
      using Cons.prems by auto
    show ?case
    proof (cases "cmp x y \<le> 0")
      case True
      with Cons.prems el outer [of "y # ys"] show ?thesis by (auto intro: trans [of x y])
    next
      case False
      then have "cmp y x \<le> 0" using total [OF el(1,2)] by simp
      with False Cons el show ?thesis by (auto intro: trans [of y x])
    qed
  qed
qed

lemma qsort_in_order: "set xs \<subseteq> A \<Longrightarrow> in_order (qsort cmp xs)"
proof (induction "length xs" arbitrary: xs rule: less_induct)
  case less
  show ?case
  proof (cases "length xs \<le> 1")
    case True
    then show ?thesis by (subst qsort.simps) (cases xs; simp add: Let_def)
  next
    case False
    let ?l = "take (length xs div 2) xs" and ?r = "drop (length xs div 2) xs"
    have l: "set ?l \<subseteq> A" "length ?l < length xs" and r: "set ?r \<subseteq> A" "length ?r < length xs"
      using less.prems False by (auto dest: in_set_takeD in_set_dropD)
    then have "in_order (merge_by cmp (qsort cmp ?l) (qsort cmp ?r))"
      by (intro merge_by_in_order less.hyps) simp_all
    then show ?thesis using False by (subst qsort.simps) (simp add: Let_def)
  qed
qed

end

section \<open>The comparison of replay entries\<close>

lemma take_bit_diff_wider: "take_bit 32 (take_bit 64 a - take_bit 64 b) = take_bit 32 (a - b)" for a b :: int
proof -
  have "take_bit 32 (take_bit 64 a - take_bit 64 b) = take_bit 32 (take_bit 32 (take_bit 64 a) - take_bit 32 (take_bit 64 b))"
    by (rule take_bit_diff [symmetric])
  also have "\<dots> = take_bit 32 (a - b)" by (simp add: take_bit_diff)
  finally show ?thesis .
qed

lemma ucast_diff: "(ucast (a - b :: u64) :: u32) = word_of_int (uint a - uint b)"
  by transfer (simp add: take_bit_diff_wider)

lemma sint_small: "- (2 ^ 31) \<le> k \<Longrightarrow> k < 2 ^ 31 \<Longrightarrow> sint (word_of_int k :: u32) = k"
  by (simp add: signed_of_int signed_take_bit_int_eq_self)

lemma small_zero: "- (2 ^ 31) \<le> k \<Longrightarrow> k < 2 ^ 31 \<Longrightarrow> (word_of_int k :: u32) = 0 \<longleftrightarrow> k = 0"
  using sint_small [of k] by (metis sint_0 word_of_int_0)

definition replay_window :: "u64 \<Rightarrow> replay_entry set" where
  "replay_window b = {r. b \<le> time_stamp r \<and> unat (time_stamp r) < unat b + 2 ^ 31}"

definition replay_before :: "replay_entry \<Rightarrow> replay_entry \<Rightarrow> bool" where
  "replay_before r1 r2 \<longleftrightarrow>
     time_stamp r1 < time_stamp r2 \<or>
     (time_stamp r1 = time_stamp r2 \<and> (re_type r1 = OPLOG_REPLAY_TYPE_EXEC \<or> re_type r2 = OPLOG_REPLAY_TYPE_COMMIT))"

lemma window_diff:
  "b \<le> x \<Longrightarrow> x < b + 2 ^ 31 \<Longrightarrow> b \<le> y \<Longrightarrow> y < b + 2 ^ 31 \<Longrightarrow> - (2 ^ 31) \<le> int x - int y \<and> int x - int y < 2 ^ 31"
  by auto

lemma wrapped_diff: "2 ^ 31 < n \<Longrightarrow> n < 2 ^ 32 \<Longrightarrow> - (2 ^ 31) \<le> 2 ^ 32 - int n \<and> 2 ^ 32 - int n < 2 ^ 31 \<and> 0 < 2 ^ 32 - int n"
  by auto

lemma uint_time_stamp: "uint (time_stamp r) = int (unat (time_stamp r))"
  by simp

lemma comp_replay_window:
  assumes "r1 \<in> replay_window b" "r2 \<in> replay_window b"
  shows "comp_replay_entries r1 r2 \<le> 0 \<longleftrightarrow> replay_before r1 r2"
proof -
  let ?k = "uint (time_stamp r1) - uint (time_stamp r2)"
  have n: "unat b \<le> unat (time_stamp r1)" "unat (time_stamp r1) < unat b + 2 ^ 31"
    "unat b \<le> unat (time_stamp r2)" "unat (time_stamp r2) < unat b + 2 ^ 31"
    using assms by (simp_all add: replay_window_def word_le_nat_alt)
  have b: "- (2 ^ 31) \<le> ?k" "?k < 2 ^ 31"
    using window_diff [OF n] unfolding uint_time_stamp by blast+
  have z: "?k = 0 \<longleftrightarrow> time_stamp r1 = time_stamp r2" by (simp add: word_uint_eq_iff)
  have l: "?k < 0 \<longleftrightarrow> time_stamp r1 < time_stamp r2" by (simp add: word_less_def)
  show ?thesis
  proof (cases "?k = 0")
    case True
    with z show ?thesis
      by (cases "re_type r1"; cases "re_type r2")
        (simp_all add: comp_replay_entries_def replay_before_def replay_type_int_def)
  next
    case False
    then have "comp_replay_entries r1 r2 = ?k"
      unfolding comp_replay_entries_def ucast_diff Let_def by (simp only: small_zero [OF b] sint_small [OF b] if_False)
    with False z l show ?thesis by (auto simp: replay_before_def)
  qed
qed

interpretation replay: sort_order comp_replay_entries "replay_window b" for b
proof unfold_locales
  show "comp_replay_entries x y \<le> 0 \<or> comp_replay_entries y x \<le> 0"
    if "x \<in> replay_window b" "y \<in> replay_window b" for x y
    using that by (cases "re_type x"; cases "re_type y") (auto simp: comp_replay_window replay_before_def)
  show "comp_replay_entries x z \<le> 0"
    if "x \<in> replay_window b" "y \<in> replay_window b" "z \<in> replay_window b"
      "comp_replay_entries x y \<le> 0" "comp_replay_entries y z \<le> 0" for x y z
    using that by (auto simp: comp_replay_window replay_before_def)
qed

lemma replay_qsort_sorted:
  assumes "set rs \<subseteq> replay_window b"
  shows "sorted_wrt replay_before (qsort comp_replay_entries rs)"
  using replay.qsort_in_order [OF assms]
  by (rule sorted_wrt_mono_rel [rotated]) (use assms comp_replay_window [of _ b] in auto)

text \<open>
  C28. Sorting the replay array: when all time stamps lie within a window of \<open>2 ^ 31\<close> ticks, the
  entries are permuted into the order of their time stamps, an execution before a commit of the
  same time.
\<close>

theorem sort_replay_array_orders:
  assumes "length rs = 2 * ops_cnt" "set rs \<subseteq> replay_window b"
  shows "\<exists>rs'. sort_replay_array (map Some rs) ops_cnt = Some (map Some rs') \<and> mset rs' = mset rs \<and>
           sorted_wrt replay_before rs'"
proof -
  let ?rs = "qsort comp_replay_entries rs"
  have "sorted_wrt replay_before ?rs" by (rule replay_qsort_sorted [OF assms(2)])
  moreover have "sort_replay_array (map Some rs) ops_cnt = Some (map Some ?rs)"
    using assms(1) by (simp add: sort_replay_array_def take_map o_def)
  ultimately show ?thesis using mset_qsort by blast
qed

definition demo_replay :: "replay_entry list" where
  "demo_replay =
     [\<lparr>time_stamp = 7, re_type = OPLOG_REPLAY_TYPE_EXEC, re_context = 0\<rparr>, \<lparr>time_stamp = 12, re_type = OPLOG_REPLAY_TYPE_COMMIT, re_context = 0\<rparr>,
      \<lparr>time_stamp = 5, re_type = OPLOG_REPLAY_TYPE_EXEC, re_context = 1\<rparr>, \<lparr>time_stamp = 9, re_type = OPLOG_REPLAY_TYPE_COMMIT, re_context = 1\<rparr>]"

theorem sort_replay_array_orders_witness:
  "\<exists>rs'. sort_replay_array (map Some demo_replay) 2 = Some (map Some rs') \<and> mset rs' = mset demo_replay \<and>
     sorted_wrt replay_before rs'"
  by (rule sort_replay_array_orders [of _ _ 5]) (simp_all add: demo_replay_def replay_window_def)

text \<open>
  C35. Beyond that window the order is lost: when more than \<open>2 ^ 31\<close> (and less than \<open>2 ^ 32\<close>) ticks of
  the time stamp counter pass between the start of an operation and its commit, the difference of
  the clocks is cut to a number of the other sign, and the commit is sorted before the execution
  it belongs to.
\<close>

theorem comp_replay_entries_wraps:
  assumes "unat (time_stamp r1) + n = unat (time_stamp r2)" "2 ^ 31 < n" "n < 2 ^ 32"
  shows "sort_replay_array [Some r1, Some r2] 1 = Some [Some r2, Some r1]"
proof -
  let ?k = "uint (time_stamp r1) - uint (time_stamp r2)"
  have k: "?k = - int n" using assms(1) unfolding uint_time_stamp by linarith
  have "(word_of_int ?k :: u32) = word_of_int (?k + 2 ^ 32)" by transfer (simp add: take_bit_eq_mod)
  then have "(ucast (time_stamp r1 - time_stamp r2) :: u32) = word_of_int (2 ^ 32 - int n)"
    using k by (simp add: ucast_diff)
  moreover have r: "- (2 ^ 31) \<le> 2 ^ 32 - int n" "2 ^ 32 - int n < 2 ^ 31" "0 < 2 ^ 32 - int n"
    using wrapped_diff [OF assms(2,3)] by blast+
  moreover note sint_small [OF r(1,2)] small_zero [OF r(1,2)]
  ultimately have "comp_replay_entries r1 r2 > 0" using assms by (simp add: comp_replay_entries_def)
  then show ?thesis by (simp add: sort_replay_array_def qsort.simps)
qed

theorem comp_replay_entries_wraps_witness:
  "sort_replay_array
     [Some \<lparr>time_stamp = 1000, re_type = OPLOG_REPLAY_TYPE_EXEC, re_context = 0\<rparr>,
      Some \<lparr>time_stamp = 3000001000, re_type = OPLOG_REPLAY_TYPE_COMMIT, re_context = 0\<rparr>] 1 =
   Some [Some \<lparr>time_stamp = 3000001000, re_type = OPLOG_REPLAY_TYPE_COMMIT, re_context = 0\<rparr>,
         Some \<lparr>time_stamp = 1000, re_type = OPLOG_REPLAY_TYPE_EXEC, re_context = 0\<rparr>]"
  by (rule comp_replay_entries_wraps [of _ 3000000000]) simp_all

end
