(* ===== verification/LogWalk.thy ===== *)
theory LogWalk
  imports NvLogRing
begin

text \<open>
  Walking through a non-volatile log by "peek at the head, then dequeue it", the way recovery reads
  the logs: every step passes the bogus entry that may lie in front and one entry. The walk needs
  that the log does not end with a bogus entry: then peeking returns NULL although head and tail
  differ, and the loops of recovery dereference it.
\<close>

section \<open>One step of the loop over a log\<close>

lemma rep_suffix: "nvlog_rep k l (xs @ ys) \<Longrightarrow> nvlog_rep k (l\<lparr>head_cnt := head_cnt l + of_nat (total_size xs)\<rparr>) ys"
proof (induction xs arbitrary: l)
  case Nil
  then show ?case by simp
next
  case (Cons x xs)
  then show ?case using Cons.IH [OF rep_advance] by (fastforce simp: algebra_simps)
qed

definition ends_real :: "'e nv_entry list \<Rightarrow> bool" where
  "ends_real es \<longleftrightarrow> es = [] \<or> is_real (last es)"

lemma ends_real_append: "ends_real (xs @ ys) \<Longrightarrow> ends_real ys"
  by (auto simp: ends_real_def)

lemma peek_real:
  assumes "nvlog_rep k l (e # es)" "is_real e"
  shows "nvlog_peek_head l = Some (Some e, l)" "nvlog_deq l = Some (Some e, l\<lparr>head_cnt := head_cnt l + ucast (e_size e)\<rparr>)"
  using assms rep_head_tail [OF assms(1)] rep_head_at [OF assms(1)]
  by (simp_all add: nvlog_peek_head_def nvlog_deq_def)

lemma peek_bogus:
  assumes "nvlog_rep k l (b # e # es)" "\<not> is_real b"
  shows "is_real e" "nvlog_peek_head l = Some (Some e, l\<lparr>head_cnt := head_cnt l + ucast (e_size b)\<rparr>)"
proof -
  let ?l = "l\<lparr>head_cnt := head_cnt l + ucast (e_size b)\<rparr>"
  show "is_real e" using assms after_bogus_real [of k _ _ b e es] by (auto simp: nvlog_rep_def)
  have r: "nvlog_rep k ?l (e # es)" using rep_advance [OF assms(1)] .
  show "nvlog_peek_head l = Some (Some e, ?l)"
    using assms rep_head_tail [OF assms(1)] rep_head_at [OF assms(1)] rep_head_tail [OF r] rep_head_at [OF r]
    by (simp add: nvlog_peek_head_def nvlog_at_def nvlog_index_def nvlog_mem_def)
qed

text \<open>Peeking and dequeuing passes the bogus entry in front, if there is one, and the entry.\<close>

lemma log_step:
  assumes "nvlog_rep k l es" "es \<noteq> []" "ends_real es"
  obtains bs e rest h1 where "es = bs @ e # rest" "\<forall>b\<in>set bs. \<not> is_real b" "is_real e" "ends_real rest"
    "h1 = head_cnt l + of_nat (total_size bs)"
    "nvlog_peek_head l = Some (Some e, l\<lparr>head_cnt := h1\<rparr>)"
    "nvlog_deq (l\<lparr>head_cnt := h1\<rparr>) = Some (Some e, l\<lparr>head_cnt := h1 + ucast (e_size e)\<rparr>)"
    "nvlog_rep k (l\<lparr>head_cnt := h1\<rparr>) (e # rest)" "nvlog_rep k (l\<lparr>head_cnt := h1 + ucast (e_size e)\<rparr>) rest"
    "nvlog_mem l (ring_index (nvl_mask l) h1) = Some e"
proof (cases es)
  case Nil
  with assms(2) show thesis by simp
next
  case (Cons b es')
  show thesis
  proof (cases "is_real b")
    case True
    have r: "nvlog_rep k l (b # es')" using assms(1) Cons by simp
    show thesis
    proof (rule that [of "[]" b es' "head_cnt l"])
      show "nvlog_rep k (l\<lparr>head_cnt := head_cnt l + ucast (e_size b)\<rparr>) es'" by (rule rep_advance [OF r])
      show "nvlog_mem l (ring_index (nvl_mask l) (head_cnt l)) = Some b"
        using rep_head_at [OF r] by (simp add: nvlog_at_def nvlog_index_def)
    qed (use Cons True r peek_real [OF r True] assms(3) in \<open>auto simp: ends_real_def split: if_splits\<close>)
  next
    case False
    with assms(3) Cons obtain e rest where es': "es' = e # rest" by (cases es') (auto simp: ends_real_def)
    have r: "nvlog_rep k l (b # e # rest)" using assms(1) Cons es' by simp
    let ?h = "head_cnt l + of_nat (total_size [b])" let ?l = "l\<lparr>head_cnt := ?h\<rparr>"
    have r1: "nvlog_rep k ?l (e # rest)" using rep_suffix [of k l "[b]" "e # rest"] r by simp
    have e: "is_real e" using peek_bogus [OF r False] by simp
    show thesis
    proof (rule that [of "[b]" e rest ?h])
      show "nvlog_rep k (l\<lparr>head_cnt := ?h + ucast (e_size e)\<rparr>) rest" using rep_advance [OF r1] by simp
      show "nvlog_mem l (ring_index (nvl_mask l) ?h) = Some e"
        using rep_head_at [OF r1] by (simp add: nvlog_at_def nvlog_index_def nvlog_mem_def)
      show "nvlog_peek_head l = Some (Some e, ?l)" using peek_bogus [OF r False] by simp
      show "nvlog_deq ?l = Some (Some e, l\<lparr>head_cnt := ?h + ucast (e_size e)\<rparr>)" using peek_real(2) [OF r1 e] by simp
      show "ends_real rest" using assms(3) Cons es' ends_real_append [of "[b, e]" rest] by simp
    qed (use Cons es' False e r1 in simp_all)
  qed
qed

end
