(* ===== verification/ReplayCollect.thy ===== *)
theory ReplayCollect
  imports ReplayOrder LogWalk
begin

text \<open>
  Which operations recovery finds: \<open>alloc_replay_array\<close> counts the operations of all operation logs
  that the last checkpoint does not cover, \<open>collect_replay_entries\<close> loads the logs again and fills
  the arrays. The theorem says that the two passes agree although the first one moves the head of
  a log, and that the arrays hold every such operation exactly once.
\<close>

section \<open>The operations of one log\<close>

fun ops_in :: "u64 \<Rightarrow> u64 \<Rightarrow> u64 \<Rightarrow> log_entry list \<Rightarrow> (u32 \<times> log_entry \<times> op_entry_hdr) list" where
  "ops_in last_clk m c [] = []"
| "ops_in last_clk m c (e # es) =
     (case op_body e of
        None \<Rightarrow> []
      | Some b \<Rightarrow> if is_real e \<and> is_op_entry_valid b last_clk then [(ring_index m c, e, b)] else [])
     @ ops_in last_clk m (c + ucast (e_size e)) es"

lemma ops_in_append:
  "ops_in last_clk m c (xs @ ys) = ops_in last_clk m c xs @ ops_in last_clk m (c + of_nat (total_size xs)) ys"
  by (induction xs arbitrary: c) (auto simp: algebra_simps)

lemma ops_in_bogus: "\<forall>b\<in>set bs. \<not> is_real b \<Longrightarrow> ops_in last_clk m c bs = []"
  by (induction bs arbitrary: c) (auto split: option.splits)

text \<open>The log of a store, and what recovery relies on: real entries are operations.\<close>

definition op_rep :: "nat \<Rightarrow> log \<Rightarrow> log_entry list \<Rightarrow> bool" where
  "op_rep k l es \<longleftrightarrow> nvlog_rep k l es \<and> ends_real es \<and> (\<forall>e\<in>set es. is_real e \<longrightarrow> op_body e \<noteq> None)"

lemma op_step:
  assumes "op_rep k l es" "es \<noteq> []"
  obtains bs e b rest h1 where "es = bs @ e # rest" "\<forall>b\<in>set bs. \<not> is_real b" "is_real e" "op_body e = Some b"
    "h1 = head_cnt l + of_nat (total_size bs)"
    "nvlog_peek_head l = Some (Some e, l\<lparr>head_cnt := h1\<rparr>)"
    "nvlog_deq (l\<lparr>head_cnt := h1\<rparr>) = Some (Some e, l\<lparr>head_cnt := h1 + ucast (e_size e)\<rparr>)"
    "op_rep k (l\<lparr>head_cnt := h1 + ucast (e_size e)\<rparr>) rest" "head_cnt l \<noteq> tail_cnt l"
    "ops_in last_clk (nvl_mask l) (head_cnt l) es =
       (if is_op_entry_valid b last_clk then [(nvlog_index l h1, e, b)] else []) @
       ops_in last_clk (nvl_mask l) (h1 + ucast (e_size e)) rest"
proof -
  from assms have r: "nvlog_rep k l es" "ends_real es" by (simp_all add: op_rep_def)
  obtain bs e rest h1 where s: "es = bs @ e # rest" "\<forall>b\<in>set bs. \<not> is_real b" "is_real e" "ends_real rest"
    "h1 = head_cnt l + of_nat (total_size bs)" "nvlog_peek_head l = Some (Some e, l\<lparr>head_cnt := h1\<rparr>)"
    "nvlog_deq (l\<lparr>head_cnt := h1\<rparr>) = Some (Some e, l\<lparr>head_cnt := h1 + ucast (e_size e)\<rparr>)"
    "nvlog_rep k (l\<lparr>head_cnt := h1 + ucast (e_size e)\<rparr>) rest"
    using log_step [OF r(1) assms(2) r(2)] by metis
  from assms s obtain b where b: "op_body e = Some b" by (auto simp: op_rep_def)
  show thesis
    by (rule that [of bs e rest b h1]) (use assms s b rep_head_tail [OF r(1)] in
      \<open>auto simp: op_rep_def ops_in_append ops_in_bogus nvlog_index_def\<close>)
qed

text \<open>
  The counting loop counts them, and the new head it proposes leaves none of them behind.
\<close>

lemma count_ops_counts:
  assumes "op_rep k l es"
  shows "\<exists>hd' x. count_ops last_clk l hd_cnt n =
            Some (hd', n + length (ops_in last_clk (nvl_mask l) (head_cnt l) es), l\<lparr>head_cnt := x\<rparr>) \<and>
          (hd' = hd_cnt \<or> n = 0 \<and> (\<exists>xs ys. es = xs @ ys \<and> hd' = head_cnt l + of_nat (total_size xs) \<and>
                             ops_in last_clk (nvl_mask l) (head_cnt l) xs = []))"
  using assms
proof (induction "length es" arbitrary: l es hd_cnt n rule: less_induct)
  case less
  show ?case
  proof (cases "es = []")
    case True
    with less.prems rep_head_tail [of k l es] have "head_cnt l = tail_cnt l" by (simp add: op_rep_def)
    then have "count_ops last_clk l hd_cnt n = Some (hd_cnt, n, l\<lparr>head_cnt := head_cnt l\<rparr>)"
      by (subst count_ops.simps) simp
    with True show ?thesis by (intro exI [of _ hd_cnt] exI [of _ "head_cnt l"]) simp
  next
    case False
    obtain bs e b rest h1 where s: "es = bs @ e # rest" "\<forall>b\<in>set bs. \<not> is_real b" "is_real e" "op_body e = Some b"
      "h1 = head_cnt l + of_nat (total_size bs)" "nvlog_peek_head l = Some (Some e, l\<lparr>head_cnt := h1\<rparr>)"
      "nvlog_deq (l\<lparr>head_cnt := h1\<rparr>) = Some (Some e, l\<lparr>head_cnt := h1 + ucast (e_size e)\<rparr>)"
      "op_rep k (l\<lparr>head_cnt := h1 + ucast (e_size e)\<rparr>) rest" "head_cnt l \<noteq> tail_cnt l"
      and o: "ops_in last_clk (nvl_mask l) (head_cnt l) es =
        (if is_op_entry_valid b last_clk then [(nvlog_index l h1, e, b)] else []) @
        ops_in last_clk (nvl_mask l) (h1 + ucast (e_size e)) rest"
      using op_step [OF less.prems False, of last_clk] by metis
    define v where "v \<longleftrightarrow> is_op_entry_valid b last_clk"
    define h0 where "h0 = (if v \<and> n = 0 then h1 else hd_cnt)"
    define n0 where "n0 = (if v then Suc n else n)"
    have c: "count_ops last_clk l hd_cnt n = count_ops last_clk (l\<lparr>head_cnt := h1 + ucast (e_size e)\<rparr>) h0 n0"
      using s by (subst count_ops.simps) (simp add: v_def h0_def n0_def)
    have "length rest < length es" using s(1) by simp
    from less.hyps [OF this s(8), of h0 n0] obtain hd' x where i:
      "count_ops last_clk l hd_cnt n =
        Some (hd', n0 + length (ops_in last_clk (nvl_mask l) (h1 + ucast (e_size e)) rest), l\<lparr>head_cnt := x\<rparr>)"
      "hd' = h0 \<or> n0 = 0 \<and> (\<exists>xs ys. rest = xs @ ys \<and> hd' = h1 + ucast (e_size e) + of_nat (total_size xs) \<and>
         ops_in last_clk (nvl_mask l) (h1 + ucast (e_size e)) xs = [])"
      unfolding c by auto
    have "hd' = hd_cnt \<or> n = 0 \<and> (\<exists>xs ys. es = xs @ ys \<and> hd' = head_cnt l + of_nat (total_size xs) \<and>
            ops_in last_clk (nvl_mask l) (head_cnt l) xs = [])"
    proof (cases "n0 = 0 \<and> hd' \<noteq> h0")
      case False
      with i(2) have "hd' = h0" by blast
      moreover have "ops_in last_clk (nvl_mask l) (head_cnt l) bs = []" using s(2) by (rule ops_in_bogus)
      ultimately show ?thesis using s(1,5) unfolding h0_def by auto
    next
      case True
      with i(2) obtain xs ys where x: "rest = xs @ ys" "hd' = h1 + ucast (e_size e) + of_nat (total_size xs)"
         "ops_in last_clk (nvl_mask l) (h1 + ucast (e_size e)) xs = []" by blast
      have "\<not> v" "n = 0" using True by (auto simp: n0_def split: if_splits)
      then have "ops_in last_clk (nvl_mask l) (head_cnt l) (bs @ e # xs) = []"
        using x(3) s by (simp add: ops_in_append ops_in_bogus v_def)
      moreover have "hd' = head_cnt l + of_nat (total_size (bs @ e # xs))" using x(2) s(5) by (simp add: algebra_simps)
      moreover have "es = (bs @ e # xs) @ ys" using s(1) x(1) by simp
      ultimately show ?thesis using \<open>n = 0\<close> by blast
    qed
    with i(1) o show ?thesis by (intro exI) (auto simp: n0_def v_def)
  qed
qed

section \<open>Filling the arrays\<close>

type_synonym found_op = "nat \<times> u32 \<times> log_entry \<times> op_entry_hdr"

text \<open>The arrays for a sequence of operations, the first of which has the context \<open>n\<close>.\<close>

fun replay_list :: "nat \<Rightarrow> found_op list \<Rightarrow> replay_entry list" where
  "replay_list n [] = []"
| "replay_list n ((p, i, e, b) # ops) =
     \<lparr>time_stamp = oe_local_clk b, re_type = OPLOG_REPLAY_TYPE_EXEC, re_context = n\<rparr> #
     \<lparr>time_stamp = e_wrt_clk e, re_type = OPLOG_REPLAY_TYPE_COMMIT, re_context = n\<rparr> # replay_list (Suc n) ops"

definition context_of :: "found_op \<Rightarrow> op_context" where
  "context_of = (\<lambda>(p, i, e, b). \<lparr>oc_thread = None, oc_op_entry = (p, i)\<rparr>)"

lemma length_replay_list [simp]: "length (replay_list n ops) = 2 * length ops"
  by (induction n ops rule: replay_list.induct) auto

lemma replay_list_append: "replay_list n (xs @ ys) = replay_list n xs @ replay_list (n + length xs) ys"
  by (induction n xs rule: replay_list.induct) auto

definition filled :: "found_op list \<Rightarrow> nat \<Rightarrow> replay_arrays" where
  "filled ops m = (map Some (replay_list 0 ops) @ replicate (2 * m) None, map (Some \<circ> context_of) ops @ replicate m None)"

lemma put_replay_filled:
  "put_replay (2 * length ops) (add_op_replay p i e b (2 * length ops div 2)) (filled ops (Suc m)) =
     Some (filled (ops @ [(p, i, e, b)]) m)"
  by (simp add: put_replay_def add_op_replay_def filled_def replay_list_append context_of_def list_update_append)

abbreviation of_store :: "nat \<Rightarrow> (u32 \<times> log_entry \<times> op_entry_hdr) list \<Rightarrow> found_op list" where
  "of_store p \<equiv> map (Pair p)"

lemma collect_ops_collects:
  assumes "op_rep k l es" "length (ops_in last_clk (nvl_mask l) (head_cnt l) es) \<le> m"
  shows "\<exists>x. collect_ops last_clk p l (2 * length ops) (filled ops m) =
           Some (2 * length (ops @ of_store p (ops_in last_clk (nvl_mask l) (head_cnt l) es)),
                 filled (ops @ of_store p (ops_in last_clk (nvl_mask l) (head_cnt l) es))
                        (m - length (ops_in last_clk (nvl_mask l) (head_cnt l) es)), l\<lparr>head_cnt := x\<rparr>)"
  using assms
proof (induction "length es" arbitrary: l es ops m rule: less_induct)
  case less
  show ?case
  proof (cases "es = []")
    case True
    with less.prems rep_head_tail [of k l es] have "head_cnt l = tail_cnt l" by (simp add: op_rep_def)
    with True show ?thesis by (subst collect_ops.simps) (simp, intro exI [of _ "head_cnt l"], simp)
  next
    case False
    obtain bs e b rest h1 where s: "es = bs @ e # rest" "\<forall>b\<in>set bs. \<not> is_real b" "is_real e" "op_body e = Some b"
      "h1 = head_cnt l + of_nat (total_size bs)" "nvlog_peek_head l = Some (Some e, l\<lparr>head_cnt := h1\<rparr>)"
      "nvlog_deq (l\<lparr>head_cnt := h1\<rparr>) = Some (Some e, l\<lparr>head_cnt := h1 + ucast (e_size e)\<rparr>)"
      "op_rep k (l\<lparr>head_cnt := h1 + ucast (e_size e)\<rparr>) rest" "head_cnt l \<noteq> tail_cnt l"
      and o: "ops_in last_clk (nvl_mask l) (head_cnt l) es =
        (if is_op_entry_valid b last_clk then [(nvlog_index l h1, e, b)] else []) @
        ops_in last_clk (nvl_mask l) (h1 + ucast (e_size e)) rest"
      using op_step [OF less.prems(1) False, of last_clk] by metis
    define l2 where "l2 = l\<lparr>head_cnt := h1 + ucast (e_size e)\<rparr>"
    define R where "R = ops_in last_clk (nvl_mask l2) (head_cnt l2) rest"
    note ih = less.hyps [OF _ s(8) [folded l2_def], folded R_def]
    have len: "length rest < length es" using s(1) by simp
    have m: "nvl_mask l2 = nvl_mask l" "head_cnt l2 = h1 + ucast (e_size e)" "\<And>x. l2\<lparr>head_cnt := x\<rparr> = l\<lparr>head_cnt := x\<rparr>"
      by (simp_all add: l2_def)
    note o' = o [folded m(2), folded m(1), folded R_def, unfolded m(1)]
    show ?thesis
    proof (cases "is_op_entry_valid b last_clk")
      case True
      with less.prems(2) o' obtain m' where m': "m = Suc m'" "length R \<le> m'" by (cases m) auto
      have "collect_ops last_clk p l (2 * length ops) (filled ops m) =
              collect_ops last_clk p l2 (2 * length (ops @ [(p, nvlog_index l h1, e, b)])) (filled (ops @ [(p, nvlog_index l h1, e, b)]) m')"
        using s True m'(1) by (subst collect_ops.simps) (simp add: put_replay_filled [simplified] l2_def nvlog_index_def)
      with ih [OF len m'(2), of "ops @ [(p, nvlog_index l h1, e, b)]"] show ?thesis
        using True m' by (simp add: o' m)
    next
      case False
      then have "collect_ops last_clk p l (2 * length ops) (filled ops m) = collect_ops last_clk p l2 (2 * length ops) (filled ops m)"
        using s by (subst collect_ops.simps) (simp add: l2_def)
      with ih [OF len, of m ops] False less.prems(2) show ?thesis by (simp add: o' m)
    qed
  qed
qed

section \<open>All stores\<close>

definition is_oplog :: "nv_body nvlog_store \<Rightarrow> bool" where
  "is_oplog st \<longleftrightarrow> s_type st = TYPE_OPLOG \<and> s_status st = STATUS_NVLOG_NORMAL"

definition oplog_ok :: "nv_body nvlog_store \<Rightarrow> bool" where
  "oplog_ok st \<longleftrightarrow> (\<exists>k\<in>{6..<32}. op_rep k (nvlog_load st) (nvlog_raw (nvlog_load st)))"

lemma op_rep_ok: "op_rep k (nvlog_load st) es \<Longrightarrow> oplog_ok st"
  using rep_raw [of k "nvlog_load st" es] unfolding oplog_ok_def by (auto simp: op_rep_def nvlog_rep_def)

definition store_ops :: "u64 \<Rightarrow> nv_body nvlog_store \<Rightarrow> (u32 \<times> log_entry \<times> op_entry_hdr) list" where
  "store_ops last_clk st =
     (if is_oplog st then ops_in last_clk (s_mask st) (s_head_cnt st) (nvlog_raw (nvlog_load st)) else [])"

text \<open>The operations of all logs that the last checkpoint does not cover.\<close>

fun all_ops :: "u64 \<Rightarrow> (nat \<rightharpoonup> nv_body nvlog_store) \<Rightarrow> nat list \<Rightarrow> found_op list" where
  "all_ops last_clk sts [] = []"
| "all_ops last_clk sts (p # ps) =
     (case sts p of None \<Rightarrow> [] | Some st \<Rightarrow> of_store p (store_ops last_clk st)) @ all_ops last_clk sts ps"

lemma all_ops_cong: "\<forall>p\<in>set ps. map_option (store_ops c) (sts' p) = map_option (store_ops c) (sts p) \<Longrightarrow> all_ops c sts' ps = all_ops c sts ps"
  by (induction ps) (auto split: option.splits)

definition stores_ok :: "(nat \<rightharpoonup> nv_body nvlog_store) \<Rightarrow> nat list \<Rightarrow> bool" where
  "stores_ok sts ps \<longleftrightarrow> (\<forall>p\<in>set ps. case sts p of None \<Rightarrow> False | Some st \<Rightarrow> is_oplog st \<longrightarrow> oplog_ok st)"

abbreviation with_stores :: "(nat \<rightharpoonup> nv_body nvlog_store) \<Rightarrow> sys \<Rightarrow> sys" where
  "with_stores sts s \<equiv> s\<lparr>root := (root s)\<lparr>r_stores := sts\<rparr>\<rparr>"

text \<open>Moving the head of a log forward over entries that are not replayed.\<close>

lemma truncated_store:
  assumes "op_rep k (nvlog_load st) (xs @ ys)" "ops_in c (s_mask st) (s_head_cnt st) xs = []" "is_oplog st"
  shows "oplog_ok (st\<lparr>s_head_cnt := s_head_cnt st + of_nat (total_size xs)\<rparr>)"
    and "store_ops c (st\<lparr>s_head_cnt := s_head_cnt st + of_nat (total_size xs)\<rparr>) = store_ops c st"
proof -
  let ?st = "st\<lparr>s_head_cnt := s_head_cnt st + of_nat (total_size xs)\<rparr>"
  have "nvlog_rep k ((nvlog_load st)\<lparr>head_cnt := head_cnt (nvlog_load st) + of_nat (total_size xs)\<rparr>) ys"
    using assms(1) by (intro rep_suffix) (simp add: op_rep_def)
  then have r: "op_rep k (nvlog_load ?st) ys"
    using assms(1) ends_real_append [of xs ys] by (auto simp: op_rep_def nvlog_rep_def nvlog_load_def nvlog_mem_def nvlog_used_def)
  then show "oplog_ok ?st" by (rule op_rep_ok)
  have "nvlog_raw (nvlog_load ?st) = ys" "nvlog_raw (nvlog_load st) = xs @ ys"
    using r assms(1) rep_raw by (auto simp: op_rep_def)
  then show "store_ops c ?st = store_ops c st"
    using assms(2,3) by (simp add: store_ops_def ops_in_append is_oplog_def)
qed

lemma count_store:
  assumes "is_oplog st" "oplog_ok st"
  shows "\<exists>hd' l' st'. count_ops c (nvlog_load st) (head_cnt (nvlog_load st)) n = Some (hd', n + length (store_ops c st), l') \<and>
           nvl_store (snd (nvlog_truncate_head l' hd')) = Some st' \<and> is_oplog st' \<and> oplog_ok st' \<and>
           store_ops c st' = store_ops c st \<and> s_next st' = s_next st"
proof -
  obtain k es where r: "op_rep k (nvlog_load st) es" "nvlog_raw (nvlog_load st) = es" using assms(2) by (auto simp: oplog_ok_def)
  have o: "ops_in c (nvl_mask (nvlog_load st)) (head_cnt (nvlog_load st)) es = store_ops c st"
    using assms(1) r by (simp add: store_ops_def nvlog_load_def)
  obtain hd' x where h: "count_ops c (nvlog_load st) (head_cnt (nvlog_load st)) n =
      Some (hd', n + length (store_ops c st), (nvlog_load st)\<lparr>head_cnt := x\<rparr>)"
    "hd' = s_head_cnt st \<or> (\<exists>xs ys. es = xs @ ys \<and> hd' = s_head_cnt st + of_nat (total_size xs) \<and> ops_in c (s_mask st) (s_head_cnt st) xs = [])"
    using count_ops_counts [OF r(1), of c "head_cnt (nvlog_load st)" n] unfolding o by (auto simp: nvlog_load_def)
  let ?st = "st\<lparr>s_head_cnt := hd'\<rparr>"
  have "nvl_store (snd (nvlog_truncate_head ((nvlog_load st)\<lparr>head_cnt := x\<rparr>) hd')) = Some ?st"
    by (cases st) (auto simp: nvlog_truncate_head_def nvlog_load_def Let_def)
  moreover have "oplog_ok ?st \<and> store_ops c ?st = store_ops c st"
    using h(2) assms truncated_store [of k st _ _ c] r by auto
  moreover have "is_oplog ?st" using assms(1) by (simp add: is_oplog_def)
  ultimately show ?thesis using h(1) by fastforce
qed

lemma count_stores_counts:
  assumes "store_list (r_stores (root s)) cur ps" "distinct ps" "stores_ok (r_stores (root s)) ps" "\<And>p. nvl_mem p"
  shows "\<exists>sts. count_stores nvl_mem c cur n s = Some (None, n + length (all_ops c (r_stores (root s)) ps), with_stores sts s) \<and>
           store_list sts cur ps \<and> stores_ok sts ps \<and> all_ops c sts ps = all_ops c (r_stores (root s)) ps \<and>
           (\<forall>q. q \<notin> set ps \<longrightarrow> sts q = r_stores (root s) q)"
  using assms(1-3)
proof (induction ps arbitrary: cur n s)
  case Nil
  then have "count_stores nvl_mem c cur n s = Some (None, n, with_stores (r_stores (root s)) s)"
    by (subst count_stores.simps) simp
  with Nil show ?case by (intro exI [of _ "r_stores (root s)"]) (simp add: stores_ok_def)
next
  case (Cons p ps)
  obtain st where st: "cur = Some p" "r_stores (root s) p = Some st" "store_list (r_stores (root s)) (s_next st) ps"
    using Cons.prems(1) by (auto split: option.splits)
  have dist: "p \<notin> set ps" "distinct ps" using Cons.prems(2) by auto
  have okp: "stores_ok (r_stores (root s)) ps" "is_oplog st \<Longrightarrow> oplog_ok st"
    using Cons.prems(3) st by (auto simp: stores_ok_def)
  obtain st' n1 where step: "count_stores nvl_mem c cur n s =
        count_stores nvl_mem c (s_next st) n1 (with_stores ((r_stores (root s))(p \<mapsto> st')) s)"
      "n1 = n + length (store_ops c st)" "is_oplog st' = is_oplog st" "is_oplog st \<longrightarrow> oplog_ok st'" "store_ops c st' = store_ops c st" "s_next st' = s_next st"
  proof (cases "is_oplog st")
    case True
    then obtain hd' l' st' where h: "count_ops c (nvlog_load st) (head_cnt (nvlog_load st)) n = Some (hd', n + length (store_ops c st), l')"
      "nvl_store (snd (nvlog_truncate_head l' hd')) = Some st'" "is_oplog st'" "oplog_ok st'" "store_ops c st' = store_ops c st" "s_next st' = s_next st"
      using count_store [OF True okp(2), of c n] by blast
    show thesis
    proof (rule that [of "n + length (store_ops c st)" st'])
      show "count_stores nvl_mem c cur n s =
        count_stores nvl_mem c (s_next st) (n + length (store_ops c st)) (with_stores ((r_stores (root s))(p \<mapsto> st')) s)"
        using True st h assms(4) by (subst count_stores.simps) (simp add: is_oplog_def reconstruct_volatile_nvlog_def put_store_def)
    qed (use h True in simp_all)
  next
    case False
    show thesis
    proof (rule that [of n st])
      show "count_stores nvl_mem c cur n s = count_stores nvl_mem c (s_next st) n (with_stores ((r_stores (root s))(p \<mapsto> st)) s)"
        using False st by (subst count_stores.simps) (auto simp: is_oplog_def fun_upd_idem)
    qed (use False in \<open>simp_all add: store_ops_def\<close>)
  qed
  define s1 where "s1 = with_stores ((r_stores (root s))(p \<mapsto> st')) s"
  have rs: "r_stores (root s1) = (r_stores (root s))(p \<mapsto> st')" by (simp add: s1_def)
  have "store_list (r_stores (root s1)) (s_next st) ps" "stores_ok (r_stores (root s1)) ps"
    using st(3) okp(1) dist by (auto simp: rs stores_ok_def intro: store_list_cong)
  from Cons.IH [OF this(1) dist(2) this(2), of n1] obtain sts where ih:
    "count_stores nvl_mem c (s_next st) n1 s1 = Some (None, n1 + length (all_ops c (r_stores (root s1)) ps), with_stores sts s1)"
    "store_list sts (s_next st) ps" "stores_ok sts ps" "all_ops c sts ps = all_ops c (r_stores (root s1)) ps"
    "\<forall>q. q \<notin> set ps \<longrightarrow> sts q = r_stores (root s1) q" by blast
  have a: "all_ops c (r_stores (root s1)) ps = all_ops c (r_stores (root s)) ps"
    using dist by (intro all_ops_cong) (auto simp: rs)
  have p: "sts p = Some st'" using ih(5) dist rs by simp
  have "with_stores sts s1 = with_stores sts s" by (simp add: s1_def)
  with ih step a p st show ?case
    by (intro exI [of _ sts]) (auto simp: s1_def [symmetric] stores_ok_def rs)
qed

lemma collect_stores_collects:
  assumes "store_list (r_stores (root s)) cur ps" "distinct ps" "stores_ok (r_stores (root s)) ps" "\<And>p. nvl_mem p"
    and "length (all_ops c (r_stores (root s)) ps) \<le> m"
  shows "collect_stores nvl_mem c cur (2 * length ops) (filled ops m) s =
           Some (None, 2 * length (ops @ all_ops c (r_stores (root s)) ps),
                 filled (ops @ all_ops c (r_stores (root s)) ps) (m - length (all_ops c (r_stores (root s)) ps)), s)"
  using assms(1-3,5)
proof (induction ps arbitrary: cur ops m)
  case Nil
  then show ?case by (subst collect_stores.simps) simp
next
  case (Cons p ps)
  obtain st where st: "cur = Some p" "r_stores (root s) p = Some st" "store_list (r_stores (root s)) (s_next st) ps"
    using Cons.prems(1) by (auto split: option.splits)
  have okp: "stores_ok (r_stores (root s)) ps" "is_oplog st \<Longrightarrow> oplog_ok st" "distinct ps"
    using Cons.prems(2,3) st by (auto simp: stores_ok_def)
  define S where "S = of_store p (store_ops c st)"
  have le: "length S \<le> m" "length (all_ops c (r_stores (root s)) ps) \<le> m - length S"
    using Cons.prems(4) st(2) by (simp_all add: S_def)
  have step: "collect_stores nvl_mem c cur (2 * length ops) (filled ops m) s =
        collect_stores nvl_mem c (s_next st) (2 * length (ops @ S)) (filled (ops @ S) (m - length S)) s"
  proof (cases "is_oplog st")
    case True
    then obtain k es where r: "op_rep k (nvlog_load st) es" "nvlog_raw (nvlog_load st) = es"
      using okp(2) by (auto simp: oplog_ok_def)
    have o: "ops_in c (nvl_mask (nvlog_load st)) (head_cnt (nvlog_load st)) es = store_ops c st"
      using True r by (simp add: store_ops_def nvlog_load_def)
    obtain x where x: "collect_ops c p (nvlog_load st) (2 * length ops) (filled ops m) =
        Some (2 * length (ops @ S), filled (ops @ S) (m - length S), (nvlog_load st)\<lparr>head_cnt := x\<rparr>)"
      using collect_ops_collects [OF r(1), of c m p ops] le(1) by (auto simp: o S_def)
    have "put_store p (snd (nvlog_truncate_head ((nvlog_load st)\<lparr>head_cnt := x\<rparr>) (head_cnt (nvlog_load st)))) s = s"
      using st(2) by (simp add: nvlog_truncate_head_def nvlog_load_def put_store_def Let_def fun_upd_idem)
    with True st x assms(4) show ?thesis
      by (subst collect_stores.simps) (simp add: is_oplog_def reconstruct_volatile_nvlog_def)
  next
    case False
    then have "S = []" by (simp add: S_def store_ops_def)
    with False st show ?thesis by (subst collect_stores.simps) (auto simp: is_oplog_def)
  qed
  show ?case
    using Cons.IH [OF st(3) okp(3,1) le(2), of "ops @ S"] st(2) by (simp add: step S_def)
qed

section \<open>Properties\<close>

text \<open>
  C11. What the recovery of the operation logs computes. Let the list of stores be well formed and
  every operation log tile its live part with entries, the last one not bogus. Then both passes
  return (with memory available): the context array lists, in the order of the logs, exactly the
  operations that started after the last checkpoint, and the sorted array holds the execution and
  the commit of each of them exactly once, in the order of their time stamps if these fit into
  the window of the comparison. The first pass, which also moves a log's head, loses none.
\<close>

theorem oplog_recovery_collects:
  assumes "store_list (r_stores (root s)) (r_next (root s)) ps" "distinct ps" "stores_ok (r_stores (root s)) ps"
    and "ops = all_ops (r_last_ckpt_clk (root s)) (r_stores (root s)) ps" "48 * length ops < 2 ^ 31"
  shows "\<exists>rs s'. oplog_recovery (\<lambda>_. True) True True s = Some ((None, map Some rs, map (Some \<circ> context_of) ops), s') \<and>
           mset rs = mset (replay_list 0 ops) \<and>
           (\<forall>b. set (replay_list 0 ops) \<subseteq> replay_window b \<longrightarrow> sorted_wrt replay_before rs)"
proof -
  let ?c = "r_last_ckpt_clk (root s)"
  obtain sts where a: "count_stores (\<lambda>_. True) ?c (r_next (root s)) 0 s = Some (None, length ops, with_stores sts s)"
    "store_list sts (r_next (root s)) ps" "stores_ok sts ps" "all_ops ?c sts ps = ops"
    using count_stores_counts [OF assms(1-3), of "\<lambda>_. True" ?c 0] assms(4) by auto
  define s1 where "s1 = with_stores sts s"
  have s1: "r_next (root s1) = r_next (root s)" "r_last_ckpt_clk (root s1) = ?c" "r_stores (root s1) = sts" by (simp_all add: s1_def)
  have "alloc_replay_array (\<lambda>_. True) True True s = Some ((None, replicate (2 * length ops) None, replicate (length ops) None), s1)"
    using a(1) assms(5) by (simp add: alloc_replay_array_def nvlog_get_last_ckpt_clk_def s1_def)
  moreover have "collect_replay_entries (\<lambda>_. True) (filled [] (length ops)) s1 = Some (None, length ops, filled ops 0, s1)"
    using collect_stores_collects [of s1 "r_next (root s1)" ps "\<lambda>_. True" ?c "length ops" "[]"] a assms(2)
    by (simp add: collect_replay_entries_def nvlog_get_last_ckpt_clk_def s1)
  moreover have "sort_replay_array (map Some (replay_list 0 ops)) (length ops) = Some (map Some (qsort comp_replay_entries (replay_list 0 ops)))"
    by (simp add: sort_replay_array_def take_map o_def)
  ultimately have "oplog_recovery (\<lambda>_. True) True True s =
      Some ((None, map Some (qsort comp_replay_entries (replay_list 0 ops)), map (Some \<circ> context_of) ops), s1)"
    by (simp add: oplog_recovery_def filled_def)
  then show ?thesis using mset_qsort replay_qsort_sorted by blast
qed

text \<open>A root object with one operation log that holds one operation, started at 7 and committed at 12.\<close>

definition demo_op :: log_entry where
  "demo_op = \<lparr>e_wrt_clk = 12, e_size = 64, e_type = TYPE_ACTUAL, e_body = Some (OpBody \<lparr>oe_local_clk = 7, oe_op_type = 1, oe_opd = []\<rparr>)\<rparr>"

definition demo_crash :: sys where
  "demo_crash = demo_sys\<lparr>root := demo_root\<lparr>r_next := Some 1, r_last_ckpt_clk := 5, r_stores := [1 \<mapsto> demo_store 0 64 [0 \<mapsto> demo_op]]\<rparr>\<rparr>"

lemma demo_op_rep: "op_rep 8 (nvlog_load (demo_store 0 64 [0 \<mapsto> demo_op])) [demo_op]"
  by (simp add: op_rep_def nvlog_rep_def nvlog_load_def demo_store_def nvlog_used_def nvlog_mem_def demo_op_def ring_index_def ends_real_def op_body_def)

lemma demo_crash_ops: "all_ops 5 (r_stores (root demo_crash)) [1] = [(1, 0, demo_op, \<lparr>oe_local_clk = 7, oe_op_type = 1, oe_opd = []\<rparr>)]"
proof -
  have "nvlog_raw (nvlog_load (demo_store 0 64 [0 \<mapsto> demo_op])) = [demo_op]" using demo_op_rep rep_raw by (auto simp: op_rep_def)
  then show ?thesis
    by (simp add: demo_crash_def store_ops_def is_oplog_def demo_store_def op_body_def demo_op_def is_op_entry_valid_def ring_index_def)
qed

theorem oplog_recovery_collects_witness:
  "\<exists>rs cs s'. oplog_recovery (\<lambda>_. True) True True demo_crash = Some ((None, map Some rs, cs), s') \<and>
     mset rs = mset [\<lparr>time_stamp = 7, re_type = OPLOG_REPLAY_TYPE_EXEC, re_context = 0\<rparr>,
                     \<lparr>time_stamp = 12, re_type = OPLOG_REPLAY_TYPE_COMMIT, re_context = 0\<rparr>]"
proof -
  have r: "r_next (root demo_crash) = Some 1" "r_last_ckpt_clk (root demo_crash) = 5"
    "r_stores (root demo_crash) = [1 \<mapsto> demo_store 0 64 [0 \<mapsto> demo_op]]" by (simp_all add: demo_crash_def)
  have "stores_ok (r_stores (root demo_crash)) [1]" using op_rep_ok [OF demo_op_rep] by (simp add: stores_ok_def r)
  moreover have "store_list (r_stores (root demo_crash)) (r_next (root demo_crash)) [1]" by (simp add: r demo_store_def)
  ultimately have "\<exists>rs s'. oplog_recovery (\<lambda>_. True) True True demo_crash =
      Some ((None, map Some rs, map (Some \<circ> context_of) [(1, 0, demo_op, \<lparr>oe_local_clk = 7, oe_op_type = 1, oe_opd = []\<rparr>)]), s') \<and>
      mset rs = mset (replay_list 0 [(1, 0, demo_op, \<lparr>oe_local_clk = 7, oe_op_type = 1, oe_opd = []\<rparr>)])"
    using oplog_recovery_collects [of demo_crash "[1]", OF _ _ _ refl] demo_crash_ops r(2) by auto
  then show ?thesis by (auto simp: demo_op_def)
qed

end
