(* ===== verification/CkptRecovery.thy ===== *)
theory CkptRecovery
  imports Recovery LogWalk
begin

text \<open>
  Recovery of the checkpoint logs (\<open>ckptlog_recovery\<close>): every log is read up to the first entry of
  a checkpoint that was not completed, and for every object the newest entry that was read becomes
  the current master. The theorem follows the code through all logs of the root object.
\<close>

section \<open>What was read so far\<close>

type_synonym found_ck = "nat \<times> u32 \<times> log_entry \<times> ckpt_entry_hdr"

definition found_for :: "found_ck list \<Rightarrow> nat \<Rightarrow> bool" where
  "found_for V a \<longleftrightarrow> (\<exists>(p, i, e, ck)\<in>set V. ck_np_org_act ck = Act a)"

definition newest_for :: "found_ck list \<Rightarrow> nat \<Rightarrow> nat \<Rightarrow> u32 \<Rightarrow> log_entry \<Rightarrow> bool" where
  "newest_for V a p i e \<longleftrightarrow>
     (\<exists>ck. (p, i, e, ck) \<in> set V \<and> ck_np_org_act ck = Act a) \<and>
     (\<forall>(q, j, d, ck)\<in>set V. ck_np_org_act ck = Act a \<longrightarrow> e_wrt_clk d \<le> e_wrt_clk e)"

lemma found_snoc [simp]: "found_for (V @ [(p, i, e, ck)]) a \<longleftrightarrow> found_for V a \<or> ck_np_org_act ck = Act a"
  by (auto simp: found_for_def)

lemma found_Nil [simp]: "\<not> found_for [] a"
  by (simp add: found_for_def)

lemma newest_other:
  "newest_for V a q j d \<Longrightarrow> ck_np_org_act ck \<noteq> Act a \<Longrightarrow> newest_for (V @ [(p, i, e, ck)]) a q j d"
  by (auto simp: newest_for_def)

lemma newest_first: "\<not> found_for V a \<Longrightarrow> ck_np_org_act ck = Act a \<Longrightarrow> newest_for (V @ [(p, i, e, ck)]) a p i e"
  by (auto simp: newest_for_def found_for_def)

lemma newest_keep:
  "newest_for V a q j d \<Longrightarrow> e_wrt_clk e \<le> e_wrt_clk d \<Longrightarrow> newest_for (V @ [(p, i, e, ck)]) a q j d"
  by (auto simp: newest_for_def)

lemma newest_replace:
  "newest_for V a q j d \<Longrightarrow> e_wrt_clk d < e_wrt_clk e \<Longrightarrow> ck_np_org_act ck = Act a \<Longrightarrow> newest_for (V @ [(p, i, e, ck)]) a p i e"
  by (fastforce simp: newest_for_def)

lemmas newest_intros = newest_other newest_first newest_keep newest_replace

section \<open>The invariant\<close>

definition current_is :: "sys \<Rightarrow> nat \<Rightarrow> ptr \<Rightarrow> bool" where
  "current_is s v q \<longleftrightarrow> (\<exists>h. vhdrs s v = Some h \<and> np_cur_act h = q)"

definition obj_inv :: "u64 \<Rightarrow> found_ck list \<Rightarrow> sys \<Rightarrow> nat \<Rightarrow> act_obj \<Rightarrow> bool" where
  "obj_inv gid V s a ao \<longleftrightarrow>
     (if found_for V a
      then a_gen_id ao = gid \<and>
           (\<exists>v p i e. a_vhdr ao = Some v \<and> newest_for V a p i e \<and> current_is s v (Ckpt p i) \<and> rec_entry s p i = Some e)
      else a_gen_id ao \<noteq> gid \<or> a_vhdr ao = None)"

definition recovered :: "u64 \<Rightarrow> act_obj \<Rightarrow> nat \<Rightarrow> bool" where
  "recovered gid ao v \<longleftrightarrow> a_gen_id ao = gid \<and> a_vhdr ao = Some v"

definition rec_inv :: "u64 \<Rightarrow> found_ck list \<Rightarrow> sys \<Rightarrow> bool" where
  "rec_inv gid V s \<longleftrightarrow>
     (\<forall>a ao. acts s a = Some ao \<longrightarrow> obj_inv gid V s a ao) \<and>
     (\<forall>a b ao bo v. acts s a = Some ao \<longrightarrow> acts s b = Some bo \<longrightarrow> recovered gid ao v \<longrightarrow> recovered gid bo v \<longrightarrow> a = b)"

lemma rec_invD:
  assumes "rec_inv gid V s"
  shows "acts s a = Some ao \<Longrightarrow> obj_inv gid V s a ao"
    and "acts s a = Some ao \<Longrightarrow> acts s b = Some bo \<Longrightarrow> recovered gid ao v \<Longrightarrow> recovered gid bo v \<Longrightarrow> a = b"
  using assms unfolding rec_inv_def by blast+

lemma recovered_found: "rec_inv gid V s \<Longrightarrow> acts s a = Some ao \<Longrightarrow> recovered gid ao v \<Longrightarrow> found_for V a \<and> vhdrs s v \<noteq> None"
  using rec_invD(1) [of gid V s a ao] by (auto simp: obj_inv_def recovered_def current_is_def split: if_splits)

text \<open>What one header needs: memory for one more volatile header.\<close>

definition heap_room :: "(sys \<Rightarrow> nat option) \<Rightarrow> nat \<Rightarrow> bool" where
  "heap_room mem N \<longleftrightarrow>
     (\<forall>s. finite (dom (vhdrs s)) \<longrightarrow> card (dom (vhdrs s)) < N \<longrightarrow> (\<exists>v. mem s = Some v \<and> vhdrs s v = None))"

definition headers :: "sys \<Rightarrow> nat \<Rightarrow> bool" where
  "headers s n \<longleftrightarrow> finite (dom (vhdrs s)) \<and> card (dom (vhdrs s)) \<le> n"

lemma headers_insert: "headers s n \<Longrightarrow> vhdrs s v = None \<Longrightarrow> vhdrs s' = (vhdrs s)(v \<mapsto> h) \<Longrightarrow> headers s' (Suc n)"
  by (simp add: headers_def card_insert_if)

lemma headers_upd: "headers s n \<Longrightarrow> vhdrs s' = vhdrs (upd_vhdr v f s) \<Longrightarrow> headers s' n"
proof -
  assume h: "headers s n" "vhdrs s' = vhdrs (upd_vhdr v f s)"
  then have "dom (vhdrs s') = dom (vhdrs s)" by (cases "vhdrs s v") (auto simp: upd_vhdr_def)
  with h show ?thesis by (simp add: headers_def)
qed

lemma rec_entry_root: "root s' = root s \<Longrightarrow> rec_entry s' p i = rec_entry s p i"
  by (simp add: rec_entry_def)

section \<open>Reconstructing one header\<close>

lemma header_new:
  assumes "rec_inv gid V s" "rec_entry s p i = Some e" "ck_body e = Some ck" "ck_np_org_act ck = Act a" "acts s a = Some ao"
    and "\<not> found_for V a" "heap_room mem N" "headers s n" "n < N"
  shows "\<exists>s'. reconstruct_volatile_header mem p i gid s = Some (None, s') \<and> rec_inv gid (V @ [(p, i, e, ck)]) s' \<and>
           root s' = root s \<and> headers s' (Suc n) \<and> dom (acts s') = dom (acts s)"
proof -
  obtain v where v: "mem s = Some v" "vhdrs s v = None"
    using assms(7-9) by (auto simp: heap_room_def headers_def)
  define f :: "act_obj \<Rightarrow> act_obj" where "f = (\<lambda>ao. ao\<lparr>a_vhdr := Some v, a_gen_id := gid\<rparr>)"
  define h where "h = \<lparr>p_copy = Null, p_lock = Null, np_org_act = Ckpt p i, np_cur_act = Ckpt p i, tombstone_clk = MAX_VERSION\<rparr>"
  define s' where "s' = upd_act a f (s\<lparr>vhdrs := (vhdrs s)(v \<mapsto> h)\<rparr>)"
  have acts': "acts s' = (acts s)(a \<mapsto> f ao)" and vh: "vhdrs s' = (vhdrs s)(v \<mapsto> h)" and rt: "root s' = root s"
    using assms(5) by (auto simp: s'_def upd_act_def)
  have "a_gen_id ao \<noteq> gid \<or> a_vhdr ao = None" using rec_invD(1) [OF assms(1,5)] assms(6) by (auto simp: obj_inv_def)
  then have "reconstruct_volatile_header mem p i gid s = Some (None, s')"
    using assms(2-5) v by (simp add: reconstruct_volatile_header_def alloc_act_vhdr_def s'_def f_def h_def)
  moreover have "rec_inv gid (V @ [(p, i, e, ck)]) s'"
  proof -
    have other: "obj_inv gid (V @ [(p, i, e, ck)]) s' b bo" if b: "acts s b = Some bo" "b \<noteq> a" for b bo
    proof -
      have "obj_inv gid V s b bo" using rec_invD(1) [OF assms(1) b(1)] .
      then show ?thesis
        using b assms(4) v(2) newest_other [of V b _ _ _ ck p i e]
        by (auto simp: obj_inv_def vh current_is_def rec_entry_root [OF rt] split: if_splits)
    qed
    have "obj_inv gid (V @ [(p, i, e, ck)]) s' a (f ao)"
      using newest_first [OF assms(6,4), of p i e] assms(2,4) by (auto simp: obj_inv_def f_def current_is_def vh h_def rec_entry_root [OF rt])
    moreover have "recovered gid bo w \<Longrightarrow> acts s b = Some bo \<Longrightarrow> w \<noteq> v" for b bo w
      using recovered_found [OF assms(1)] v(2) by blast
    ultimately show ?thesis
      using other assms(1) unfolding rec_inv_def acts' by (auto simp: recovered_def f_def split: if_splits)
  qed
  moreover have "headers s' (Suc n)" using headers_insert [OF assms(8) v(2) vh] .
  moreover have "dom (acts s') = dom (acts s)" using assms(5) by (auto simp: acts')
  ultimately show ?thesis using rt by blast
qed

lemma header_again:
  assumes "rec_inv gid V s" "rec_entry s p i = Some e" "ck_body e = Some ck" "ck_np_org_act ck = Act a" "acts s a = Some ao"
    and "found_for V a" "headers s n"
  shows "\<exists>s'. reconstruct_volatile_header mem p i gid s = Some (None, s') \<and> rec_inv gid (V @ [(p, i, e, ck)]) s' \<and>
           root s' = root s \<and> headers s' (Suc n) \<and> acts s' = acts s"
proof -
  obtain v q j d where v: "a_gen_id ao = gid" "a_vhdr ao = Some v" "newest_for V a q j d" "current_is s v (Ckpt q j)" "rec_entry s q j = Some d"
    using rec_invD(1) [OF assms(1,5)] assms(6) by (auto simp: obj_inv_def)
  define s' where "s' = (if e_wrt_clk d < e_wrt_clk e then upd_vhdr v (\<lambda>h. h\<lparr>np_cur_act := Ckpt p i\<rparr>) s else s)"
  have rt: "root s' = root s" "acts s' = acts s" by (simp_all add: s'_def store_simps)
  have r: "reconstruct_volatile_header mem p i gid s = Some (None, s')"
    using assms(2-5) v by (auto simp: reconstruct_volatile_header_def s'_def current_is_def)
  have cur: "current_is s' w c = (if w = v \<and> e_wrt_clk d < e_wrt_clk e then c = Ckpt p i else current_is s w c)" for w c
    using v(4) by (auto simp: current_is_def s'_def store_simps)
  have "obj_inv gid (V @ [(p, i, e, ck)]) s' b bo" if b: "acts s b = Some bo" for b bo
  proof (cases "b = a")
    case True
    show ?thesis
    proof (cases "e_wrt_clk d < e_wrt_clk e")
      case new: True
      show ?thesis
        using True new b v assms(2,4,5) newest_replace [OF v(3) new assms(4), of p i]
        by (auto simp: obj_inv_def cur rec_entry_root [OF rt(1)])
    next
      case old: False
      then have "newest_for (V @ [(p, i, e, ck)]) a q j d" using newest_keep [OF v(3)] by (simp add: not_less)
      moreover have "current_is s' v (Ckpt q j)" using old v(4) by (simp add: cur)
      ultimately show ?thesis
        using True b v assms(4-6) by (auto simp: obj_inv_def rec_entry_root [OF rt(1)])
    qed
  next
    case False
    have "recovered gid bo w \<Longrightarrow> w \<noteq> v" for w
      using rec_invD(2) [OF assms(1) assms(5) b, of v] v(1,2) False by (auto simp: recovered_def)
    then show ?thesis
      using rec_invD(1) [OF assms(1) b] assms(4) False newest_other [of V b _ _ _ ck p i e]
      by (auto simp: obj_inv_def cur rec_entry_root [OF rt(1)] recovered_def split: if_splits) metis
  qed
  then have "rec_inv gid (V @ [(p, i, e, ck)]) s'" using assms(1) by (simp add: rec_inv_def rt)
  moreover have "headers s' n" using assms(7) headers_upd [OF assms(7)] by (auto simp: s'_def)
  then have "headers s' (Suc n)" by (simp add: headers_def)
  ultimately show ?thesis using r rt by blast
qed

lemma header_step:
  assumes "rec_inv gid V s" "rec_entry s p i = Some e" "ck_body e = Some ck" "ck_np_org_act ck = Act a" "acts s a \<noteq> None"
    and "heap_room mem N" "headers s n" "n < N"
  shows "\<exists>s'. reconstruct_volatile_header mem p i gid s = Some (None, s') \<and> rec_inv gid (V @ [(p, i, e, ck)]) s' \<and>
           root s' = root s \<and> headers s' (Suc n) \<and> dom (acts s') = dom (acts s)"
proof -
  obtain ao where "acts s a = Some ao" using assms(5) by blast
  then show ?thesis
    using header_new [OF assms(1-4) _ _ assms(6-8)] header_again [OF assms(1-4) _ _ assms(7), of ao mem] by (cases "found_for V a") auto
qed

section \<open>One log\<close>

text \<open>The entries of a log that are read: up to the first one of a checkpoint after \<open>last_clk\<close>.\<close>

fun ckpts_in :: "u64 \<Rightarrow> u64 \<Rightarrow> u64 \<Rightarrow> log_entry list \<Rightarrow> (u32 \<times> log_entry \<times> ckpt_entry_hdr) list" where
  "ckpts_in last_clk m c [] = []"
| "ckpts_in last_clk m c (e # es) =
     (if \<not> is_real e then ckpts_in last_clk m (c + ucast (e_size e)) es
      else (case ck_body e of
              None \<Rightarrow> []
            | Some ck \<Rightarrow>
                if ckpt_s_clk ck > last_clk then []
                else (ring_index m c, e, ck) # ckpts_in last_clk m (c + ucast (e_size e)) es))"

lemma ckpts_in_bogus:
  "\<forall>b\<in>set bs. \<not> is_real b \<Longrightarrow> ckpts_in last_clk m c (bs @ es) = ckpts_in last_clk m (c + of_nat (total_size bs)) es"
  by (induction bs arbitrary: c) (auto simp: algebra_simps)

definition masters_of :: "nat set \<Rightarrow> log_entry list \<Rightarrow> bool" where
  "masters_of A es \<longleftrightarrow>
     (\<forall>e\<in>set es. is_real e \<longrightarrow> (\<exists>ck a. ck_body e = Some ck \<and> ck_np_org_act ck = Act a \<and> a \<in> A))"

lemma recover_log_reads:
  assumes "nvlog_rep k l es" "ends_real es" "masters_of (dom (acts s)) es"
    and "r_stores (root s) p = Some st" "s_mem st = nvlog_mem l"
    and "rec_inv gid V s" "heap_room mem N" "headers s n"
    and "n + length (ckpts_in c (nvl_mask l) (head_cnt l) es) \<le> N"
  shows "\<exists>x s'. ckptlog_recover_log mem c gid p l s = Some (None, l\<lparr>head_cnt := x\<rparr>, s') \<and>
           rec_inv gid (V @ map (Pair p) (ckpts_in c (nvl_mask l) (head_cnt l) es)) s' \<and> root s' = root s \<and>
           headers s' (n + length (ckpts_in c (nvl_mask l) (head_cnt l) es)) \<and> dom (acts s') = dom (acts s)"
  using assms(1-6,8-9)
proof (induction "length es" arbitrary: l es s V n rule: less_induct)
  case less
  show ?case
  proof (cases "es = []")
    case True
    with less.prems rep_head_tail [of k l es] have "head_cnt l = tail_cnt l" by simp
    with True less.prems show ?thesis
      by (subst ckptlog_recover_log.simps) (intro exI [of _ "head_cnt l"] exI [of _ s], simp)
  next
    case False
    obtain bs e rest h1 where s: "es = bs @ e # rest" "\<forall>b\<in>set bs. \<not> is_real b" "is_real e" "ends_real rest"
      "h1 = head_cnt l + of_nat (total_size bs)" "nvlog_peek_head l = Some (Some e, l\<lparr>head_cnt := h1\<rparr>)"
      "nvlog_deq (l\<lparr>head_cnt := h1\<rparr>) = Some (Some e, l\<lparr>head_cnt := h1 + ucast (e_size e)\<rparr>)"
      "nvlog_rep k (l\<lparr>head_cnt := h1 + ucast (e_size e)\<rparr>) rest" "nvlog_mem l (ring_index (nvl_mask l) h1) = Some e"
      using log_step [OF less.prems(1) False less.prems(2)] by metis
    have ne: "head_cnt l \<noteq> tail_cnt l" using rep_head_tail [OF less.prems(1)] False by simp
    obtain ck a where ck: "ck_body e = Some ck" "ck_np_org_act ck = Act a" "acts s a \<noteq> None"
      using less.prems(3) s(1,3) by (auto simp: masters_of_def)
    define i where "i = ring_index (nvl_mask l) h1"
    define l2 where "l2 = l\<lparr>head_cnt := h1 + ucast (e_size e)\<rparr>"
    have l2: "nvl_mask l2 = nvl_mask l" "head_cnt l2 = h1 + ucast (e_size e)" "nvlog_mem l2 = nvlog_mem l" "\<And>x. l2\<lparr>head_cnt := x\<rparr> = l\<lparr>head_cnt := x\<rparr>"
      by (simp_all add: l2_def nvlog_mem_def)
    define R where "R = ckpts_in c (nvl_mask l2) (head_cnt l2) rest"
    have cks: "ckpts_in c (nvl_mask l) (head_cnt l) es = (if ckpt_s_clk ck > c then [] else (i, e, ck) # R)"
      using s(1-3,5) ck(1) by (simp add: ckpts_in_bogus i_def R_def l2)
    have re: "rec_entry s p i = Some e" using less.prems(4,5) s(9) by (simp add: rec_entry_def i_def)
    show ?thesis
    proof (cases "ckpt_s_clk ck > c")
      case True
      with ne s(6) ck(1) have "ckptlog_recover_log mem c gid p l s = Some (None, l\<lparr>head_cnt := h1\<rparr>, s)"
        by (subst ckptlog_recover_log.simps) simp
      with True less.prems show ?thesis by (auto simp: cks)
    next
      case False
      then have "n < N" using less.prems(8) by (simp add: cks)
      from header_step [OF less.prems(6) re ck(1,2,3) assms(7) less.prems(7) this] obtain s1 where s1:
        "reconstruct_volatile_header mem p i gid s = Some (None, s1)" "rec_inv gid (V @ [(p, i, e, ck)]) s1"
        "root s1 = root s" "headers s1 (Suc n)" "dom (acts s1) = dom (acts s)" by blast
      have step: "ckptlog_recover_log mem c gid p l s = ckptlog_recover_log mem c gid p l2 s1"
        using False ne s(6,7) ck(1) s1(1) by (subst ckptlog_recover_log.simps) (simp add: nvlog_index_def i_def l2_def)
      have "\<exists>x s'. ckptlog_recover_log mem c gid p l2 s1 = Some (None, l2\<lparr>head_cnt := x\<rparr>, s') \<and>
           rec_inv gid ((V @ [(p, i, e, ck)]) @ map (Pair p) R) s' \<and> root s' = root s1 \<and>
           headers s' (Suc n + length R) \<and> dom (acts s') = dom (acts s1)"
        unfolding R_def
      proof (rule less.hyps)
        show "length rest < length es" "ends_real rest" "nvlog_rep k l2 rest" using s by (simp_all add: l2_def)
        show "masters_of (dom (acts s1)) rest" using less.prems(3) s(1) unfolding masters_of_def s1(5) by simp
        show "r_stores (root s1) p = Some st" "s_mem st = nvlog_mem l2" using less.prems(4,5) s1(3) by (simp_all add: l2(3))
        show "Suc n + length (ckpts_in c (nvl_mask l2) (head_cnt l2) rest) \<le> N"
          using less.prems(8) False by (simp add: cks R_def [symmetric])
      qed (fact s1(2), fact s1(4))
      with False s1(3,5) show ?thesis by (auto simp: step cks l2)
    qed
  qed
qed

section \<open>All logs\<close>

definition is_ckptlog :: "nv_body nvlog_store \<Rightarrow> bool" where
  "is_ckptlog st \<longleftrightarrow> s_type st = TYPE_CKPTLOG \<and> s_status st = STATUS_NVLOG_NORMAL"

definition store_ckpts :: "u64 \<Rightarrow> nv_body nvlog_store \<Rightarrow> (u32 \<times> log_entry \<times> ckpt_entry_hdr) list" where
  "store_ckpts c st = (if is_ckptlog st then ckpts_in c (s_mask st) (s_head_cnt st) (nvlog_raw (nvlog_load st)) else [])"

fun all_ckpts :: "u64 \<Rightarrow> (nat \<rightharpoonup> nv_body nvlog_store) \<Rightarrow> nat list \<Rightarrow> found_ck list" where
  "all_ckpts c sts [] = []"
| "all_ckpts c sts (p # ps) =
     (case sts p of None \<Rightarrow> [] | Some st \<Rightarrow> map (Pair p) (store_ckpts c st)) @ all_ckpts c sts ps"

lemma all_ckpts_cong: "\<forall>p\<in>set ps. sts' p = sts p \<Longrightarrow> all_ckpts c sts' ps = all_ckpts c sts ps"
  by (induction ps) auto

definition ckptlogs_ok :: "nat set \<Rightarrow> (nat \<rightharpoonup> nv_body nvlog_store) \<Rightarrow> nat list \<Rightarrow> bool" where
  "ckptlogs_ok A sts ps \<longleftrightarrow>
     (\<forall>p\<in>set ps. case sts p of
        None \<Rightarrow> False
      | Some st \<Rightarrow> is_ckptlog st \<longrightarrow>
          (\<exists>k es. nvlog_rep k (nvlog_load st) es \<and> ends_real es \<and> masters_of A es))"

lemma rec_inv_cong:
  assumes "rec_inv gid V s" "acts s' = acts s" "vhdrs s' = vhdrs s" "\<And>p i. rec_entry s' p i = rec_entry s p i"
  shows "rec_inv gid V s'"
proof -
  have "current_is s' = current_is s" "rec_entry s' = rec_entry s" using assms(3,4) by (auto simp: current_is_def fun_eq_iff)
  then have "obj_inv gid V s' = obj_inv gid V s" by (simp add: obj_inv_def fun_eq_iff)
  then show ?thesis using assms(1) by (simp add: rec_inv_def assms(2))
qed

lemma recover_stores_reads:
  assumes "store_list (r_stores (root s)) cur ps" "distinct ps" "ckptlogs_ok (dom (acts s)) (r_stores (root s)) ps"
    and "rec_inv gid V s" "heap_room mem N" "headers s n" "n + length (all_ckpts c (r_stores (root s)) ps) \<le> N"
  shows "\<exists>s'. ckptlog_recover_stores (\<lambda>_. True) mem c gid cur s = Some (None, s') \<and>
           rec_inv gid (V @ all_ckpts c (r_stores (root s)) ps) s' \<and> dom (acts s') = dom (acts s)"
  using assms(1-4,6,7)
proof (induction ps arbitrary: cur s V n)
  case Nil
  then show ?case by (subst ckptlog_recover_stores.simps) auto
next
  case (Cons p ps)
  obtain st where st: "cur = Some p" "r_stores (root s) p = Some st" "store_list (r_stores (root s)) (s_next st) ps"
    using Cons.prems(1) by (auto split: option.splits)
  have ok: "ckptlogs_ok (dom (acts s)) (r_stores (root s)) ps" "distinct ps" "p \<notin> set ps"
    using Cons.prems(2,3) by (auto simp: ckptlogs_ok_def)
  let ?all = "all_ckpts c (r_stores (root s)) ps"
  show ?case
  proof (cases "is_ckptlog st")
    case False
    then have "ckptlog_recover_stores (\<lambda>_. True) mem c gid cur s = ckptlog_recover_stores (\<lambda>_. True) mem c gid (s_next st) s"
      using st by (subst ckptlog_recover_stores.simps) (auto simp: is_ckptlog_def)
    with Cons.IH [OF st(3) ok(2,1) Cons.prems(4,5)] Cons.prems(6) False st(2) show ?thesis by (auto simp: store_ckpts_def)
  next
    case True
    with Cons.prems(3) st(2) obtain k es where es: "nvlog_rep k (nvlog_load st) es" "ends_real es" "masters_of (dom (acts s)) es"
      by (auto simp: ckptlogs_ok_def)
    have ck: "ckpts_in c (nvl_mask (nvlog_load st)) (head_cnt (nvlog_load st)) es = store_ckpts c st"
      using rep_raw [OF es(1)] True by (simp add: store_ckpts_def nvlog_load_def)
    have mm: "s_mem st = nvlog_mem (nvlog_load st)" by (simp add: nvlog_mem_def nvlog_load_def)
    obtain x s1 where s1: "ckptlog_recover_log mem c gid p (nvlog_load st) s = Some (None, (nvlog_load st)\<lparr>head_cnt := x\<rparr>, s1)"
      "rec_inv gid (V @ map (Pair p) (store_ckpts c st)) s1" "root s1 = root s" "headers s1 (n + length (store_ckpts c st))"
      "dom (acts s1) = dom (acts s)"
      using recover_log_reads [OF es st(2) mm Cons.prems(4) assms(5) Cons.prems(5), of c] Cons.prems(6) st(2) unfolding ck by auto
    define s2 where "s2 = put_store p (snd (nvlog_truncate_tail ((nvlog_load st)\<lparr>head_cnt := x\<rparr>) x)) s1"
    have r2: "r_stores (root s2) = (r_stores (root s))(p \<mapsto> st\<lparr>s_tail_cnt := x\<rparr>)" and a2: "acts s2 = acts s1" "vhdrs s2 = vhdrs s1"
      by (cases st, auto simp: s2_def put_store_def nvlog_truncate_tail_def nvlog_load_def Let_def s1(3))
    have "rec_entry s2 q i = rec_entry s1 q i" for q i using st(2) by (simp add: rec_entry_def r2 s1(3))
    then have inv2: "rec_inv gid (V @ map (Pair p) (store_ckpts c st)) s2" using rec_inv_cong [OF s1(2) a2] by simp
    have "ckptlog_recover_stores (\<lambda>_. True) mem c gid cur s = ckptlog_recover_stores (\<lambda>_. True) mem c gid (s_next st) s2"
      using True st s1(1) by (subst ckptlog_recover_stores.simps) (simp add: is_ckptlog_def reconstruct_volatile_nvlog_def s2_def)
    moreover have "store_list (r_stores (root s2)) (s_next st) ps" "ckptlogs_ok (dom (acts s2)) (r_stores (root s2)) ps"
      using st(3) ok s1(5) by (auto simp: r2 a2 ckptlogs_ok_def intro: store_list_cong)
    moreover have "all_ckpts c (r_stores (root s2)) ps = ?all" using ok(3) by (intro all_ckpts_cong) (auto simp: r2)
    moreover have "headers s2 (n + length (store_ckpts c st))" using s1(4) by (simp add: headers_def a2)
    ultimately show ?thesis
      using Cons.IH [of s2 "s_next st" "V @ map (Pair p) (store_ckpts c st)" "n + length (store_ckpts c st)"] ok(2) inv2 Cons.prems(6) st(2) s1(5)
      by (auto simp: a2)
  qed
qed

section \<open>Properties\<close>

text \<open>
  C8. Recovery of the checkpoint logs reads every log up to the first entry of an incomplete
  checkpoint, and for every object makes the newest of all entries read, by write clock, the
  current master, whatever the order of the logs and of the entries in them; objects without an
  entry get no volatile header. It needs a well-formed list of stores, headers of the previous
  run recognisable by their generation, logs of entries of existing objects that do not end with
  a bogus entry, and memory for one header per entry.
\<close>

theorem ckptlog_recovery_newest:
  assumes "store_list (r_stores (root s)) (r_next (root s)) ps" "distinct ps"
    and "ckptlogs_ok (dom (acts s)) (r_stores (root s)) ps"
    and "\<forall>a ao. acts s a = Some ao \<longrightarrow> a_gen_id ao \<noteq> r_gen_id (root s) \<or> a_vhdr ao = None"
    and "V = all_ckpts (r_last_ckpt_clk (root s)) (r_stores (root s)) ps"
    and "heap_room mem N" "finite (dom (vhdrs s))" "card (dom (vhdrs s)) + length V \<le> N"
  shows "\<exists>s'. ckptlog_recovery (\<lambda>_. True) mem s = Some (None, s') \<and> dom (acts s') = dom (acts s) \<and>
           (\<forall>a ao. acts s' a = Some ao \<longrightarrow>
              (if found_for V a
               then \<exists>v h p i e. a_vhdr ao = Some v \<and> a_gen_id ao = r_gen_id (root s) \<and> vhdrs s' v = Some h \<and>
                      np_cur_act h = Ckpt p i \<and> rec_entry s' p i = Some e \<and> newest_for V a p i e
               else a_gen_id ao \<noteq> r_gen_id (root s) \<or> a_vhdr ao = None))"
proof -
  let ?g = "r_gen_id (root s)"
  have "rec_inv ?g [] s" using assms(4) by (auto simp: rec_inv_def obj_inv_def recovered_def)
  then obtain s' where "ckptlog_recovery (\<lambda>_. True) mem s = Some (None, s')" "rec_inv ?g V s'" "dom (acts s') = dom (acts s)"
    using recover_stores_reads [OF assms(1-3) _ assms(6), of ?g "[]" "card (dom (vhdrs s))" "r_last_ckpt_clk (root s)"] assms(5,7,8)
    by (auto simp: ckptlog_recovery_def nvlog_get_last_ckpt_clk_def nvm_get_gen_id_def headers_def)
  moreover have "if found_for V a
       then \<exists>v h p i e. a_vhdr ao = Some v \<and> a_gen_id ao = ?g \<and> vhdrs s' v = Some h \<and>
              np_cur_act h = Ckpt p i \<and> rec_entry s' p i = Some e \<and> newest_for V a p i e
       else a_gen_id ao \<noteq> ?g \<or> a_vhdr ao = None" if "acts s' a = Some ao" for a ao
    using rec_invD(1) [OF \<open>rec_inv ?g V s'\<close> that] by (auto simp: obj_inv_def current_is_def split: if_splits)
  ultimately show ?thesis by blast
qed

text \<open>Two checkpoint logs with an entry each for the same object, the newer one in the second log.\<close>

definition demo_ck_hdr :: ckpt_entry_hdr where
  "demo_ck_hdr = \<lparr>ckpt_s_clk = 4, ck_np_org_act = Act 9, ck_tombstone = False, ck_obj_size = 8, ck_type = TYPE_NVLOG_ENTRY, ck_data = []\<rparr>"

definition demo_ck_ent :: "u64 \<Rightarrow> log_entry" where
  "demo_ck_ent clk = \<lparr>e_wrt_clk = clk, e_size = 64, e_type = TYPE_ACTUAL, e_body = Some (CkBody demo_ck_hdr)\<rparr>"

definition demo_ck_store :: "u64 \<Rightarrow> nat option \<Rightarrow> nv_body nvlog_store" where
  "demo_ck_store clk n = (demo_store 0 64 [0 \<mapsto> demo_ck_ent clk])\<lparr>s_type := TYPE_CKPTLOG, s_next := n\<rparr>"

definition demo_ck_crash :: sys where
  "demo_ck_crash =
     demo_sys\<lparr>acts := [9 \<mapsto> \<lparr>a_vhdr = Some 5, a_gen_id = 1, a_index = 0, a_obj_size = 8, a_type = TYPE_ACTUAL, a_data = []\<rparr>],
       root := demo_root\<lparr>r_gen_id := 2, r_next := Some 2, r_last_ckpt_clk := 5,
                         r_stores := [2 \<mapsto> demo_ck_store 3 (Some 3), 3 \<mapsto> demo_ck_store 8 None]\<rparr>\<rparr>"

definition demo_heap :: "sys \<Rightarrow> nat option" where
  "demo_heap s = (if vhdrs s 0 = None then Some 0 else if vhdrs s 1 = None then Some 1 else None)"

lemma demo_heap_room: "heap_room demo_heap 2"
proof (unfold heap_room_def, intro allI impI)
  fix s :: sys assume f: "finite (dom (vhdrs s))" "card (dom (vhdrs s)) < 2"
  have "\<not> {0, 1} \<subseteq> dom (vhdrs s)"
  proof
    assume "{0, 1} \<subseteq> dom (vhdrs s)"
    from card_mono [OF f(1) this] f(2) show False by simp
  qed
  then show "\<exists>v. demo_heap s = Some v \<and> vhdrs s v = None" by (auto simp: demo_heap_def)
qed

lemma demo_ck_ent_rep: "nvlog_rep 8 (nvlog_load (demo_ck_store clk n)) [demo_ck_ent clk]"
  by (simp add: nvlog_rep_def nvlog_load_def demo_ck_store_def demo_store_def nvlog_used_def nvlog_mem_def demo_ck_ent_def ring_index_def)

lemma demo_ck_store_ckpts:
  "store_ckpts 5 (demo_ck_store clk n) = [(0, demo_ck_ent clk, demo_ck_hdr)]"
  using rep_raw [OF demo_ck_ent_rep, of clk n]
  by (simp add: store_ckpts_def is_ckptlog_def demo_ck_store_def demo_store_def ck_body_def demo_ck_ent_def demo_ck_hdr_def ring_index_def)

theorem ckptlog_recovery_newest_witness:
  "\<exists>s' ao v h. ckptlog_recovery (\<lambda>_. True) demo_heap demo_ck_crash = Some (None, s') \<and>
     acts s' 9 = Some ao \<and> a_vhdr ao = Some v \<and> vhdrs s' v = Some h \<and> np_cur_act h = Ckpt 3 0"
proof -
  let ?s = demo_ck_crash let ?e = demo_ck_ent let ?ck = demo_ck_hdr
  define V :: "found_ck list" where "V = [(2, 0, ?e 3, ?ck), (3, 0, ?e 8, ?ck)]"
  have r: "r_next (root ?s) = Some 2" "r_last_ckpt_clk (root ?s) = 5" "r_gen_id (root ?s) = 2"
    "r_stores (root ?s) = [2 \<mapsto> demo_ck_store 3 (Some 3), 3 \<mapsto> demo_ck_store 8 None]"
    "vhdrs ?s = Map.empty" "dom (acts ?s) = {9}"
    by (simp_all add: demo_ck_crash_def demo_sys_def)
  have ck: "ck_body (?e clk) = Some ?ck" "ck_np_org_act ?ck = Act 9" "is_real (?e clk)" for clk
    by (simp_all add: ck_body_def demo_ck_ent_def demo_ck_hdr_def)
  have V: "V = all_ckpts (r_last_ckpt_clk (root ?s)) (r_stores (root ?s)) [2, 3]"
    by (simp add: V_def r demo_ck_store_ckpts)
  have "ckptlogs_ok (dom (acts ?s)) (r_stores (root ?s)) [2, 3]"
    using demo_ck_ent_rep ck by (fastforce simp: ckptlogs_ok_def r ends_real_def masters_of_def)
  moreover have "store_list (r_stores (root ?s)) (r_next (root ?s)) [2, 3]" by (simp add: r demo_ck_store_def)
  moreover have "\<forall>a ao. acts ?s a = Some ao \<longrightarrow> a_gen_id ao \<noteq> r_gen_id (root ?s) \<or> a_vhdr ao = None"
    by (auto simp: demo_ck_crash_def split: if_splits)
  ultimately obtain s' where s': "ckptlog_recovery (\<lambda>_. True) demo_heap ?s = Some (None, s')" "dom (acts s') = {9}"
    "\<forall>a ao. acts s' a = Some ao \<longrightarrow>
       (if found_for V a
        then \<exists>v h p i e. a_vhdr ao = Some v \<and> a_gen_id ao = r_gen_id (root ?s) \<and> vhdrs s' v = Some h \<and>
               np_cur_act h = Ckpt p i \<and> rec_entry s' p i = Some e \<and> newest_for V a p i e
        else a_gen_id ao \<noteq> r_gen_id (root ?s) \<or> a_vhdr ao = None)"
    using ckptlog_recovery_newest [of ?s "[2, 3]" V demo_heap 2, OF _ _ _ _ V demo_heap_room] r(5,6) by (auto simp: V_def)
  obtain ao where ao: "acts s' 9 = Some ao" using s'(2) by blast
  have "found_for V 9" using ck by (simp add: V_def found_for_def)
  then obtain v h p i e where v: "a_vhdr ao = Some v" "vhdrs s' v = Some h" "np_cur_act h = Ckpt p i" "newest_for V 9 p i e"
    using s'(3) [rule_format, OF ao] by auto
  have "p = 3 \<and> i = 0" using v(4) ck(2) by (auto simp: newest_for_def V_def demo_ck_ent_def)
  with s'(1) ao v show ?thesis by blast
qed

end
