(* ===== verification/GracePeriod.thy ===== *)
theory GracePeriod
  imports Recovery
begin

text \<open>
  What a grace period and a reclamation barrier guarantee (\<open>qp_init\<close>, \<open>qp_wait\<close> and
  \<open>qp_reclaim_barrier\<close> of \<open>src/lib/qp.c\<close>). The application threads run while the qp thread polls:
  they start and end transactions, register and deregister; \<open>qp_rely\<close> says what they leave alone.
\<close>

section \<open>The live threads\<close>

definition live_list :: "sys \<Rightarrow> nat list option" where
  "live_list s = list_threads (live_threads s) (links s)"

definition live_ok :: "sys \<Rightarrow> bool" where
  "live_ok s \<longleftrightarrow> (\<exists>ts. live_list s = Some ts \<and> (\<forall>t\<in>set ts. thrs s t \<noteq> None))"

definition live :: "sys \<Rightarrow> nat \<Rightarrow> thread \<Rightarrow> bool" where
  "live s t th \<longleftrightarrow> (\<exists>ts. live_list s = Some ts \<and> t \<in> set ts \<and> thrs s t = Some th)"

lemma live_listE:
  assumes "live_ok s"
  obtains ts where "live_list s = Some ts" "\<forall>t\<in>set ts. \<exists>th. thrs s t = Some th"
  using assms by (auto simp: live_ok_def)

lemma unlock_fields:
  "tl_num (thread_list_unlock tls) = tl_num tls" "tl_list (thread_list_unlock tls) = tl_list tls" "\<not> tl_lock (thread_list_unlock tls)"
  by (simp_all add: thread_list_unlock_def Let_def)

lemma list_lock_irrelevant:
  "list_threads (tls\<lparr>tl_lock := b\<rparr>) ls = list_threads tls ls" "list_threads (thread_list_unlock tls) ls = list_threads tls ls"
  by (simp_all add: list_threads_def unlock_fields)

definition locked :: "sys \<Rightarrow> sys" where
  "locked s = s\<lparr>live_threads := (live_threads s)\<lparr>tl_lock := True\<rparr>\<rparr>"

lemma lock_live_eq: "\<not> tl_lock (live_threads s) \<Longrightarrow> lock_live s = Some (locked s)"
  by (simp add: lock_live_def thread_list_lock_def locked_def)

lemma live_list_simps [simp]:
  "live_list (locked s) = live_list s" "live_list (unlock_live s) = live_list s"
  "thrs (locked s) = thrs s" "thrs (unlock_live s) = thrs s"
  "tl_lock (live_threads (locked s))" "\<not> tl_lock (live_threads (unlock_live s))"
  by (simp_all add: live_list_def locked_def unlock_live_def list_lock_irrelevant unlock_fields)

lemma live_upd_thr [simp]:
  "live_list (upd_thr t f s) = live_list s" "live_threads (upd_thr t f s) = live_threads s"
  by (simp_all add: live_list_def upd_thr_def)

lemma live_eqI: "live_list s' = live_list s \<Longrightarrow> thrs s' = thrs s \<Longrightarrow> live s' = live s \<and> live_ok s' = live_ok s"
  by (simp add: live_def live_ok_def fun_eq_iff)

section \<open>Waiting for a grace period\<close>

text \<open>
  A thread has nothing to do with the transactions before the grace period: it was outside a
  transaction when the counters were taken, it has left the one it was in, or that one started
  after the qp clock.
\<close>

definition settled :: "u64 \<Rightarrow> thread \<Rightarrow> bool" where
  "settled clk th \<longleftrightarrow> qi_run_cnt (qp_info th) AND 1 = 0 \<or> passed_quiescence clk th"

definition wait_inv :: "(nat \<Rightarrow> u32) \<Rightarrow> u64 \<Rightarrow> sys \<Rightarrow> bool" where
  "wait_inv R clk s \<longleftrightarrow> live_ok s \<and>
     (\<forall>t th. live s t th \<longrightarrow> qi_run_cnt (qp_info th) \<in> {0, R t} \<and> (need_wait (qp_info th) = 0 \<longrightarrow> settled clk th))"

lemma wait_inv_cong: "live_list s' = live_list s \<Longrightarrow> thrs s' = thrs s \<Longrightarrow> wait_inv R clk s' = wait_inv R clk s"
  by (simp add: wait_inv_def live_def live_ok_def)

text \<open>
  What the application threads do between two polls of the qp thread: they leave its bookkeeping
  alone, a transaction counter that has moved does not come back to the recorded value, and a
  thread that registers starts with a cleared record. While the list is locked nobody registers.
\<close>

definition qp_rely :: "u64 \<Rightarrow> sys \<Rightarrow> sys \<Rightarrow> bool" where
  "qp_rely clk s s' \<longleftrightarrow>
     tl_lock (live_threads s') = tl_lock (live_threads s) \<and>
     (live_ok s \<longrightarrow> live_ok s') \<and>
     (tl_lock (live_threads s) \<longrightarrow> live_list s' = live_list s) \<and>
     (\<forall>t th'. live s' t th' \<longrightarrow>
        (\<exists>th. live s t th \<and> qp_info th' = qp_info th \<and> (passed_quiescence clk th \<longrightarrow> passed_quiescence clk th')) \<or>
        \<not> tl_lock (live_threads s) \<and> qp_info th' = \<lparr>need_wait = 0, qi_run_cnt = 0\<rparr>)"

lemma wait_inv_rely:
  assumes "qp_rely clk s s'" "wait_inv R clk s"
  shows "wait_inv R clk s'"
proof -
  have "qi_run_cnt (qp_info th') \<in> {0, R t} \<and> (need_wait (qp_info th') = 0 \<longrightarrow> settled clk th')" if l: "live s' t th'" for t th'
  proof -
    from assms(1) l have "(\<exists>th. live s t th \<and> qp_info th' = qp_info th \<and> (passed_quiescence clk th \<longrightarrow> passed_quiescence clk th')) \<or>
        qp_info th' = \<lparr>need_wait = 0, qi_run_cnt = 0\<rparr>" unfolding qp_rely_def by blast
    then show ?thesis
    proof (elim disjE exE conjE)
      fix th assume th: "live s t th" "qp_info th' = qp_info th" "passed_quiescence clk th \<longrightarrow> passed_quiescence clk th'"
      with assms(2) have "qi_run_cnt (qp_info th) \<in> {0, R t}" "need_wait (qp_info th) = 0 \<longrightarrow> settled clk th"
        by (auto simp: wait_inv_def)
      with th show ?thesis by (auto simp: settled_def)
    qed (simp add: settled_def)
  qed
  with assms show ?thesis by (auto simp: wait_inv_def qp_rely_def)
qed

definition waits_for :: "sys \<Rightarrow> nat \<Rightarrow> bool" where
  "waits_for s t \<longleftrightarrow> (\<exists>th. thrs s t = Some th \<and> need_wait (qp_info th) \<noteq> 0)"

text \<open>What holds between the start and the end of a scan of the locked list.\<close>

definition scan_rel :: "(nat \<Rightarrow> u32) \<Rightarrow> u64 \<Rightarrow> sys \<Rightarrow> sys \<Rightarrow> bool" where
  "scan_rel R clk s s' \<longleftrightarrow>
     wait_inv R clk s' \<and> tl_lock (live_threads s') \<and> live_list s' = live_list s \<and>
     (\<forall>ts. live_list s = Some ts \<longrightarrow> (\<forall>t\<in>set ts. waits_for s' t \<longrightarrow> waits_for s t))"

lemma scan_refl: "wait_inv R clk s \<Longrightarrow> tl_lock (live_threads s) \<Longrightarrow> scan_rel R clk s s"
  by (simp add: scan_rel_def)

lemma scan_trans: "scan_rel R clk s s' \<Longrightarrow> scan_rel R clk s' s'' \<Longrightarrow> scan_rel R clk s s''"
  by (auto simp: scan_rel_def)

lemma scan_env:
  assumes "qp_rely clk s s'" "wait_inv R clk s" "tl_lock (live_threads s)"
  shows "scan_rel R clk s s'"
proof -
  have w: "wait_inv R clk s'" "tl_lock (live_threads s')" "live_list s' = live_list s"
    using wait_inv_rely [OF assms(1,2)] assms by (simp_all add: qp_rely_def)
  have "waits_for s t" if ts: "live_list s = Some ts" "t \<in> set ts" "waits_for s' t" for ts t
  proof -
    obtain th' where th': "thrs s' t = Some th'" "need_wait (qp_info th') \<noteq> 0" using ts(3) by (auto simp: waits_for_def)
    then have "live s' t th'" using ts w(3) by (auto simp: live_def)
    with assms(1,3) obtain th where "live s t th" "qp_info th' = qp_info th" by (auto simp: qp_rely_def)
    with th' show ?thesis by (auto simp: waits_for_def live_def)
  qed
  with w show ?thesis by (simp add: scan_rel_def)
qed

definition mark_done :: "nat \<Rightarrow> sys \<Rightarrow> sys" where
  "mark_done t s = upd_thr t (\<lambda>th. th\<lparr>qp_info := (qp_info th)\<lparr>need_wait := 0\<rparr>\<rparr>) s"

lemma scan_done:
  assumes "wait_inv R clk s" "tl_lock (live_threads s)" "thrs s t = Some th" "passed_quiescence clk th"
  shows "scan_rel R clk s (mark_done t s) \<and> \<not> waits_for (mark_done t s) t"
proof -
  let ?s = "mark_done t s"
  have th': "thrs ?s u = (if u = t then Some (th\<lparr>qp_info := (qp_info th)\<lparr>need_wait := 0\<rparr>\<rparr>) else thrs s u)" for u
    using assms(3) by (simp add: mark_done_def store_simps)
  have l: "live_list ?s = live_list s" "live_threads ?s = live_threads s" by (simp_all add: mark_done_def)
  have "settled clk (th\<lparr>qp_info := (qp_info th)\<lparr>need_wait := 0\<rparr>\<rparr>)" using assms(4) by (simp add: settled_def passed_quiescence_def)
  then have "wait_inv R clk ?s" using assms(1,3) by (auto simp: wait_inv_def live_ok_def live_def l th' split: if_splits) blast
  then show ?thesis using assms by (auto simp: scan_rel_def waits_for_def l th' split: if_splits)
qed

lemma qp_wait_thread_scan:
  assumes "qp_wait_thread env clk t k s = Some r" "\<And>k s. qp_rely clk s (env k s)" "wait_inv R clk s" "tl_lock (live_threads s)"
  shows "scan_rel R clk s (snd (snd r)) \<and> (\<not> fst r \<longrightarrow> \<not> waits_for (snd (snd r)) t)"
proof -
  have "(\<forall>k s. qp_rely clk s (env k s)) \<longrightarrow> wait_inv R clk s \<longrightarrow> tl_lock (live_threads s) \<longrightarrow>
      scan_rel R clk s (snd (snd r)) \<and> (\<not> fst r \<longrightarrow> \<not> waits_for (snd (snd r)) t)"
  proof (rule qp_wait_thread.raw_induct [OF _ assms(1)], intro impI)
    fix f env clk t k s r
    assume IH: "\<And>env clk t k s r. f env clk t k s = Some r \<Longrightarrow>
        (\<forall>k s. qp_rely clk s (env k s)) \<longrightarrow> wait_inv R clk s \<longrightarrow> tl_lock (live_threads s) \<longrightarrow>
        scan_rel R clk s (snd (snd r)) \<and> (\<not> fst r \<longrightarrow> \<not> waits_for (snd (snd r)) t)"
      and step: "Option.bind (thrs s t) (\<lambda>th. if passed_quiescence clk th
         then Some (False, k, upd_thr t (\<lambda>th. th\<lparr>qp_info := (qp_info th)\<lparr>need_wait := 0\<rparr>\<rparr>) s)
         else if thread_list_has_waiter (live_threads s) then Some (True, k, s) else f env clk t (Suc k) (env k s)) = Some r"
      and rely: "\<forall>k s. qp_rely clk s (env k s)" and inv: "wait_inv R clk s" "tl_lock (live_threads s)"
    from step obtain th where th: "thrs s t = Some th" by (auto split: bind_splits)
    from step have step': "(if passed_quiescence clk th then Some (False, k, mark_done t s)
        else if thread_list_has_waiter (live_threads s) then Some (True, k, s) else f env clk t (Suc k) (env k s)) = Some r"
      unfolding mark_done_def th Option.bind.bind_lunit .
    have "passed_quiescence clk th \<and> r = (False, k, mark_done t s) \<or> r = (True, k, s) \<or> f env clk t (Suc k) (env k s) = Some r"
      using step' by (cases "passed_quiescence clk th"; cases "thread_list_has_waiter (live_threads s)") simp_all
    then consider "passed_quiescence clk th" "r = (False, k, mark_done t s)"
      | "r = (True, k, s)" | "f env clk t (Suc k) (env k s) = Some r" by blast
    then show "scan_rel R clk s (snd (snd r)) \<and> (\<not> fst r \<longrightarrow> \<not> waits_for (snd (snd r)) t)"
    proof cases
      case 1
      then show ?thesis using scan_done [OF inv th] by simp
    next
      case 2
      then show ?thesis using scan_refl [OF inv] by simp
    next
      case 3
      have e: "scan_rel R clk s (env k s)" using scan_env [OF _ inv] rely by blast
      then have "wait_inv R clk (env k s)" "tl_lock (live_threads (env k s))" by (auto simp: scan_rel_def)
      with IH [OF 3] rely e show ?thesis using scan_trans by blast
    qed
  qed
  with assms show ?thesis by blast
qed

lemma qp_wait_list_scan:
  assumes "\<And>k s. qp_rely clk s (env k s)"
  shows "qp_wait_list env clk ts k s = Some (retry, k', s') \<Longrightarrow> wait_inv R clk s \<Longrightarrow> tl_lock (live_threads s) \<Longrightarrow>
    live_list s = Some us \<Longrightarrow> set ts \<subseteq> set us \<Longrightarrow>
    scan_rel R clk s s' \<and> (\<not> retry \<longrightarrow> (\<forall>t\<in>set ts. \<not> waits_for s' t))"
proof (induction ts arbitrary: k s)
  case Nil
  then show ?case using scan_refl by simp
next
  case (Cons t ts)
  from Cons.prems(1) obtain th where th: "thrs s t = Some th" by (auto split: bind_splits)
  show ?case
  proof (cases "need_wait (qp_info th) = 0")
    case True
    with Cons.prems(1) th have w: "qp_wait_list env clk ts k s = Some (retry, k', s')" by simp
    have "\<not> waits_for s t" using th True by (simp add: waits_for_def)
    with Cons.IH [OF w Cons.prems(2-4)] Cons.prems(4,5) show ?thesis by (auto simp: scan_rel_def)
  next
    case False
    with Cons.prems(1) th obtain retry1 k1 s1 where w: "qp_wait_thread env clk t k s = Some (retry1, k1, s1)"
      "(if retry1 then Some (True, k1, s1) else qp_wait_list env clk ts k1 s1) = Some (retry, k', s')"
      by (auto split: bind_splits)
    have s1: "scan_rel R clk s s1" "\<not> retry1 \<longrightarrow> \<not> waits_for s1 t"
      using qp_wait_thread_scan [OF w(1) assms Cons.prems(2,3)] by auto
    show ?thesis
    proof (cases retry1)
      case True
      with w(2) s1 show ?thesis by simp
    next
      case False
      have i1: "wait_inv R clk s1" "tl_lock (live_threads s1)" "live_list s1 = Some us" using s1(1) Cons.prems(4) by (auto simp: scan_rel_def)
      from False w(2) have "qp_wait_list env clk ts k1 s1 = Some (retry, k', s')" by simp
      from Cons.IH [OF this i1] Cons.prems(5) s1 False i1(3) show ?thesis
        using scan_trans [OF s1(1)] by (auto simp: scan_rel_def)
    qed
  qed
qed

text \<open>When a wait returns, no live thread is still to be waited for.\<close>

lemma qp_wait_settles:
  assumes "qp_wait env clk k s = Some r" "\<And>k s. qp_rely clk s (env k s)" "wait_inv R clk s" "\<not> tl_lock (live_threads s)"
  shows "wait_inv R clk (snd r) \<and> \<not> tl_lock (live_threads (snd r)) \<and> (\<forall>t th. live (snd r) t th \<longrightarrow> need_wait (qp_info th) = 0)"
proof -
  have "(\<forall>k s. qp_rely clk s (env k s)) \<longrightarrow> wait_inv R clk s \<longrightarrow> \<not> tl_lock (live_threads s) \<longrightarrow>
      wait_inv R clk (snd r) \<and> \<not> tl_lock (live_threads (snd r)) \<and> (\<forall>t th. live (snd r) t th \<longrightarrow> need_wait (qp_info th) = 0)"
  proof (rule qp_wait.raw_induct [OF _ assms(1)], intro impI)
    fix f env clk k s r
    assume IH: "\<And>env clk k s r. f env clk k s = Some r \<Longrightarrow>
        (\<forall>k s. qp_rely clk s (env k s)) \<longrightarrow> wait_inv R clk s \<longrightarrow> \<not> tl_lock (live_threads s) \<longrightarrow>
        wait_inv R clk (snd r) \<and> \<not> tl_lock (live_threads (snd r)) \<and> (\<forall>t th. live (snd r) t th \<longrightarrow> need_wait (qp_info th) = 0)"
      and step: "Option.bind (lock_live s) (\<lambda>s. Option.bind (list_threads (live_threads s) (links s))
          (\<lambda>ts. Option.bind (qp_wait_list env clk ts k s) (\<lambda>(retry, k, s).
             if retry then f env clk (Suc k) (env k (unlock_live s)) else Some (k, unlock_live s)))) = Some r"
      and rely: "\<forall>k s. qp_rely clk s (env k s)" and inv: "wait_inv R clk s" "\<not> tl_lock (live_threads s)"
    obtain ts where ts: "live_list s = Some ts" using inv(1) by (auto simp: wait_inv_def live_ok_def)
    have l: "list_threads (live_threads (locked s)) (links (locked s)) = Some ts" using ts live_list_simps(1) [of s] by (simp add: live_list_def)
    obtain retry k1 s1 where w: "qp_wait_list env clk ts k (locked s) = Some (retry, k1, s1)"
      and out: "(if retry then f env clk (Suc k1) (env k1 (unlock_live s1)) else Some (k1, unlock_live s1)) = Some r"
      using step unfolding lock_live_eq [OF inv(2)] Option.bind.bind_lunit l
      by (cases "qp_wait_list env clk ts k (locked s)") auto
    have "wait_inv R clk (locked s)" using inv(1) wait_inv_cong [of "locked s" s] by simp
    from qp_wait_list_scan [OF rely [rule_format] w this live_list_simps(5)] ts
    have s1: "scan_rel R clk (locked s) s1" "\<not> retry \<longrightarrow> (\<forall>t\<in>set ts. \<not> waits_for s1 t)" by simp_all
    then have u: "wait_inv R clk (unlock_live s1)" "live_list s1 = Some ts"
      using ts wait_inv_cong [of "unlock_live s1" s1] by (simp_all add: scan_rel_def)
    show "wait_inv R clk (snd r) \<and> \<not> tl_lock (live_threads (snd r)) \<and> (\<forall>t th. live (snd r) t th \<longrightarrow> need_wait (qp_info th) = 0)"
    proof (cases retry)
      case True
      have e: "qp_rely clk (unlock_live s1) (env k1 (unlock_live s1))" using rely by blast
      have "\<not> tl_lock (live_threads (env k1 (unlock_live s1)))" using e by (simp add: qp_rely_def)
      moreover have "f env clk (Suc k1) (env k1 (unlock_live s1)) = Some r" using out True by simp
      ultimately show ?thesis using IH rely wait_inv_rely [OF e u(1)] by blast
    next
      case False
      then have "r = (k1, unlock_live s1)" using out by simp
      moreover have "need_wait (qp_info th) = 0" if "live (unlock_live s1) t th" for t th
        using that s1(2) False u(2) by (auto simp: live_def waits_for_def)
      ultimately show ?thesis using u by simp
    qed
  qed
  with assms show ?thesis by blast
qed

text \<open>The counters as \<open>qp_init\<close> records them.\<close>

lemma for_threads_init:
  "\<forall>t\<in>set ts. thrs s t \<noteq> None \<Longrightarrow>
   \<exists>s'. for_threads qp_init_thread ts s = Some s' \<and> live_threads s' = live_threads s \<and> links s' = links s \<and>
     (\<forall>t. thrs s' t = (if t \<in> set ts
        then map_option (\<lambda>th. th\<lparr>qp_info := \<lparr>need_wait = run_cnt th AND 1, qi_run_cnt = run_cnt th\<rparr>\<rparr>) (thrs s t) else thrs s t))"
proof (induction ts arbitrary: s)
  case (Cons t ts)
  then obtain th where th: "thrs s t = Some th" by auto
  let ?f = "\<lambda>th. th\<lparr>qp_info := \<lparr>need_wait = run_cnt th AND 1, qi_run_cnt = run_cnt th\<rparr>\<rparr>"
  let ?s = "upd_thr t ?f s"
  have s: "thrs ?s u = (if u = t then Some (?f th) else thrs s u)" for u using th by (simp add: store_simps)
  have i: "qp_init_thread t s = Some ?s" using th by (simp add: qp_init_thread_def)
  have "\<forall>u\<in>set ts. thrs ?s u \<noteq> None" using Cons.prems s by simp
  from Cons.IH [OF this] obtain s' where s': "for_threads qp_init_thread ts ?s = Some s'" "live_threads s' = live_threads ?s" "links s' = links ?s"
    "\<And>u. thrs s' u = (if u \<in> set ts then map_option ?f (thrs ?s u) else thrs ?s u)" by blast
  have "thrs s' u = (if u \<in> set (t # ts) then map_option ?f (thrs s u) else thrs s u)" for u using s'(4) s th by simp
  moreover have "live_threads ?s = live_threads s" "links ?s = links s" by (simp_all add: upd_thr_def)
  ultimately show ?case using s' i by simp
qed simp

lemma qp_init_records:
  assumes "live_ok s" "\<not> tl_lock (live_threads s)"
  obtains s1 where "qp_init s = Some s1" "\<not> tl_lock (live_threads s1)" "\<not> thread_wait (live_threads s1)"
    "\<And>clk. wait_inv (\<lambda>t. run_cnt (the (thrs s t))) clk s1" "live_list s1 = live_list s"
proof -
  obtain ts where ts: "live_list s = Some ts" "\<forall>t\<in>set ts. thrs s t \<noteq> None" using assms(1) by (auto simp: live_ok_def)
  obtain s' where s': "for_threads qp_init_thread ts (locked s) = Some s'" "live_threads s' = live_threads (locked s)" "links s' = links (locked s)"
    "\<And>t. thrs s' t = (if t \<in> set ts
        then map_option (\<lambda>th. th\<lparr>qp_info := \<lparr>need_wait = run_cnt th AND 1, qi_run_cnt = run_cnt th\<rparr>\<rparr>) (thrs s t) else thrs s t)"
    using for_threads_init [of ts "locked s"] ts(2) by auto
  have l: "list_threads (live_threads (locked s)) (links (locked s)) = Some ts" using ts live_list_simps(1) [of s] by (simp add: live_list_def)
  have 1: "qp_init s = Some (unlock_live s')" unfolding qp_init_def lock_live_eq [OF assms(2)] using l s'(1) by simp
  have "live_list s' = live_list (locked s)" by (simp only: live_list_def s'(2,3))
  then have l': "live_list s' = Some ts" using ts by simp
  then have 2: "live_list (unlock_live s') = live_list s" using ts by simp
  have "wait_inv (\<lambda>t. run_cnt (the (thrs s t))) clk (unlock_live s')" for clk
    using ts by (auto simp: wait_inv_def live_ok_def live_def l' s'(4) settled_def)
  from that [OF 1 _ _ this 2] show ?thesis by (simp add: unlock_live_def thread_list_unlock_def Let_def)
qed

lemma qp_rely_lock: "qp_rely clk s s' \<Longrightarrow> tl_lock (live_threads s') = tl_lock (live_threads s)"
  by (simp add: qp_rely_def)

interpretation polled: guarantee "qp_rely clk" "\<lambda>s. wait_inv R clk s \<and> \<not> tl_lock (live_threads s)" "\<lambda>s s'. True" for clk R
  by unfold_locales (auto dest: qp_rely_lock intro: wait_inv_rely)

section \<open>The grace period ends\<close>

fun run_env :: "(nat \<Rightarrow> sys \<Rightarrow> sys) \<Rightarrow> nat \<Rightarrow> nat \<Rightarrow> sys \<Rightarrow> sys" where
  "run_env env k 0 s = s"
| "run_env env k (Suc n) s = run_env env (Suc k) n (env k s)"

text \<open>Every transaction ends, however long it takes.\<close>

definition ends_txs :: "(nat \<Rightarrow> sys \<Rightarrow> sys) \<Rightarrow> u64 \<Rightarrow> bool" where
  "ends_txs env clk \<longleftrightarrow>
     (\<forall>k s t th. live s t th \<longrightarrow> (\<exists>n th'. thrs (run_env env k n s) t = Some th' \<and> passed_quiescence clk th'))"

definition calm :: "nat list \<Rightarrow> sys \<Rightarrow> bool" where
  "calm us s \<longleftrightarrow> live_ok s \<and> tl_lock (live_threads s) \<and> \<not> thread_wait (live_threads s) \<and> live_list s = Some us"

definition quiet :: "(nat \<Rightarrow> sys \<Rightarrow> sys) \<Rightarrow> u64 \<Rightarrow> bool" where
  "quiet env clk \<longleftrightarrow> (\<forall>k s. qp_rely clk s (env k s) \<and> (thread_wait (live_threads (env k s)) \<longrightarrow> thread_wait (live_threads s)))"

lemma calm_env: "quiet env clk \<Longrightarrow> calm us s \<Longrightarrow> calm us (env k s)"
  unfolding quiet_def calm_def qp_rely_def by (intro conjI; metis)

lemma calm_thr: "calm us s \<Longrightarrow> t \<in> set us \<Longrightarrow> \<exists>th. thrs s t = Some th \<and> live s t th"
  by (auto simp: calm_def live_ok_def live_def)

lemma calm_mark: "calm us s \<Longrightarrow> calm us (mark_done t s)"
  by (auto simp: calm_def live_ok_def mark_done_def upd_thr_def live_list_def split: option.splits)

lemma qp_wait_thread_returns:
  "thrs (run_env env k n s) t = Some th \<Longrightarrow> passed_quiescence clk th \<Longrightarrow> quiet env clk \<Longrightarrow> calm us s \<Longrightarrow> t \<in> set us \<Longrightarrow>
   \<exists>k' s'. qp_wait_thread env clk t k s = Some (False, k', s') \<and> calm us s'"
proof (induction n arbitrary: k s)
  case 0
  then have "qp_wait_thread env clk t k s = Some (False, k, mark_done t s)"
    by (subst qp_wait_thread.simps) (simp add: mark_done_def)
  with calm_mark [OF 0(4)] show ?case by blast
next
  case (Suc n)
  obtain th0 where th0: "thrs s t = Some th0" using calm_thr [OF Suc.prems(4,5)] by blast
  show ?case
  proof (cases "passed_quiescence clk th0")
    case True
    then have "qp_wait_thread env clk t k s = Some (False, k, mark_done t s)"
      using th0 by (subst qp_wait_thread.simps) (simp add: mark_done_def)
    with calm_mark [OF Suc.prems(4)] show ?thesis by blast
  next
    case False
    then have "qp_wait_thread env clk t k s = qp_wait_thread env clk t (Suc k) (env k s)"
      using th0 Suc.prems(4) by (subst qp_wait_thread.simps) (simp add: calm_def thread_list_has_waiter_def)
    with Suc.IH [OF _ Suc.prems(2,3) calm_env [OF Suc.prems(3,4)] Suc.prems(5)] Suc.prems(1) show ?thesis by simp
  qed
qed

lemma qp_wait_list_returns:
  assumes "quiet env clk" "ends_txs env clk"
  shows "calm us s \<Longrightarrow> set ts \<subseteq> set us \<Longrightarrow> \<exists>k' s'. qp_wait_list env clk ts k s = Some (False, k', s')"
proof (induction ts arbitrary: k s)
  case (Cons t ts)
  then obtain th where th: "thrs s t = Some th" "live s t th" using calm_thr by fastforce
  show ?case
  proof (cases "need_wait (qp_info th) = 0")
    case True
    then show ?thesis using Cons th by simp
  next
    case False
    obtain n th' where n: "thrs (run_env env k n s) t = Some th'" "passed_quiescence clk th'"
      using assms(2) th(2) unfolding ends_txs_def by blast
    obtain k1 s1 where "qp_wait_thread env clk t k s = Some (False, k1, s1)" "calm us s1"
      using qp_wait_thread_returns [OF n assms(1) Cons.prems(1)] Cons.prems(2) by auto
    with Cons.IH [of s1 k1] Cons.prems(2) False th show ?thesis by auto
  qed
qed simp

lemma qp_wait_returns_some:
  assumes "quiet env clk" "ends_txs env clk" "live_ok s" "\<not> tl_lock (live_threads s)" "\<not> thread_wait (live_threads s)"
  shows "\<exists>r. qp_wait env clk k s = Some r"
proof -
  obtain ts where ts: "live_list s = Some ts" using assms(3) by (auto simp: live_ok_def)
  then have c: "calm ts (locked s)" using assms(3,5) by (simp add: calm_def live_ok_def) (simp add: locked_def)
  then obtain k' s' where "qp_wait_list env clk ts k (locked s) = Some (False, k', s')"
    using qp_wait_list_returns [OF assms(1,2) c] by blast
  moreover have "list_threads (live_threads (locked s)) (links (locked s)) = Some ts" using c by (simp add: calm_def live_list_def)
  ultimately have "qp_wait env clk k s = Some (k', unlock_live s')"
    by (subst qp_wait.simps) (simp add: lock_live_eq [OF assms(4)])
  then show ?thesis by blast
qed

section \<open>Theorems\<close>

text \<open>
  C9. When \<open>qp_wait\<close> returns, a thread that was in a transaction when \<open>qp_init\<close> recorded its
  counter has left that transaction, unless its transaction started after the qp clock (or the
  thread has registered anew since). The other threads run, register and raise the waiter flag in
  the meantime.
\<close>

theorem qp_wait_grace_period:
  assumes "live_ok s" "\<not> tl_lock (live_threads s)" "qp_init s = Some s1" "(qp_rely clk)\<^sup>*\<^sup>* s1 s2"
    and "\<forall>k s. qp_rely clk s (env k s)" "qp_wait env clk k s2 = Some (k', s3)"
    and "live s t th0" "run_cnt th0 AND 1 \<noteq> 0" "live s3 t th" "qp_info th \<noteq> \<lparr>need_wait = 0, qi_run_cnt = 0\<rparr>"
  shows "run_cnt th \<noteq> run_cnt th0 \<or> gte_clock (local_clk th) clk"
proof -
  let ?R = "\<lambda>t. run_cnt (the (thrs s t))"
  have "wait_inv ?R clk s1" "\<not> tl_lock (live_threads s1)" using qp_init_records [OF assms(1,2)] assms(3) by auto
  then have "wait_inv ?R clk s2" "\<not> tl_lock (live_threads s2)" using polled.steps_keep [OF assms(4)] by blast+
  from qp_wait_settles [OF assms(6) assms(5) [rule_format] this] assms(9)
  have n: "need_wait (qp_info th) = 0" and "wait_inv ?R clk s3" by auto
  then have "qi_run_cnt (qp_info th) \<in> {0, ?R t}" "settled clk th" using assms(9) by (auto simp: wait_inv_def)
  moreover have "qi_run_cnt (qp_info th) \<noteq> 0" using n assms(10) by (cases "qp_info th") auto
  moreover have "?R t = run_cnt th0" using assms(7) by (auto simp: live_def)
  ultimately show ?thesis using assms(8) by (auto simp: settled_def passed_quiescence_def)
qed


text \<open>Two registered threads, the first in a transaction; every poll lets each thread leave the transaction recorded for it.\<close>

definition demo_live :: sys where
  "demo_live = demo_sys\<lparr>
     thrs := [3 \<mapsto> demo_thread\<lparr>run_cnt := 7\<rparr>, 4 \<mapsto> demo_thread\<lparr>run_cnt := 4\<rparr>],
     live_threads := (demo_list Live_head)\<lparr>tl_num := 2\<rparr>,
     links := \<lparr>nxt = [Live_head \<mapsto> Thread_node 3, Thread_node 3 \<mapsto> Thread_node 4, Thread_node 4 \<mapsto> Live_head],
               prv = [Thread_node 3 \<mapsto> Live_head, Thread_node 4 \<mapsto> Thread_node 3, Live_head \<mapsto> Thread_node 4]\<rparr>\<rparr>"

definition leave_tx :: "thread \<Rightarrow> thread" where
  "leave_tx th = (if run_cnt th = qi_run_cnt (qp_info th) then th\<lparr>run_cnt := run_cnt th + 1\<rparr> else th)"

definition demo_env :: "nat \<Rightarrow> sys \<Rightarrow> sys" where
  "demo_env k s = s\<lparr>thrs := \<lambda>t. map_option leave_tx (thrs s t)\<rparr>"

lemma leave_tx_passes: "passed_quiescence clk (leave_tx th)" "qp_info (leave_tx th) = qp_info th"
  by (auto simp: leave_tx_def passed_quiescence_def)

lemma demo_env_quiet: "quiet demo_env clk"
  by (auto simp: quiet_def qp_rely_def demo_env_def live_ok_def live_def live_list_def leave_tx_passes)

lemma demo_env_ends: "ends_txs demo_env clk"
proof -
  have "\<exists>n th'. thrs (run_env demo_env k n s) t = Some th' \<and> passed_quiescence clk th'" if "live s t th" for k s t th
    using that by (intro exI [of _ "Suc 0"]) (auto simp: live_def demo_env_def leave_tx_passes)
  then show ?thesis by (simp add: ends_txs_def)
qed

lemma demo_live_list: "live_list demo_live = Some [3, 4]"
  by code_simp

lemma demo_live_ok: "live_ok demo_live" "\<not> tl_lock (live_threads demo_live)"
  by (simp add: live_ok_def demo_live_list) (simp_all add: demo_live_def demo_list_def)



definition demo_grace :: "(sys \<times> nat \<times> sys) option" where
  "demo_grace = do { s1 \<leftarrow> qp_init demo_live; (k, s3) \<leftarrow> qp_wait demo_env 100 0 s1; Some (s1, k, s3) }"

declare qp_wait_thread.simps [code] qp_wait.simps [code]

lemma demo_grace_result:
  "map_option (\<lambda>(s1, k, s3). (k, live_list s3, map_option (\<lambda>th. (run_cnt th, need_wait (qp_info th), qi_run_cnt (qp_info th))) (thrs s3 3))) demo_grace =
     Some (1, Some [3, 4], Some (8, 0, 7))"
  by code_simp

lemma demo_grace_run:
  obtains s1 k s3 th where "qp_init demo_live = Some s1" "qp_wait demo_env 100 0 s1 = Some (k, s3)" "live s3 3 th" "qi_run_cnt (qp_info th) = 7"
proof -
  obtain s1 k s3 where g: "demo_grace = Some (s1, k, s3)" "live_list s3 = Some [3, 4]"
      "map_option (\<lambda>th. (run_cnt th, need_wait (qp_info th), qi_run_cnt (qp_info th))) (thrs s3 3) = Some (8, 0, 7)"
    using demo_grace_result by auto
  then obtain th where th: "thrs s3 3 = Some th" "qi_run_cnt (qp_info th) = 7" by auto
  have "live s3 3 th" using g(2) th by (simp add: live_def)
  moreover have "qp_init demo_live = Some s1" "qp_wait demo_env 100 0 s1 = Some (k, s3)"
    using g(1) by (auto simp: demo_grace_def split: bind_splits)
  ultimately show thesis using that th by blast
qed

theorem qp_wait_grace_period_witness:
  "\<exists>s1 k' s3 th. qp_init demo_live = Some s1 \<and> qp_wait demo_env 100 0 s1 = Some (k', s3) \<and> live s3 3 th \<and>
     (run_cnt th \<noteq> 7 \<or> gte_clock (local_clk th) 100)"
proof -
  obtain s1 k s3 th where r: "qp_init demo_live = Some s1" "qp_wait demo_env 100 0 s1 = Some (k, s3)" "live s3 3 th" "qi_run_cnt (qp_info th) = 7"
    by (rule demo_grace_run)
  have rely: "\<forall>k s. qp_rely 100 s (demo_env k s)" using demo_env_quiet [of 100] by (simp add: quiet_def)
  have l: "live demo_live 3 (demo_thread\<lparr>run_cnt := 7\<rparr>)" by (simp add: live_def demo_live_list) (simp add: demo_live_def)
  have "run_cnt th \<noteq> run_cnt (demo_thread\<lparr>run_cnt := 7\<rparr>) \<or> gte_clock (local_clk th) 100"
    by (rule qp_wait_grace_period [OF demo_live_ok r(1) rtranclp.rtrancl_refl rely r(2) l _ r(3)]) (use r(4) in auto)
  with r show ?thesis by auto
qed

section \<open>The reclamation barrier\<close>

lemma barrier_scan_some:
  "barrier_scan s ts m = Some (Some c) \<Longrightarrow>
   (\<forall>t\<in>set ts. \<exists>th. thrs s t = Some th \<and> \<not> requested (reclaim th) \<and> c \<le> min_ckpt_reclaimed (clks th)) \<and> c \<le> m \<and>
   (c = m \<or> (\<exists>t\<in>set ts. \<exists>th. thrs s t = Some th \<and> c = min_ckpt_reclaimed (clks th)))"
proof (induction ts arbitrary: m)
  case (Cons t ts)
  from Cons.prems obtain th where th: "thrs s t = Some th" "\<not> requested (reclaim th)"
      "barrier_scan s ts (if min_ckpt_reclaimed (clks th) < m then min_ckpt_reclaimed (clks th) else m) = Some (Some c)"
    by (auto split: bind_splits if_splits)
  from Cons.IH [OF th(3)] th(1,2) show ?case by (auto split: if_splits)
qed simp

lemma barrier_scan_total:
  "\<forall>t\<in>set ts. thrs s t \<noteq> None \<Longrightarrow> \<exists>r. barrier_scan s ts m = Some r"
proof (induction ts arbitrary: m)
  case (Cons t ts)
  then obtain th where th: "thrs s t = Some th" by auto
  let ?m = "if min_ckpt_reclaimed (clks th) < m then min_ckpt_reclaimed (clks th) else m"
  from Cons obtain r where "barrier_scan s ts ?m = Some r" by auto
  with th show ?case by (cases "requested (reclaim th)") simp_all
qed simp

lemma barrier_scan_idle:
  "barrier_scan s ts m = Some None \<Longrightarrow> \<exists>t\<in>set ts. \<exists>th. thrs s t = Some th \<and> requested (reclaim th)"
proof (induction ts arbitrary: m)
  case (Cons t ts)
  then obtain th where th: "thrs s t = Some th" by (auto split: bind_splits)
  with Cons show ?case by (cases "requested (reclaim th)") auto
qed simp

definition idle :: "sys \<Rightarrow> bool" where
  "idle s \<longleftrightarrow> (\<forall>t th. live s t th \<longrightarrow> \<not> requested (reclaim th))"

text \<open>The other threads leave the clocks of the qp thread alone.\<close>

definition barrier_rely :: "sys \<Rightarrow> sys \<Rightarrow> bool" where
  "barrier_rely s s' \<longleftrightarrow> (live_ok s \<longrightarrow> live_ok s') \<and> (tl_lock (live_threads s') \<longrightarrow> tl_lock (live_threads s)) \<and>
     qp_clks (qp s') = qp_clks (qp s)"

definition barrier_post :: "u64 \<Rightarrow> sys \<Rightarrow> bool" where
  "barrier_post m s \<longleftrightarrow>
     (let c = min_ckpt_reclaimed (qp_clks (qp s))
      in idle s \<and> (\<forall>t th. live s t th \<longrightarrow> c \<le> min_ckpt_reclaimed (clks th)) \<and> c \<le> m \<and>
         (c = m \<or> (\<exists>t th. live s t th \<and> c = min_ckpt_reclaimed (clks th))))"

definition poll :: "(nat \<Rightarrow> sys \<Rightarrow> sys) \<Rightarrow> nat \<Rightarrow> sys \<Rightarrow> sys" where
  "poll env k s = env k (unlock_live (locked s))"

lemma barrier_step:
  assumes "live_ok s" "\<not> tl_lock (live_threads s)"
  shows "\<not> idle s \<and> qp_reclaim_barrier env k s = qp_reclaim_barrier env (Suc k) (poll env k s) \<or>
    (\<exists>s'. qp_reclaim_barrier env k s = Some (k, s') \<and> barrier_post (min_ckpt_reclaimed (qp_clks (qp s))) s')"
proof -
  let ?m = "min_ckpt_reclaimed (qp_clks (qp s))"
  obtain ts where ts: "live_list s = Some ts" "\<forall>t\<in>set ts. thrs s t \<noteq> None" using assms(1) by (auto simp: live_ok_def)
  have l: "list_threads (live_threads (locked s)) (links (locked s)) = Some ts" using ts live_list_simps(1) [of s] by (simp add: live_list_def)
  obtain r where r: "barrier_scan (locked s) ts ?m = Some r" using barrier_scan_total [of ts "locked s"] ts(2) by auto
  let ?s' = "unlock_live ((locked s)\<lparr>qp := (qp s)\<lparr>qp_clks := (qp_clks (qp s))\<lparr>min_ckpt_reclaimed := the r\<rparr>\<rparr>\<rparr>)"
  have q: "qp (locked s) = qp s" by (simp add: locked_def)
  have b: "qp_reclaim_barrier env k s = (if r = None then qp_reclaim_barrier env (Suc k) (poll env k s) else Some (k, ?s'))"
    by (subst qp_reclaim_barrier.simps) (simp add: lock_live_eq [OF assms(2)] l r q poll_def)
  show ?thesis
  proof (cases r)
    case None
    then have "\<not> idle s" using barrier_scan_idle [of "locked s" ts ?m] r ts(1) by (auto simp: idle_def live_def)
    then show ?thesis using b None by simp
  next
    case (Some c)
    have 1: "live ?s' = live s" using live_eqI [of ?s' s] by (simp add: live_list_def locked_def unlock_live_def list_lock_irrelevant)
    have 2: "min_ckpt_reclaimed (qp_clks (qp ?s')) = c" using Some by (simp add: unlock_live_def)
    from barrier_scan_some [of "locked s" ts ?m c] r Some
    have "(\<forall>t\<in>set ts. \<exists>th. thrs s t = Some th \<and> \<not> requested (reclaim th) \<and> c \<le> min_ckpt_reclaimed (clks th)) \<and> c \<le> ?m \<and>
      (c = ?m \<or> (\<exists>t\<in>set ts. \<exists>th. thrs s t = Some th \<and> c = min_ckpt_reclaimed (clks th)))" by simp
    then have "barrier_post ?m ?s'" unfolding barrier_post_def Let_def idle_def 1 2 using ts(1) by (auto simp: live_def)
    with b Some show ?thesis by auto
  qed
qed

lemma qp_unlock_locked: "qp (unlock_live (locked s)) = qp s"
  by (simp add: locked_def unlock_live_def)

lemma poll_rely: "barrier_rely (unlock_live (locked s)) (poll env k s) \<Longrightarrow> live_ok s \<Longrightarrow>
    live_ok (poll env k s) \<and> \<not> tl_lock (live_threads (poll env k s)) \<and> qp_clks (qp (poll env k s)) = qp_clks (qp s)"
  using live_eqI [of "unlock_live (locked s)" s] qp_unlock_locked [of s] by (simp add: barrier_rely_def)

text \<open>
  C24. The reclamation barrier is passed once the threads have served their requests, whenever
  that is; then no live thread has a pending request, and the minimal reclaimed checkpoint of
  the qp thread is the least of its old value and the values of the live threads.
\<close>

theorem qp_reclaim_barrier_min:
  assumes "live_ok s" "\<not> tl_lock (live_threads s)" "\<forall>k s. barrier_rely s (env k s)" "idle (run_env (poll env) k n s)"
  shows "\<exists>k' s'. qp_reclaim_barrier env k s = Some (k', s') \<and> barrier_post (min_ckpt_reclaimed (qp_clks (qp s))) s'"
  using assms(1,2,4)
proof (induction n arbitrary: k s)
  case 0
  then show ?case using barrier_step [of s env k] by auto
next
  case (Suc n)
  have p: "live_ok (poll env k s)" "\<not> tl_lock (live_threads (poll env k s))" "qp_clks (qp (poll env k s)) = qp_clks (qp s)"
    using poll_rely [of s env k] Suc.prems(1) assms(3) by (auto simp: poll_def)
  from barrier_step [OF Suc.prems(1,2), of env k] show ?case
  proof (elim disjE conjE)
    assume "qp_reclaim_barrier env k s = qp_reclaim_barrier env (Suc k) (poll env k s)"
    with Suc.IH [OF p(1,2), of "Suc k"] Suc.prems(3) p(3) show ?thesis by simp
  qed auto
qed

definition demo_reclaiming :: sys where
  "demo_reclaiming = demo_live\<lparr>thrs :=
     [3 \<mapsto> demo_thread\<lparr>reclaim := \<lparr>rq_tvlog = 1, rq_ckptlog = 0\<rparr>, clks := zero_clks\<lparr>min_ckpt_reclaimed := 70\<rparr>\<rparr>,
      4 \<mapsto> demo_thread\<lparr>clks := zero_clks\<lparr>min_ckpt_reclaimed := 50\<rparr>\<rparr>]\<rparr>"

definition demo_serve :: "nat \<Rightarrow> sys \<Rightarrow> sys" where
  "demo_serve k s = s\<lparr>thrs := \<lambda>t. map_option (\<lambda>th. th\<lparr>reclaim := \<lparr>rq_tvlog = 0, rq_ckptlog = 0\<rparr>\<rparr>) (thrs s t)\<rparr>"

theorem qp_reclaim_barrier_min_witness:
  "\<not> idle demo_reclaiming \<and>
   (\<exists>k' s'. qp_reclaim_barrier demo_serve 0 demo_reclaiming = Some (k', s') \<and> barrier_post (min_ckpt_reclaimed (qp_clks (qp demo_reclaiming))) s')"
proof
  have l: "live_list demo_reclaiming = Some [3, 4]" using demo_live_list by (simp add: live_list_def demo_reclaiming_def)
  have "live demo_reclaiming 3 (demo_thread\<lparr>reclaim := \<lparr>rq_tvlog = 1, rq_ckptlog = 0\<rparr>, clks := zero_clks\<lparr>min_ckpt_reclaimed := 70\<rparr>\<rparr>)"
    by (simp add: live_def l) (simp add: demo_reclaiming_def)
  then show "\<not> idle demo_reclaiming" by (force simp: idle_def requested_def)
  have 1: "live_ok demo_reclaiming" "\<not> tl_lock (live_threads demo_reclaiming)"
    by (simp add: live_ok_def l) (simp_all add: demo_reclaiming_def demo_live_def demo_list_def)
  have 2: "\<forall>k s. barrier_rely s (demo_serve k s)" by (auto simp: barrier_rely_def demo_serve_def live_ok_def live_list_def)
  have 3: "idle (run_env (poll demo_serve) 0 (Suc 0) demo_reclaiming)"
    by (auto simp: idle_def live_def poll_def demo_serve_def requested_def)
  show "\<exists>k' s'. qp_reclaim_barrier demo_serve 0 demo_reclaiming = Some (k', s') \<and> barrier_post (min_ckpt_reclaimed (qp_clks (qp demo_reclaiming))) s'"
    by (rule qp_reclaim_barrier_min [OF 1 2 3])
qed

end
