(* ===== verification/WriteSet.thy ===== *)
theory WriteSet
  imports Timestone Fixtures
begin

text \<open>
  The write set of a transaction in its version log (\<open>tvlog_alloc\<close>, \<open>tvlog_append_begin\<close>,
  \<open>tvlog_append_end\<close>, \<open>ws_for_each\<close> of \<open>src/lib/tvlog.c\<close>). The bytes from the write set header to the
  tail are tiled by the header, the copies and at most one bogus copy per wrap; no tile wraps
  around the end of the buffer, and the loop over the write set visits exactly the copies.
\<close>

section \<open>Tiles of the version log\<close>

abbreviation tv_size :: nat where
  "tv_size \<equiv> 2 ^ 20"

definition csz :: "chs \<Rightarrow> nat" where
  "csz c = unat (get_entry_size c)"

definition csizes :: "chs list \<Rightarrow> nat" where
  "csizes es = sum_list (map csz es)"

lemma csizes_simps [simp]:
  "csizes [] = 0" "csizes (e # es) = csz e + csizes es" "csizes (es @ fs) = csizes es + csizes fs"
  by (simp_all add: csizes_def)

fun wtiles :: "(u32 \<rightharpoonup> chs) \<Rightarrow> u64 \<Rightarrow> chs list \<Rightarrow> bool" where
  "wtiles m c [] \<longleftrightarrow> True"
| "wtiles m c (e # es) \<longleftrightarrow>
     m (tvlog_index c) = Some e \<and> 0 < csz e \<and> 64 dvd csz e \<and> unat c mod tv_size + csz e \<le> tv_size \<and>
     wtiles m (c + of_nat (csz e)) es"

lemma tvlog_index_ring: "tvlog_index c = ring_index (ring_mask (2 ^ 20)) c"
  by (simp add: tvlog_index_def TS_TVLOG_MASK_def TS_TVLOG_SIZE_def push_bit_eq_mult)

lemma unat_tvlog_index: "unat (tvlog_index c) = unat c mod tv_size"
  unfolding tvlog_index_ring by (rule unat_ring_index) simp

lemma unat_tvlog_index_add: "unat (tvlog_index (c + of_nat n)) = (unat c + n) mod tv_size"
  unfolding tvlog_index_ring by (rule unat_ring_index_of_nat) simp

lemma tvlog_index_step: "unat (tvlog_index (c + of_nat n)) = (unat (tvlog_index c) + n) mod tv_size"
  unfolding unat_tvlog_index_add unat_tvlog_index [of c] mod_add_left_eq ..

lemma ucast_entry_size: "(ucast (get_entry_size c) :: u64) = of_nat (csz c)"
  by (simp add: csz_def)

lemma wtiles_append:
  "wtiles m c (es @ fs) \<longleftrightarrow> wtiles m c es \<and> wtiles m (c + of_nat (csizes es)) fs"
  by (induction es arbitrary: c) (auto simp: algebra_simps)

lemma wtiles_aligned: "wtiles m c es \<Longrightarrow> 64 dvd csizes es"
  by (induction es arbitrary: c) (auto intro: dvd_add)

lemma wtiles_put:
  assumes "0 < n" "unat (tvlog_index (c + of_nat (csizes es))) + unat n \<le> tv_size" "csizes es + unat n \<le> tv_size"
  shows "wtiles m c es \<Longrightarrow> wtiles (buf_put (tvlog_index (c + of_nat (csizes es))) n x m) c es"
  using assms
proof (induction es arbitrary: c)
  case (Cons e es)
  have "0 < csizes (e # es)" using Cons.prems(1) by simp
  from put_apart [OF _ Cons.prems(2) this Cons.prems(4) tvlog_index_ring Cons.prems(3)]
  have "buf_put (tvlog_index (c + of_nat (csizes (e # es)))) n x m (tvlog_index c) = m (tvlog_index c)"
    by (simp add: tvlog_index_ring)
  moreover have "wtiles (buf_put (tvlog_index (c + of_nat (csz e) + of_nat (csizes es))) n x m) (c + of_nat (csz e)) es"
    using Cons.prems by (intro Cons.IH) (auto simp: algebra_simps)
  ultimately show ?case using Cons.prems(1) by (simp add: algebra_simps)
qed simp

text \<open>Where the tiles lie; an update in place that keeps the sizes keeps the tiling.\<close>

fun wpos :: "u64 \<Rightarrow> chs list \<Rightarrow> u32 list" where
  "wpos c [] = []"
| "wpos c (e # es) = tvlog_index c # wpos (c + of_nat (csz e)) es"

lemma length_wpos [simp]: "length (wpos c es) = length es"
  by (induction es arbitrary: c) auto

lemma wpos_offset: "wtiles m c es \<Longrightarrow> j \<in> set (wpos c es) \<Longrightarrow> \<exists>a<csizes es. j = tvlog_index (c + of_nat a)"
proof (induction es arbitrary: c)
  case (Cons e es)
  show ?case
  proof (cases "j = tvlog_index c")
    case True
    with Cons.prems show ?thesis by (intro exI [of _ 0]) auto
  next
    case False
    with Cons obtain a where "a < csizes es" "j = tvlog_index (c + of_nat (csz e) + of_nat a)" by auto
    then show ?thesis by (intro exI [of _ "csz e + a"]) (simp add: algebra_simps)
  qed
qed simp

lemma wpos_distinct: "wtiles m c es \<Longrightarrow> csizes es \<le> tv_size \<Longrightarrow> distinct (wpos c es)"
proof (induction es arbitrary: c)
  case (Cons e es)
  have "tvlog_index c \<notin> set (wpos (c + of_nat (csz e)) es)"
  proof
    assume "tvlog_index c \<in> set (wpos (c + of_nat (csz e)) es)"
    with wpos_offset [of m "c + of_nat (csz e)" es] Cons.prems(1)
    obtain a where a: "a < csizes es" "tvlog_index c = tvlog_index (c + of_nat (csz e) + of_nat a)" by auto
    then have "tvlog_index c = tvlog_index (c + of_nat (csz e + a))" by (simp add: algebra_simps)
    then have "(unat c + 0) mod tv_size = (unat c + csz e + a) mod tv_size"
      using unat_tvlog_index_add [of c "csz e + a"] unat_tvlog_index [of c] by (simp add: add.assoc)
    with ring_distinct [of 0 "csz e" a "csizes es" tv_size "unat c"] a(1) Cons.prems show False by simp
  qed
  then show ?case using Cons by simp
qed simp

definition upd_at :: "u32 \<Rightarrow> (chs \<Rightarrow> chs) \<Rightarrow> u64 \<Rightarrow> chs list \<Rightarrow> chs list" where
  "upd_at i f c es = map2 (\<lambda>j e. if j = i then f e else e) (wpos c es) es"

lemma upd_at_simps [simp]:
  "upd_at i f c [] = []"
  "upd_at i f c (e # es) = (if tvlog_index c = i then f e else e) # upd_at i f (c + of_nat (csz e)) es"
  by (simp_all add: upd_at_def)

lemma length_upd_at [simp]: "length (upd_at i f c es) = length es"
  by (simp add: upd_at_def)

lemma wtiles_upd: "(\<And>e. csz (f e) = csz e) \<Longrightarrow> wtiles m c es \<Longrightarrow> wtiles (m(i := map_option f (m i))) c (upd_at i f c es)"
  by (induction es arbitrary: c) auto

lemma upd_at_sizes: "(\<And>e. csz (f e) = csz e) \<Longrightarrow> map csz (upd_at i f c es) = map csz es"
  by (induction es arbitrary: c) auto

lemma csizes_upd_at: "(\<And>e. csz (f e) = csz e) \<Longrightarrow> csizes (upd_at i f c es) = csizes es"
  by (simp add: csizes_def upd_at_sizes)

lemma wpos_cong: "map csz es = map csz fs \<Longrightarrow> wpos c es = wpos c fs"
proof (induction es arbitrary: c fs)
  case (Cons e es)
  then obtain f fs' where f: "fs = f # fs'" "csz e = csz f" "map csz es = map csz fs'" by (cases fs) auto
  from Cons.IH [OF f(3)] show ?case unfolding f(1) wpos.simps f(2) by (simp only:)
qed simp

lemma upd_at_notin: "i \<notin> set (wpos c es) \<Longrightarrow> upd_at i f c es = es"
  by (induction es arbitrary: c) auto

lemma upd_at_last:
  assumes "wtiles m c (es @ [e])" "csizes (es @ [e]) \<le> tv_size"
  shows "upd_at (tvlog_index (c + of_nat (csizes es))) f c (es @ [e]) = es @ [f e]"
proof -
  have d: "distinct (wpos c (es @ [e]))" using assms by (rule wpos_distinct)
  have w: "wpos c (es @ [e]) = wpos c es @ [tvlog_index (c + of_nat (csizes es))]" for c
    by (induction es arbitrary: c) (auto simp: algebra_simps)
  have "upd_at i f c (es @ [e]) = upd_at i f c es @ upd_at i f (c + of_nat (csizes es)) [e]" for i c
    by (induction es arbitrary: c) (auto simp: algebra_simps)
  with d upd_at_notin [of "tvlog_index (c + of_nat (csizes es))" c es f] show ?thesis unfolding w by simp
qed

section \<open>Segments that end at the tail\<close>

text \<open>The entries \<open>es\<close> lie between the counter \<open>c\<close> and the tail.\<close>

definition seg :: "tvlog \<Rightarrow> u64 \<Rightarrow> chs list \<Rightarrow> bool" where
  "seg l c es \<longleftrightarrow> wtiles (tv_mem l) c es \<and> tv_tail_cnt l = c + of_nat (csizes es) \<and> 64 dvd unat c \<and> csizes es \<le> tv_size"

text \<open>A write set header with its size and the room kept for it fits in front of the end of the buffer.\<close>

definition room :: "u64 \<Rightarrow> bool" where
  "room c \<longleftrightarrow> unat c mod tv_size + 192 < tv_size"

definition commit_tail :: "chs \<Rightarrow> tvlog \<Rightarrow> tvlog" where
  "commit_tail c l = l\<lparr>tv_tail_cnt := tv_tail_cnt l + of_nat (csz c)\<rparr>"

lemma commit_tail_simps [simp]:
  "tv_mem (commit_tail c l) = tv_mem l" "cur_wrt_set (commit_tail c l) = cur_wrt_set l"
  "tv_tail_cnt (commit_tail c l) = tv_tail_cnt l + of_nat (csz c)"
  by (simp_all add: commit_tail_def)

lemma seg_push:
  assumes "seg l c0 es" "i = tvlog_index (tv_tail_cnt l)" "0 < n" "unat n \<le> csz e" "64 dvd csz e"
    and "unat i + csz e \<le> tv_size" "csizes es + csz e \<le> tv_size"
  shows "seg (commit_tail e (l\<lparr>tv_mem := buf_put i n e (tv_mem l)\<rparr>)) c0 (es @ [e])"
proof -
  have i: "i = tvlog_index (c0 + of_nat (csizes es))" using assms(1,2) by (simp add: seg_def)
  have "0 < unat n" using assms(3) by (simp add: unat_gt_0)
  then have e: "0 < csz e" using assms(4) by linarith
  have "unat i + unat n \<le> tv_size" "csizes es + unat n \<le> tv_size" using assms(4,6,7) by linarith+
  then have "wtiles (buf_put i n e (tv_mem l)) c0 es"
    using assms(1) wtiles_put [OF assms(3), of c0 es "tv_mem l" e] i by (simp add: seg_def)
  moreover have "buf_put i n e (tv_mem l) i = Some e" by (simp add: buf_put_def)
  ultimately have "wtiles (buf_put i n e (tv_mem l)) c0 (es @ [e])"
    using i e assms(5,6) by (simp add: wtiles_append unat_tvlog_index)
  then show ?thesis using assms(1,7) by (simp add: seg_def algebra_simps)
qed

lemma seg_index:
  assumes "seg l c0 es"
  shows "64 dvd unat (tvlog_index (tv_tail_cnt l))" "unat (tvlog_index (tv_tail_cnt l)) < tv_size"
proof -
  have "64 dvd unat c0 + csizes es" using assms wtiles_aligned by (auto simp: seg_def intro: dvd_add)
  then have "64 dvd (unat c0 + csizes es) mod tv_size" by (intro dvd_mod) simp_all
  then show "64 dvd unat (tvlog_index (tv_tail_cnt l))" using assms by (simp add: seg_def unat_tvlog_index_add)
qed (simp add: unat_tvlog_index)

lemma wrap_iff:
  assumes "unat e < tv_size" "0 < unat e"
  shows "tvlog_index (c + ucast (e :: u32)) < tvlog_index c \<longleftrightarrow> tv_size \<le> unat (tvlog_index c) + unat e"
proof -
  let ?p = "unat (tvlog_index c)"
  have "unat (tvlog_index (c + ucast e)) = (?p + unat e) mod tv_size"
    using tvlog_index_step [of c "unat e"] by simp
  moreover have "?p < tv_size" by (simp add: unat_tvlog_index)
  moreover have "(?p + unat e) mod tv_size = (if tv_size \<le> ?p + unat e then ?p + unat e - tv_size else ?p + unat e)"
    using calculation(2) assms by (auto simp: le_mod_geq)
  ultimately show ?thesis using assms by (auto simp: word_less_nat_alt)
qed

text \<open>The distance to the end of the buffer survives the narrow fields it goes through.\<close>

lemma to_end:
  "unat (ucast (TS_TVLOG_SIZE - ucast (tvlog_index c)) :: u32) = tv_size - unat (tvlog_index c)"
proof -
  have p: "unat (tvlog_index c) < tv_size" by (simp add: unat_tvlog_index)
  have "(ucast (tvlog_index c) :: u64) \<le> TS_TVLOG_SIZE"
    using p by (simp add: word_le_nat_alt TS_TVLOG_SIZE_def push_bit_eq_mult)
  then have "unat (TS_TVLOG_SIZE - ucast (tvlog_index c)) = tv_size - unat (tvlog_index c)"
    by (simp add: unat_sub TS_TVLOG_SIZE_def push_bit_eq_mult)
  then show ?thesis unfolding unsigned_ucast_eq by (simp add: take_bit_nat_eq_self)
qed

lemma unat_ucast_u16: "unat (x :: u32) < 65536 \<Longrightarrow> unat (ucast (ucast x :: u16) :: u32) = unat x"
  by (simp add: unsigned_ucast_eq take_bit_nat_eq_self unsigned_take_bit_eq)

lemma skip_end_cases:
  assumes "seg l c0 es" "64 dvd unat sz" "0 < unat sz" "unat sz < 65536" "csizes es + unat sz \<le> tv_size"
  obtains "unat (tvlog_index (tv_tail_cnt l)) + unat sz < tv_size" "tvlog_skip_end l sz bogus = (bogus, l)"
  | b l' where "tvlog_skip_end l sz bogus = (True, l')" "c_type b = TYPE_BOGUS" "csz b \<le> unat sz" "seg l' c0 (es @ [b])"
      "unat (tv_tail_cnt l') mod tv_size = 0" "cur_wrt_set l' = cur_wrt_set l"
      "tv_size \<le> unat (tvlog_index (tv_tail_cnt l)) + unat sz"
proof (cases "tvlog_index (tv_tail_cnt l + ucast sz) < tvlog_index (tv_tail_cnt l)")
  case False
  moreover have "unat sz < tv_size" using assms(4) by simp
  ultimately show ?thesis using that(1) wrap_iff [of sz "tv_tail_cnt l"] assms(3) by (simp add: tvlog_skip_end_def)
next
  case True
  let ?i = "tvlog_index (tv_tail_cnt l)"
  let ?n = "ucast (TS_TVLOG_SIZE - ucast ?i) :: u32"
  let ?b = "zero_chs\<lparr>c_padding_size := ucast ?n, c_type := TYPE_BOGUS\<rparr>"
  let ?l = "commit_tail ?b (l\<lparr>tv_mem := buf_put ?i sizeof_chs_hdr ?b (tv_mem l)\<rparr>)"
  have w: "tv_size \<le> unat ?i + unat sz" using True wrap_iff [of sz "tv_tail_cnt l"] assms(3,4) by simp
  have n: "unat ?n = tv_size - unat ?i" by (rule to_end)
  have "unat ?n < 65536" using w assms(4) n by linarith
  then have cb: "csz ?b = unat ?n" by (simp add: csz_def get_entry_size_def zero_chs_def unat_ucast_u16)
  have p: "64 dvd unat ?i" "unat ?i < tv_size" using seg_index [OF assms(1)] by auto
  have d: "64 dvd csz ?b" unfolding cb n using p(1) by (intro dvd_diff_nat) simp_all
  have "0 < csz ?b" unfolding cb n using p(2) by simp
  with d have "64 \<le> csz ?b" by (rule dvd_imp_le)
  then have h: "unat sizeof_chs_hdr \<le> csz ?b" by (simp add: sizeof_chs_hdr_def)
  have s: "seg ?l c0 (es @ [?b])"
    by (rule seg_push [OF assms(1) refl _ h d]) (use p n cb w assms(5) in \<open>auto simp: sizeof_chs_hdr_def\<close>)
  have "tv_tail_cnt ?l = tv_tail_cnt l + of_nat (tv_size - unat ?i)" using cb n by simp
  then have "unat (tvlog_index (tv_tail_cnt ?l)) = (unat ?i + (tv_size - unat ?i)) mod tv_size"
    by (simp only: tvlog_index_step)
  then have t: "unat (tv_tail_cnt ?l) mod tv_size = 0" using p(2) by (simp add: unat_tvlog_index)
  have k: "tvlog_skip_end l sz bogus = (True, ?l)"
    using True cb by (simp add: tvlog_skip_end_def Let_def commit_tail_def)
  have "csz ?b \<le> unat sz" using cb n w by linarith
  then show ?thesis using that(2) [OF k _ _ s t _ w] by simp
qed

section \<open>Allocation\<close>

lemma entry_size_bounds:
  assumes "unat sz \<le> 65000"
  shows "64 dvd unat (tvlog_entry_size sz)" "unat sz + 56 \<le> unat (tvlog_entry_size sz)" "unat (tvlog_entry_size sz) < unat sz + 120"
proof -
  have u: "unat (sz + sizeof_chs_hdr) = unat sz + 56" using assms by (simp add: sizeof_chs_hdr_def unat_word_ariths)
  then have e: "unat (tvlog_entry_size sz) = (unat sz + 56 + 63) div 64 * 64"
    unfolding tvlog_entry_size_def using assms by (subst unat_align_uint) simp_all
  show "64 dvd unat (tvlog_entry_size sz)" unfolding e by simp
  show "unat sz + 56 \<le> unat (tvlog_entry_size sz)" "unat (tvlog_entry_size sz) < unat sz + 120"
    unfolding e using aligned_div_bounds [of 64 "unat sz + 56"] by simp_all
qed

text \<open>The padding behind an entry: to the end of the buffer when a write set header might not fit there.\<close>

lemma extra_padding:
  fixes b :: bool
  assumes "unat (tvlog_index c) + unat e < tv_size" "unat e < 66000" "0 < unat e" "64 dvd unat e" "64 dvd unat (tvlog_index c)"
  defines "p \<equiv> unat (add_extra_padding c e sizeof_wss b)"
  shows "p \<le> 192" "64 dvd p" "unat (tvlog_index c) + unat e + p \<le> tv_size" "b \<longrightarrow> p = 0"
    "\<not> b \<longrightarrow> (unat (tvlog_index c) + unat e + p) mod tv_size + 192 < tv_size"
proof -
  let ?i = "unat (tvlog_index c)"
  have x: "align_uint_to_cacheline (sizeof_wss + sizeof_chs_hdr) = 192"
    by (simp add: align_uint_to_cacheline_def sizeof_wss_def sizeof_chs_hdr_def)
  have e: "unat (e + 192) = unat e + 192" using assms(2) by (simp add: unat_word_ariths)
  then have w: "tvlog_index (c + ucast (e + 192)) < tvlog_index c \<longleftrightarrow> tv_size \<le> ?i + (unat e + 192)"
    using wrap_iff [of "e + 192" c] assms(2) by simp
  have "unat (tvlog_index (c + ucast e)) = ?i + unat e" using tvlog_index_step [of c "unat e"] assms(1) by simp
  then have p: "p = (if \<not> b \<and> tv_size \<le> ?i + (unat e + 192) then tv_size - (?i + unat e) else 0)"
    unfolding p_def add_extra_padding_def x Let_def w by (simp add: to_end)
  have "64 dvd ?i + unat e" using assms(4,5) by simp
  then have d: "64 dvd tv_size - (?i + unat e)" by (intro dvd_diff_nat) simp_all
  show "p \<le> 192" "64 dvd p" "?i + unat e + p \<le> tv_size" "b \<longrightarrow> p = 0" using assms(1) d by (auto simp: p)
  show "\<not> b \<longrightarrow> (?i + unat e + p) mod tv_size + 192 < tv_size" using assms(1) by (auto simp: p)
qed

text \<open>The header that \<open>tvlog_alloc\<close> writes.\<close>

definition fresh_chs :: "u32 \<Rightarrow> u32 \<Rightarrow> chs" where
  "fresh_chs sz n = zero_chs\<lparr>c_wrt_clk := MAX_VERSION, c_obj_size := sz, c_padding_size := ucast (n - sz)\<rparr>"

lemma csz_fresh: "unat sz \<le> unat n \<Longrightarrow> unat n < unat sz + 65536 \<Longrightarrow> csz (fresh_chs sz n) = unat n"
proof -
  assume a: "unat sz \<le> unat n" "unat n < unat sz + 65536"
  then have d: "unat (n - sz) = unat n - unat sz" by (simp add: unat_sub word_le_nat_alt)
  have "unat (ucast (ucast (n - sz) :: u16) :: u32) = unat n - unat sz"
    unfolding d [symmetric] by (rule unat_ucast_u16) (use a d in linarith)
  then have "ucast (ucast (n - sz) :: u16) = (n - sz)" using d by (simp add: word_unat_eq_iff)
  then show ?thesis by (simp add: csz_def get_entry_size_def fresh_chs_def zero_chs_def)
qed

lemma alloc_at:
  fixes b :: bool
  assumes "seg l c0 es" "unat sz \<le> 65000" "csizes es + unat (tvlog_entry_size sz) + 192 \<le> tv_size"
    and fit: "unat (tvlog_index (tv_tail_cnt l)) + unat (tvlog_entry_size sz) < tv_size"
  defines "n \<equiv> tvlog_entry_size sz + add_extra_padding (tv_tail_cnt l) (tvlog_entry_size sz) sizeof_wss b"
  defines "c \<equiv> fresh_chs sz n"
  defines "l' \<equiv> l\<lparr>tv_mem := buf_put (tvlog_index (tv_tail_cnt l)) sizeof_chs_hdr c (tv_mem l)\<rparr>"
  shows "seg (commit_tail c l') c0 (es @ [c])" "unat (tvlog_entry_size sz) \<le> csz c" "csz c \<le> unat (tvlog_entry_size sz) + 192"
    "b \<longrightarrow> csz c = unat (tvlog_entry_size sz)" "\<not> b \<longrightarrow> room (tv_tail_cnt (commit_tail c l'))"
proof -
  let ?e = "tvlog_entry_size sz" and ?i = "tvlog_index (tv_tail_cnt l)"
  note e = entry_size_bounds [OF assms(2)]
  have "unat ?e < 66000" "0 < unat ?e" using e assms(2) by linarith+
  note x = extra_padding [OF fit this e(1) seg_index(1) [OF assms(1)], of b]
  have n: "unat n = unat ?e + unat (add_extra_padding (tv_tail_cnt l) ?e sizeof_wss b)"
    unfolding n_def using x(1) \<open>unat ?e < 66000\<close> by (simp add: unat_word_ariths)
  have cs: "csz c = unat n" unfolding c_def by (rule csz_fresh) (use n x(1) e in linarith)+
  have d: "64 dvd csz c" unfolding cs n using e(1) x(2) by (rule dvd_add)
  have "unat sizeof_chs_hdr \<le> csz c" using cs n e(2) by (simp add: sizeof_chs_hdr_def)
  then show "seg (commit_tail c l') c0 (es @ [c])" unfolding l'_def
    by (intro seg_push [OF assms(1) refl _ _ d]) (use cs n x(1,3) assms(3) in \<open>auto simp: sizeof_chs_hdr_def\<close>)
  show "unat ?e \<le> csz c" "csz c \<le> unat ?e + 192" "b \<longrightarrow> csz c = unat ?e" using cs n x(1,4) by auto
  have "unat (tv_tail_cnt (commit_tail c l')) mod tv_size = (unat ?i + csz c) mod tv_size"
    using tvlog_index_step [of "tv_tail_cnt l" "csz c"] unat_tvlog_index [of "tv_tail_cnt l + of_nat (csz c)"] by (simp add: l'_def)
  then show "\<not> b \<longrightarrow> room (tv_tail_cnt (commit_tail c l'))"
    unfolding room_def cs n add.assoc [symmetric] using x(5) by (simp only:)
qed

lemma alloc_seg:
  assumes "seg l c0 es" "unat sz \<le> 65000" "csizes es + 2 * unat (tvlog_entry_size sz) + 192 \<le> tv_size"
  obtains n bs b l' where "tvlog_alloc l sz False = (tvlog_index (tv_tail_cnt l'), b, l')"
    "tv_mem l' (tvlog_index (tv_tail_cnt l')) = Some (fresh_chs sz n)" "seg (commit_tail (fresh_chs sz n) l') c0 (es @ bs @ [fresh_chs sz n])"
    "tv_tail_cnt l' = c0 + of_nat (csizes (es @ bs))" "room (tv_tail_cnt (commit_tail (fresh_chs sz n) l'))"
    "unat (tvlog_entry_size sz) \<le> csz (fresh_chs sz n)" "csz (fresh_chs sz n) \<le> unat (tvlog_entry_size sz) + 192"
    "cur_wrt_set l' = cur_wrt_set l"
    "(if b then \<exists>c. bs = [c] \<and> c_type c = TYPE_BOGUS else bs = [])"
    "if unat (tvlog_index (tv_tail_cnt l)) + unat (tvlog_entry_size sz) < tv_size then \<not> b \<and> tv_tail_cnt l' = tv_tail_cnt l
     else b \<and> unat (tv_tail_cnt l') mod tv_size = 0"
proof -
  let ?e = "tvlog_entry_size sz"
  note e = entry_size_bounds [OF assms(2)]
  have eb: "0 < unat ?e" "unat ?e < 65536" using e assms(2) by linarith+
  have fits: "csizes es + unat ?e \<le> tv_size" using assms(3) by linarith
  show ?thesis
  proof (cases rule: skip_end_cases [OF assms(1) e(1) eb fits, of False])
    case fit: 1
    let ?n = "?e + add_extra_padding (tv_tail_cnt l) ?e sizeof_wss False"
    let ?l = "l\<lparr>tv_mem := buf_put (tvlog_index (tv_tail_cnt l)) sizeof_chs_hdr (fresh_chs sz ?n) (tv_mem l)\<rparr>"
    have "csizes es + unat ?e + 192 \<le> tv_size" using assms(3) by linarith
    note a = alloc_at [OF assms(1,2) this fit(1), of False]
    have k: "tvlog_alloc l sz False = (tvlog_index (tv_tail_cnt ?l), False, ?l)"
      by (simp add: tvlog_alloc_def fit(2) Let_def fresh_chs_def)
    have m: "tv_mem ?l (tvlog_index (tv_tail_cnt ?l)) = Some (fresh_chs sz ?n)" by (simp add: buf_put_def)
    have c: "tv_tail_cnt ?l = c0 + of_nat (csizes (es @ []))" using assms(1) by (simp add: seg_def)
    show ?thesis by (rule that [OF k m, of "[]", OF _ c]) (use a fit(1) in simp_all)
  next
    case wrap: (2 b l1)
    let ?n = "?e + add_extra_padding (tv_tail_cnt l1) ?e sizeof_wss True"
    let ?l = "l1\<lparr>tv_mem := buf_put (tvlog_index (tv_tail_cnt l1)) sizeof_chs_hdr (fresh_chs sz ?n) (tv_mem l1)\<rparr>"
    have z: "unat (tvlog_index (tv_tail_cnt l1)) = 0" using wrap(5) by (simp add: unat_tvlog_index)
    have "csizes (es @ [b]) + unat ?e + 192 \<le> tv_size" "unat (tvlog_index (tv_tail_cnt l1)) + unat ?e < tv_size"
      using assms(3) wrap(3) z eb(2) by simp_all
    note a = alloc_at [OF wrap(4) assms(2) this, of True]
    have k: "tvlog_alloc l sz False = (tvlog_index (tv_tail_cnt ?l), True, ?l)"
      by (simp add: tvlog_alloc_def wrap(1) Let_def fresh_chs_def)
    have "unat (tvlog_index (tv_tail_cnt l1 + of_nat (csz (fresh_chs sz ?n)))) = unat ?e"
      using tvlog_index_step [of "tv_tail_cnt l1" "csz (fresh_chs sz ?n)"] z a(4) eb(2) by simp
    then have "room (tv_tail_cnt (commit_tail (fresh_chs sz ?n) ?l))" using eb(2) by (simp add: room_def unat_tvlog_index)
    note r = this
    have m: "tv_mem ?l (tvlog_index (tv_tail_cnt ?l)) = Some (fresh_chs sz ?n)" by (simp add: buf_put_def)
    have c: "tv_tail_cnt ?l = c0 + of_nat (csizes (es @ [b]))" using wrap(4) by (simp add: seg_def)
    show ?thesis by (rule that [OF k m, of "[b]", OF _ c r]) (use a wrap in simp_all)
  qed
qed

section \<open>Write sets\<close>

text \<open>
  The write set of the running transaction: its header \<open>h\<close> and the entries \<open>es\<close> behind it, up to
  the tail, of which it counts \<open>n\<close>. Behind the tail there is room for the header of the next write
  set. In a proper write set all entries are counted.
\<close>

definition ws_part :: "nat \<Rightarrow> tvlog \<Rightarrow> wrt_set \<Rightarrow> chs \<Rightarrow> chs list \<Rightarrow> bool" where
  "ws_part n l ws h es \<longleftrightarrow>
     cur_wrt_set l = Some (tvlog_index (start_tail_cnt ws)) \<and> c_body h = Ws ws \<and> csz h \<le> 320 \<and>
     seg l (start_tail_cnt ws) (h # es) \<and> num_objs ws = of_nat n \<and>
     room (start_tail_cnt ws) \<and> room (tv_tail_cnt l)"

abbreviation ws_rep :: "tvlog \<Rightarrow> wrt_set \<Rightarrow> chs \<Rightarrow> chs list \<Rightarrow> bool" where
  "ws_rep l ws h es \<equiv> ws_part (length es) l ws h es"

definition ws_ok :: "tvlog \<Rightarrow> chs list \<Rightarrow> bool" where
  "ws_ok l es \<longleftrightarrow>
     (case cur_wrt_set l of
        None \<Rightarrow> es = [] \<and> room (tv_tail_cnt l) \<and> 64 dvd unat (tv_tail_cnt l)
      | Some _ \<Rightarrow> \<exists>ws h. ws_rep l ws h es)"

lemma seg_nil: "64 dvd unat (tv_tail_cnt l) \<Longrightarrow> seg l (tv_tail_cnt l) []"
  by (simp add: seg_def)

lemma upd_entry_seg:
  assumes "seg (commit_tail e l) c0 (es @ [e])" "tv_tail_cnt l = c0 + of_nat (csizes es)" "\<And>e. csz (f e) = csz e"
  shows "seg (commit_tail (f e) (upd_entry (tvlog_index (tv_tail_cnt l)) f l)) c0 (es @ [f e])"
proof -
  have "upd_at (tvlog_index (tv_tail_cnt l)) f c0 (es @ [e]) = es @ [f e]"
    unfolding assms(2) using assms(1) by (intro upd_at_last) (auto simp: seg_def)
  with assms(1) wtiles_upd [OF assms(3), of "tv_mem l" c0 "es @ [e]" "tvlog_index (tv_tail_cnt l)"]
  show ?thesis by (simp add: seg_def upd_entry_def assms(3))
qed

lemma csz_upd [simp]:
  "csz (c\<lparr>p_ws := a\<rparr>) = csz c" "csz (c\<lparr>c_vhdr := v\<rparr>) = csz c" "csz (c\<lparr>c_body := d\<rparr>) = csz c" "csz (c\<lparr>c_wrt_clk := w\<rparr>) = csz c"
  "csz (c\<lparr>wrt_clk_prev := w\<rparr>) = csz c" "csz (c\<lparr>c_type := b\<rparr>) = csz c" "csz (c\<lparr>c_p_copy := p\<rparr>) = csz c"
  by (simp_all add: csz_def get_entry_size_def)

lemma open_ws_new:
  assumes "cur_wrt_set l = None" "room (tv_tail_cnt l)" "64 dvd unat (tv_tail_cnt l)"
  obtains h l' where "tvlog_open_ws self l = Some (False, l')" "ws_rep l' (new_wrt_set self (tv_tail_cnt l)) h []"
proof -
  let ?c = "tv_tail_cnt l"
  have e: "tvlog_entry_size sizeof_ws = 128"
    by (simp add: tvlog_entry_size_def sizeof_ws_def sizeof_chs_hdr_def align_uint_to_cacheline_def)
  have sz: "unat sizeof_ws \<le> 65000" "csizes [] + 2 * unat (tvlog_entry_size sizeof_ws) + 192 \<le> tv_size"
    unfolding e by (simp_all add: sizeof_ws_def)
  have fit: "unat (tvlog_index ?c) + unat (tvlog_entry_size sizeof_ws) < tv_size"
    using assms(2) unfolding e by (simp add: room_def unat_tvlog_index)
  obtain n bs b l1 where a: "tvlog_alloc l sizeof_ws False = (tvlog_index (tv_tail_cnt l1), b, l1)"
      "tv_mem l1 (tvlog_index (tv_tail_cnt l1)) = Some (fresh_chs sizeof_ws n)"
      "seg (commit_tail (fresh_chs sizeof_ws n) l1) ?c ([] @ bs @ [fresh_chs sizeof_ws n])"
      "room (tv_tail_cnt (commit_tail (fresh_chs sizeof_ws n) l1))" "csz (fresh_chs sizeof_ws n) \<le> unat (tvlog_entry_size sizeof_ws) + 192"
      "if b then \<exists>c. bs = [c] \<and> c_type c = TYPE_BOGUS else bs = []"
      "if unat (tvlog_index ?c) + unat (tvlog_entry_size sizeof_ws) < tv_size then \<not> b \<and> tv_tail_cnt l1 = ?c
       else b \<and> unat (tv_tail_cnt l1) mod tv_size = 0"
    by (rule alloc_seg [OF seg_nil [OF assms(3)] sz])
  note a = a(1-6) a(7) [unfolded if_P [OF fit]]
  let ?f = "\<lambda>c. c\<lparr>p_ws := Some (tvlog_index ?c), c_type := TYPE_WRT_SET, c_body := Ws (new_wrt_set self ?c)\<rparr>"
  let ?h = "?f (fresh_chs sizeof_ws n)"
  let ?l = "commit_tail ?h (upd_entry (tvlog_index ?c) ?f l1)\<lparr>cur_wrt_set := Some (tvlog_index ?c)\<rparr>"
  have "seg (commit_tail ?h (upd_entry (tvlog_index (tv_tail_cnt l1)) ?f l1)) ?c ([] @ [?h])"
    by (rule upd_entry_seg) (use a in auto)
  then have "ws_rep ?l (new_wrt_set self ?c) ?h []"
    using a(4,5,7) assms(2) e by (simp add: ws_part_def seg_def new_wrt_set_def upd_entry_def)
  moreover have "tvlog_open_ws self l = Some (False, ?l)"
    using a(1,2,7) assms(1) by (simp add: tvlog_open_ws_def upd_entry_def commit_tail_def ucast_entry_size)
  ultimately show thesis using that by blast
qed

lemma open_ws_ok:
  assumes "ws_ok l es"
  obtains ws h l' where "tvlog_open_ws self l = Some (False, l')" "ws_rep l' ws h es"
proof (cases "cur_wrt_set l")
  case None
  with assms have n: "es = []" "room (tv_tail_cnt l)" "64 dvd unat (tv_tail_cnt l)" by (auto simp: ws_ok_def)
  show ?thesis by (rule open_ws_new [OF None n(2,3)]) (use that n(1) in auto)
next
  case (Some w)
  then have "tvlog_open_ws self l = Some (False, l)" by (simp add: tvlog_open_ws_def)
  with Some assms that show ?thesis by (auto simp: ws_ok_def)
qed

text \<open>Copying the object behind the header that \<open>tvlog_alloc\<close> has written, and the tail behind the copy.\<close>

lemma fill_copy:
  assumes "seg (commit_tail c l) c0 (es @ [c])" "tv_tail_cnt l = c0 + of_nat (csizes es)" "csz c' = csz c"
    and "0 < n" "unat n \<le> csz c"
  shows "seg (commit_tail c' (l\<lparr>tv_mem := buf_put (tvlog_index (tv_tail_cnt l)) n c' (tv_mem l)\<rparr>)) c0 (es @ [c'])"
proof -
  have "wtiles (tv_mem l) (c0 + of_nat (csizes es)) [c]" using assms(1) by (simp add: seg_def wtiles_append)
  then have c: "64 dvd csz c" "unat (tvlog_index (tv_tail_cnt l)) + csz c \<le> tv_size" by (simp_all add: unat_tvlog_index assms(2))
  have "seg l c0 es" using assms(1,2) by (simp add: seg_def wtiles_append)
  then show ?thesis by (rule seg_push [OF _ refl]) (use assms c in \<open>simp_all add: seg_def\<close>)
qed

text \<open>An update of the write set header.\<close>

lemma upd_header:
  assumes "seg l c0 (h # es)" "csz (f h) = csz h"
  shows "seg (upd_entry (tvlog_index c0) f l) c0 (f h # es)"
proof -
  let ?g = "\<lambda>e. if csz (f e) = csz e then f e else e"
  have d: "distinct (wpos c0 (h # es))" using assms(1) by (intro wpos_distinct) (auto simp: seg_def)
  then have "upd_at (tvlog_index c0) ?g c0 (h # es) = f h # es" using assms(2) by (simp add: upd_at_notin)
  moreover have "wtiles ((tv_mem l)(tvlog_index c0 := map_option ?g (tv_mem l (tvlog_index c0)))) c0 (upd_at (tvlog_index c0) ?g c0 (h # es))"
    using assms(1) by (intro wtiles_upd) (auto simp: seg_def)
  moreover have "map_option ?g (tv_mem l (tvlog_index c0)) = map_option f (tv_mem l (tvlog_index c0))"
    using assms by (simp add: seg_def)
  ultimately show ?thesis using assms by (simp add: seg_def upd_entry_def)
qed

section \<open>Appending a copy\<close>

definition tvl :: "sys \<Rightarrow> nat \<Rightarrow> tvlog option" where
  "tvl s t = map_option tvlog (thrs s t)"

lemma tvl_simps [simp]:
  "tvl (upd_tvlog t f s) t = map_option f (tvl s t)" "tvl (stat_thread t g s) t' = tvl s t'" "tvl (upd_vhdr v k s) t' = tvl s t'"
  by (auto simp: tvl_def upd_tvlog_def upd_thr_def stat_thread_def upd_vhdr_def option.map_comp comp_def)

lemma upd_ws_tvlog: "upd_ws t i f s = upd_tvlog t (upd_entry i (\<lambda>c. case c_body c of Ws w \<Rightarrow> c\<lparr>c_body := Ws (f w)\<rparr> | _ \<Rightarrow> c)) s"
  by (simp add: upd_ws_def upd_chs_def upd_tvlog_def upd_entry_def)

lemma get_chs_tvl: "get_chs s t i = Option.bind (tvl s t) (\<lambda>l. tv_mem l i)"
  by (cases "thrs s t") (simp_all add: get_chs_def tvl_def)

text \<open>The log after the copy \<open>c\<close> has been put at the tail of \<open>l\<close> and counted in the write set at \<open>w\<close>.\<close>

definition appended :: "u32 \<Rightarrow> bool \<Rightarrow> u32 \<Rightarrow> chs \<Rightarrow> tvlog \<Rightarrow> tvlog" where
  "appended w b n c l =
     upd_entry w (\<lambda>c. case c_body c of Ws ws \<Rightarrow> c\<lparr>c_body := Ws (ws\<lparr>num_objs := num_objs ws + 1 + (if b then 1 else 0)\<rparr>)\<rparr> | _ \<Rightarrow> c)
       (commit_tail c (l\<lparr>tv_mem := buf_put (tvlog_index (tv_tail_cnt l)) n c (tv_mem l)\<rparr>))"

lemma append_steps:
  fixes v :: nat and d :: bytes
  assumes "tvl s self = Some l0" "tvlog_open_ws self l0 = Some (b0, l1)" "cur_wrt_set l1 = Some w"
    and al: "tvlog_alloc l1 sz b0 = (tvlog_index (tv_tail_cnt l2), b, l2)" "tv_mem l2 (tvlog_index (tv_tail_cnt l2)) = Some c"
      "cur_wrt_set l2 = Some w"
  defines "c' \<equiv> c\<lparr>p_ws := Some w, c_vhdr := Some v, c_type := TYPE_COPY, c_body := Data d\<rparr>"
  shows "\<exists>s1. tvlog_append_begin self v sz s = Some (tvlog_index (tv_tail_cnt l2), b, s1) \<and> vhdrs s1 = vhdrs s \<and> acts s1 = acts s \<and>
    tvl s1 self = Some (upd_entry (tvlog_index (tv_tail_cnt l2)) (\<lambda>c. c\<lparr>p_ws := Some w, c_vhdr := Some v, c_type := TYPE_COPY\<rparr>) l2) \<and>
    (\<forall>s1'. tvl s1' self = tvl s1 self \<longrightarrow>
      (\<exists>s2. tvlog_append_end self (tvlog_index (tv_tail_cnt l2)) b (write_body self (tvlog_index (tv_tail_cnt l2)) d s1') = Some s2 \<and>
        vhdrs s2 = vhdrs s1' \<and> tvl s2 self = Some (appended w b (sizeof_chs_hdr + of_nat (length d)) c' l2)))"
proof -
  let ?i = "tvlog_index (tv_tail_cnt l2)"
  let ?f = "\<lambda>c. c\<lparr>p_ws := cur_wrt_set l2, c_vhdr := Some v, c_type := TYPE_COPY\<rparr>"
  let ?l3 = "upd_entry ?i ?f l2"
  obtain th where th: "thrs s self = Some th" "tvlog th = l0" using assms(1) by (auto simp: tvl_def)
  have m3: "tv_mem ?l3 ?i = Some (?f c)" "cur_wrt_set ?l3 = Some w" "tv_tail_cnt ?l3 = tv_tail_cnt l2"
    using al by (simp_all add: upd_entry_def)
  define s1 where "s1 = stat_thread self (\<lambda>st. stat_acc st n_tvlog_cpobj_written_bytes (ucast (get_entry_size (?f c)))) (upd_tvlog self (\<lambda>_. ?l3) s)"
  have b: "tvlog_append_begin self v sz s = Some (?i, b, s1)"
    using th assms(2) al m3 by (simp add: tvlog_append_begin_def s1_def)
  have t1: "tvl s1 self = Some ?l3" using assms(1) by (simp add: s1_def)
  let ?n = "sizeof_chs_hdr + of_nat (length d)"
  let ?l4 = "?l3\<lparr>tv_mem := buf_put ?i ?n c' (tv_mem ?l3)\<rparr>"
  have c': "(?f c)\<lparr>c_body := Data d\<rparr> = c'" using al(3) by (simp add: c'_def)
  have mem: "buf_put ?i ?n c' (tv_mem ?l3) = buf_put ?i ?n c' (tv_mem l2)" by (auto simp: buf_put_def upd_entry_def)
  have l4: "?l4\<lparr>tv_tail_cnt := tv_tail_cnt l2 + ucast (get_entry_size c')\<rparr> = commit_tail c' (l2\<lparr>tv_mem := buf_put ?i ?n c' (tv_mem l2)\<rparr>)"
    unfolding mem by (simp add: commit_tail_def ucast_entry_size upd_entry_def)
  have "\<exists>s2. tvlog_append_end self ?i b (write_body self ?i d s1') = Some s2 \<and> vhdrs s2 = vhdrs s1' \<and> tvl s2 self = Some (appended w b ?n c' l2)"
    if s1': "tvl s1' self = tvl s1 self" for s1'
  proof -
    define s' where "s' = write_body self ?i d s1'"
    have t': "tvl s' self = Some ?l4" using t1 s1' m3(1) c' by (simp add: s'_def write_body_def)
    obtain th' where th': "thrs s' self = Some th'" "tvlog th' = ?l4" using t' by (auto simp: tvl_def)
    have g: "get_chs s' self ?i = Some c'" using t' by (simp add: get_chs_tvl buf_put_def)
    obtain s2 where s2: "tvlog_append_end self ?i b s' = Some s2" "vhdrs s2 = vhdrs s'"
      "tvl s2 self = Some (upd_entry w (\<lambda>c. case c_body c of Ws ws \<Rightarrow> c\<lparr>c_body := Ws (ws\<lparr>num_objs := num_objs ws + 1 + (if b then 1 else 0)\<rparr>)\<rparr> | _ \<Rightarrow> c)
          (?l4\<lparr>tv_tail_cnt := tv_tail_cnt l2 + ucast (get_entry_size c')\<rparr>))"
      using g th' m3 t' by (simp add: tvlog_append_end_def upd_ws_tvlog Let_def stat_thread_def upd_tvlog_def store_simps tvl_def)
    have "vhdrs s' = vhdrs s1'" by (simp add: s'_def write_body_def upd_tvlog_def store_simps)
    then show ?thesis using s2 unfolding appended_def s'_def l4 by auto
  qed
  moreover have "vhdrs s1 = vhdrs s" "acts s1 = acts s" by (simp_all add: s1_def stat_thread_def upd_tvlog_def store_simps)
  ultimately show ?thesis using b t1 al(3) by auto
qed

lemma seg_restrict: "seg (commit_tail c l) c0 (es @ [c]) \<Longrightarrow> tv_tail_cnt l = c0 + of_nat (csizes es) \<Longrightarrow> seg l c0 es"
  by (simp add: seg_def wtiles_append)

text \<open>
  The two halves of an append. \<open>l0\<close> is the log between them, where the other calls of
  \<open>_ts_try_lock\<close> take place, \<open>l'\<close> the log afterwards.
\<close>

lemma append_part:
  assumes "tvl s self = Some l" "tvlog_open_ws self l = Some (False, l1)" "ws_part k l1 ws h es" "unat sz \<le> 65000"
    and "csizes es + 2 * unat (tvlog_entry_size sz) + 512 \<le> tv_size" "length d = unat sz"
  obtains i b s1 bs c ws' h' l0 l' where "tvlog_append_begin self v sz s = Some (i, b, s1)" "vhdrs s1 = vhdrs s" "acts s1 = acts s"
    "if b then \<exists>e. bs = [e] \<and> c_type e = TYPE_BOGUS else bs = []" "i = tvlog_index (start_tail_cnt ws + of_nat (csizes (h # es @ bs)))"
    "ws_part (k + 1 + length bs) l' ws' h' (es @ bs @ [c])" "start_tail_cnt ws' = start_tail_cnt ws" "csz h' = csz h"
    "tv_mem l' i = Some c" "c_type c = TYPE_COPY" "c_vhdr c = Some v" "c_obj_size c = sz" "c_wrt_clk c = MAX_VERSION" "c_body c = Data d"
    "tvl s1 self = Some l0" "b \<Longrightarrow> ws_part k l0 ws h (es @ bs) \<and> unat (tvlog_index (tv_tail_cnt l0)) = 0"
    "b \<longleftrightarrow> tv_size \<le> unat (tvlog_index (tv_tail_cnt l1)) + unat (tvlog_entry_size sz)"
    "\<And>s1'. tvl s1' self = tvl s1 self \<Longrightarrow>
       \<exists>s2. tvlog_append_end self i b (write_body self i d s1') = Some s2 \<and> vhdrs s2 = vhdrs s1' \<and> tvl s2 self = Some l'"
proof -
  let ?st = "start_tail_cnt ws"
  have r: "cur_wrt_set l1 = Some (tvlog_index ?st)" "c_body h = Ws ws" "csz h \<le> 320" "seg l1 ?st (h # es)"
    "num_objs ws = of_nat k" "room ?st" using assms(3) by (auto simp: ws_part_def)
  have "csizes (h # es) + 2 * unat (tvlog_entry_size sz) + 192 \<le> tv_size" using r(3) assms(5) by simp
  from alloc_seg [OF r(4) assms(4) this]
  obtain n bs b l2 where a: "tvlog_alloc l1 sz False = (tvlog_index (tv_tail_cnt l2), b, l2)"
      "tv_mem l2 (tvlog_index (tv_tail_cnt l2)) = Some (fresh_chs sz n)"
      "seg (commit_tail (fresh_chs sz n) l2) ?st ((h # es) @ bs @ [fresh_chs sz n])" "tv_tail_cnt l2 = ?st + of_nat (csizes ((h # es) @ bs))"
      "room (tv_tail_cnt (commit_tail (fresh_chs sz n) l2))" "unat (tvlog_entry_size sz) \<le> csz (fresh_chs sz n)"
      "cur_wrt_set l2 = Some (tvlog_index ?st)" "if b then \<exists>c. bs = [c] \<and> c_type c = TYPE_BOGUS else bs = []"
      "if unat (tvlog_index (tv_tail_cnt l1)) + unat (tvlog_entry_size sz) < tv_size then \<not> b \<and> tv_tail_cnt l2 = tv_tail_cnt l1
       else b \<and> unat (tv_tail_cnt l2) mod tv_size = 0"
    using r(1) by metis
  let ?f = "\<lambda>c. c\<lparr>p_ws := Some (tvlog_index ?st), c_vhdr := Some v, c_type := TYPE_COPY\<rparr>"
  let ?c = "(?f (fresh_chs sz n))\<lparr>c_body := Data d\<rparr>"
  let ?n = "sizeof_chs_hdr + of_nat (length d)" and ?i = "tvlog_index (tv_tail_cnt l2)"
  let ?l = "commit_tail ?c (l2\<lparr>tv_mem := buf_put ?i ?n ?c (tv_mem l2)\<rparr>)"
  let ?l' = "appended (tvlog_index ?st) b ?n ?c l2" and ?mid = "upd_entry ?i ?f l2"
  let ?ws = "ws\<lparr>num_objs := num_objs ws + 1 + (if b then 1 else 0)\<rparr>"
  have un: "unat ?n = 56 + unat sz" using assms(4,6) by (simp add: sizeof_chs_hdr_def unat_word_ariths unat_of_nat)
  then have "0 < ?n" by (simp add: word_less_nat_alt)
  then have "seg ?l ?st (((h # es) @ bs) @ [?c])"
    by (intro fill_copy [OF _ a(4)]) (use a(3,6) un entry_size_bounds(2) [OF assms(4)] in auto)
  then have sg: "seg ?l ?st (h # es @ bs @ [?c])" by simp
  have sg': "seg ?l' ?st (h\<lparr>c_body := Ws ?ws\<rparr> # es @ bs @ [?c])"
    unfolding appended_def using upd_header [OF sg, of "\<lambda>c. case c_body c of Ws ws \<Rightarrow> c\<lparr>c_body := Ws (ws\<lparr>num_objs := num_objs ws + 1 + (if b then 1 else 0)\<rparr>)\<rparr> | _ \<Rightarrow> c"] r(2)
    by simp
  have len: "num_objs ?ws = of_nat (k + 1 + length bs)" using r(5) a(8) by (auto split: if_splits)
  have cur: "cur_wrt_set ?l' = Some (tvlog_index ?st)" "tv_tail_cnt ?l' = tv_tail_cnt (commit_tail (fresh_chs sz n) l2)"
    using a(7) by (simp_all add: appended_def upd_entry_def)
  have rep: "ws_part (k + 1 + length bs) ?l' ?ws (h\<lparr>c_body := Ws ?ws\<rparr>) (es @ bs @ [?c])"
    unfolding ws_part_def using sg' len cur r(3,6) a(5) by simp
  have "wtiles (tv_mem ?l') ?st ((h\<lparr>c_body := Ws ?ws\<rparr> # es @ bs) @ [?c])" using sg' by (simp add: seg_def)
  then have at: "tv_mem ?l' ?i = Some ?c" unfolding wtiles_append a(4) by simp
  have "seg (commit_tail (?f (fresh_chs sz n)) ?mid) ?st (((h # es) @ bs) @ [?f (fresh_chs sz n)])"
    by (rule upd_entry_seg [OF _ a(4)]) (use a(3) in simp_all)
  from seg_restrict [OF this] a(4) have "seg ?mid ?st (h # es @ bs)" by (simp add: upd_entry_def)
  moreover have "tv_tail_cnt ?mid = tv_tail_cnt l2" "cur_wrt_set ?mid = Some (tvlog_index ?st)" using a(7) by (simp_all add: upd_entry_def)
  ultimately have l0: "ws_part k ?mid ws h (es @ bs) \<and> unat (tvlog_index (tv_tail_cnt ?mid)) = 0" if "b"
    using that r a(9) by (auto simp: ws_part_def room_def unat_tvlog_index split: if_splits)
  have bw: "b \<longleftrightarrow> tv_size \<le> unat (tvlog_index (tv_tail_cnt l1)) + unat (tvlog_entry_size sz)" using a(9) by (auto split: if_splits)
  from append_steps [OF assms(1,2) r(1) a(1,2,7), of v d]
  obtain s1 where s1: "tvlog_append_begin self v sz s = Some (?i, b, s1)" "vhdrs s1 = vhdrs s" "acts s1 = acts s" "tvl s1 self = Some ?mid"
    "\<And>s1'. tvl s1' self = tvl s1 self \<Longrightarrow>
       \<exists>s2. tvlog_append_end self ?i b (write_body self ?i d s1') = Some s2 \<and> vhdrs s2 = vhdrs s1' \<and> tvl s2 self = Some ?l'" by auto
  show thesis by (rule that [OF s1(1,2,3) a(8) _ rep _ _ at _ _ _ _ _ s1(4) l0 bw s1(5)]) (simp_all add: a(4) fresh_chs_def zero_chs_def)
qed

text \<open>
  C14. Appending a copy to a write set, with the object copied behind its header: the entries
  of the write set stay as they are and are followed by the copy, with a bogus copy in
  between when the copy would wrap around the end of the buffer; the write set counts all of
  them, and behind the copy there is room for the next write set header. The first copy opens
  the write set. The sizes in the 16-bit and 32-bit fields do not overflow. Between the two
  halves of the append anything may happen that leaves the log alone, such as taking the lock.
\<close>

theorem ws_append_tiles:
  assumes "tvl s self = Some l" "ws_ok l es" "unat sz \<le> 65000" "csizes es + 2 * unat (tvlog_entry_size sz) + 512 \<le> tv_size"
    and "length d = unat sz"
  shows "\<exists>i b s1 l' bs c. tvlog_append_begin self v sz s = Some (i, b, s1) \<and>
    (\<forall>s1'. tvl s1' self = tvl s1 self \<longrightarrow>
       (\<exists>s2. tvlog_append_end self i b (write_body self i d s1') = Some s2 \<and> tvl s2 self = Some l')) \<and>
    cur_wrt_set l' \<noteq> None \<and> ws_ok l' (es @ bs @ [c]) \<and> (if b then \<exists>e. bs = [e] \<and> c_type e = TYPE_BOGUS else bs = []) \<and>
    tv_mem l' i = Some c \<and> c_type c = TYPE_COPY \<and> c_vhdr c = Some v \<and> c_obj_size c = sz \<and> c_wrt_clk c = MAX_VERSION \<and> c_body c = Data d"
proof -
  obtain ws h l1 where o: "tvlog_open_ws self l = Some (False, l1)" "ws_rep l1 ws h es" using open_ws_ok [OF assms(2)] by blast
  show ?thesis
  proof (rule append_part [OF assms(1) o assms(3-5), of v])
    fix i b s1 bs c ws' h' l0 l'
    assume r: "ws_part (length es + 1 + length bs) l' ws' h' (es @ bs @ [c])" and
      a: "tvlog_append_begin self v sz s = Some (i, b, s1)" "if b then \<exists>e. bs = [e] \<and> c_type e = TYPE_BOGUS else bs = []"
        "tv_mem l' i = Some c" "c_type c = TYPE_COPY" "c_vhdr c = Some v" "c_obj_size c = sz" "c_wrt_clk c = MAX_VERSION" "c_body c = Data d"
        "\<And>s1'. tvl s1' self = tvl s1 self \<Longrightarrow>
          \<exists>s2. tvlog_append_end self i b (write_body self i d s1') = Some s2 \<and> vhdrs s2 = vhdrs s1' \<and> tvl s2 self = Some l'"
    have "ws_ok l' (es @ bs @ [c])" "cur_wrt_set l' \<noteq> None" using r by (auto simp: ws_ok_def ws_part_def)
    with a show ?thesis by (intro exI [of _ i] exI [of _ b] exI [of _ s1] exI [of _ l'] exI [of _ bs] exI [of _ c]) blast
  qed
qed

theorem ws_append_tiles_witness:
  "\<exists>i b s1 l' bs c. tvlog_append_begin 1 5 8 demo_sys = Some (i, b, s1) \<and>
    (\<forall>s1'. tvl s1' 1 = tvl s1 1 \<longrightarrow>
       (\<exists>s2. tvlog_append_end 1 i b (write_body 1 i (replicate 8 7) s1') = Some s2 \<and> tvl s2 1 = Some l')) \<and>
    cur_wrt_set l' \<noteq> None \<and> ws_ok l' ([] @ bs @ [c]) \<and> (if b then \<exists>e. bs = [e] \<and> c_type e = TYPE_BOGUS else bs = []) \<and>
    tv_mem l' i = Some c \<and> c_type c = TYPE_COPY \<and> c_vhdr c = Some 5 \<and> c_obj_size c = 8 \<and> c_wrt_clk c = MAX_VERSION \<and> c_body c = Data (replicate 8 7)"
proof (rule ws_append_tiles)
  show "tvl demo_sys 1 = Some demo_tvlog" by (simp add: tvl_def demo_sys_def demo_thread_def)
  show "ws_ok demo_tvlog []" by (simp add: ws_ok_def demo_tvlog_def room_def)
  show "csizes [] + 2 * unat (tvlog_entry_size 8) + 512 \<le> tv_size"
    by (simp add: tvlog_entry_size_def sizeof_chs_hdr_def align_uint_to_cacheline_def)
qed simp_all

end
