(* ===== verification/CommitAbort.thy ===== *)
theory CommitAbort
  imports WriteSet
begin

text \<open>
  The ends of a transaction on its write set (\<open>tvlog_abort\<close>, \<open>ws_unlock_abort\<close>, \<open>ws_unlock_commit\<close> of
  \<open>src/lib/tvlog.c\<close>): which locks are released, what becomes of the copies and of the log, and two
  cases in which the entries of the write set are miscounted.
\<close>

section \<open>Abort\<close>

definition lockable :: "chs \<Rightarrow> bool" where
  "lockable e \<longleftrightarrow> c_type e = TYPE_COPY \<or> c_type e = TYPE_FREE"

text \<open>The positions of the copies of a write set that satisfy \<open>P\<close>, each with the header it locks.\<close>

fun copy_locks :: "(chs \<Rightarrow> bool) \<Rightarrow> u64 \<Rightarrow> chs list \<Rightarrow> (u32 \<times> nat) set" where
  "copy_locks P c [] = {}"
| "copy_locks P c (e # es) =
     (case c_vhdr e of Some v \<Rightarrow> if P e then {(tvlog_index c, v)} else {} | None \<Rightarrow> {}) \<union> copy_locks P (c + of_nat (csz e)) es"

definition release :: "nat \<Rightarrow> (u32 \<times> nat) set \<Rightarrow> sys \<Rightarrow> sys" where
  "release self L s = s\<lparr>vhdrs := \<lambda>v. map_option (\<lambda>h.
     case p_lock h of Cpy t i \<Rightarrow> if t = self \<and> (i, v) \<in> L then h\<lparr>p_lock := Null\<rparr> else h | _ \<Rightarrow> h) (vhdrs s v)\<rparr>"

lemma release_simps [simp]:
  "thrs (release self L s) = thrs s" "tvl (release self L s) t = tvl s t" "get_chs (release self L s) t i = get_chs s t i"
  by (simp_all add: release_def tvl_def get_chs_def)

lemma release_vhdr:
  "vhdrs (release self L s) v = map_option (\<lambda>h. if \<exists>i. p_lock h = Cpy self i \<and> (i, v) \<in> L then h\<lparr>p_lock := Null\<rparr> else h) (vhdrs s v)"
  by (cases "vhdrs s v") (auto simp: release_def split: ptr.splits)

lemma release_eqI: "s' = s\<lparr>vhdrs := vhdrs s'\<rparr> \<Longrightarrow> vhdrs s' = vhdrs (release self L s) \<Longrightarrow> s' = release self L s"
  by (simp add: release_def)

lemma release_none [simp]: "release self {} s = s"
proof (rule release_eqI [symmetric])
  show "vhdrs s = vhdrs (release self {} s)"
  proof
    fix u
    show "vhdrs s u = vhdrs (release self {} s) u" by (cases "vhdrs s u") (simp_all add: release_vhdr)
  qed
qed simp

lemma unlock_obj_release: "unlock_obj self i v s = release self {(i, v)} s"
proof (rule release_eqI)
  show "vhdrs (unlock_obj self i v s) = vhdrs (release self {(i, v)} s)"
  proof
    fix u
    show "vhdrs (unlock_obj self i v s) u = vhdrs (release self {(i, v)} s) u"
      by (cases "vhdrs s u") (auto simp: unlock_obj_def upd_vhdr_def release_vhdr)
  qed
qed (simp add: unlock_obj_def upd_vhdr_def)

lemma release_release: "release self L (release self K s) = release self (K \<union> L) s"
proof (rule release_eqI)
  show "vhdrs (release self L (release self K s)) = vhdrs (release self (K \<union> L) s)"
  proof
    fix u
    show "vhdrs (release self L (release self K s)) u = vhdrs (release self (K \<union> L) s) u"
      by (cases "vhdrs s u") (auto simp: release_vhdr)
  qed
qed (simp add: release_def)

lemma abort_loop:
  "tvl s self = Some l \<Longrightarrow> wtiles (tv_mem l) c es \<Longrightarrow> \<forall>e\<in>set es. lockable e \<longrightarrow> c_vhdr e \<noteq> None \<Longrightarrow>
   ws_for_each self (unlock_abort self) (length es) c ((), s) =
     Some (False, c + of_nat (csizes es), (), release self (copy_locks lockable c es) s)"
proof (induction es arbitrary: c s)
  case (Cons e es)
  let ?L = "case c_vhdr e of Some v \<Rightarrow> if lockable e then {(tvlog_index c, v)} else {} | None \<Rightarrow> {}"
  have g: "get_chs s self (tvlog_index c) = Some e" using Cons.prems(1,2) by (simp add: get_chs_tvl)
  have u: "unlock_abort self (tvlog_index c) e ((), s) = Some (False, (), release self ?L s)"
    using Cons.prems(3) by (auto simp: unlock_abort_def lockable_def unlock_obj_release split: option.splits)
  have "ws_for_each self (unlock_abort self) (length es) (c + of_nat (csz e)) ((), release self ?L s) =
      Some (False, c + of_nat (csz e) + of_nat (csizes es), (), release self (copy_locks lockable (c + of_nat (csz e)) es) (release self ?L s))"
    by (rule Cons.IH) (use Cons.prems in simp_all)
  then show ?case using g u by (simp add: ws_iter_next_def ucast_entry_size release_release algebra_simps)
qed simp

abbreviation end_tx :: "u64 \<Rightarrow> thread \<Rightarrow> thread" where
  "end_tx tail th \<equiv> th\<lparr>tvlog := (tvlog th)\<lparr>tv_tail_cnt := tail, cur_wrt_set := None\<rparr>, tx_free_set := ptrset_reset (tx_free_set th)\<rparr>"

lemma abort_part:
  assumes "thrs s self = Some th" "ws_part k (tvlog th) ws h es" "k \<le> length es" "k < 2 ^ 32" "\<forall>e\<in>set (take k es). lockable e \<longrightarrow> c_vhdr e \<noteq> None"
  shows "tvlog_abort self s = Some (upd_thr self (end_tx (start_tail_cnt ws))
     (release self (copy_locks lockable (start_tail_cnt ws + of_nat (csz h)) (take k es)) s))"
proof -
  let ?st = "start_tail_cnt ws"
  let ?L = "copy_locks lockable (?st + of_nat (csz h)) (take k es)"
  have r: "cur_wrt_set (tvlog th) = Some (tvlog_index ?st)" "c_body h = Ws ws" "wtiles (tv_mem (tvlog th)) ?st (h # take k es @ drop k es)"
    "num_objs ws = of_nat k" using assms(2) by (auto simp: ws_part_def seg_def)
  have tv: "tvl s self = Some (tvlog th)" using assms(1) by (simp add: tvl_def)
  have gh: "get_chs s self (tvlog_index ?st) = Some h" using tv r(3) by (simp add: get_chs_tvl)
  then have gw: "get_ws s self (tvlog_index ?st) = Some ws" using r(2) by (simp add: get_ws_def)
  have n: "unat (num_objs ws) = length (take k es)" using r(4) assms(3,4) by (simp add: unat_of_nat)
  have "wtiles (tv_mem (tvlog th)) (?st + of_nat (csz h)) (take k es)" using r(3) by (simp only: wtiles.simps wtiles_append)
  from abort_loop [OF tv this assms(5)]
  have "ws_loop self (tvlog_index ?st) (unlock_abort self) ((), s) =
      Some (False, ?st + of_nat (csz h) + of_nat (csizes (take k es)), (), release self ?L s)"
    using gh gw n by (simp add: ws_loop_def ws_iter_begin_def ucast_entry_size)
  then have u: "ws_unlock_abort self s = Some (release self ?L s)" using assms(1) r(1) by (simp add: ws_unlock_abort_def)
  have "get_ws (release self ?L s) self (tvlog_index ?st) = Some ws" using gw by (simp add: get_ws_def)
  then show ?thesis using u assms(1) r(1) by (simp add: tvlog_abort_def)
qed

text \<open>
  Aborting a transaction returns. It releases exactly the locks its copies hold, gives the
  whole write set back to the log, which is then as before the first copy was appended, and
  forgets the frees; the copies and the master objects are untouched.
\<close>

theorem tvlog_abort_releases:
  assumes "thrs s self = Some th" "ws_rep (tvlog th) ws h es" "\<forall>e\<in>set es. lockable e \<longrightarrow> c_vhdr e \<noteq> None" "length es < 2 ^ 32"
  defines "L \<equiv> copy_locks lockable (start_tail_cnt ws + of_nat (csz h)) es"
  shows "\<exists>s' th'. tvlog_abort self s = Some s' \<and> thrs s' self = Some th' \<and>
     tvlog th' = (tvlog th)\<lparr>tv_tail_cnt := start_tail_cnt ws, cur_wrt_set := None\<rparr> \<and> ws_ok (tvlog th') [] \<and>
     num_ptrs (tx_free_set th') = 0 \<and> acts s' = acts s \<and>
     (\<forall>v. vhdrs s' v = map_option (\<lambda>h. if \<exists>i. p_lock h = Cpy self i \<and> (i, v) \<in> L then h\<lparr>p_lock := Null\<rparr> else h) (vhdrs s v))"
proof -
  let ?st = "start_tail_cnt ws"
  let ?s = "upd_thr self (end_tx ?st) (release self L s)"
  have r: "room ?st" "64 dvd unat ?st" using assms(2) by (auto simp: ws_part_def seg_def)
  have "tvlog_abort self s = Some ?s" using abort_part [OF assms(1,2) order_refl assms(4)] assms(3) by (simp add: L_def)
  moreover have "ws_ok ((tvlog th)\<lparr>tv_tail_cnt := ?st, cur_wrt_set := None\<rparr>) []" using r by (simp add: ws_ok_def)
  moreover have "num_ptrs (ptrset_reset (tx_free_set th)) = 0" by (simp add: ptrset_reset_def)
  moreover have "acts ?s = acts s" by (simp add: upd_thr_def release_def)
  moreover have "vhdrs ?s = vhdrs (release self L s)" by (simp add: upd_thr_def)
  ultimately show ?thesis using assms(1) by (auto simp: store_simps release_vhdr)
qed

text \<open>A transaction that has locked one object.\<close>

definition demo_wset :: wrt_set where
  "demo_wset = (new_wrt_set 3 0)\<lparr>num_objs := 1\<rparr>"

definition demo_hdr :: chs where
  "demo_hdr = zero_chs\<lparr>c_wrt_clk := MAX_VERSION, c_obj_size := 40, c_padding_size := 88, c_type := TYPE_WRT_SET, c_body := Ws demo_wset\<rparr>"

definition demo_locked :: chs where
  "demo_locked = zero_chs\<lparr>p_ws := Some 0, c_wrt_clk := MAX_VERSION, c_obj_size := 8, c_padding_size := 56, c_type := TYPE_COPY,
     c_vhdr := Some 5, c_body := Data (replicate 8 7)\<rparr>"

definition demo_tx_thread :: thread where
  "demo_tx_thread = demo_thread\<lparr>tvlog := demo_tvlog\<lparr>tv_tail_cnt := 192, cur_wrt_set := Some 0, tv_mem := [0 \<mapsto> demo_hdr, 128 \<mapsto> demo_locked]\<rparr>\<rparr>"

definition demo_tx :: sys where
  "demo_tx = demo_sys\<lparr>thrs := [3 \<mapsto> demo_tx_thread],
     vhdrs := [5 \<mapsto> \<lparr>p_copy = Null, p_lock = Cpy 3 128, np_org_act = Act 9, np_cur_act = Act 9, tombstone_clk = MAX_VERSION\<rparr>,
               6 \<mapsto> \<lparr>p_copy = Null, p_lock = Cpy 4 128, np_org_act = Act 7, np_cur_act = Act 7, tombstone_clk = MAX_VERSION\<rparr>]\<rparr>"

lemma demo_tx_sizes: "csz demo_hdr = 128" "csz demo_locked = 64"
  by (simp_all add: csz_def get_entry_size_def demo_hdr_def demo_locked_def zero_chs_def)

lemma demo_tx_rep: "ws_rep (tvlog demo_tx_thread) demo_wset demo_hdr [demo_locked]"
  by (simp add: ws_part_def seg_def demo_tx_sizes room_def demo_wset_def new_wrt_set_def tvlog_index_ring ring_index_def demo_tx_thread_def)
    (simp add: demo_hdr_def demo_wset_def new_wrt_set_def)

theorem tvlog_abort_releases_witness:
  "\<exists>s' th'. tvlog_abort 3 demo_tx = Some s' \<and> thrs s' 3 = Some th' \<and>
     tvlog th' = (tvlog demo_tx_thread)\<lparr>tv_tail_cnt := 0, cur_wrt_set := None\<rparr> \<and>
     map_option p_lock (vhdrs s' 5) = Some Null \<and> map_option p_lock (vhdrs s' 6) = Some (Cpy 4 128)"
proof -
  have th: "thrs demo_tx 3 = Some demo_tx_thread" by (simp add: demo_tx_def)
  have v: "\<forall>e\<in>set [demo_locked]. lockable e \<longrightarrow> c_vhdr e \<noteq> None" by (simp add: demo_locked_def)
  have L: "copy_locks lockable (start_tail_cnt demo_wset + of_nat (csz demo_hdr)) [demo_locked] = {(128, 5)}"
    by (simp add: demo_tx_sizes demo_wset_def new_wrt_set_def demo_locked_def lockable_def tvlog_index_ring ring_index_def)
  have st: "start_tail_cnt demo_wset = 0" by (simp add: demo_wset_def new_wrt_set_def)
  from tvlog_abort_releases [OF th demo_tx_rep v, unfolded L, unfolded st]
  obtain s' th' where s': "tvlog_abort 3 demo_tx = Some s'" "thrs s' 3 = Some th'"
      "tvlog th' = (tvlog demo_tx_thread)\<lparr>tv_tail_cnt := 0, cur_wrt_set := None\<rparr>"
      "\<forall>v. vhdrs s' v = map_option (\<lambda>h. if \<exists>i. p_lock h = Cpy 3 i \<and> (i, v) \<in> {(128, 5)} then h\<lparr>p_lock := Null\<rparr> else h) (vhdrs demo_tx v)"
    by auto
  moreover have "map_option p_lock (vhdrs s' 5) = Some Null" "map_option p_lock (vhdrs s' 6) = Some (Cpy 4 128)"
    using s'(4) by (simp_all add: demo_tx_def)
  ultimately show ?thesis by blast
qed

section \<open>Commit\<close>

text \<open>What the last phase of a commit leaves alone in a copy.\<close>

definition core :: "chs \<Rightarrow> chs" where
  "core c = c\<lparr>c_wrt_clk := 0, wrt_clk_prev := 0, c_p_copy := (if c_type c = TYPE_FREE then Null else c_p_copy c)\<rparr>"

lemma core_fields:
  "core c = core d \<Longrightarrow> csz c = csz d \<and> c_type c = c_type d \<and> c_vhdr c = c_vhdr d \<and> c_body c = c_body d \<and>
     (c_type c \<noteq> TYPE_FREE \<longrightarrow> c_p_copy c = c_p_copy d)"
  by (cases c; cases d) (auto simp: core_def csz_def get_entry_size_def)

text \<open>
  The log \<open>l'\<close> holds the copies of \<open>l\<close>, with the write clock \<open>w\<close> in those at the positions \<open>W\<close>.
\<close>

definition stamped :: "u64 \<Rightarrow> u32 set \<Rightarrow> tvlog \<Rightarrow> tvlog \<Rightarrow> bool" where
  "stamped w W l l' \<longleftrightarrow>
     cur_wrt_set l' = cur_wrt_set l \<and> tv_tail_cnt l' = tv_tail_cnt l \<and>
     (\<forall>i. rel_option (\<lambda>c c'. core c' = core c \<and> c_wrt_clk c' = (if i \<in> W then w else c_wrt_clk c)) (tv_mem l i) (tv_mem l' i))"

lemma stamped_refl: "stamped w {} l l"
  by (simp add: stamped_def option.rel_refl)

lemma stamped_trans:
  assumes "stamped w W l l'" "stamped w V l' l''"
  shows "stamped w (W \<union> V) l l''"
proof -
  have "rel_option (\<lambda>c c'. core c' = core c \<and> c_wrt_clk c' = (if i \<in> W \<union> V then w else c_wrt_clk c)) (tv_mem l i) (tv_mem l'' i)" for i
  proof -
    have "rel_option (\<lambda>c c'. core c' = core c \<and> c_wrt_clk c' = (if i \<in> W then w else c_wrt_clk c)) (tv_mem l i) (tv_mem l' i)"
      "rel_option (\<lambda>c c'. core c' = core c \<and> c_wrt_clk c' = (if i \<in> V then w else c_wrt_clk c)) (tv_mem l' i) (tv_mem l'' i)"
      using assms by (simp_all add: stamped_def)
    then show ?thesis by (cases "tv_mem l i"; cases "tv_mem l' i"; cases "tv_mem l'' i") (auto split: if_splits)
  qed
  with assms show ?thesis by (simp add: stamped_def)
qed

lemma stamped_upd:
  assumes "\<And>c. core (f c) = core c" "\<And>c. c_wrt_clk (f c) = c_wrt_clk c"
  shows "stamped w {} l (upd_entry i f l)"
proof -
  have "rel_option (\<lambda>c c'. core c' = core c \<and> c_wrt_clk c' = c_wrt_clk c) (tv_mem l j) (tv_mem (upd_entry i f l) j)" for j
    using assms by (cases "tv_mem l j") (auto simp: upd_entry_def)
  then show ?thesis by (simp add: stamped_def) (simp add: upd_entry_def)
qed

lemma stamped_at:
  assumes "tv_mem l i = Some c" "core (f c) = core c" "c_wrt_clk (f c) = w"
  shows "stamped w {i} l (upd_entry i f l)"
proof -
  have "rel_option (\<lambda>c c'. core c' = core c \<and> c_wrt_clk c' = (if j \<in> {i} then w else c_wrt_clk c)) (tv_mem l j) (tv_mem (upd_entry i f l) j)" for j
    using assms by (cases "tv_mem l j") (auto simp: upd_entry_def)
  then show ?thesis by (simp add: stamped_def) (simp add: upd_entry_def)
qed

lemma stamped_tiles:
  assumes "stamped w W l l'"
  shows "wtiles (tv_mem l) c es \<Longrightarrow> \<exists>es'. wtiles (tv_mem l') c es' \<and> map core es' = map core es"
proof (induction es arbitrary: c)
  case (Cons e es)
  then obtain es' where es': "wtiles (tv_mem l') (c + of_nat (csz e)) es'" "map core es' = map core es" by auto
  have "rel_option (\<lambda>c c'. core c' = core c) (tv_mem l (tvlog_index c)) (tv_mem l' (tvlog_index c))"
    using assms by (auto simp: stamped_def elim: option.rel_mono_strong)
  then obtain e' where e': "tv_mem l' (tvlog_index c) = Some e'" "core e' = core e" using Cons.prems by (cases "tv_mem l' (tvlog_index c)") auto
  have "wtiles (tv_mem l') c (e' # es')" using e' es' core_fields [OF e'(2)] Cons.prems by simp
  with e' es' show ?case by (intro exI [of _ "e' # es'"]) simp
qed simp

lemma tvl_upd_chs: "tvl (upd_chs t i f s) t' = (if t' = t then map_option (upd_entry i f) (tvl s t) else tvl s t')"
  by (auto simp: tvl_def upd_chs_def upd_tvlog_def upd_thr_def upd_entry_def option.map_comp comp_def)

lemma vhdrs_release_cong: "vhdrs s = vhdrs s' \<Longrightarrow> vhdrs (release self L s) = vhdrs (release self L s')"
  by (simp add: release_def)

fun stamps :: "u64 \<Rightarrow> chs list \<Rightarrow> u32 set" where
  "stamps c [] = {}"
| "stamps c (e # es) = (if lockable e then {tvlog_index c} else {}) \<union> stamps (c + of_nat (csz e)) es"

abbreviation is_copy :: "chs \<Rightarrow> bool" where
  "is_copy e \<equiv> c_type e = TYPE_COPY"

text \<open>A copy that has been linked into a version chain.\<close>

definition linked :: "chs \<Rightarrow> bool" where
  "linked e \<longleftrightarrow> (is_copy e \<longrightarrow> c_vhdr e \<noteq> None \<and> (c_p_copy e = Null \<or> cpy_of (c_p_copy e) \<noteq> None))"

lemma core_cong:
  "map core es' = map core es \<Longrightarrow> stamps c es' = stamps c es \<and> copy_locks is_copy c es' = copy_locks is_copy c es \<and>
     csizes es' = csizes es \<and> ((\<forall>e\<in>set es'. linked e) \<longleftrightarrow> (\<forall>e\<in>set es. linked e))"
proof (induction es arbitrary: c es')
  case (Cons e es)
  then obtain e' fs where f: "es' = e' # fs" "core e' = core e" "map core fs = map core es" by auto
  from core_fields [OF f(2)] Cons.IH [OF f(3)] show ?case
    unfolding f(1) by (cases "c_vhdr e") (simp_all add: lockable_def linked_def)
qed simp

abbreviation step_locks :: "u64 \<Rightarrow> chs \<Rightarrow> (u32 \<times> nat) set" where
  "step_locks c e \<equiv> (case c_vhdr e of Some v \<Rightarrow> if is_copy e then {(tvlog_index c, v)} else {} | None \<Rightarrow> {})"

lemma unlock_commit_step:
  assumes "tvl s self = Some l" "tv_mem l (tvlog_index c) = Some e" "linked e"
  obtains s' l' where "unlock_commit self w (tvlog_index c) e ((), s) = Some (False, (), s')" "tvl s' self = Some l'"
    "stamped w (if lockable e then {tvlog_index c} else {}) l l'" "vhdrs s' = vhdrs (release self (step_locks c e) s)"
proof -
  let ?i = "tvlog_index c"
  have core1: "core (c\<lparr>c_wrt_clk := w\<rparr>) = core c" "core (c\<lparr>wrt_clk_prev := w\<rparr>) = core c" for c by (simp_all add: core_def)
  consider (copy) v where "is_copy e" "c_vhdr e = Some v" "c_p_copy e = Null \<or> (\<exists>t j. c_p_copy e = Cpy t j)"
    | (free) "c_type e = TYPE_FREE" | (other) "\<not> is_copy e" "c_type e \<noteq> TYPE_FREE"
    using assms(3) by (auto simp: linked_def cpy_of_def split: ptr.splits)
  then show ?thesis
  proof cases
    case other
    have "unlock_commit self w ?i e ((), s) = Some (False, (), s)" using other by (simp add: unlock_commit_def split: obj_type.splits)
    then show ?thesis using that assms(1) other stamped_refl [of w l] by (simp add: lockable_def split: option.splits)
  next
    case free
    let ?f = "\<lambda>c. c\<lparr>c_wrt_clk := w, c_p_copy := Null\<rparr>"
    have "stamped w {?i} l (upd_entry ?i ?f l)" by (rule stamped_at [OF assms(2)]) (use free in \<open>simp_all add: core_def\<close>)
    moreover have "unlock_commit self w ?i e ((), s) = Some (False, (), upd_chs self ?i ?f s)" using free by (simp add: unlock_commit_def)
    moreover have "step_locks c e = {}" using free by (simp split: option.splits)
    ultimately show ?thesis using that assms(1) free by (simp add: lockable_def tvl_upd_chs store_simps)
  next
    case copy
    let ?f = "\<lambda>c. c\<lparr>c_wrt_clk := w\<rparr>" and ?g = "\<lambda>c. c\<lparr>wrt_clk_prev := w\<rparr>"
    let ?s = "release self {(?i, v)} (upd_chs self ?i ?f s)"
    have st: "stamped w {?i} l (upd_entry ?i ?f l)" by (rule stamped_at [OF assms(2)]) (simp_all add: core1)
    have tv: "tvl ?s self = Some (upd_entry ?i ?f l)" using assms(1) by (simp add: tvl_upd_chs)
    have vh: "vhdrs ?s = vhdrs (release self {(?i, v)} s)" by (rule vhdrs_release_cong) (simp add: store_simps)
    have k: "step_locks c e = {(?i, v)}" "lockable e" using copy by (simp_all add: lockable_def)
    from copy(3) show ?thesis
    proof (elim disjE exE)
      assume "c_p_copy e = Null"
      then have "unlock_commit self w ?i e ((), s) = Some (False, (), ?s)" using copy by (simp add: unlock_commit_def unlock_obj_release)
      then show ?thesis using that tv st vh k by simp
    next
      fix t j assume "c_p_copy e = Cpy t j"
      then have u: "unlock_commit self w ?i e ((), s) = Some (False, (), upd_chs t j ?g ?s)" using copy by (simp add: unlock_commit_def unlock_obj_release)
      let ?l = "if self = t then upd_entry j ?g (upd_entry ?i ?f l) else upd_entry ?i ?f l"
      have "stamped w ({?i} \<union> {}) l ?l" using stamped_trans [OF st stamped_upd] st by (simp add: core1)
      moreover have "tvl (upd_chs t j ?g ?s) self = Some ?l" using assms(1) by (auto simp: tvl_upd_chs)
      ultimately show ?thesis using that [OF u] vh k by (simp add: store_simps)
    qed
  qed
qed

lemma commit_loop:
  "tvl s self = Some l \<Longrightarrow> wtiles (tv_mem l) c es \<Longrightarrow> \<forall>e\<in>set es. linked e \<Longrightarrow>
   \<exists>s' l'. ws_for_each self (unlock_commit self w) (length es) c ((), s) = Some (False, c + of_nat (csizes es), (), s') \<and>
     tvl s' self = Some l' \<and> stamped w (stamps c es) l l' \<and> vhdrs s' = vhdrs (release self (copy_locks is_copy c es) s)"
proof (induction "length es" arbitrary: es c s l)
  case 0
  then show ?case using stamped_refl by simp
next
  case (Suc n)
  obtain e fs where es: "es = e # fs" "length fs = n" using Suc.hyps(2) by (cases es) auto
  have e: "tv_mem l (tvlog_index c) = Some e" "linked e" using Suc.prems es by simp_all
  obtain s1 l1 where u: "unlock_commit self w (tvlog_index c) e ((), s) = Some (False, (), s1)" "tvl s1 self = Some l1"
    "stamped w (if lockable e then {tvlog_index c} else {}) l l1" "vhdrs s1 = vhdrs (release self (step_locks c e) s)"
    by (rule unlock_commit_step [OF Suc.prems(1) e])
  obtain gs where gs: "wtiles (tv_mem l1) c gs" "map core gs = map core es" using stamped_tiles [OF u(3) Suc.prems(2)] by blast
  then obtain e' fs' where es': "gs = e' # fs'" "core e' = core e" "map core fs' = map core fs" using es(1) by auto
  have t: "tv_mem l1 (tvlog_index c) = Some e'" "wtiles (tv_mem l1) (c + of_nat (csz e)) fs'"
    using gs(1) es' core_fields [OF es'(2)] by simp_all
  note k = core_cong [OF es'(3), of "c + of_nat (csz e)"]
  have len: "length fs' = n" using es'(3) es(2) map_eq_imp_length_eq by blast
  have "\<forall>e\<in>set fs'. linked e" using k Suc.prems(3) es by simp
  from Suc.hyps(1) [OF len [symmetric] u(2) t(2) this] k
  obtain s' l' where r: "ws_for_each self (unlock_commit self w) (length fs) (c + of_nat (csz e)) ((), s1) =
      Some (False, c + of_nat (csz e) + of_nat (csizes fs), (), s')" "tvl s' self = Some l'" "stamped w (stamps (c + of_nat (csz e)) fs) l1 l'"
      "vhdrs s' = vhdrs (release self (copy_locks is_copy (c + of_nat (csz e)) fs) s1)" unfolding len es(2) by auto
  have g: "get_chs s self (tvlog_index c) = Some e" "get_chs s1 self (tvlog_index c) = Some e'"
    using Suc.prems(1) u(2) e(1) t(1) by (simp_all add: get_chs_tvl)
  have "ws_for_each self (unlock_commit self w) (length es) c ((), s) = Some (False, c + of_nat (csizes es), (), s')"
    unfolding es using g u(1) r(1) core_fields [OF es'(2)] by (simp add: ws_iter_next_def ucast_entry_size algebra_simps)
  moreover have "stamped w (stamps c es) l l'" unfolding es using stamped_trans [OF u(3) r(3)] by simp
  moreover have "vhdrs s' = vhdrs (release self (copy_locks is_copy c es) s)"
    unfolding es copy_locks.simps release_release [symmetric] r(4) by (rule vhdrs_release_cong [OF u(4)])
  ultimately show ?case using r(2) by blast
qed

text \<open>
  The last phase of a commit returns. It gives every copy and every freed copy of the write
  set the commit clock, changes no data, and releases exactly the locks of the copies; a freed
  object stays locked.
\<close>

theorem ws_unlock_commit_stamps:
  assumes "thrs s self = Some th" "ws_rep (tvlog th) ws h es" "\<forall>e\<in>set es. linked e" "length es < 2 ^ 32"
  defines "st \<equiv> start_tail_cnt ws + of_nat (csz h)"
  shows "\<exists>s' th'. ws_unlock_commit self s = Some s' \<and> thrs s' self = Some th' \<and>
     stamped (ws_wrt_clk ws) (stamps st es) (tvlog th) (tvlog th') \<and>
     (\<forall>v. vhdrs s' v = map_option (\<lambda>h. if \<exists>i. p_lock h = Cpy self i \<and> (i, v) \<in> copy_locks is_copy st es then h\<lparr>p_lock := Null\<rparr> else h) (vhdrs s v))"
proof -
  let ?c = "start_tail_cnt ws"
  have r: "cur_wrt_set (tvlog th) = Some (tvlog_index ?c)" "c_body h = Ws ws" "wtiles (tv_mem (tvlog th)) ?c (h # es)"
    "num_objs ws = of_nat (length es)" using assms(2) by (auto simp: ws_part_def seg_def)
  have tv: "tvl s self = Some (tvlog th)" using assms(1) by (simp add: tvl_def)
  have gh: "get_chs s self (tvlog_index ?c) = Some h" using tv r(3) by (simp add: get_chs_tvl)
  then have gw: "get_ws s self (tvlog_index ?c) = Some ws" using r(2) by (simp add: get_ws_def)
  have n: "unat (num_objs ws) = length es" using r(4) assms(4) by (simp add: unat_of_nat)
  have "wtiles (tv_mem (tvlog th)) st es" using r(3) by (simp add: st_def)
  from commit_loop [OF tv this assms(3), of "ws_wrt_clk ws"]
  obtain s' l' where s': "ws_for_each self (unlock_commit self (ws_wrt_clk ws)) (length es) st ((), s) = Some (False, st + of_nat (csizes es), (), s')"
    "tvl s' self = Some l'" "stamped (ws_wrt_clk ws) (stamps st es) (tvlog th) l'" "vhdrs s' = vhdrs (release self (copy_locks is_copy st es) s)" by blast
  have "ws_unlock_commit self s = Some s'"
    using assms(1) r(1) gh gw n s'(1) by (simp add: ws_unlock_commit_def ws_loop_def ws_iter_begin_def ucast_entry_size st_def)
  moreover obtain th' where "thrs s' self = Some th'" "tvlog th' = l'" using s'(2) by (auto simp: tvl_def)
  ultimately show ?thesis using s'(3,4) by (auto simp: release_vhdr)
qed

theorem ws_unlock_commit_stamps_witness:
  "\<exists>s' th'. ws_unlock_commit 3 demo_tx = Some s' \<and> thrs s' 3 = Some th' \<and>
     stamped (ws_wrt_clk demo_wset) {128} (tvlog demo_tx_thread) (tvlog th') \<and>
     map_option p_lock (vhdrs s' 5) = Some Null \<and> map_option p_lock (vhdrs s' 6) = Some (Cpy 4 128)"
proof -
  have th: "thrs demo_tx 3 = Some demo_tx_thread" by (simp add: demo_tx_def)
  have v: "\<forall>e\<in>set [demo_locked]. linked e" by (simp add: demo_locked_def linked_def zero_chs_def)
  have st: "start_tail_cnt demo_wset + of_nat (csz demo_hdr) = 128" by (simp add: demo_wset_def new_wrt_set_def demo_tx_sizes)
  have i: "tvlog_index 128 = 128" by code_simp
  have L: "copy_locks is_copy 128 [demo_locked] = {(128, 5)}" "stamps 128 [demo_locked] = {128}"
    by (simp_all add: demo_locked_def lockable_def i)
  from ws_unlock_commit_stamps [OF th demo_tx_rep v, unfolded st, unfolded L]
  obtain s' th' where s': "ws_unlock_commit 3 demo_tx = Some s'" "thrs s' 3 = Some th'"
      "stamped (ws_wrt_clk demo_wset) {128} (tvlog demo_tx_thread) (tvlog th')"
      "\<forall>v. vhdrs s' v = map_option (\<lambda>h. if \<exists>i. p_lock h = Cpy 3 i \<and> (i, v) \<in> {(128, 5)} then h\<lparr>p_lock := Null\<rparr> else h) (vhdrs demo_tx v)"
    by auto
  moreover have "map_option p_lock (vhdrs s' 5) = Some Null" "map_option p_lock (vhdrs s' 6) = Some (Cpy 4 128)"
    using s'(4) by (simp_all add: demo_tx_def)
  ultimately show ?thesis by blast
qed

section \<open>Miscounted entries\<close>

text \<open>
  C37. The size of a bogus copy goes through a 16-bit field: with 64 KB left in front of the end
  of the buffer and a larger object, the log advances to the end of the buffer but the bogus copy
  has size zero, so a walk along the log does not get past it.
\<close>

theorem bogus_size_truncated:
  assumes "unat (tvlog_index (tv_tail_cnt l)) + 65536 = tv_size" "65536 \<le> unat sz" "unat sz < tv_size"
  shows "\<exists>l' c. tvlog_skip_end l sz b = (True, l') \<and> tv_tail_cnt l' = tv_tail_cnt l + 65536 \<and>
    tv_mem l' (tvlog_index (tv_tail_cnt l)) = Some c \<and> c_type c = TYPE_BOGUS \<and> ws_iter_next (tv_tail_cnt l) c = tv_tail_cnt l"
proof -
  let ?n = "ucast (TS_TVLOG_SIZE - ucast (tvlog_index (tv_tail_cnt l))) :: u32"
  have w: "tvlog_index (tv_tail_cnt l + ucast sz) < tvlog_index (tv_tail_cnt l)"
    using wrap_iff [of sz "tv_tail_cnt l"] assms by simp
  have "unat ?n = 65536" using to_end [of "tv_tail_cnt l"] assms(1) by simp
  then have n: "?n = 65536" by (simp add: word_unat_eq_iff)
  show ?thesis using w unfolding tvlog_skip_end_def n
    by (simp add: buf_put_def ws_iter_next_def get_entry_size_def zero_chs_def)
qed

theorem bogus_size_truncated_witness:
  "\<exists>l' c. tvlog_skip_end (demo_tvlog\<lparr>tv_tail_cnt := 983040\<rparr>) 131072 False = (True, l') \<and> tv_tail_cnt l' = 983040 + 65536 \<and>
    tv_mem l' (tvlog_index 983040) = Some c \<and> c_type c = TYPE_BOGUS \<and> ws_iter_next 983040 c = 983040"
  using bogus_size_truncated [of "demo_tvlog\<lparr>tv_tail_cnt := 983040\<rparr>" 131072 False] by (simp add: unat_tvlog_index)

lemma copy_locks_wpos: "(i, v) \<in> copy_locks P c es \<Longrightarrow> i \<in> set (wpos c es)"
  by (induction es arbitrary: c) (auto split: option.splits if_splits)

lemma wpos_append: "wpos c (es @ fs) = wpos c es @ wpos (c + of_nat (csizes es)) fs"
  by (induction es arbitrary: c) (auto simp: algebra_simps)

text \<open>Taking the lock and copying the object, for an object without copies.\<close>

lemma lock_copy_master:
  assumes "tvlog_append_begin self v sz s = Some (i, b, s1)" "vhdrs s1 = vhdrs s" "acts s1 = acts s"
    and "vhdrs s v = Some h" "p_lock h = Null" "p_copy h = Null" "np_cur_act h = Act a" "acts s a = Some ao" "unat sz \<le> length (a_data ao)"
    and "tvlog_append_end self i b (write_body self i (take (unat sz) (a_data ao)) (upd_vhdr v (\<lambda>h. h\<lparr>p_lock := Cpy self i\<rparr>) s1)) = Some s2"
  shows "lock_copy self obj v sz s = Some (True, Cpy self i,
    upd_thr self (\<lambda>th. th\<lparr>is_write_detected := True, isolation := write_set_add (isolation th) (Cpy self i)\<rparr>) s2)"
  using assms by (simp add: lock_copy_def try_lock_obj_def obj_data_def store_simps)

lemma append_wraps:
  assumes "tvl s self = Some l" "ws_part k l ws h es" "unat sz \<le> 65000" "csizes es + 2 * unat (tvlog_entry_size sz) + 512 \<le> tv_size"
    and "tv_size \<le> unat (tvlog_index (tv_tail_cnt l)) + unat (tvlog_entry_size sz)"
  obtains i s1 e l0 where "tvlog_append_begin self v sz s = Some (i, True, s1)" "vhdrs s1 = vhdrs s" "acts s1 = acts s" "c_type e = TYPE_BOGUS"
    "tvl s1 self = Some l0" "ws_part k l0 ws h (es @ [e])" "unat (tvlog_index (tv_tail_cnt l0)) = 0"
proof -
  have o: "tvlog_open_ws self l = Some (False, l)" using assms(2) by (simp add: tvlog_open_ws_def ws_part_def)
  show thesis
  proof (rule append_part [OF assms(1) o assms(2-4), of "replicate (unat sz) 0" v])
    fix i b s1 bs l0
    assume a: "tvlog_append_begin self v sz s = Some (i, b, s1)" "vhdrs s1 = vhdrs s" "acts s1 = acts s" "tvl s1 self = Some l0"
      "if b then \<exists>e. bs = [e] \<and> c_type e = TYPE_BOGUS else bs = []"
      "b \<Longrightarrow> ws_part k l0 ws h (es @ bs) \<and> unat (tvlog_index (tv_tail_cnt l0)) = 0"
      "b \<longleftrightarrow> tv_size \<le> unat (tvlog_index (tv_tail_cnt l)) + unat (tvlog_entry_size sz)"
    then show thesis using assms(5) that by auto
  qed simp
qed

lemma append_fits:
  assumes "tvl s self = Some l" "ws_part k l ws h es" "unat sz \<le> 65000" "csizes es + 2 * unat (tvlog_entry_size sz) + 512 \<le> tv_size" "length d = unat sz"
    and "unat (tvlog_index (tv_tail_cnt l)) + unat (tvlog_entry_size sz) < tv_size"
  shows "\<exists>i s1 c ws' h' l'. tvlog_append_begin self v sz s = Some (i, False, s1) \<and> vhdrs s1 = vhdrs s \<and> acts s1 = acts s \<and>
    i = tvlog_index (start_tail_cnt ws + of_nat (csizes (h # es))) \<and> ws_part (k + 1) l' ws' h' (es @ [c]) \<and>
    start_tail_cnt ws' = start_tail_cnt ws \<and> csz h' = csz h \<and>
    (\<forall>s1'. tvl s1' self = tvl s1 self \<longrightarrow>
       (\<exists>s2. tvlog_append_end self i False (write_body self i d s1') = Some s2 \<and> vhdrs s2 = vhdrs s1' \<and> tvl s2 self = Some l'))"
proof -
  have o: "tvlog_open_ws self l = Some (False, l)" using assms(2) by (simp add: tvlog_open_ws_def ws_part_def)
  show ?thesis
  proof (rule append_part [OF assms(1) o assms(2-5), of v])
    fix i b s1 bs c ws' h' l'
    assume a: "tvlog_append_begin self v sz s = Some (i, b, s1)" "vhdrs s1 = vhdrs s" "acts s1 = acts s"
      "if b then \<exists>e. bs = [e] \<and> c_type e = TYPE_BOGUS else bs = []" "i = tvlog_index (start_tail_cnt ws + of_nat (csizes (h # es @ bs)))"
      "ws_part (k + 1 + length bs) l' ws' h' (es @ bs @ [c])" "start_tail_cnt ws' = start_tail_cnt ws" "csz h' = csz h"
      "b \<longleftrightarrow> tv_size \<le> unat (tvlog_index (tv_tail_cnt l)) + unat (tvlog_entry_size sz)"
      "\<And>s1'. tvl s1' self = tvl s1 self \<Longrightarrow>
         \<exists>s2. tvlog_append_end self i b (write_body self i d s1') = Some s2 \<and> vhdrs s2 = vhdrs s1' \<and> tvl s2 self = Some l'"
    have "\<not> b" using a(9) assms(6) by linarith
    moreover from this a(4) have "bs = []" by simp
    ultimately show ?thesis using a by simp blast
  qed
qed

text \<open>
  C33. \<open>tvlog_append_abort\<close> leaves the bogus copy that an append has put in front of the wrap in
  the log without counting it in the write set. So when the attempt to lock an object fails after
  such an append and the transaction goes on and locks another object, the loop over the write
  set does not reach that object: it stays locked after the transaction has aborted.
\<close>

theorem append_abort_leaks_lock:
  assumes "tvl s self = Some l" "ws_rep l ws h es" "\<forall>e\<in>set es. lockable e \<longrightarrow> c_vhdr e \<noteq> None" "length es < 2 ^ 31"
    and "unat sz \<le> 65000" "unat sz2 \<le> 65000" "tv_size \<le> unat (tvlog_index (tv_tail_cnt l)) + unat (tvlog_entry_size sz)"
    and "csizes es + 3 * unat (tvlog_entry_size sz) + 2 * unat (tvlog_entry_size sz2) + 512 \<le> tv_size"
    and "vhdrs s v2 = Some hv" "p_lock hv = Null" "p_copy hv = Null" "np_cur_act hv = Act a" "acts s a = Some ao" "unat sz2 \<le> length (a_data ao)"
  shows "\<exists>i s1 i2 s2 s3. tvlog_append_begin self v sz s = Some (i, True, s1) \<and>
     lock_copy self obj v2 sz2 (tvlog_append_abort self i s1) = Some (True, Cpy self i2, s2) \<and>
     tvlog_abort self s2 = Some s3 \<and> vhdrs s3 v2 = Some (hv\<lparr>p_lock := Cpy self i2\<rparr>)"
proof -
  let ?st = "start_tail_cnt ws"
  have cap1: "csizes es + 2 * unat (tvlog_entry_size sz) + 512 \<le> tv_size" using assms(8) by linarith
  obtain i s1 e l0 where one: "tvlog_append_begin self v sz s = Some (i, True, s1)" "vhdrs s1 = vhdrs s" "acts s1 = acts s" "c_type e = TYPE_BOGUS"
      "tvl s1 self = Some l0" "ws_part (length es) l0 ws h (es @ [e])" "unat (tvlog_index (tv_tail_cnt l0)) = 0"
    by (rule append_wraps [OF assms(1,2,5) cap1 assms(7)])
  have sg: "seg l ?st (h # es)" "wtiles (tv_mem l0) ?st ((h # es) @ [e])" using assms(2) one(6) by (simp_all add: ws_part_def seg_def)
  then have "unat (tvlog_index (tv_tail_cnt l)) + csz e \<le> tv_size" unfolding wtiles_append by (simp add: seg_def unat_tvlog_index)
  then have cap2: "csizes (es @ [e]) + 2 * unat (tvlog_entry_size sz2) + 512 \<le> tv_size" using assms(7,8) by simp
  let ?d = "take (unat sz2) (a_data ao)"
  have fit: "unat (tvlog_index (tv_tail_cnt l0)) + unat (tvlog_entry_size sz2) < tv_size" using assms(8) one(7) by linarith
  have "length ?d = unat sz2" using assms(14) by simp
  from append_fits [OF one(5,6) assms(6) cap2 this fit, of v2]
  obtain i2 s2 c ws' h' l' where two: "tvlog_append_begin self v2 sz2 s1 = Some (i2, False, s2)" "vhdrs s2 = vhdrs s1" "acts s2 = acts s1"
      "i2 = tvlog_index (?st + of_nat (csizes (h # (es @ [e]))))" "ws_part (length es + 1) l' ws' h' ((es @ [e]) @ [c])" "start_tail_cnt ws' = ?st" "csz h' = csz h"
      "\<And>s1'. tvl s1' self = tvl s2 self \<Longrightarrow>
         \<exists>s2. tvlog_append_end self i2 False (write_body self i2 ?d s1') = Some s2 \<and> vhdrs s2 = vhdrs s1' \<and> tvl s2 self = Some l'" by blast
  let ?s2 = "upd_vhdr v2 (\<lambda>h. h\<lparr>p_lock := Cpy self i2\<rparr>) s2"
  obtain s2' where e2: "tvlog_append_end self i2 False (write_body self i2 ?d ?s2) = Some s2'" "vhdrs s2' = vhdrs ?s2" "tvl s2' self = Some l'"
    using two(8) [of ?s2] by auto
  let ?f = "\<lambda>th. th\<lparr>is_write_detected := True, isolation := write_set_add (isolation th) (Cpy self i2)\<rparr>"
  let ?s3 = "upd_thr self ?f s2'"
  have lc: "lock_copy self obj v2 sz2 s1 = Some (True, Cpy self i2, ?s3)"
    by (rule lock_copy_master [OF two(1-3) _ assms(10-12) _ assms(14) e2(1)]) (use one(2,3) assms(9,13) in simp_all)
  obtain th where th: "thrs s2' self = Some th" "tvlog th = l'" using e2(3) by (auto simp: tvl_def)
  let ?L = "copy_locks lockable (?st + of_nat (csz h)) (es @ [e])"
  have "tvlog_abort self ?s3 = Some (upd_thr self (end_tx ?st) (release self ?L ?s3))"
    using abort_part [of ?s3 self "?f th" "length es + 1" ws' h' "(es @ [e]) @ [c]"] two(5-7) th assms(3,4) one(4)
    by (auto simp: store_simps lockable_def)
  moreover have "i2 \<notin> set (wpos (?st + of_nat (csz h)) (es @ [e]))"
  proof -
    have "distinct (wpos ?st (h' # (es @ [e]) @ [c]))" using two(5,6) by (intro wpos_distinct) (auto simp: ws_part_def seg_def)
    moreover have "i2 = tvlog_index (?st + of_nat (csz h) + of_nat (csizes (es @ [e])))" using two(4) by (simp add: algebra_simps)
    ultimately show ?thesis using two(7) by (simp only: wpos.simps wpos_append) auto
  qed
  then have "(i2, v2) \<notin> ?L" using copy_locks_wpos by blast
  then have "vhdrs (upd_thr self (end_tx ?st) (release self ?L ?s3)) v2 = Some (hv\<lparr>p_lock := Cpy self i2\<rparr>)"
    using e2(2) two(2) one(2) assms(9) by (simp add: store_simps release_vhdr)
  ultimately show ?thesis using one(1) lc by (simp add: tvlog_append_abort_def)
qed

text \<open>A write set header 512 bytes in front of the end of the buffer.\<close>

definition demo_end_ws :: wrt_set where
  "demo_end_ws = new_wrt_set 3 1048064"

definition demo_end_hdr :: chs where
  "demo_end_hdr = demo_hdr\<lparr>c_body := Ws demo_end_ws\<rparr>"

definition demo_end_log :: tvlog where
  "demo_end_log = demo_tvlog\<lparr>tv_head_cnt := 1048064, tv_tail_cnt := 1048192, cur_wrt_set := Some 1048064, tv_mem := [1048064 \<mapsto> demo_end_hdr]\<rparr>"

definition demo_end_sys :: sys where
  "demo_end_sys = demo_tx\<lparr>thrs := [3 \<mapsto> demo_thread\<lparr>tvlog := demo_end_log\<rparr>],
     acts := [7 \<mapsto> \<lparr>a_vhdr = Some 6, a_gen_id = 1, a_index = 0, a_obj_size = 8, a_type = TYPE_ACTUAL, a_data = replicate 8 1\<rparr>],
     vhdrs := [6 \<mapsto> \<lparr>p_copy = Null, p_lock = Null, np_org_act = Act 7, np_cur_act = Act 7, tombstone_clk = MAX_VERSION\<rparr>]\<rparr>"

theorem append_abort_leaks_lock_witness:
  "\<exists>i s1 i2 s2 s3. tvlog_append_begin 3 5 400 demo_end_sys = Some (i, True, s1) \<and>
     lock_copy 3 (Act 7) 6 8 (tvlog_append_abort 3 i s1) = Some (True, Cpy 3 i2, s2) \<and>
     tvlog_abort 3 s2 = Some s3 \<and>
     vhdrs s3 6 = Some \<lparr>p_copy = Null, p_lock = Cpy 3 i2, np_org_act = Act 7, np_cur_act = Act 7, tombstone_clk = MAX_VERSION\<rparr>"
proof -
  let ?h = "\<lparr>p_copy = Null, p_lock = Null, np_org_act = Act 7, np_cur_act = Act 7, tombstone_clk = MAX_VERSION\<rparr>"
  have i: "tvlog_index 1048064 = 1048064" by code_simp
  have e: "tvlog_entry_size 400 = 512" "tvlog_entry_size 8 = 64" by code_simp+
  have "csz demo_end_hdr = 128" using demo_tx_sizes(1) by (simp add: demo_end_hdr_def)
  then have rep: "ws_rep demo_end_log demo_end_ws demo_end_hdr []"
    by (simp add: ws_part_def seg_def demo_end_log_def room_def demo_end_ws_def new_wrt_set_def i)
      (simp add: demo_end_hdr_def demo_end_ws_def new_wrt_set_def)
  have "\<exists>i s1 i2 s2 s3. tvlog_append_begin 3 5 400 demo_end_sys = Some (i, True, s1) \<and>
     lock_copy 3 (Act 7) 6 8 (tvlog_append_abort 3 i s1) = Some (True, Cpy 3 i2, s2) \<and>
     tvlog_abort 3 s2 = Some s3 \<and> vhdrs s3 6 = Some (?h\<lparr>p_lock := Cpy 3 i2\<rparr>)"
  proof (rule append_abort_leaks_lock [OF _ rep])
    show "tvl demo_end_sys 3 = Some demo_end_log" by (simp add: tvl_def demo_end_sys_def)
    show "vhdrs demo_end_sys 6 = Some ?h" by (simp add: demo_end_sys_def)
    show "acts demo_end_sys 7 = Some \<lparr>a_vhdr = Some 6, a_gen_id = 1, a_index = 0, a_obj_size = 8, a_type = TYPE_ACTUAL, a_data = replicate 8 1\<rparr>"
      by (simp add: demo_end_sys_def)
    show "tv_size \<le> unat (tvlog_index (tv_tail_cnt demo_end_log)) + unat (tvlog_entry_size 400)"
      by (simp add: unat_tvlog_index demo_end_log_def e)
  qed (simp_all add: e)
  then show ?thesis by simp
qed

end
