(* ===== verification/TxApi.thy ===== *)
theory TxApi
  imports CommitAbort
begin

text \<open>
  Laws of the transaction interface (\<open>src/lib/timestone.c\<close>): what locking an object guarantees, the
  operation record of a transaction, and the state of a thread after its initialisation.
\<close>

section \<open>Locking\<close>

lemma begin_frame:
  assumes "tvlog_append_begin self v sz s = Some (i, b, s1)"
  shows "vhdrs s1 = vhdrs s" "acts s1 = acts s"
  using assms by (auto simp: tvlog_append_begin_def stat_thread_def upd_tvlog_def store_simps Let_def split: bind_splits prod.splits)

lemma end_frame:
  assumes "tvlog_append_end self i b s = Some s1"
  shows "vhdrs s1 = vhdrs s"
  using assms by (auto simp: tvlog_append_end_def stat_thread_def upd_tvlog_def upd_ws_def store_simps Let_def split: bind_splits)

lemma write_body_frame: "vhdrs (write_body self i d s) = vhdrs s"
  by (simp add: write_body_def upd_tvlog_def store_simps)

lemma cpy_of_Some: "cpy_of p = Some (t, i) \<longleftrightarrow> p = Cpy t i"
  by (cases p) (auto simp: cpy_of_def)

lemma lock_copy_locks:
  assumes "lock_copy self obj v sz s = Some (ok, p, s')" "vhdrs s v = Some h" "p_lock h = Null"
  shows "ok \<and> (\<exists>i. p = Cpy self i \<and> vhdrs s' = (vhdrs s)(v \<mapsto> h\<lparr>p_lock := Cpy self i\<rparr>))"
proof -
  obtain i b s1 where b: "tvlog_append_begin self v sz s = Some (i, b, s1)"
    using assms(1) by (auto simp: lock_copy_def Let_def split: bind_splits)
  note v = begin_frame [OF b]
  let ?s2 = "upd_vhdr v (\<lambda>h. h\<lparr>p_lock := Cpy self i\<rparr>) s1"
  let ?fin = "\<lambda>s. upd_thr self (\<lambda>th. th\<lparr>is_write_detected := True, isolation := write_set_add (isolation th) (Cpy self i)\<rparr>) s"
  have tr: "try_lock_obj v (p_copy h) (Cpy self i) s1 = Some (True, ?s2)" using assms(2,3) v by (simp add: try_lock_obj_def)
  obtain d s3 where "tvlog_append_end self i b (write_body self i d ?s2) = Some s3" "(True, Cpy self i, ?fin s3) = (ok, p, s')"
    using assms(1) unfolding lock_copy_def assms(2) Option.bind.bind_lunit Let_def b prod.case tr simp_thms if_False
    by (cases "obj_data ?s2 (if p_copy h = Null then np_cur_act h else p_copy h)") (simp, auto split: if_splits bind_splits)
  moreover from this end_frame write_body_frame have "vhdrs s3 = vhdrs ?s2" by metis
  moreover have "vhdrs ?s2 = (vhdrs s)(v \<mapsto> h\<lparr>p_lock := Cpy self i\<rparr>)" using v assms(2) by (auto simp: upd_vhdr_def)
  ultimately show ?thesis by (auto simp: store_simps)
qed


text \<open>An object without copies that nobody has locked is locked when the log has space for it.\<close>

lemma lock_copy_succeeds:
  assumes "tvl s self = Some l" "ws_ok l es" "unat sz \<le> 65000" "csizes es + 2 * unat (tvlog_entry_size sz) + 512 \<le> tv_size"
    and "vhdrs s v = Some h" "p_lock h = Null" "p_copy h = Null" "np_cur_act h = Act a" "acts s a = Some ao" "unat sz \<le> length (a_data ao)"
  shows "\<exists>i s'. lock_copy self obj v sz s = Some (True, Cpy self i, s')"
proof -
  let ?d = "take (unat sz) (a_data ao)"
  obtain ws h1 l1 where o: "tvlog_open_ws self l = Some (False, l1)" "ws_rep l1 ws h1 es" using open_ws_ok [OF assms(2)] by blast
  have d: "length ?d = unat sz" using assms(10) by simp
  show ?thesis
  proof (rule append_part [OF assms(1) o assms(3,4) d, of v])
    fix i b s1 l'
    assume b: "tvlog_append_begin self v sz s = Some (i, b, s1)" "vhdrs s1 = vhdrs s" "acts s1 = acts s" and
      e: "\<And>s1'. tvl s1' self = tvl s1 self \<Longrightarrow>
          \<exists>s2. tvlog_append_end self i b (write_body self i ?d s1') = Some s2 \<and> vhdrs s2 = vhdrs s1' \<and> tvl s2 self = Some l'"
    obtain s2 where "tvlog_append_end self i b (write_body self i ?d (upd_vhdr v (\<lambda>h. h\<lparr>p_lock := Cpy self i\<rparr>) s1)) = Some s2"
      using e [of "upd_vhdr v (\<lambda>h. h\<lparr>p_lock := Cpy self i\<rparr>) s1"] by auto
    from lock_copy_master [OF b assms(5-10) this] show ?thesis by blast
  qed
qed

definition demo_object :: "ptr \<Rightarrow> sys" where
  "demo_object lock = demo_sys\<lparr>thrs := [3 \<mapsto> demo_thread],
     acts := [7 \<mapsto> \<lparr>a_vhdr = Some 6, a_gen_id = 1, a_index = 0, a_obj_size = 8, a_type = TYPE_ACTUAL, a_data = replicate 8 1\<rparr>],
     vhdrs := [6 \<mapsto> \<lparr>p_copy = Null, p_lock = lock, np_org_act = Act 7, np_cur_act = Act 7, tombstone_clk = MAX_VERSION\<rparr>]\<rparr>"

lemma demo_object_facts:
  "tvl (demo_object lock) 3 = Some demo_tvlog" "thrs (demo_object lock) 3 = Some demo_thread" "get_act_vhdr (demo_object lock) (Act 7) = Some (Some 6)"
  "vhdrs (demo_object lock) 6 = Some \<lparr>p_copy = Null, p_lock = lock, np_org_act = Act 7, np_cur_act = Act 7, tombstone_clk = MAX_VERSION\<rparr>"
  by (simp_all add: demo_object_def tvl_def demo_sys_def demo_thread_def get_act_vhdr_def obj_to_obj_type_def)

lemma demo_object_lock: "\<exists>i s'. ts_try_lock False None 3 (Act 7) 8 (demo_object Null) = Some (True, Cpy 3 i, s')"
proof -
  have ok: "ws_ok demo_tvlog []" by (simp add: ws_ok_def demo_tvlog_def room_def)
  have e: "unat (8 :: u32) \<le> 65000" "csizes [] + 2 * unat (tvlog_entry_size 8) + 512 \<le> tv_size"
    by (simp_all add: tvlog_entry_size_def sizeof_chs_hdr_def align_uint_to_cacheline_def)
  have a: "acts (demo_object Null) 7 = Some \<lparr>a_vhdr = Some 6, a_gen_id = 1, a_index = 0, a_obj_size = 8, a_type = TYPE_ACTUAL, a_data = replicate 8 1\<rparr>"
    by (simp add: demo_object_def)
  obtain i s' where "lock_copy 3 (Act 7) 6 8 (demo_object Null) = Some (True, Cpy 3 i, s')"
    using lock_copy_succeeds [OF demo_object_facts(1) ok e demo_object_facts(4) _ _ _ a, of "Act 7"] by auto
  then show ?thesis by (simp add: ts_try_lock_def demo_object_facts stale_read_occurred_def)
qed


section \<open>The operation record\<close>

text \<open>The calls of \<open>ts_memcpy_operand\<close> between \<open>ts_set_op\<close> and the end of the transaction.\<close>

fun copy_operands :: "nat \<Rightarrow> bytes list \<Rightarrow> sys \<Rightarrow> sys option" where
  "copy_operands self [] s = Some s"
| "copy_operands self (x # xs) s = do { s \<leftarrow> ts_memcpy_operand self x s; copy_operands self xs s }"

definition recorded :: "op_info \<Rightarrow> u64 \<Rightarrow> bytes \<Rightarrow> bool" where
  "recorded oi ty done \<longleftrightarrow>
     op_type oi = ty \<and> length (op_opd oi) = unat TS_MAX_OPERAND_SIZE \<and> length done \<le> unat TS_MAX_OPERAND_SIZE \<and>
     op_curr oi = of_nat (length done) \<and> take (length done) (op_opd oi) = done"

lemma max_operand [simp]: "unat TS_MAX_OPERAND_SIZE = 240"
  by (simp add: TS_MAX_OPERAND_SIZE_def sizeof_op_entry_hdr_def)

lemma memcpy_operand_cases:
  assumes "thrs s self = Some th" "recorded (op_info th) ty done"
  shows "if length done + length x \<le> 240
    then \<exists>s' th'. ts_memcpy_operand self x s = Some s' \<and> thrs s' self = Some th' \<and> recorded (op_info th') ty (done @ x)
    else ts_memcpy_operand self x s = None"
proof -
  let ?oi = "op_info th"
  let ?oi' = "?oi\<lparr>op_curr := op_curr ?oi + of_nat (length x), op_opd := take (length done) (op_opd ?oi) @ x @ drop (length done + length x) (op_opd ?oi)\<rparr>"
  have off: "unat (op_curr ?oi) = length done" "length (op_opd ?oi) = 240" using assms(2) by (auto simp: recorded_def unat_of_nat)
  have "recorded ?oi' ty (done @ x)" if "length done + length x \<le> 240"
    using that assms(2) by (auto simp: recorded_def min_def)
  then show ?thesis using assms(1) off by (auto simp: ts_memcpy_operand_def ts_alloc_operand_def store_simps Let_def)
qed

lemma copy_operands_recorded:
  "thrs s self = Some th \<Longrightarrow> recorded (op_info th) ty done \<Longrightarrow>
   (if length done + length (concat xs) \<le> 240
    then \<exists>s' th'. copy_operands self xs s = Some s' \<and> thrs s' self = Some th' \<and> recorded (op_info th') ty (done @ concat xs)
    else copy_operands self xs s = None)"
proof (induction xs arbitrary: s th "done")
  case Nil
  then show ?case by (auto simp: recorded_def)
next
  case (Cons x xs)
  show ?case
  proof (cases "length done + length x \<le> 240")
    case True
    with memcpy_operand_cases [OF Cons.prems, of x] obtain s' th' where s': "ts_memcpy_operand self x s = Some s'" "thrs s' self = Some th'"
      "recorded (op_info th') ty (done @ x)" by auto
    from Cons.IH [OF s'(2,3)] s'(1) show ?thesis by (simp add: add.assoc split: if_splits)
  next
    case False
    with memcpy_operand_cases [OF Cons.prems, of x] show ?thesis by simp
  qed
qed

text \<open>
  C32. Recording an operation: \<open>ts_set_op\<close> starts an empty record, and the copies of the operands
  lie behind each other in its buffer of 240 bytes. The operands that do not fit are never written
  behind the buffer in the model: such a call has no result (the code has an assertion there).
\<close>

theorem operands_recorded:
  assumes "thrs s self = Some th" "length (op_opd (op_info th)) = unat TS_MAX_OPERAND_SIZE"
  shows "if length (concat xs) \<le> unat TS_MAX_OPERAND_SIZE
    then \<exists>s' th'. copy_operands self xs (ts_set_op self ty s) = Some s' \<and> thrs s' self = Some th' \<and>
      recorded (op_info th') ty (concat xs)
    else copy_operands self xs (ts_set_op self ty s) = None"
proof -
  let ?th = "th\<lparr>op_info := (op_info th)\<lparr>op_curr := 0, op_type := ty\<rparr>\<rparr>"
  have "thrs (ts_set_op self ty s) self = Some ?th" using assms(1) by (simp add: ts_set_op_def store_simps)
  moreover have "recorded (op_info ?th) ty []" using assms(2) by (simp add: recorded_def)
  ultimately show ?thesis using copy_operands_recorded [of "ts_set_op self ty s" self ?th ty "[]" xs] by (simp split: if_splits)
qed

theorem operands_recorded_witness:
  "(\<exists>s' th'. copy_operands 3 [[1, 2], [3]] (ts_set_op 3 9 demo_tx) = Some s' \<and> thrs s' 3 = Some th' \<and>
      recorded (op_info th') 9 [1, 2, 3]) \<and>
   copy_operands 3 [replicate 200 1, replicate 41 2] (ts_set_op 3 9 demo_tx) = None"
  using operands_recorded [of demo_tx 3 demo_tx_thread "[[1, 2], [3]]" 9]
    operands_recorded [of demo_tx 3 demo_tx_thread "[replicate 200 1, replicate 41 2]" 9]
  by (simp add: demo_tx_def demo_tx_thread_def demo_thread_def)

section \<open>Initialisation of a thread\<close>

lemma thread_list_add_head:
  assumes "lrep ls (tl_list tls) xs" "n \<notin> insert (tl_list tls) (set xs)" "\<not> tl_lock tls"
  obtains tls' ls' where "thread_list_add tls n ls = Some (cur_tid tls, tls', ls')" "tl_list tls' = tl_list tls" "lrep ls' (tl_list tls) (n # xs)" "\<not> tl_lock tls'"
proof -
  obtain ls' where "ts_list_add n (tl_list tls) ls = Some ls'" "lrep ls' (tl_list tls) (n # xs)"
    using ts_list_add_head [OF assms(1,2)] by blast
  with assms(3) that show ?thesis by (simp add: thread_list_add_def thread_list_lock_force_def thread_list_unlock_def Let_def)
qed

lemma log_sizes: "TS_OPLOG_SIZE = 2 ^ 20" "TS_CKPTLOG_SIZE = 2 ^ 22"
  by (simp_all add: TS_OPLOG_SIZE_def TS_CKPTLOG_SIZE_def push_bit_eq_mult)

definition thread_wf :: "thread \<Rightarrow> bool" where
  "thread_wf th \<longleftrightarrow>
     nvlog_wf (oplog th) \<and> nvlog_wf (ckptlog th) \<and> ws_ok (tvlog th) [] \<and> length (op_opd (op_info th)) = unat TS_MAX_OPERAND_SIZE"

lemma thread_init_sets_ok:
  "\<exists>th'. thread_init_sets ser (Some m1) (Some m2) (Some m3) (Some m4) th = (None, th') \<and> num_ptrs (tx_alloc_set th') = 0 \<and>
     num_ptrs (tx_free_set th') = 0 \<and> num_ptrs (ckpt_free_set th') = 0 \<and> op_info th' = op_info th \<and> run_cnt th' = run_cnt th \<and>
     reclaim th' = reclaim th \<and> qp_info th' = qp_info th"
  by (simp add: thread_init_sets_def ptrset_init_def isolation_init_def Let_def)

text \<open>
  C31. When the allocations succeed, initialising a thread gives it two empty well-formed
  non-volatile logs, whose stores stand at the head of the list of stores, an empty version log
  with room for a write set, an empty operation record and pointer sets, and puts the thread at
  the head of the live threads, outside a transaction and without a pending request.
\<close>

theorem ts_thread_init_wf:
  assumes "thrs s self = Some junk" "port_alloc_tvlog_mem (region s) = (Some buf, g)"
    and "store_list (r_stores (root s)) (r_next (root s)) ps" "po \<notin> set ps" "pc \<notin> set ps" "po \<noteq> pc" "\<not> r_locked (root s)"
    and "lrep (links s) (tl_list (live_threads s)) xs" "Thread_node self \<notin> insert (tl_list (live_threads s)) (set xs)" "\<not> tl_lock (live_threads s)"
  shows "\<exists>s' th. ts_thread_init_x ser (Some m1) (Some m2) (Some m3) (Some m4) (Some po) (Some (b1, mem1)) (Some pc) (Some (b2, mem2)) self flags s = Some s' \<and>
     thrs s' self = Some th \<and> thread_wf th \<and> nvlog_entries (oplog th) = [] \<and> nvlog_entries (ckptlog th) = [] \<and>
     num_ptrs (tx_alloc_set th) = 0 \<and> num_ptrs (tx_free_set th) = 0 \<and> num_ptrs (ckpt_free_set th) = 0 \<and>
     run_cnt th = 0 \<and> \<not> requested (reclaim th) \<and> qp_info th = \<lparr>need_wait = 0, qi_run_cnt = 0\<rparr> \<and>
     store_list (r_stores (root s')) (r_next (root s')) (pc # po # ps) \<and>
     lrep (links s') (tl_list (live_threads s')) (Thread_node self # xs) \<and> \<not> tl_lock (live_threads s')"
proof -
  let ?th0 = "zero_thread\<lparr>clks := (clks zero_thread)\<lparr>last_ckpt := MIN_VERSION, min_ckpt_reclaimed := MAX_VERSION\<rparr>\<rparr>"
  obtain th1 where th1: "thread_init_sets ser (Some m1) (Some m2) (Some m3) (Some m4) ?th0 = (None, th1)"
      "num_ptrs (tx_alloc_set th1) = 0" "num_ptrs (tx_free_set th1) = 0" "num_ptrs (ckpt_free_set th1) = 0"
      "op_info th1 = op_info zero_thread" "run_cnt th1 = 0" "reclaim th1 = reclaim zero_thread" "qp_info th1 = qp_info zero_thread"
    using thread_init_sets_ok [of ser m1 m2 m3 m4 ?th0] by (auto simp: zero_thread_def)
  define s1 where "s1 = upd_thr self (\<lambda>_. th1) s"
  define l0 where "l0 = \<lparr>tv_reclaim_lock = 0, tv_head_cnt = 0, tv_tail_cnt = 0, tv_prev_head_cnt = 0,
      cur_wrt_set = None, tv_buffer = Some buf, tv_mem = Map.empty\<rparr>"
  define s2 where "s2 = upd_thr self (\<lambda>th. th\<lparr>in_recovery_mode := (flags = STATUS_NVLOG_RECOVERY)\<rparr>) (upd_tvlog self (\<lambda>_. l0) (s1\<lparr>region := g\<rparr>))"
  have tv: "tvlog_create self s1 = (None, upd_tvlog self (\<lambda>_. l0) (s1\<lparr>region := g\<rparr>))"
    using assms(2) by (simp add: tvlog_create_def s1_def l0_def upd_thr_def)
  have s2: "thrs s2 self = Some (th1\<lparr>tvlog := l0, in_recovery_mode := (flags = STATUS_NVLOG_RECOVERY)\<rparr>)" "root s2 = root s"
      "live_threads s2 = live_threads s" "links s2 = links s"
    using assms(1) by (simp_all add: s2_def s1_def upd_tvlog_def upd_thr_def)
  obtain ol r1 where ol: "nvlog_create (root s2) (Some po) (Some (b1, mem1)) TS_OPLOG_SIZE TYPE_OPLOG flags = Some (None, Some (po, ol), r1)"
      "store_list (r_stores r1) (r_next r1) (po # ps)" "\<not> r_locked r1" "nvlog_wf ol" "nvlog_entries ol = []"
    using nvlog_create_fresh [OF assms(3,4,7), of 20 b1 mem1 TYPE_OPLOG flags] unfolding s2(2) log_sizes by auto
  have "pc \<notin> set (po # ps)" using assms(5,6) by auto
  from nvlog_create_fresh [OF ol(2) this ol(3), of 22 b2 mem2 TYPE_CKPTLOG flags]
  obtain cl r2 where cl: "nvlog_create r1 (Some pc) (Some (b2, mem2)) TS_CKPTLOG_SIZE TYPE_CKPTLOG flags = Some (None, Some (pc, cl), r2)"
      "store_list (r_stores r2) (r_next r2) (pc # po # ps)" "nvlog_wf cl" "nvlog_entries cl = []"
    unfolding log_sizes by auto
  obtain tls ls where tl: "thread_list_add (live_threads s) (Thread_node self) (links s) = Some (cur_tid (live_threads s), tls, ls)"
      "tl_list tls = tl_list (live_threads s)" "lrep ls (tl_list (live_threads s)) (Thread_node self # xs)" "\<not> tl_lock tls"
    by (rule thread_list_add_head [OF assms(8-10)])
  define s3 where "s3 = upd_thr self (\<lambda>th. th\<lparr>oplog := ol, oplog_p := Some po\<rparr>) (s2\<lparr>root := r1\<rparr>)"
  define s4 where "s4 = upd_thr self (\<lambda>th. th\<lparr>ckptlog := cl, ckptlog_p := Some pc, ckptlog_free_set := True\<rparr>) (s3\<lparr>root := r2\<rparr>)"
  define s5 where "s5 = upd_thr self (\<lambda>th. th\<lparr>tid := cur_tid (live_threads s)\<rparr>) (s4\<lparr>live_threads := tls, links := ls\<rparr>)"
  have "oplog_create self (Some po) (Some (b1, mem1)) TS_OPLOG_SIZE flags s2 = Some (None, s3)" using ol(1) by (simp add: oplog_create_def s3_def)
  moreover have "ckptlog_create self (Some pc) (Some (b2, mem2)) TS_CKPTLOG_SIZE flags s3 = Some (None, s4)"
    using cl(1) by (simp add: ckptlog_create_def s4_def s3_def upd_thr_def)
  moreover have "register_thread self s4 = Some s5"
    using tl(1) s2(3,4) by (simp add: register_thread_def s5_def s4_def s3_def upd_thr_def)
  ultimately have "ts_thread_init_x ser (Some m1) (Some m2) (Some m3) (Some m4) (Some po) (Some (b1, mem1)) (Some pc) (Some (b2, mem2)) self flags s = Some s5"
    using assms(1) th1(1) tv by (simp add: ts_thread_init_x_def s1_def s2_def)
  moreover have "thrs s5 self = Some (th1\<lparr>tvlog := l0, in_recovery_mode := (flags = STATUS_NVLOG_RECOVERY), oplog := ol, oplog_p := Some po,
      ckptlog := cl, ckptlog_p := Some pc, ckptlog_free_set := True, tid := cur_tid (live_threads s)\<rparr>)"
    using s2(1) by (simp add: s5_def s4_def s3_def upd_thr_def)
  moreover have "root s5 = r2" "live_threads s5 = tls" "links s5 = ls" by (simp_all add: s5_def s4_def upd_thr_def)
  moreover have "ws_ok l0 []" by (simp add: l0_def ws_ok_def room_def)
  ultimately show ?thesis using th1 ol cl tl by (simp add: thread_wf_def zero_thread_def requested_def del: store_list.simps)
qed

definition demo_new_thread :: sys where
  "demo_new_thread = demo_sys\<lparr>thrs := [3 \<mapsto> demo_thread], links := \<lparr>nxt = [Live_head \<mapsto> Live_head], prv = [Live_head \<mapsto> Live_head]\<rparr>,
     region := \<lparr>lr_size = 1048576, lr_num = 2, lr_bitmap = [0], g_start_addr = 0, g_end_addr = 2097152\<rparr>\<rparr>"

lemma demo_new_region: "\<exists>g. port_alloc_tvlog_mem (region demo_new_thread) = (Some 0, g)"
  by (simp add: port_alloc_tvlog_mem_def demo_new_thread_def scan_bitmap.simps [of _ _ 0] scan_word.simps [of _ _ _ 0] BITMAP_SIZE_def FULLY_ALLOCATED_def)

theorem ts_thread_init_wf_witness:
  "\<exists>s' th. ts_thread_init_x True (Some []) (Some []) (Some []) (Some []) (Some 10) (Some (0, Map.empty)) (Some 11) (Some (0, Map.empty)) 3
       STATUS_NVLOG_NORMAL demo_new_thread = Some s' \<and>
     thrs s' 3 = Some th \<and> thread_wf th \<and> store_list (r_stores (root s')) (r_next (root s')) [11, 10, 1, 2, 3] \<and>
     lrep (links s') (tl_list (live_threads s')) [Thread_node 3]"
proof -
  obtain g where g: "port_alloc_tvlog_mem (region demo_new_thread) = (Some 0, g)" using demo_new_region by blast
  have th: "thrs demo_new_thread 3 = Some demo_thread" by (simp add: demo_new_thread_def)
  have st: "store_list (r_stores (root demo_new_thread)) (r_next (root demo_new_thread)) [1, 2, 3]" "\<not> r_locked (root demo_new_thread)"
    by (simp_all add: demo_new_thread_def demo_sys_def demo_root_def raw_store_def)
  have l: "lrep (links demo_new_thread) (tl_list (live_threads demo_new_thread)) []" "\<not> tl_lock (live_threads demo_new_thread)"
      "Thread_node 3 \<notin> insert (tl_list (live_threads demo_new_thread)) (set [])"
    by (simp_all add: demo_new_thread_def demo_sys_def demo_list_def lrep_def link_def)
  show ?thesis
    using ts_thread_init_wf [OF th g st(1) _ _ _ st(2) l(1,3,2), of 10 11 True "[]" "[]" "[]" "[]" 0 Map.empty 0 Map.empty STATUS_NVLOG_NORMAL]
    by (auto simp del: store_list.simps)
qed

end
