(* ===== verification/NvHeap.thy ===== *)
theory NvHeap
  imports NvStore
begin

text \<open>
  The heaps behind \<open>nvm_load_heap\<close> (\<open>src/lib/nvm-pmdk.c\<close>, \<open>src/lib/nvm-makalu.c\<close> and
  \<open>src/lib/nvm-nv-jemalloc.c\<close>) and the decision of \<open>nvm_init_heap\<close> whether a recovery is needed. What
  the operating system and the allocator libraries return are arguments.
\<close>

section \<open>The region allocator of the Makalu heap\<close>

text \<open>
  The file mapped into memory: its size, its address, the next free address, and the two words at
  its start that hold the addresses.
\<close>

record nvm_region =
  FILESIZE :: u64
  base_addr :: u64
  curr_addr :: u64
  hdr_base :: u64
  hdr_curr :: u64

text \<open>The results of \<open>ftruncate\<close> and \<open>mmap\<close>; the process ends (\<open>None\<close>) when one of them fails.\<close>

definition map_persistent_region :: "bool \<Rightarrow> u64 option \<Rightarrow> u64 \<Rightarrow> (bool \<times> nvm_region) option" where
  "map_persistent_region truncated mapped sz =
     (if \<not> truncated then None
      else case mapped of
        None \<Rightarrow> None
      | Some addr \<Rightarrow>
          Some (True, \<lparr>FILESIZE = sz, base_addr = addr, curr_addr = addr + 3 * 8, hdr_base = addr, hdr_curr = addr + 3 * 8\<rparr>))"

definition nvm_region_allocator :: "u64 \<Rightarrow> u64 \<Rightarrow> nvm_region \<Rightarrow> u64 option \<times> nvm_region" where
  "nvm_region_allocator alignment sz r =
     (if alignment AND (NOT alignment + 1) \<noteq> alignment \<or> alignment < 8 then (None, r)
      else
        let aln_adj = curr_addr r AND (alignment - 1);
            r = (if aln_adj \<noteq> 0 then r\<lparr>curr_addr := curr_addr r + (alignment - aln_adj)\<rparr> else r);
            res = curr_addr r;
            next = curr_addr r + sz
        in if next > base_addr r + FILESIZE r then (None, r)
           else (Some res, r\<lparr>curr_addr := next, hdr_curr := next\<rparr>))"

section \<open>Loading a heap\<close>

text \<open>\<open>memset\<close> of the root object; the logs it pointed to are unreachable afterwards.\<close>

definition clear_root :: "'e nvm_root \<Rightarrow> 'e nvm_root" where
  "clear_root r = r\<lparr>r_magic := 0, r_gen_id := 0, r_next := None, r_last_ckpt_clk := 0\<rparr>"

text \<open>
  \<open>exists\<close> is the result of \<open>access\<close>, \<open>opened\<close> whether \<open>pmemobj_create\<close> or \<open>pmemobj_open\<close> gave a pool,
  and \<open>root\<close> the root object in it.
\<close>

definition nvm_load_heap_pmdk :: "bool \<Rightarrow> bool \<Rightarrow> 'e nvm_root option \<Rightarrow> ('e nvm_root \<times> bool) option" where
  "nvm_load_heap_pmdk exists opened root =
     (if \<not> opened then None
      else
        let is_created = \<not> exists
        in case root of
             None \<Rightarrow> None
           | Some r \<Rightarrow> Some (if is_created then clear_root r else r, is_created))"

definition nvm_heap_destroy_pmdk :: "'e nvm_root \<Rightarrow> 'e nvm_root" where
  "nvm_heap_destroy_pmdk r = r\<lparr>r_next := None\<rparr>"

text \<open>The status \<open>pmemobj_alloc\<close> returns and the object it gives.\<close>

definition nvm_alloc_pmdk :: "int \<Rightarrow> nat \<Rightarrow> nat option" where
  "nvm_alloc_pmdk ret obj = (if ret \<noteq> 0 then None else Some obj)"

text \<open>
  \<open>started\<close> is the result of \<open>MAK_start\<close>, \<open>persistent\<close> the object at the persistent root address and
  \<open>fresh\<close> what \<open>MAK_malloc\<close> gives.
\<close>

definition nvm_load_heap_makalu ::
  "bool \<Rightarrow> u64 option \<Rightarrow> u64 \<Rightarrow> bool \<Rightarrow> 'e nvm_root option \<Rightarrow> 'e nvm_root option \<Rightarrow> ('e nvm_root \<times> bool) option" where
  "nvm_load_heap_makalu truncated mapped sz started persistent fresh = do {
     (is_created, _) \<leftarrow> map_persistent_region truncated mapped sz;
     (if \<not> started then None
      else do {
        (root, is_created) \<leftarrow>
          (case persistent of
             Some r \<Rightarrow> Some (r, is_created)
           | None \<Rightarrow> (case fresh of None \<Rightarrow> None | Some r \<Rightarrow> Some (clear_root r, True)));
        Some (if is_created then clear_root root else root, is_created) }) }"

text \<open>\<open>fresh\<close> is what \<open>nv_calloc\<close> gives.\<close>

definition nvm_load_heap_jemalloc :: "'e nvm_root option \<Rightarrow> ('e nvm_root \<times> bool) option" where
  "nvm_load_heap_jemalloc fresh = (case fresh of None \<Rightarrow> None | Some r \<Rightarrow> Some (clear_root r, True))"

text \<open>\<open>nvm_aligned_alloc\<close> of the PMDK and Makalu heaps drops the alignment.\<close>

definition nvm_aligned_alloc :: "(u64 \<Rightarrow> nat option) \<Rightarrow> u64 \<Rightarrow> u64 \<Rightarrow> nat option" where
  "nvm_aligned_alloc nvm_alloc alignment sz = nvm_alloc sz"

section \<open>What the region allocator gives\<close>

lemma unat_pow2: "k < 64 \<Longrightarrow> unat (2 ^ k :: u64) = 2 ^ k"
proof -
  assume "k < 64"
  then have "(2::nat) ^ k < 2 ^ 64" by (intro power_strict_increasing) auto
  then have "unat (of_nat (2 ^ k) :: u64) = 2 ^ k" unfolding unat_of_nat by simp
  then show ?thesis by simp
qed

lemma pow2_isolates:
  assumes "k < 64"
  shows "(2 ^ k :: u64) AND (NOT (2 ^ k) + 1) = 2 ^ k"
proof -
  have m: "NOT (2 ^ k :: u64) + 1 = NOT (mask k)" by (simp add: mask_eq_exp_minus_1 not_eq_complement)
  have "unat ((2 ^ k :: u64) AND mask k) = 0" unfolding unat_and_mask unat_pow2 [OF assms] by simp
  then have "(2 ^ k :: u64) AND mask k = 0" by (simp only: unat_eq_0)
  then show ?thesis unfolding m and_not_mask_minus by simp
qed

definition nv_region_wf :: "nvm_region \<Rightarrow> bool" where
  "nv_region_wf r \<longleftrightarrow> base_addr r \<le> curr_addr r \<and> unat (curr_addr r) \<le> unat (base_addr r) + unat (FILESIZE r) \<and>
     unat (base_addr r) + unat (FILESIZE r) < 2 ^ 64"

definition round_up :: "nat \<Rightarrow> nat \<Rightarrow> nat" where
  "round_up a n = (n + (a - 1)) div a * a"

lemma round_up_cases:
  assumes "0 < a"
  shows "round_up a n = (if n mod a = 0 then n else n + (a - n mod a))"
proof -
  let ?q = "n div a" and ?m = "n mod a"
  have n: "n = a * ?q + ?m" "?m < a" using assms by simp_all
  show ?thesis
  proof (cases "?m = 0")
    case True
    then have "(n + (a - 1)) div a = ?q" using n assms by (intro div_nat_eqI) (simp_all add: algebra_simps)
    then show ?thesis using True n by (simp add: round_up_def mult.commute)
  next
    case False
    then have m: "0 < ?m" by simp
    have "(n + (a - 1)) div a = Suc ?q" by (intro div_nat_eqI; unfold mult_Suc_right; use m n assms in linarith)
    then have r: "round_up a n = a + a * ?q" unfolding round_up_def by (simp add: mult.commute)
    show ?thesis unfolding r if_not_P [OF False] using n by linarith
  qed
qed

text \<open>The address after the alignment.\<close>

definition aligned_curr :: "u64 \<Rightarrow> nvm_region \<Rightarrow> u64" where
  "aligned_curr alignment r =
     (if curr_addr r AND (alignment - 1) \<noteq> 0 then curr_addr r + (alignment - (curr_addr r AND (alignment - 1))) else curr_addr r)"

lemma unat_aligned_curr:
  assumes "k < 64" "unat (curr_addr r) + 2 ^ k < 2 ^ 64"
  shows "unat (aligned_curr (2 ^ k) r) = round_up (2 ^ k) (unat (curr_addr r))"
proof -
  let ?c = "curr_addr r"
  have m: "(2 ^ k - 1 :: u64) = mask k" by (simp add: mask_eq_exp_minus_1)
  have u: "unat (?c AND (2 ^ k - 1)) = unat ?c mod 2 ^ k" unfolding m by (rule unat_and_mask)
  have p: "unat (2 ^ k :: u64) = 2 ^ k" using assms(1) by (simp add: unat_pow2)
  have "?c AND (2 ^ k - 1) \<le> 2 ^ k" by (simp add: word_le_nat_alt u p less_imp_le)
  then have "unat ((2 ^ k :: u64) - (?c AND (2 ^ k - 1))) = 2 ^ k - unat ?c mod 2 ^ k" by (simp add: unat_sub p u)
  moreover have "unat ?c + (2 ^ k - unat ?c mod 2 ^ k) < 2 ^ 64" using assms(2) by linarith
  ultimately have "unat (?c + (2 ^ k - (?c AND (2 ^ k - 1)))) = unat ?c + (2 ^ k - unat ?c mod 2 ^ k)" by (simp add: unat_word_ariths)
  moreover have "?c AND (2 ^ k - 1) = 0 \<longleftrightarrow> unat ?c mod 2 ^ k = 0" using u by (metis unat_eq_0)
  ultimately show ?thesis by (simp add: aligned_curr_def round_up_cases)
qed

lemma allocator_eq:
  assumes "k < 64" "3 \<le> k"
  shows "nvm_region_allocator (2 ^ k) sz r =
    (if aligned_curr (2 ^ k) r + sz > base_addr r + FILESIZE r then (None, r\<lparr>curr_addr := aligned_curr (2 ^ k) r\<rparr>)
     else (Some (aligned_curr (2 ^ k) r), r\<lparr>curr_addr := aligned_curr (2 ^ k) r + sz, hdr_curr := aligned_curr (2 ^ k) r + sz\<rparr>))"
proof -
  have "(8::nat) \<le> 2 ^ k" using power_increasing [OF assms(2), of "2::nat"] by simp
  then have "\<not> (2 ^ k :: u64) < 8" using assms(1) by (simp add: word_less_nat_alt unat_pow2)
  then show ?thesis using pow2_isolates [OF assms(1)] by (simp add: nvm_region_allocator_def aligned_curr_def Let_def)
qed

text \<open>
  The region allocator, asked for a power of two of at least the size of a pointer, gives the
  next aligned address when the block ends within the file, leaves everything before it alone and
  writes the new end to the header of the file; otherwise it fails without touching the header.
  The sum of the addresses must not exceed 64 bits.
\<close>

theorem nvm_region_allocator_bounds:
  assumes "nv_region_wf r" "3 \<le> k" "k < 64" "unat (base_addr r) + unat (FILESIZE r) + 2 ^ k + unat sz < 2 ^ 64"
  defines "a \<equiv> round_up (2 ^ k) (unat (curr_addr r))"
  shows "\<exists>res r'. nvm_region_allocator (2 ^ k) sz r = (res, r') \<and> base_addr r' = base_addr r \<and> FILESIZE r' = FILESIZE r \<and>
    (if a + unat sz \<le> unat (base_addr r) + unat (FILESIZE r)
     then map_option unat res = Some a \<and> unat (curr_addr r') = a + unat sz \<and> hdr_curr r' = curr_addr r' \<and> nv_region_wf r'
     else res = None \<and> hdr_curr r' = hdr_curr r)"
proof -
  let ?c = "aligned_curr (2 ^ k) r"
  have c: "unat (curr_addr r) + 2 ^ k < 2 ^ 64" using assms(1,4) by (simp add: nv_region_wf_def)
  have u: "unat ?c = a" unfolding a_def by (rule unat_aligned_curr [OF assms(3) c])
  have a: "unat (curr_addr r) \<le> a" "a < unat (curr_addr r) + 2 ^ k"
    unfolding a_def round_up_def using aligned_div_bounds [of "2 ^ k" "unat (curr_addr r)"] by simp_all
  have s: "unat (?c + sz) = a + unat sz" using u a(2) assms(1,4) by (simp add: unat_word_ariths nv_region_wf_def)
  have e: "unat (base_addr r + FILESIZE r) = unat (base_addr r) + unat (FILESIZE r)" using assms(1) by (simp add: nv_region_wf_def unat_word_ariths)
  have b: "unat (base_addr r) \<le> a + unat sz" using assms(1) a(1) by (simp add: nv_region_wf_def word_le_nat_alt)
  show ?thesis unfolding allocator_eq [OF assms(3,2)] word_less_nat_alt s e
    using u s b assms(1) by (auto simp: nv_region_wf_def word_le_nat_alt)
qed

theorem nvm_region_allocator_bounds_witness:
  "\<exists>res r'. nvm_region_allocator 64 100 \<lparr>FILESIZE = 4096, base_addr = 65536, curr_addr = 65560, hdr_base = 65536, hdr_curr = 65560\<rparr> = (res, r') \<and>
     map_option unat res = Some 65600 \<and> unat (curr_addr r') = 65700"
  using nvm_region_allocator_bounds [of "\<lparr>FILESIZE = 4096, base_addr = 65536, curr_addr = 65560, hdr_base = 65536, hdr_curr = 65560\<rparr>" 6 100]
  by (auto simp: nv_region_wf_def round_up_def)

section \<open>The need for a recovery\<close>

text \<open>
  C39. After a clean shutdown of the PMDK heap the root object has its magic number and no logs,
  and the next start decides on a recovery by the value the variable \<open>need_recovery\<close> of
  \<open>nvm_init_heap\<close> happens to hold: it is never initialised on this path. The Makalu and jemalloc
  heaps never ask for a recovery, whatever the root object held: they are always created anew.
\<close>

theorem nvm_init_heap_need_recovery:
  "(r_magic root = NVPOOL_MAGIC \<longrightarrow>
     map_option snd (nvm_init_heap (nvm_load_heap_pmdk True True (Some (nvm_heap_destroy_pmdk root))) junk) = Some junk) \<and>
   (\<forall>root' need. nvm_init_heap (nvm_load_heap_makalu truncated mapped sz started persistent fresh) junk = Some (root', need) \<longrightarrow>
     \<not> need \<and> r_next root' = None) \<and>
   (\<forall>root' need. nvm_init_heap (nvm_load_heap_jemalloc fresh) junk = Some (root', need) \<longrightarrow> \<not> need \<and> r_next root' = None)"
proof (intro conjI allI impI)
  assume "r_magic root = NVPOOL_MAGIC"
  then show "map_option snd (nvm_init_heap (nvm_load_heap_pmdk True True (Some (nvm_heap_destroy_pmdk root))) junk) = Some junk"
    by (simp add: nvm_init_heap_def nvm_load_heap_pmdk_def nvm_heap_destroy_pmdk_def Let_def)
qed (auto simp: nvm_init_heap_def nvm_load_heap_makalu_def nvm_load_heap_jemalloc_def map_persistent_region_def clear_root_def
    NVPOOL_MAGIC_def Let_def split: option.splits if_splits bind_splits)

lemma demo_magic: "r_magic demo_root = NVPOOL_MAGIC"
  by (simp add: demo_root_def)

theorem nvm_init_heap_need_recovery_witness:
  "map_option snd (nvm_init_heap (nvm_load_heap_pmdk True True (Some (nvm_heap_destroy_pmdk (demo_root :: unit nvm_root)))) True) = Some True \<and>
   map_option snd (nvm_init_heap (nvm_load_heap_pmdk True True (Some (nvm_heap_destroy_pmdk (demo_root :: unit nvm_root)))) False) = Some False"
  using nvm_init_heap_need_recovery [of "demo_root :: unit nvm_root" True True None 0 True None None]
    nvm_init_heap_need_recovery [of "demo_root :: unit nvm_root" False True None 0 True None None] by (simp add: demo_magic) blast

end
