(* ===== verification/CommitChain.thy ===== *)
theory CommitChain
  imports CommitAbort Borderline
begin

text \<open>
  The commit of a write set as a whole (\<open>tvlog_commit\<close> of \<open>src/lib/tvlog.c\<close>) and what it does to the
  version chains: every copy of the write set becomes the newest version of its object, the older
  versions stay where they are, and the clocks along the chain stay in order. Together with the
  theorems on dereferencing (\<open>Visibility\<close>) and on checkpoints (\<open>Borderline\<close>), which assume such chains,
  this is the life of a version.
\<close>

section \<open>Linking the copies\<close>

text \<open>The newest copy of an object belongs to the object.\<close>

definition good_head :: "sys \<Rightarrow> nat \<Rightarrow> act_vhdr \<Rightarrow> bool" where
  "good_head s v h \<longleftrightarrow>
     (case p_copy h of
        Null \<Rightarrow> True
      | Cpy t j \<Rightarrow> \<exists>d. get_chs s t j = Some d \<and> c_vhdr d = Some v
      | _ \<Rightarrow> False)"

definition head_clk :: "sys \<Rightarrow> act_vhdr \<Rightarrow> u64" where
  "head_clk s h =
     (case p_copy h of
        Cpy t j \<Rightarrow> (case get_chs s t j of Some d \<Rightarrow> c_wrt_clk d | None \<Rightarrow> MIN_VERSION)
      | _ \<Rightarrow> MIN_VERSION)"

definition tx_entry :: "sys \<Rightarrow> ptr_set \<Rightarrow> chs \<Rightarrow> bool" where
  "tx_entry s fs e \<longleftrightarrow>
     c_type e = TYPE_BOGUS \<or>
     is_copy e \<and> c_p_copy e = Null \<and>
     (\<exists>v h. c_vhdr e = Some v \<and> vhdrs s v = Some h \<and> good_head s v h \<and> ptrset_is_member fs (np_org_act h) \<noteq> None)"

definition link_copy :: "sys \<Rightarrow> act_vhdr \<Rightarrow> chs \<Rightarrow> chs" where
  "link_copy s h c = c\<lparr>wrt_clk_prev := MAX_VERSION, c_p_copy := p_copy h, wrt_clk_next := head_clk s h\<rparr>"

text \<open>The copy at position \<open>i\<close> links into the chain of object \<open>v\<close>; \<open>Fr\<close> are the positions of freed copies.\<close>

definition chains_to :: "u32 set \<Rightarrow> nat \<Rightarrow> u32 \<times> chs \<Rightarrow> bool" where
  "chains_to Fr v = (\<lambda>(i, e). is_copy e \<and> i \<notin> Fr \<and> c_obj_size e \<noteq> 0 \<and> c_vhdr e = Some v)"

definition moved_copy :: "sys \<Rightarrow> u32 set \<Rightarrow> u32 \<Rightarrow> chs \<Rightarrow> chs" where
  "moved_copy s Fr i e =
     (if i \<in> Fr then e\<lparr>c_type := TYPE_FREE\<rparr>
      else
        (case c_vhdr e of
           Some v \<Rightarrow> if chains_to Fr v (i, e) then link_copy s (the (vhdrs s v)) e else e
         | None \<Rightarrow> e))"

text \<open>Everything but the copies of \<open>self\<close> and the volatile headers is the same.\<close>

definition same_rest :: "nat \<Rightarrow> sys \<Rightarrow> sys \<Rightarrow> bool" where
  "same_rest self s s' \<longleftrightarrow>
     (\<exists>m V. s' = s\<lparr>vhdrs := V, thrs := (thrs s)(self := map_option (\<lambda>th. th\<lparr>tvlog := (tvlog th)\<lparr>tv_mem := m\<rparr>\<rparr>) (thrs s self))\<rparr>)"

definition moved :: "nat \<Rightarrow> (u32 \<times> chs) list \<Rightarrow> u32 set \<Rightarrow> sys \<Rightarrow> sys \<Rightarrow> bool" where
  "moved self ps Fr s s' \<longleftrightarrow>
     same_rest self s s' \<and>
     (\<forall>t j. get_chs s' t j =
        (case (if t = self then map_of ps j else None) of Some e \<Rightarrow> Some (moved_copy s Fr j e) | None \<Rightarrow> get_chs s t j)) \<and>
     (\<forall>v. vhdrs s' v =
        (case find (chains_to Fr v) ps of Some (i, e) \<Rightarrow> map_option (\<lambda>h. h\<lparr>p_copy := Cpy self i\<rparr>) (vhdrs s v) | None \<Rightarrow> vhdrs s v))"

lemma same_rest_refl: "thrs s self = Some th \<Longrightarrow> same_rest self s s"
  unfolding same_rest_def
  by (rule exI [of _ "tv_mem (tvlog th)"], rule exI [of _ "vhdrs s"]) (cases s; auto simp: fun_upd_idem)

lemma same_rest_trans: "same_rest self s s1 \<Longrightarrow> same_rest self s1 s2 \<Longrightarrow> same_rest self s s2"
proof -
  assume "same_rest self s s1" "same_rest self s1 s2"
  then obtain m V m' V' where "s1 = s\<lparr>vhdrs := V, thrs := (thrs s)(self := map_option (\<lambda>th. th\<lparr>tvlog := (tvlog th)\<lparr>tv_mem := m\<rparr>\<rparr>) (thrs s self))\<rparr>"
    "s2 = s1\<lparr>vhdrs := V', thrs := (thrs s1)(self := map_option (\<lambda>th. th\<lparr>tvlog := (tvlog th)\<lparr>tv_mem := m'\<rparr>\<rparr>) (thrs s1 self))\<rparr>"
    unfolding same_rest_def by blast
  then have "s2 = s\<lparr>vhdrs := V', thrs := (thrs s)(self := map_option (\<lambda>th. th\<lparr>tvlog := (tvlog th)\<lparr>tv_mem := m'\<rparr>\<rparr>) (thrs s self))\<rparr>"
    by (cases s) (simp add: option.map_comp comp_def)
  then show ?thesis unfolding same_rest_def by blast
qed

lemma same_rest_upd:
  assumes "thrs s self = Some th"
  shows "same_rest self s (upd_vhdr v f s)" "same_rest self s (upd_chs self i g s)"
proof -
  show "same_rest self s (upd_chs self i g s)" unfolding same_rest_def
    by (rule exI [of _ "(tv_mem (tvlog th))(i := map_option g (tv_mem (tvlog th) i))"], rule exI [of _ "vhdrs s"])
      (use assms in \<open>simp add: upd_chs_def upd_tvlog_def upd_thr_def\<close>)
  show "same_rest self s (upd_vhdr v f s)" unfolding same_rest_def
    by (rule exI [of _ "tv_mem (tvlog th)"], rule exI [of _ "(vhdrs s)(v := map_option f (vhdrs s v))"])
      (use assms in \<open>cases s; auto simp: upd_vhdr_def fun_upd_idem\<close>)
qed

lemma move_step:
  assumes "tx_entry s fs e" "thrs s self = Some th" "get_chs s self i = Some e"
  obtains n' Fr s1 where "move_lock_to_copy self fs i e (n, s) = Some (False, n', s1)" "moved self [(i, e)] Fr s s1" "Fr \<subseteq> {i}"
    "i \<in> Fr \<Longrightarrow> \<exists>v h. c_vhdr e = Some v \<and> vhdrs s v = Some h \<and> ptrset_is_member fs (np_org_act h) = Some True"
proof (cases "c_type e = TYPE_BOGUS")
  case True
  have "moved self [(i, e)] {} s s"
    using True assms same_rest_refl [OF assms(2)] by (auto simp: moved_def moved_copy_def chains_to_def split: option.splits)
  with that [of n s "{}"] True show ?thesis by (simp add: move_lock_to_copy_def)
next
  case False
  with assms(1) obtain v h where e: "is_copy e" "c_vhdr e = Some v" "vhdrs s v = Some h" "good_head s v h"
    "ptrset_is_member fs (np_org_act h) \<noteq> None" by (auto simp: tx_entry_def)
  define is_free where "is_free = (n > 0 \<and> ptrset_is_member fs (np_org_act h) = Some True)"
  have fr: "(if n > 0 then ptrset_is_member fs (np_org_act h) else Some False) = Some is_free" using e(5) by (auto simp: is_free_def)
  consider "is_free" | "\<not> is_free" "c_obj_size e = 0" | "\<not> is_free" "c_obj_size e \<noteq> 0" by blast
  then show ?thesis
  proof cases
    case 1
    let ?s = "upd_chs self i (\<lambda>c. c\<lparr>c_type := TYPE_FREE\<rparr>) s"
    have "move_lock_to_copy self fs i e (n, s) = Some (False, n - 1, ?s)"
      unfolding move_lock_to_copy_def using e(1-3) fr 1 by simp
    moreover have "moved self [(i, e)] {i} s ?s"
      using assms(3) same_rest_upd(2) [OF assms(2)] by (auto simp: moved_def moved_copy_def chains_to_def store_simps)
    ultimately show ?thesis using that 1 e by (auto simp: is_free_def)
  next
    case 2
    have "move_lock_to_copy self fs i e (n, s) = Some (False, n, s)"
      unfolding move_lock_to_copy_def using e(1-3) fr 2 by simp
    moreover have "moved self [(i, e)] {} s s"
      using 2 assms(3) same_rest_refl [OF assms(2)] by (auto simp: moved_def moved_copy_def chains_to_def split: option.splits)
    ultimately show ?thesis using that by blast
  next
    case 3
    let ?s = "upd_chs self i (link_copy s h) s"
    have "(case p_copy h of Null \<Rightarrow> Some MIN_VERSION | Cpy t j \<Rightarrow> map_option get_raw_wrt_clk (get_chs s t j) | _ \<Rightarrow> None) = Some (head_clk s h)"
      using e(4) by (auto simp: good_head_def head_clk_def get_raw_wrt_clk_def split: ptr.splits)
    then have "move_lock_to_copy self fs i e (n, s) = Some (False, n, upd_vhdr v (\<lambda>h. h\<lparr>p_copy := Cpy self i\<rparr>) ?s)"
      unfolding move_lock_to_copy_def using e(1-3) fr 3 by (simp add: link_copy_def [abs_def])
    moreover have "same_rest self s (upd_vhdr v (\<lambda>h. h\<lparr>p_copy := Cpy self i\<rparr>) ?s)"
      using same_rest_trans [OF same_rest_upd(2) same_rest_upd(1)] assms(2) by (simp add: upd_chs_def upd_tvlog_def upd_thr_def)
    then have "moved self [(i, e)] {} s (upd_vhdr v (\<lambda>h. h\<lparr>p_copy := Cpy self i\<rparr>) ?s)"
      using 3 e assms(3) by (auto simp: moved_def moved_copy_def chains_to_def store_simps)
    ultimately show ?thesis using that by blast
  qed
qed

lemma find_None: "(\<forall>x\<in>set xs. \<not> P x) \<Longrightarrow> find P xs = None"
  by (simp add: find_None_iff)

lemma good_head_frame:
  assumes "good_head s v h" "moved self [(i, e)] Fr s s1" "get_chs s self i = Some e" "c_vhdr e \<noteq> Some v"
  shows "good_head s1 v h \<and> head_clk s1 h = head_clk s h"
proof (cases "p_copy h")
  case (Cpy t j)
  with assms(1) obtain d where d: "get_chs s t j = Some d" "c_vhdr d = Some v" by (auto simp: good_head_def)
  with assms(3,4) have "\<not> (t = self \<and> j = i)" by auto
  then have "get_chs s1 t j = Some d" using assms(2) d(1) by (auto simp: moved_def)
  with d Cpy show ?thesis by (simp add: good_head_def head_clk_def)
qed (use assms(1) in \<open>simp_all add: good_head_def head_clk_def\<close>)

lemma entry_frame:
  assumes "tx_entry s fs f" "moved self [(i, e)] Fr s s1" "get_chs s self i = Some e" "is_copy e \<Longrightarrow> is_copy f \<Longrightarrow> c_vhdr f \<noteq> c_vhdr e"
    and "is_copy e \<or> c_type e = TYPE_BOGUS" "c_type e = TYPE_BOGUS \<Longrightarrow> Fr = {}"
  shows "tx_entry s1 fs f \<and> moved_copy s1 Gr j f = moved_copy s Gr j f"
proof (cases "is_copy f")
  case False
  with assms(1) show ?thesis by (auto simp: tx_entry_def moved_copy_def chains_to_def split: option.splits)
next
  case True
  with assms(1) obtain v h where f: "c_vhdr f = Some v" "vhdrs s v = Some h" "good_head s v h" "c_p_copy f = Null"
    "ptrset_is_member fs (np_org_act h) \<noteq> None" by (auto simp: tx_entry_def)
  show ?thesis
  proof (cases "is_copy e")
    case copy: True
    then have ne: "c_vhdr e \<noteq> Some v" using assms(4) True f(1) by auto
    then have "vhdrs s1 v = Some h" using assms(2) f(2) by (auto simp: moved_def chains_to_def split: option.splits)
    moreover note good_head_frame [OF f(3) assms(2,3) ne]
    ultimately show ?thesis using True f by (auto simp: tx_entry_def moved_copy_def link_copy_def)
  next
    case bogus: False
    have "get_chs s1 t j = get_chs s t j" for t j
      using assms(2,3,6) bogus assms(5) by (auto simp: moved_def moved_copy_def chains_to_def split: option.splits)
    moreover have "vhdrs s1 v = Some h" using assms(2) f(2) bogus by (auto simp: moved_def chains_to_def split: option.splits)
    ultimately show ?thesis using True f by (auto simp: tx_entry_def moved_copy_def link_copy_def good_head_def head_clk_def split: ptr.splits)
  qed
qed

lemma moved_Cons:
  assumes "moved self [(i, e)] Fr s s1" "moved self ps Gr s1 s'" "Fr \<subseteq> {i}" "Gr \<subseteq> fst ` set ps" "i \<notin> fst ` set ps"
    and same: "\<And>j f. (j, f) \<in> set ps \<Longrightarrow> moved_copy s1 Gr j f = moved_copy s Gr j f"
    and dist: "\<And>j f. is_copy e \<Longrightarrow> (j, f) \<in> set ps \<Longrightarrow> is_copy f \<Longrightarrow> c_vhdr f \<noteq> c_vhdr e"
  shows "moved self ((i, e) # ps) (Fr \<union> Gr) s s'"
proof -
  have i: "i \<notin> Gr" "map_of ps i = None" using assms(4,5) by (auto simp: map_of_eq_None_iff)
  have l: "chains_to (Fr \<union> Gr) v (j, f) = chains_to Gr v (j, f)" "moved_copy s (Fr \<union> Gr) j f = moved_copy s Gr j f" if "(j, f) \<in> set ps" for v j f
  proof -
    have "j \<noteq> i" using that assms(5) by force
    then show "chains_to (Fr \<union> Gr) v (j, f) = chains_to Gr v (j, f)" "moved_copy s (Fr \<union> Gr) j f = moved_copy s Gr j f"
      using assms(3) by (auto simp: chains_to_def moved_copy_def split: option.splits)
  qed
  then have fd: "find (chains_to (Fr \<union> Gr) v) ps = find (chains_to Gr v) ps" for v
    by (intro find_cong) auto
  have li: "chains_to (Fr \<union> Gr) v (i, e) = chains_to Fr v (i, e)" "moved_copy s (Fr \<union> Gr) i e = moved_copy s Fr i e" for v
    using i(1) by (auto simp: chains_to_def moved_copy_def split: option.splits)
  have "same_rest self s s'" using same_rest_trans assms(1,2) by (auto simp: moved_def)
  moreover have "get_chs s' t j = (case (if t = self then map_of ((i, e) # ps) j else None) of
      Some e \<Rightarrow> Some (moved_copy s (Fr \<union> Gr) j e) | None \<Rightarrow> get_chs s t j)" for t j
  proof (cases "t = self \<and> (j = i \<or> map_of ps j \<noteq> None)")
    case False
    then show ?thesis using assms(1,2) by (auto simp: moved_def)
  next
    case True
    then consider "t = self" "j = i" | f where "t = self" "j \<noteq> i" "map_of ps j = Some f" by auto
    then show ?thesis
    proof cases
      case 1
      then show ?thesis using assms(1,2) i(2) li(2) by (auto simp: moved_def)
    next
      case 2
      then have "(j, f) \<in> set ps" by (simp add: map_of_SomeD)
      then show ?thesis using 2 assms(2) same l(2) by (auto simp: moved_def)
    qed
  qed
  moreover have "vhdrs s' v = (case find (chains_to (Fr \<union> Gr) v) ((i, e) # ps) of
      Some (i, e) \<Rightarrow> map_option (\<lambda>h. h\<lparr>p_copy := Cpy self i\<rparr>) (vhdrs s v) | None \<Rightarrow> vhdrs s v)" for v
  proof (cases "chains_to Fr v (i, e)")
    case True
    then have "find (chains_to Gr v) ps = None" using dist by (intro find_None) (auto simp: chains_to_def)
    with True show ?thesis using assms(1,2) li(1) by (auto simp: moved_def)
  next
    case False
    then show ?thesis using assms(1,2) li(1) fd by (auto simp: moved_def split: option.splits)
  qed
  ultimately show ?thesis unfolding moved_def by blast
qed

lemma wtiles_cong: "\<forall>j\<in>set (wpos c es). m' j = m j \<Longrightarrow> wtiles m c es \<Longrightarrow> wtiles m' c es"
  by (induction es arbitrary: c) auto

lemma csz_moved [simp]: "csz (moved_copy s Fr i e) = csz e"
  by (auto simp: moved_copy_def link_copy_def csz_def get_entry_size_def split: option.splits)

abbreviation owners :: "chs list \<Rightarrow> nat option list" where
  "owners es \<equiv> map c_vhdr (filter is_copy es)"

definition freed :: "sys \<Rightarrow> ptr_set \<Rightarrow> chs \<Rightarrow> bool" where
  "freed s fs e \<longleftrightarrow> (\<exists>v h. c_vhdr e = Some v \<and> vhdrs s v = Some h \<and> ptrset_is_member fs (np_org_act h) = Some True)"

lemma moved_thread:
  assumes "moved self ps Fr s s'" "thrs s self = Some th"
  obtains m where "thrs s' self = Some (th\<lparr>tvlog := (tvlog th)\<lparr>tv_mem := m\<rparr>\<rparr>)" "\<And>j. m j = get_chs s' self j"
proof -
  from assms(1) obtain m V where "s' = s\<lparr>vhdrs := V, thrs := (thrs s)(self := map_option (\<lambda>th. th\<lparr>tvlog := (tvlog th)\<lparr>tv_mem := m\<rparr>\<rparr>) (thrs s self))\<rparr>"
    unfolding moved_def same_rest_def by blast
  with assms(2) have "thrs s' self = Some (th\<lparr>tvlog := (tvlog th)\<lparr>tv_mem := m\<rparr>\<rparr>)" by simp
  note t = this
  show ?thesis by (rule that [OF t]) (simp add: get_chs_def t)
qed

lemma freed_frame:
  assumes "moved self [(i, e)] Fr s s1" "freed s1 fs f"
  shows "freed s fs f"
proof -
  obtain v h where f: "c_vhdr f = Some v" "vhdrs s1 v = Some h" "ptrset_is_member fs (np_org_act h) = Some True"
    using assms(2) by (auto simp: freed_def)
  have "vhdrs s1 v = (if chains_to Fr v (i, e) then map_option (\<lambda>h. h\<lparr>p_copy := Cpy self i\<rparr>) (vhdrs s v) else vhdrs s v)"
    using assms(1) by (simp add: moved_def)
  with f show ?thesis by (cases "vhdrs s v") (auto simp: freed_def split: if_splits)
qed

lemma move_loop:
  "thrs s self = Some th \<Longrightarrow> wtiles (tv_mem (tvlog th)) c es \<Longrightarrow> csizes es \<le> tv_size \<Longrightarrow> \<forall>e\<in>set es. tx_entry s fs e \<Longrightarrow> distinct (owners es) \<Longrightarrow>
   \<exists>n' Fr s'. ws_for_each self (move_lock_to_copy self fs) (length es) c (n, s) = Some (False, c + of_nat (csizes es), n', s') \<and>
     moved self (zip (wpos c es) es) Fr s s' \<and> Fr \<subseteq> set (wpos c es) \<and> (\<forall>(i, e)\<in>set (zip (wpos c es) es). i \<in> Fr \<longrightarrow> freed s fs e)"
proof (induction es arbitrary: c s th n)
  case Nil
  then have "moved self [] {} s s" using same_rest_refl by (simp add: moved_def)
  then show ?case by auto
next
  case (Cons e es)
  let ?i = "tvlog_index c" and ?c = "c + of_nat (csz e)"
  have g: "get_chs s self ?i = Some e" using Cons.prems(1,2) by (simp add: get_chs_def)
  have ok: "tx_entry s fs e" using Cons.prems(4) by simp
  then obtain n1 Fr s1 where m1: "move_lock_to_copy self fs ?i e (n, s) = Some (False, n1, s1)" "moved self [(?i, e)] Fr s s1" "Fr \<subseteq> {?i}"
      "?i \<in> Fr \<Longrightarrow> \<exists>v h. c_vhdr e = Some v \<and> vhdrs s v = Some h \<and> ptrset_is_member fs (np_org_act h) = Some True"
    using move_step [OF ok Cons.prems(1) g] by metis
  have bog: "Fr = {}" if "c_type e = TYPE_BOGUS"
  proof -
    have "s1 = s" using m1(1) that by (simp add: move_lock_to_copy_def)
    moreover have "get_chs s1 self ?i = Some (moved_copy s Fr ?i e)" using m1(2) by (simp add: moved_def)
    ultimately have "c_type (moved_copy s Fr ?i e) = TYPE_BOGUS" using that g by simp
    then show ?thesis using m1(3) by (auto simp: moved_copy_def split: if_splits)
  qed
  have "distinct (wpos c (e # es))" using Cons.prems(2,3) by (rule wpos_distinct)
  then have i: "?i \<notin> set (wpos ?c es)" by simp
  have dist: "c_vhdr f \<noteq> c_vhdr e" if "is_copy e" "f \<in> set es" "is_copy f" for f
    using that Cons.prems(5) by (auto simp: image_iff)
  have fr: "tx_entry s1 fs f \<and> moved_copy s1 Gr j f = moved_copy s Gr j f" if "f \<in> set es" for f Gr j
    by (rule entry_frame [OF _ m1(2) g]) (use that Cons.prems(4) ok dist bog in \<open>auto simp: tx_entry_def\<close>)
  obtain m where m: "thrs s1 self = Some (th\<lparr>tvlog := (tvlog th)\<lparr>tv_mem := m\<rparr>\<rparr>)" "\<And>j. m j = get_chs s1 self j"
    by (rule moved_thread [OF m1(2) Cons.prems(1)]) blast
  have mj: "m j = (if j = ?i then Some (moved_copy s Fr ?i e) else tv_mem (tvlog th) j)" for j
    using m(2) m1(2) Cons.prems(1) by (simp add: moved_def get_chs_def)
  have w: "wtiles m ?c es" using i Cons.prems(2) by (intro wtiles_cong [of _ _ m "tv_mem (tvlog th)"]) (auto simp: mj)
  have "\<exists>n' Gr s'. ws_for_each self (move_lock_to_copy self fs) (length es) ?c (n1, s1) = Some (False, ?c + of_nat (csizes es), n', s') \<and>
     moved self (zip (wpos ?c es) es) Gr s1 s' \<and> Gr \<subseteq> set (wpos ?c es) \<and> (\<forall>(i, e)\<in>set (zip (wpos ?c es) es). i \<in> Gr \<longrightarrow> freed s1 fs e)"
    by (rule Cons.IH [OF m(1)]) (use w fr Cons.prems(3,5) in \<open>auto split: if_splits\<close>)
  then obtain n' Gr s' where r: "ws_for_each self (move_lock_to_copy self fs) (length es) ?c (n1, s1) = Some (False, ?c + of_nat (csizes es), n', s')"
     "moved self (zip (wpos ?c es) es) Gr s1 s'" "Gr \<subseteq> set (wpos ?c es)" "\<forall>(i, e)\<in>set (zip (wpos ?c es) es). i \<in> Gr \<longrightarrow> freed s1 fs e" by blast
  have ps: "fst ` set (zip (wpos ?c es) es) = set (wpos ?c es)" by (metis length_wpos map_fst_zip set_map)
  have "moved self ((?i, e) # zip (wpos ?c es) es) (Fr \<union> Gr) s s'"
    by (rule moved_Cons [OF m1(2) r(2) m1(3)]) (use r(3) ps i fr dist in \<open>auto dest: set_zip_rightD\<close>)
  moreover have "get_chs s1 self ?i = Some (moved_copy s Fr ?i e)" using m1(2) by (simp add: moved_def)
  then have "ws_for_each self (move_lock_to_copy self fs) (length (e # es)) c (n, s) = Some (False, c + of_nat (csizes (e # es)), n', s')"
    using g m1(1) r(1) by (simp add: ws_iter_next_def ucast_entry_size algebra_simps)
  moreover have "\<forall>(j, f)\<in>set (zip (wpos c (e # es)) (e # es)). j \<in> Fr \<union> Gr \<longrightarrow> freed s fs f"
  proof (intro ballI, clarify)
    fix j f assume a: "(j, f) \<in> set (zip (wpos c (e # es)) (e # es))" "j \<in> Fr \<union> Gr"
    show "freed s fs f"
    proof (cases "(j, f) = (?i, e)")
      case True
      then show ?thesis using a(2) r(3) i m1(4) by (auto simp: freed_def)
    next
      case False
      with a(1) have z: "(j, f) \<in> set (zip (wpos ?c es) es)" by auto
      then have "j \<noteq> ?i" using i ps by force
      with a(2) m1(3) have "j \<in> Gr" by blast
      with r(4) z have "freed s1 fs f" by blast
      then show ?thesis by (rule freed_frame [OF m1(2)])
    qed
  qed
  moreover have "Fr \<union> Gr \<subseteq> set (wpos c (e # es))" using m1(3) r(3) by auto
  ultimately show ?case by (auto simp only: wpos.simps zip_Cons_Cons)
qed

section \<open>Stamping the copies\<close>

text \<open>
  The last phase for the copies \<open>D\<close> (with their positions in the log of \<open>self\<close>): they get the write
  clock \<open>w\<close>, the versions behind them learn that clock, and their locks are released.
\<close>

definition wset :: "nat \<Rightarrow> (u32 \<times> chs) set \<Rightarrow> (nat \<times> u32) set" where
  "wset self D = {(self, i) |i e. (i, e) \<in> D \<and> lockable e}"

definition fset :: "nat \<Rightarrow> (u32 \<times> chs) set \<Rightarrow> (nat \<times> u32) set" where
  "fset self D = {(self, i) |i e. (i, e) \<in> D \<and> c_type e = TYPE_FREE}"

definition behind :: "(u32 \<times> chs) set \<Rightarrow> (nat \<times> u32) set" where
  "behind D = {(t, j) |t j i e. (i, e) \<in> D \<and> is_copy e \<and> c_p_copy e = Cpy t j}"

definition locks :: "(u32 \<times> chs) set \<Rightarrow> (u32 \<times> nat) set" where
  "locks D = {(i, v) |i v e. (i, e) \<in> D \<and> is_copy e \<and> c_vhdr e = Some v}"

lemmas stamp_sets = wset_def fset_def behind_def locks_def

definition stamp :: "u64 \<Rightarrow> nat \<Rightarrow> (u32 \<times> chs) set \<Rightarrow> nat \<times> u32 \<Rightarrow> chs \<Rightarrow> chs" where
  "stamp w self D p d = d\<lparr>c_wrt_clk := if p \<in> wset self D then w else c_wrt_clk d,
     c_p_copy := if p \<in> fset self D then Null else c_p_copy d,
     wrt_clk_prev := if p \<in> behind D then w else wrt_clk_prev d\<rparr>"

definition same_logs :: "sys \<Rightarrow> sys \<Rightarrow> bool" where
  "same_logs s s' \<longleftrightarrow>
     (\<exists>m V. s' = s\<lparr>vhdrs := V, thrs := (\<lambda>t. map_option (\<lambda>th. th\<lparr>tvlog := (tvlog th)\<lparr>tv_mem := m t\<rparr>\<rparr>) (thrs s t))\<rparr>)"

definition unl :: "u64 \<Rightarrow> nat \<Rightarrow> (u32 \<times> chs) set \<Rightarrow> sys \<Rightarrow> sys \<Rightarrow> bool" where
  "unl w self D s s' \<longleftrightarrow>
     same_logs s s' \<and> (\<forall>t j. get_chs s' t j = map_option (stamp w self D (t, j)) (get_chs s t j)) \<and>
     vhdrs s' = vhdrs (release self (locks D) s)"

lemma stamp_fields [simp]:
  "csz (stamp w self D p d) = csz d" "c_type (stamp w self D p d) = c_type d" "c_vhdr (stamp w self D p d) = c_vhdr d"
  "c_body (stamp w self D p d) = c_body d" "c_obj_size (stamp w self D p d) = c_obj_size d" "p_ws (stamp w self D p d) = p_ws d"
  "wrt_clk_next (stamp w self D p d) = wrt_clk_next d"
  by (simp_all add: stamp_def csz_def get_entry_size_def)

lemma stamp_empty [simp]: "stamp w self {} p = id"
  by (rule ext) (simp add: stamp_def stamp_sets)

lemma same_logs_refl: "same_logs s s"
  unfolding same_logs_def
  by (rule exI [of _ "\<lambda>t. tv_mem (tvlog (the (thrs s t)))"], rule exI [of _ "vhdrs s"])
    (cases s; auto simp: fun_eq_iff option.map_sel split: option.splits intro: option.expand)

lemma same_logs_trans: "same_logs s s1 \<Longrightarrow> same_logs s1 s2 \<Longrightarrow> same_logs s s2"
proof -
  assume "same_logs s s1" "same_logs s1 s2"
  then obtain m V m' V' where "s1 = s\<lparr>vhdrs := V, thrs := (\<lambda>t. map_option (\<lambda>th. th\<lparr>tvlog := (tvlog th)\<lparr>tv_mem := m t\<rparr>\<rparr>) (thrs s t))\<rparr>"
    "s2 = s1\<lparr>vhdrs := V', thrs := (\<lambda>t. map_option (\<lambda>th. th\<lparr>tvlog := (tvlog th)\<lparr>tv_mem := m' t\<rparr>\<rparr>) (thrs s1 t))\<rparr>"
    unfolding same_logs_def by blast
  then have "s2 = s\<lparr>vhdrs := V', thrs := (\<lambda>t. map_option (\<lambda>th. th\<lparr>tvlog := (tvlog th)\<lparr>tv_mem := m' t\<rparr>\<rparr>) (thrs s t))\<rparr>"
    by (cases s) (simp add: option.map_comp comp_def)
  then show ?thesis unfolding same_logs_def by blast
qed

lemma same_logs_upd_chs: "same_logs s (upd_chs t i f s)"
  unfolding same_logs_def
  by (rule exI [of _ "\<lambda>u. (if u = t then \<lambda>m. m(i := map_option f (m i)) else id) (tv_mem (tvlog (the (thrs s u))))"], rule exI [of _ "vhdrs s"])
    (cases s; auto simp: upd_chs_def upd_tvlog_def upd_thr_def fun_eq_iff split: option.splits intro: option.expand)

lemma same_logs_release: "same_logs s s' \<Longrightarrow> same_logs s (release self L s')"
proof -
  assume "same_logs s s'"
  then obtain m V where s': "s' = s\<lparr>vhdrs := V, thrs := (\<lambda>t. map_option (\<lambda>th. th\<lparr>tvlog := (tvlog th)\<lparr>tv_mem := m t\<rparr>\<rparr>) (thrs s t))\<rparr>"
    unfolding same_logs_def by blast
  show ?thesis unfolding same_logs_def
    by (rule exI [of _ m], rule exI [of _ "vhdrs (release self L s')"]) (cases s; simp add: s' release_def)
qed

lemma unl_refl: "unl w self {} s s"
  by (simp add: unl_def same_logs_refl option.map_id locks_def)

lemma unl_other:
  assumes "unl w self D s s'" "\<not> lockable e"
  shows "unl w self (insert (i, e) D) s s'"
proof -
  have "wset self (insert (i, e) D) = wset self D" "fset self (insert (i, e) D) = fset self D"
    "behind (insert (i, e) D) = behind D" "locks (insert (i, e) D) = locks D"
    using assms(2) by (auto simp: stamp_sets lockable_def)
  then show ?thesis using assms(1) by (simp add: unl_def stamp_def [abs_def])
qed

lemma unlock_step:
  assumes "unl w self D s0 s" "get_chs s0 self i = Some e" "i \<notin> fst ` D" "linked e"
  obtains s1 where "unlock_commit self w i (stamp w self D (self, i) e) ((), s) = Some (False, (), s1)"
    "unl w self (insert (i, e) D) s0 s1"
proof -
  let ?D = "insert (i, e) D" and ?e = "stamp w self D (self, i) e"
  have g: "get_chs s self i = Some ?e" "get_chs s t j = map_option (stamp w self D (t, j)) (get_chs s0 t j)" for t j
    using assms(1,2) by (simp_all add: unl_def)
  have nf: "(self, i) \<notin> fset self D" "(self, i) \<notin> wset self D" using assms(3) by (force simp: stamp_sets)+
  then have pc: "c_p_copy ?e = c_p_copy e" by (simp add: stamp_def)
  have rr: "release self L (release self (locks D) s0) = release self (locks D \<union> L) s0" for L by (rule release_release)
  have vr: "vhdrs (release self L s) = vhdrs (release self (locks D \<union> L) s0)" for L
    unfolding rr [symmetric] by (rule vhdrs_release_cong) (use assms(1) in \<open>simp add: unl_def\<close>)
  consider (copy) v where "is_copy e" "c_vhdr e = Some v" "c_p_copy e = Null \<or> (\<exists>t j. c_p_copy e = Cpy t j)"
    | (free) "c_type e = TYPE_FREE" | (other) "\<not> lockable e"
    using assms(4) by (auto simp: linked_def lockable_def cpy_of_def split: ptr.splits)
  then show ?thesis
  proof cases
    case other
    then have "unlock_commit self w i ?e ((), s) = Some (False, (), s)" by (simp add: unlock_commit_def lockable_def split: obj_type.splits)
    then show ?thesis using that unl_other [OF assms(1) other] by blast
  next
    case free
    let ?s = "upd_chs self i (\<lambda>c. c\<lparr>c_wrt_clk := w, c_p_copy := Null\<rparr>) s"
    have u: "unlock_commit self w i ?e ((), s) = Some (False, (), ?s)" using free by (simp add: unlock_commit_def)
    have sets: "wset self ?D = insert (self, i) (wset self D)" "fset self ?D = insert (self, i) (fset self D)" "behind ?D = behind D" "locks ?D = locks D"
      using free by (auto simp: stamp_sets lockable_def)
    have "stamp w self ?D p d = (if p = (self, i) then (stamp w self D p d)\<lparr>c_wrt_clk := w, c_p_copy := Null\<rparr> else stamp w self D p d)" for p d
      by (simp add: stamp_def sets)
    then have "get_chs ?s t j = map_option (stamp w self ?D (t, j)) (get_chs s0 t j)" for t j
      by (cases "t = self \<and> j = i"; cases "get_chs s0 t j") (auto simp: store_simps g(2))
    moreover have "same_logs s0 ?s" using same_logs_trans [OF _ same_logs_upd_chs] assms(1) by (simp add: unl_def)
    ultimately have "unl w self ?D s0 ?s" using assms(1) by (simp add: unl_def sets store_simps)
    with that u show ?thesis by blast
  next
    case copy
    let ?s = "release self {(i, v)} (upd_chs self i (\<lambda>c. c\<lparr>c_wrt_clk := w\<rparr>) s)"
    have sets: "wset self ?D = insert (self, i) (wset self D)" "fset self ?D = fset self D"
      "behind ?D = {(t, j). c_p_copy e = Cpy t j} \<union> behind D" "locks ?D = locks D \<union> {(i, v)}"
      using copy(1,2) by (auto simp: stamp_sets lockable_def)
    have sl: "same_logs s0 ?s" using same_logs_release same_logs_trans [OF _ same_logs_upd_chs] assms(1) by (simp add: unl_def)
    have vh: "vhdrs ?s = vhdrs (release self (locks ?D) s0)"
      unfolding sets vr [symmetric] by (rule vhdrs_release_cong) (simp add: store_simps)
    from copy(3) show ?thesis
    proof (elim disjE exE)
      assume n: "c_p_copy e = Null"
      then have u: "unlock_commit self w i ?e ((), s) = Some (False, (), ?s)" using copy pc by (simp add: unlock_commit_def unlock_obj_release)
      have "stamp w self ?D p d = (if p = (self, i) then (stamp w self D p d)\<lparr>c_wrt_clk := w\<rparr> else stamp w self D p d)" for p d
        using n by (simp add: stamp_def sets)
      then have "get_chs ?s t j = map_option (stamp w self ?D (t, j)) (get_chs s0 t j)" for t j
        by (cases "t = self \<and> j = i"; cases "get_chs s0 t j") (auto simp: store_simps g(2))
      then show ?thesis using that u sl vh by (simp add: unl_def)
    next
      fix t' j' assume n: "c_p_copy e = Cpy t' j'"
      let ?s' = "upd_chs t' j' (\<lambda>c. c\<lparr>wrt_clk_prev := w\<rparr>) ?s"
      have u: "unlock_commit self w i ?e ((), s) = Some (False, (), ?s')" using n copy pc by (simp add: unlock_commit_def unlock_obj_release)
      have "stamp w self ?D p d = (let d = (if p = (self, i) then (stamp w self D p d)\<lparr>c_wrt_clk := w\<rparr> else stamp w self D p d)
          in if p = (t', j') then d\<lparr>wrt_clk_prev := w\<rparr> else d)" for p d
        using n by (cases d) (simp add: stamp_def sets Let_def)
      then have "get_chs ?s' t j = map_option (stamp w self ?D (t, j)) (get_chs s0 t j)" for t j
        by (cases "t = self \<and> j = i"; cases "t = t' \<and> j = j'"; cases "get_chs s0 t j") (auto simp: store_simps g(2))
      moreover have "same_logs s0 ?s'" using same_logs_trans [OF sl same_logs_upd_chs] .
      ultimately show ?thesis using that u vh by (simp add: unl_def store_simps)
    qed
  qed
qed

lemma unlock_loop:
  "unl w self D s0 s \<Longrightarrow> thrs s0 self = Some th \<Longrightarrow> wtiles (tv_mem (tvlog th)) c es \<Longrightarrow> distinct (wpos c es) \<Longrightarrow>
   fst ` D \<inter> set (wpos c es) = {} \<Longrightarrow> \<forall>e\<in>set es. linked e \<Longrightarrow>
   \<exists>s'. ws_for_each self (unlock_commit self w) (length es) c ((), s) = Some (False, c + of_nat (csizes es), (), s') \<and>
     unl w self (D \<union> set (zip (wpos c es) es)) s0 s'"
proof (induction es arbitrary: c s D)
  case (Cons e es)
  let ?i = "tvlog_index c" and ?c = "c + of_nat (csz e)"
  have g: "get_chs s0 self ?i = Some e" using Cons.prems(2,3) by (simp add: get_chs_def)
  have i: "?i \<notin> fst ` D" "linked e" using Cons.prems(5,6) by auto
  obtain s1 where s1: "unlock_commit self w ?i (stamp w self D (self, ?i) e) ((), s) = Some (False, (), s1)" "unl w self (insert (?i, e) D) s0 s1"
    by (rule unlock_step [OF Cons.prems(1) g i])
  have "\<exists>s'. ws_for_each self (unlock_commit self w) (length es) ?c ((), s1) = Some (False, ?c + of_nat (csizes es), (), s') \<and>
     unl w self (insert (?i, e) D \<union> set (zip (wpos ?c es) es)) s0 s'"
    by (rule Cons.IH [OF s1(2) Cons.prems(2)]) (use Cons.prems(3-6) in auto)
  then obtain s' where s': "ws_for_each self (unlock_commit self w) (length es) ?c ((), s1) = Some (False, ?c + of_nat (csizes es), (), s')"
     "unl w self (insert (?i, e) D \<union> set (zip (wpos ?c es) es)) s0 s'" by blast
  have "get_chs s self ?i = Some (stamp w self D (self, ?i) e)" "get_chs s1 self ?i = Some (stamp w self (insert (?i, e) D) (self, ?i) e)"
    using Cons.prems(1) s1(2) g by (simp_all add: unl_def)
  then have "ws_for_each self (unlock_commit self w) (length (e # es)) c ((), s) = Some (False, c + of_nat (csizes (e # es)), (), s')"
    using s1(1) s'(1) by (simp add: ws_iter_next_def ucast_entry_size algebra_simps)
  with s'(2) show ?case by (simp only: wpos.simps zip_Cons_Cons list.set Un_insert_left Un_insert_right) blast
qed simp

section \<open>The whole commit\<close>

text \<open>What the operation log and the reclamation requests may change.\<close>

definition log_step :: "nat \<Rightarrow> sys \<Rightarrow> sys \<Rightarrow> bool" where
  "log_step self s s' \<longleftrightarrow>
     (\<exists>L S q n. s' = (upd_thr self (\<lambda>th. th\<lparr>oplog := L th, stat := S th\<rparr>) s)\<lparr>qp := q, now := n\<rparr>)"

lemma log_step_reads:
  assumes "log_step self s s'"
  shows "vhdrs s' = vhdrs s" "acts s' = acts s" "get_chs s' t j = get_chs s t j" "get_ws s' t j = get_ws s t j"
    "thrs s self = Some th \<Longrightarrow> \<exists>l st. thrs s' self = Some (th\<lparr>oplog := l, stat := st\<rparr>)"
proof -
  obtain L S q n where f: "s' = (upd_thr self (\<lambda>th. th\<lparr>oplog := L th, stat := S th\<rparr>) s)\<lparr>qp := q, now := n\<rparr>"
    using assms unfolding log_step_def by blast
  show "vhdrs s' = vhdrs s" "acts s' = acts s" by (simp_all add: f upd_thr_def)
  have "get_chs s' t j = get_chs (upd_thr self (\<lambda>th. th\<lparr>oplog := L th, stat := S th\<rparr>) s) t j" for t j by (simp add: f get_chs_def)
  then show g: "get_chs s' t j = get_chs s t j" for t j by (simp add: get_chs_upd_thr)
  show "get_ws s' t j = get_ws s t j" by (simp add: get_ws_def g)
  show "\<exists>l st. thrs s' self = Some (th\<lparr>oplog := l, stat := st\<rparr>)" if "thrs s self = Some th"
    using that by (auto simp: f store_simps)
qed

lemma log_step_trans:
  assumes "log_step self s s1" "log_step self s1 s2"
  shows "log_step self s s2"
proof -
  obtain L S q n where f: "s1 = (upd_thr self (\<lambda>th. th\<lparr>oplog := L th, stat := S th\<rparr>) s)\<lparr>qp := q, now := n\<rparr>"
    using assms(1) unfolding log_step_def by blast
  obtain L' S' q' n' where g: "s2 = (upd_thr self (\<lambda>th. th\<lparr>oplog := L' th, stat := S' th\<rparr>) s1)\<lparr>qp := q', now := n'\<rparr>"
    using assms(2) unfolding log_step_def by blast
  have "s2 = (upd_thr self (\<lambda>th. th\<lparr>oplog := L' (th\<lparr>oplog := L th, stat := S th\<rparr>), stat := S' (th\<lparr>oplog := L th, stat := S th\<rparr>)\<rparr>) s)\<lparr>qp := q', now := n'\<rparr>"
    by (simp add: g f upd_thr_def option.map_comp comp_def)
  then show ?thesis unfolding log_step_def
    by (intro exI [of _ "\<lambda>th. L' (th\<lparr>oplog := L th, stat := S th\<rparr>)"] exI [of _ "\<lambda>th. S' (th\<lparr>oplog := L th, stat := S th\<rparr>)"] exI)
qed

lemma log_step_stat: "log_step self s (stat_thread self f s)"
  unfolding log_step_def stat_thread_def
  by (intro exI [of _ oplog] exI [of _ "\<lambda>th. f (stat th)"] exI [of _ "qp s"] exI [of _ "now s"]) (simp add: upd_thr_def)

lemma log_step_oplog: "log_step self s (upd_oplog self f s)"
  unfolding log_step_def
  by (intro exI [of _ "\<lambda>th. f (oplog th)"] exI [of _ stat] exI [of _ "qp s"] exI [of _ "now s"]) (simp add: upd_thr_def)

lemma log_step_clock: "log_step self s (s\<lparr>now := n\<rparr>)"
  unfolding log_step_def
  by (intro exI [of _ oplog] exI [of _ stat] exI [of _ "qp s"] exI [of _ n]) (simp add: upd_thr_def option.map_ident)

lemma log_step_refl: "log_step self s s"
  using log_step_clock [of self s "now s"] by simp

lemma log_step_request: "log_step self s (snd (request_tvlog_reclaim r s))"
  unfolding log_step_def
  by (intro exI [of _ oplog] exI [of _ stat] exI [of _ "qp (snd (request_tvlog_reclaim r s))"] exI [of _ "now s"])
    (auto simp: request_tvlog_reclaim_def wakeup_qp_thread_def upd_thr_def Let_def option.map_ident split: prod.splits)

lemma oplog_enq_step: "oplog_enq self lc wc info s = Some (i, s') \<Longrightarrow> log_step self s s'"
  by (auto simp: oplog_enq_def Let_def split: bind_splits if_splits prod.splits option.splits intro: log_step_trans [OF log_step_oplog log_step_stat])

lemma oplog_reclaim_step: "oplog_reclaim self force s = Some (b, s') \<Longrightarrow> log_step self s s'"
  by (auto simp: oplog_reclaim_def Let_def split: bind_splits if_splits prod.splits
      intro: log_step_refl log_step_oplog log_step_trans [OF log_step_stat log_step_oplog])

text \<open>The operation log of a thread agrees with its store and has room for the operation of the thread.\<close>

definition oplog_ok :: "thread \<Rightarrow> bool" where
  "oplog_ok th \<longleftrightarrow>
     nvlog_wf (oplog th) \<and> log_size (oplog th) = TS_OPLOG_SIZE \<and> oplog_used (oplog th) < TS_OPLOG_HIGH_MARK \<and>
     (\<exists>st. nvl_store (oplog th) = Some st \<and> s_head_cnt st = head_cnt (oplog th) \<and> s_tail_cnt st = tail_cnt (oplog th) \<and>
        s_log_size st = log_size (oplog th) \<and> s_mask st = nvl_mask (oplog th)) \<and>
     op_curr (op_info th) \<le> TS_MAX_OPERAND_SIZE \<and> length (op_opd (op_info th)) = 240"

definition op_record :: "thread \<Rightarrow> u64 \<Rightarrow> log_entry" where
  "op_record th clk =
     \<lparr>e_wrt_clk = clk, e_size = entry_size_of (sizeof_op_entry_hdr + op_curr (op_info th)), e_type = TYPE_ACTUAL,
      e_body = Some (OpBody \<lparr>oe_local_clk = local_clk th, oe_op_type = op_type (op_info th),
                             oe_opd = take (unat (op_curr (op_info th))) (op_opd (op_info th))\<rparr>)\<rparr>"

lemma oplog_record:
  assumes "oplog_ok th" "thrs s t = Some th'" "oplog th' = oplog th" "op_info th' = op_info th"
  shows "\<exists>i s1 th2 st2. oplog_enq t (local_clk th) clk (op_info th') s = Some (i, s1) \<and> thrs (oplog_enq_persist t s1) t = Some th2 \<and>
     nvl_store (oplog th2) = Some st2 \<and> nvlog_wf (oplog th2) \<and> s_head_cnt st2 = head_cnt (oplog th2) \<and>
     unat (oplog_used (oplog th2)) \<le> unat (oplog_used (oplog th)) + 640 \<and>
     nvlog_entries (nvlog_load st2) = nvlog_entries (oplog th) @ [op_record th clk]"
proof -
  obtain st where "nvl_store (oplog th) = Some st" "s_head_cnt st = head_cnt (oplog th)" "s_tail_cnt st = tail_cnt (oplog th)"
      "s_log_size st = log_size (oplog th)" "s_mask st = nvl_mask (oplog th)"
    using assms(1) by (auto simp: oplog_ok_def)
  then show ?thesis
    using oplog_enq_durable [OF assms(2), of st "op_info th'" "local_clk th" clk] assms by (simp add: oplog_ok_def op_record_def) blast
qed

text \<open>A transaction that is about to commit: its write set is tiled, and its copies are the locked objects.\<close>

definition tx_ready :: "nat \<Rightarrow> sys \<Rightarrow> thread \<Rightarrow> wrt_set \<Rightarrow> chs \<Rightarrow> chs list \<Rightarrow> bool" where
  "tx_ready self s th ws h es \<longleftrightarrow>
     thrs s self = Some th \<and> ws_rep (tvlog th) ws h es \<and> length es < 2 ^ 32 \<and>
     (\<forall>e\<in>set es. tx_entry s (tx_free_set th) e) \<and> distinct (owners es)"

abbreviation first_cnt :: "wrt_set \<Rightarrow> chs \<Rightarrow> u64" where
  "first_cnt ws h \<equiv> start_tail_cnt ws + of_nat (csz h)"

lemma tx_readyE:
  assumes "tx_ready self s th ws h es"
  obtains "thrs s self = Some th" "cur_wrt_set (tvlog th) = Some (tvlog_index (start_tail_cnt ws))" "c_body h = Ws ws"
    "get_chs s self (tvlog_index (start_tail_cnt ws)) = Some h" "wtiles (tv_mem (tvlog th)) (first_cnt ws h) es"
    "csizes es \<le> tv_size" "unat (num_objs ws) = length es" "tvlog_index (start_tail_cnt ws) \<notin> set (wpos (first_cnt ws h) es)"
    "distinct (wpos (first_cnt ws h) es)"
proof -
  have r: "cur_wrt_set (tvlog th) = Some (tvlog_index (start_tail_cnt ws))" "c_body h = Ws ws"
    "wtiles (tv_mem (tvlog th)) (start_tail_cnt ws) (h # es)" "csizes (h # es) \<le> tv_size" "num_objs ws = of_nat (length es)"
    using assms by (auto simp: tx_ready_def ws_part_def seg_def)
  have "distinct (wpos (start_tail_cnt ws) (h # es))" using r(3,4) by (rule wpos_distinct)
  with r assms that show ?thesis by (simp add: tx_ready_def get_chs_def unat_of_nat)
qed

lemma move_phase:
  assumes "tx_ready self s th ws h es"
  obtains Fr s1 where "ws_move_lock_to_copy self s = Some s1" "moved self (zip (wpos (first_cnt ws h) es) es) Fr s s1"
    "Fr \<subseteq> set (wpos (first_cnt ws h) es)"
    "\<And>i e. (i, e) \<in> set (zip (wpos (first_cnt ws h) es) es) \<Longrightarrow> i \<in> Fr \<Longrightarrow> freed s (tx_free_set th) e"
proof -
  from assms obtain a: "thrs s self = Some th" "cur_wrt_set (tvlog th) = Some (tvlog_index (start_tail_cnt ws))" "c_body h = Ws ws"
    "get_chs s self (tvlog_index (start_tail_cnt ws)) = Some h" "wtiles (tv_mem (tvlog th)) (first_cnt ws h) es"
    "csizes es \<le> tv_size" "unat (num_objs ws) = length es" by (rule tx_readyE)
  have "\<forall>e\<in>set es. tx_entry s (tx_free_set th) e" "distinct (owners es)" using assms by (simp_all add: tx_ready_def)
  from move_loop [OF a(1,5,6) this, of "num_ptrs (tx_free_set th)"]
  obtain n' Fr s1 where l: "ws_for_each self (move_lock_to_copy self (tx_free_set th)) (length es) (first_cnt ws h) (num_ptrs (tx_free_set th), s) =
      Some (False, first_cnt ws h + of_nat (csizes es), n', s1)" "moved self (zip (wpos (first_cnt ws h) es) es) Fr s s1"
     "Fr \<subseteq> set (wpos (first_cnt ws h) es)" "\<forall>(i, e)\<in>set (zip (wpos (first_cnt ws h) es) es). i \<in> Fr \<longrightarrow> freed s (tx_free_set th) e" by blast
  have "get_ws s self (tvlog_index (start_tail_cnt ws)) = Some ws" using a(3,4) by (simp add: get_ws_def)
  then have "ws_move_lock_to_copy self s = Some s1"
    using a l(1) by (simp add: ws_move_lock_to_copy_def ws_loop_def ws_iter_begin_def ucast_entry_size)
  with l(2-4) that show ?thesis by blast
qed

text \<open>The thread after a step that left everything but the copies, the operation log and the counters alone.\<close>

definition same_tx :: "thread \<Rightarrow> thread \<Rightarrow> bool" where
  "same_tx th th' \<longleftrightarrow> (\<exists>m l st. th' = th\<lparr>tvlog := (tvlog th)\<lparr>tv_mem := m\<rparr>, oplog := l, stat := st\<rparr>)"

lemma same_tx_trans: "same_tx th th1 \<Longrightarrow> same_tx th1 th2 \<Longrightarrow> same_tx th th2"
  unfolding same_tx_def by fastforce

lemma same_tx_refl: "same_tx th th"
  unfolding same_tx_def by (intro exI [of _ "tv_mem (tvlog th)"] exI [of _ "oplog th"] exI [of _ "stat th"]) simp

lemma same_tx_mem: "same_tx th (th\<lparr>tvlog := (tvlog th)\<lparr>tv_mem := m\<rparr>\<rparr>)"
  unfolding same_tx_def by (intro exI [of _ m] exI [of _ "oplog th"] exI [of _ "stat th"]) (cases th; simp)

lemma same_tx_log: "same_tx th (th\<lparr>oplog := l, stat := st\<rparr>)"
  unfolding same_tx_def by (intro exI [of _ "tv_mem (tvlog th)"] exI [of _ l] exI [of _ st]) (cases th; simp)

lemma upd_ws_thread:
  "thrs s self = Some th \<Longrightarrow> \<exists>m. thrs (upd_ws self w f s) self = Some (th\<lparr>tvlog := (tvlog th)\<lparr>tv_mem := m\<rparr>\<rparr>)"
  by (auto simp: upd_ws_tvlog upd_tvlog_def upd_thr_def upd_entry_def)

lemma upd_ws_vhdrs: "vhdrs (upd_ws self w f s) = vhdrs s" "acts (upd_ws self w f s) = acts s"
  by (simp_all add: upd_ws_def store_simps)

text \<open>What a step leaves of the threads to readers: their clocks and the checkpoint logs.\<close>

definition rdr_view :: "thread \<Rightarrow> u64 \<times> u64 \<times> log" where
  "rdr_view rt = (local_clk rt, last_ckpt (clks rt), ckptlog rt)"

definition rdr_frame :: "sys \<Rightarrow> sys \<Rightarrow> bool" where
  "rdr_frame s s' \<longleftrightarrow> (\<forall>t. map_option rdr_view (thrs s' t) = map_option rdr_view (thrs s t))"

lemma rdr_frame_trans: "rdr_frame s s1 \<Longrightarrow> rdr_frame s1 s2 \<Longrightarrow> rdr_frame s s2"
  by (simp add: rdr_frame_def)

lemma rdr_frame_upd_thr: "(\<And>th. rdr_view (f th) = rdr_view th) \<Longrightarrow> rdr_frame s (upd_thr self f s)"
  by (auto simp: rdr_frame_def upd_thr_def option.map_comp comp_def)

lemma rdr_frame_steps:
  "same_rest self s s' \<Longrightarrow> rdr_frame s s'" "same_logs s s' \<Longrightarrow> rdr_frame s s'" "log_step self s s' \<Longrightarrow> rdr_frame s s'"
  "rdr_frame s (upd_ws self w f s)" "rdr_frame s (s\<lparr>now := k\<rparr>)"
  by (auto simp: rdr_frame_def same_rest_def same_logs_def log_step_def upd_thr_def rdr_view_def [abs_def] option.map_comp comp_def
      upd_ws_def upd_chs_def upd_tvlog_def)

definition published :: "u64 \<Rightarrow> wrt_set \<Rightarrow> chs \<Rightarrow> chs" where
  "published clk ws h = h\<lparr>c_body := Ws (ws\<lparr>pending_wrt_clk := clk, ws_wrt_clk := clk\<rparr>)\<rparr>"

lemma middle_phase:
  assumes "thrs s1 self = Some th1" "cur_wrt_set (tvlog th1) = Some w" "get_chs s1 self w = Some h" "c_body h = Ws ws"
    and "oplog_ok th" "oplog th1 = oplog th" "op_info th1 = op_info th" "new_clock tsc (now s1) (local_clk th) = Some (clk, k)"
  obtains s2 th2 i s3 s4 th4 st where "commit_pending tsc self (local_clk th) s1 = Some (clk, s2)" "thrs s2 self = Some th2"
    "oplog_enq self (local_clk th) clk (op_info th2) s2 = Some (i, s3)" "commit_publish self clk (oplog_enq_persist self s3) = Some s4"
    "vhdrs s4 = vhdrs s1" "acts s4 = acts s1" "\<And>t j. get_chs s4 t j = (if t = self \<and> j = w then Some (published clk ws h) else get_chs s1 t j)"
    "thrs s4 self = Some th4" "same_tx th1 th4" "nvl_store (oplog th4) = Some st" "nvlog_wf (oplog th4)" "s_head_cnt st = head_cnt (oplog th4)"
    "unat (oplog_used (oplog th4)) \<le> unat (oplog_used (oplog th)) + 640"
    "nvlog_entries (nvlog_load st) = nvlog_entries (oplog th) @ [op_record th clk]" "rdr_frame s1 s4"
proof -
  let ?s2 = "upd_ws self w (\<lambda>ws. ws\<lparr>pending_wrt_clk := clk\<rparr>) (s1\<lparr>now := k\<rparr>)"
  have 2: "commit_pending tsc self (local_clk th) s1 = Some (clk, ?s2)" using assms(1,2,8) by (simp add: commit_pending_def)
  obtain m2 where th2: "thrs ?s2 self = Some (th1\<lparr>tvlog := (tvlog th1)\<lparr>tv_mem := m2\<rparr>\<rparr>)" (is "_ = Some ?th2")
    using upd_ws_thread [of "s1\<lparr>now := k\<rparr>" self th1] assms(1) by auto
  have o: "oplog ?th2 = oplog th" "op_info ?th2 = op_info th" using assms(6,7) by simp_all
  obtain i s3 th3 st where 3: "oplog_enq self (local_clk th) clk (op_info ?th2) ?s2 = Some (i, s3)" "thrs (oplog_enq_persist self s3) self = Some th3"
     "nvl_store (oplog th3) = Some st" "nvlog_wf (oplog th3)" "s_head_cnt st = head_cnt (oplog th3)"
     "unat (oplog_used (oplog th3)) \<le> unat (oplog_used (oplog th)) + 640"
     "nvlog_entries (nvlog_load st) = nvlog_entries (oplog th) @ [op_record th clk]"
    using oplog_record [OF assms(5) th2 o] by blast
  let ?s3 = "oplog_enq_persist self s3"
  have ls: "log_step self ?s2 ?s3"
    unfolding oplog_enq_persist_def by (rule log_step_trans [OF oplog_enq_step [OF 3(1)] log_step_oplog])
  obtain l2 t2 where th3: "th3 = ?th2\<lparr>oplog := l2, stat := t2\<rparr>" using log_step_reads(5) [OF ls th2] 3(2) by auto
  let ?s4 = "upd_ws self w (\<lambda>ws. ws\<lparr>ws_wrt_clk := clk\<rparr>) ?s3"
  have 4: "commit_publish self clk ?s3 = Some ?s4" using 3(2) th3 assms(2) by (simp add: commit_publish_def)
  obtain m4 where th4: "thrs ?s4 self = Some (th3\<lparr>tvlog := (tvlog th3)\<lparr>tv_mem := m4\<rparr>\<rparr>)" using upd_ws_thread [OF 3(2)] by blast
  have v: "vhdrs ?s4 = vhdrs s1" "acts ?s4 = acts s1" using log_step_reads(1,2) [OF ls] by (simp_all add: upd_ws_vhdrs)
  have g: "get_chs ?s4 t j = (if t = self \<and> j = w then Some (published clk ws h) else get_chs s1 t j)" for t j
    using log_step_reads(3) [OF ls] assms(3,4) by (auto simp: upd_ws_def store_simps published_def get_now)
  have "same_tx th1 (th3\<lparr>tvlog := (tvlog th3)\<lparr>tv_mem := m4\<rparr>\<rparr>)"
    using same_tx_trans [OF same_tx_trans [OF same_tx_mem same_tx_log] same_tx_mem] th3 by blast
  moreover have "rdr_frame s1 ?s4"
    by (rule rdr_frame_trans [OF rdr_frame_trans [OF rdr_frame_trans [OF rdr_frame_steps(5,4)] rdr_frame_steps(3) [OF ls]] rdr_frame_steps(4)])
  ultimately show ?thesis using that [OF 2 th2 3(1) 4 v g th4] 3(3-7) by simp
qed

text \<open>The entries of a write set after its copies were linked.\<close>

definition moved_entries :: "sys \<Rightarrow> u32 set \<Rightarrow> u64 \<Rightarrow> chs list \<Rightarrow> chs list" where
  "moved_entries s Fr c es = map2 (moved_copy s Fr) (wpos c es) es"

lemma moved_entries_sizes: "map csz (moved_entries s Fr c es) = map csz es"
  by (induction es arbitrary: c) (simp_all add: moved_entries_def)

lemma wtiles_moved:
  assumes "wtiles m c es" "distinct (wpos c es)" "\<And>i e. (i, e) \<in> set (zip (wpos c es) es) \<Longrightarrow> m' i = Some (moved_copy s Fr i e)"
  shows "wtiles m' c (moved_entries s Fr c es)"
  using assms
proof (induction es arbitrary: c)
  case (Cons e es)
  then have "wtiles m' (c + of_nat (csz e)) (moved_entries s Fr (c + of_nat (csz e)) es)" by auto
  then show ?case using Cons.prems by (simp add: moved_entries_def)
qed (simp add: moved_entries_def)

lemma tx_entry_linked: "tx_entry s fs e \<Longrightarrow> linked (moved_copy s Fr i e)"
proof (cases "is_copy e")
  case True
  assume "tx_entry s fs e"
  with True obtain v h where e: "c_vhdr e = Some v" "vhdrs s v = Some h" "good_head s v h" "c_p_copy e = Null" by (auto simp: tx_entry_def)
  then have "p_copy h = Null \<or> cpy_of (p_copy h) \<noteq> None" by (auto simp: good_head_def cpy_of_def split: ptr.splits)
  with e show ?thesis by (simp add: linked_def moved_copy_def link_copy_def)
next
  case False
  then have "\<not> is_copy (moved_copy s Fr i e)" by (auto simp: moved_copy_def chains_to_def split: option.splits)
  then show ?thesis by (simp add: linked_def)
qed

lemma unlock_phase:
  assumes "tx_ready self s th ws h es" "moved self (zip (wpos (first_cnt ws h) es) es) Fr s s1"
    and "\<And>t j. get_chs s4 t j = (if t = self \<and> j = tvlog_index (start_tail_cnt ws) then Some (published clk ws h) else get_chs s1 t j)"
    and "thrs s4 self = Some th4" "cur_wrt_set (tvlog th4) = Some (tvlog_index (start_tail_cnt ws))"
  shows "\<exists>s5. ws_unlock_commit self s4 = Some s5 \<and>
    unl clk self (set (zip (wpos (first_cnt ws h) es) (moved_entries s Fr (first_cnt ws h) es))) s4 s5"
proof -
  let ?w = "tvlog_index (start_tail_cnt ws)" and ?c = "first_cnt ws h" and ?es = "moved_entries s Fr (first_cnt ws h) es"
  from assms(1) obtain a: "thrs s self = Some th" "c_body h = Ws ws" "wtiles (tv_mem (tvlog th)) ?c es"
    "unat (num_objs ws) = length es" "?w \<notin> set (wpos ?c es)" "distinct (wpos ?c es)" by (rule tx_readyE)
  have zi: "map_of (zip (wpos ?c es) es) i = Some e" if "(i, e) \<in> set (zip (wpos ?c es) es)" for i e
    using that a(6) by (simp add: map_of_is_SomeI)
  have "tv_mem (tvlog th4) i = Some (moved_copy s Fr i e)" if "(i, e) \<in> set (zip (wpos ?c es) es)" for i e
  proof -
    have "i \<noteq> ?w" using that a(5) by (auto dest: set_zip_leftD)
    then have "get_chs s4 self i = get_chs s1 self i" using assms(3) by simp
    then show ?thesis using assms(2,4) zi [OF that] by (simp add: moved_def get_chs_def)
  qed
  then have t: "wtiles (tv_mem (tvlog th4)) ?c ?es" by (rule wtiles_moved [OF a(3,6)])
  have w: "wpos ?c ?es = wpos ?c es" by (rule wpos_cong) (rule moved_entries_sizes)
  have "\<forall>e\<in>set es. tx_entry s (tx_free_set th) e" using assms(1) by (simp add: tx_ready_def)
  then have "\<forall>e\<in>set ?es. linked e" by (auto simp: moved_entries_def intro!: tx_entry_linked dest: set_zip_rightD)
  from unlock_loop [OF unl_refl assms(4) t _ _ this, of clk]
  obtain s5 where s5: "ws_for_each self (unlock_commit self clk) (length es) ?c ((), s4) = Some (False, ?c + of_nat (csizes ?es), (), s5)"
    "unl clk self (set (zip (wpos ?c es) ?es)) s4 s5" using a(6) by (auto simp: w) (auto simp: moved_entries_def)
  have g: "get_chs s4 self ?w = Some (published clk ws h)" using assms(3) by simp
  then have "get_ws s4 self ?w = Some (ws\<lparr>pending_wrt_clk := clk, ws_wrt_clk := clk\<rparr>)" by (simp add: get_ws_def published_def)
  moreover have "csz (published clk ws h) = csz h" by (simp add: published_def csz_def get_entry_size_def)
  ultimately have "ws_unlock_commit self s4 = Some s5"
    using assms(4,5) g a(4) s5(1) by (simp add: ws_unlock_commit_def ws_loop_def ws_iter_begin_def ucast_entry_size)
  with s5(2) show ?thesis by blast
qed

text \<open>The requests behind a commit: they may reclaim operations and wake the qp thread.\<close>

lemma request_phase:
  assumes "thrs s self = Some th" "nvlog_wf (oplog th)" "nvl_store (oplog th) = Some st" "s_head_cnt st = head_cnt (oplog th)"
  obtains b s1 s2 where "oplog_try_request_ckpt_if_needed self s = Some (b, s1)"
    "(if b then Some s1 else tvlog_try_request_reclaim_if_needed self s1) = Some s2" "log_step self s s2"
    "oplog_used (oplog th) < TS_OPLOG_HIGH_MARK \<Longrightarrow> s1 = s" "map_option oplog (thrs s2 self) = map_option oplog (thrs s1 self)"
proof -
  have "\<exists>b s1. oplog_try_request_ckpt_if_needed self s = Some (b, s1) \<and> log_step self s s1 \<and>
      (oplog_used (oplog th) < TS_OPLOG_HIGH_MARK \<longrightarrow> s1 = s)"
  proof (cases "oplog_used (oplog th) < TS_OPLOG_HIGH_MARK")
    case True
    then have "\<not> TS_OPLOG_HIGH_MARK \<le> oplog_used (oplog th)" by simp
    then show ?thesis using assms(1) log_step_refl by (intro exI [of _ False]) (simp add: oplog_try_request_ckpt_if_needed_def)
  next
    case False
    have "\<And>st'. nvl_store (oplog th) = Some st' \<Longrightarrow> s_head_cnt st' = head_cnt (oplog th)" using assms(3,4) by simp
    from oplog_reclaim_drops [OF assms(1,2) this, of RECLAIM_OPLOG_NORMAL]
    obtain s1 th1 b where r: "oplog_reclaim self RECLAIM_OPLOG_NORMAL s = Some (b, s1)" "thrs s1 self = Some th1" by blast
    note l = oplog_reclaim_step [OF r(1)]
    have "oplog_try_request_ckpt_if_needed self s =
        Some (if oplog_used (oplog th1) \<ge> TS_OPLOG_HIGH_MARK then (True, snd (request_tvlog_reclaim RECLAIM_TVLOG_CKPT s1)) else (False, s1))"
      using False assms(1) r by (simp add: oplog_try_request_ckpt_if_needed_def linorder_not_less)
    then show ?thesis using False l log_step_trans [OF l log_step_request] by (cases "oplog_used (oplog th1) \<ge> TS_OPLOG_HIGH_MARK") auto
  qed
  then obtain b s1 where 1: "oplog_try_request_ckpt_if_needed self s = Some (b, s1)" "log_step self s s1"
      "oplog_used (oplog th) < TS_OPLOG_HIGH_MARK \<Longrightarrow> s1 = s" by blast
  obtain th1 where th1: "thrs s1 self = Some th1" using log_step_reads(5) [OF 1(2) assms(1)] by auto
  show ?thesis
  proof (cases b)
    case True
    then show ?thesis using that [OF 1(1) _ 1(2,3)] by simp
  next
    case False
    obtain s2 where s2: "tvlog_try_request_reclaim_if_needed self s1 = Some s2" "log_step self s1 s2" "thrs s2 = thrs s1"
      using th1 log_step_request log_step_refl by (fastforce simp: tvlog_try_request_reclaim_if_needed_def Let_def store_simps)
    then show ?thesis using that [OF 1(1) _ log_step_trans [OF 1(2) s2(2)] 1(3)] False by simp
  qed
qed

definition committed :: "thread \<Rightarrow> thread \<Rightarrow> bool" where
  "committed th th' \<longleftrightarrow>
     (\<exists>th0. same_tx th th0 \<and>
        th' = th0\<lparr>tvlog := (tvlog th0)\<lparr>cur_wrt_set := None\<rparr>, tx_free_set := ptrset_reset (tx_free_set th0)\<rparr>)"

lemma unl_thread: "unl w self D s s' \<Longrightarrow> thrs s self = Some th \<Longrightarrow> \<exists>m. thrs s' self = Some (th\<lparr>tvlog := (tvlog th)\<lparr>tv_mem := m\<rparr>\<rparr>)"
  by (auto simp: unl_def same_logs_def)

lemma tvlog_commit_result:
  assumes "tx_ready self s th ws h es" "oplog_ok th" "new_clock tsc (now s) (local_clk th) = Some (clk, k)"
  defines "ps \<equiv> zip (wpos (first_cnt ws h) es) es"
  obtains Fr s1 s' th' where "moved self ps Fr s s1" "tvlog_commit tsc self (local_clk th) s = Some s'"
    "\<And>i e. (i, e) \<in> set ps \<Longrightarrow> i \<in> Fr \<Longrightarrow> freed s (tx_free_set th) e"
    "\<And>t j. get_chs s' t j = map_option (stamp clk self (set (zip (wpos (first_cnt ws h) es) (moved_entries s Fr (first_cnt ws h) es))) (t, j))
       (if t = self \<and> j = tvlog_index (start_tail_cnt ws) then Some (published clk ws h) else get_chs s1 t j)"
    "vhdrs s' = vhdrs (release self (locks (set (zip (wpos (first_cnt ws h) es) (moved_entries s Fr (first_cnt ws h) es)))) s1)"
    "thrs s' self = Some th'" "committed th th'" "acts s' = acts s"
    "unat (oplog_used (oplog th)) + 640 < unat TS_OPLOG_HIGH_MARK \<Longrightarrow>
       \<exists>st. nvl_store (oplog th') = Some st \<and> nvlog_entries (nvlog_load st) = nvlog_entries (oplog th) @ [op_record th clk]"
    "rdr_frame s s'"
proof -
  let ?c = "first_cnt ws h" and ?w = "tvlog_index (start_tail_cnt ws)"
  from assms(1) obtain a: "thrs s self = Some th" "cur_wrt_set (tvlog th) = Some ?w" "c_body h = Ws ws"
    "get_chs s self ?w = Some h" "?w \<notin> set (wpos ?c es)" by (rule tx_readyE)
  from assms(1) obtain Fr s1 where 1: "ws_move_lock_to_copy self s = Some s1" "moved self (zip (wpos ?c es) es) Fr s s1"
    "\<And>i e. (i, e) \<in> set (zip (wpos ?c es) es) \<Longrightarrow> i \<in> Fr \<Longrightarrow> freed s (tx_free_set th) e" using move_phase by metis
  obtain m where th1: "thrs s1 self = Some (th\<lparr>tvlog := (tvlog th)\<lparr>tv_mem := m\<rparr>\<rparr>)" (is "_ = Some ?th1")
    by (rule moved_thread [OF 1(2) a(1)])
  have now: "now s1 = now s" "acts s1 = acts s" using 1(2) by (auto simp: moved_def same_rest_def)
  have "map_of (zip (wpos ?c es) es) ?w = None" using a(5) by (auto simp: map_of_eq_None_iff dest: set_zip_leftD)
  then have gw: "get_chs s1 self ?w = Some h" using 1(2) a(4) by (simp add: moved_def del: map_of_zip_is_None)
  have q: "cur_wrt_set (tvlog ?th1) = Some ?w" "oplog ?th1 = oplog th" "op_info ?th1 = op_info th" "new_clock tsc (now s1) (local_clk th) = Some (clk, k)"
    using a(2) assms(3) now by simp_all
  obtain s2 th2 i s3 s4 th4 st where m: "commit_pending tsc self (local_clk th) s1 = Some (clk, s2)" "thrs s2 self = Some th2"
    "oplog_enq self (local_clk th) clk (op_info th2) s2 = Some (i, s3)" "commit_publish self clk (oplog_enq_persist self s3) = Some s4"
    "vhdrs s4 = vhdrs s1" "acts s4 = acts s1" "\<And>t j. get_chs s4 t j = (if t = self \<and> j = ?w then Some (published clk ws h) else get_chs s1 t j)"
    "thrs s4 self = Some th4" "same_tx ?th1 th4" "nvl_store (oplog th4) = Some st" "nvlog_wf (oplog th4)" "s_head_cnt st = head_cnt (oplog th4)"
    "unat (oplog_used (oplog th4)) \<le> unat (oplog_used (oplog th)) + 640"
    "nvlog_entries (nvlog_load st) = nvlog_entries (oplog th) @ [op_record th clk]" "rdr_frame s1 s4"
    using middle_phase [OF th1 q(1) gw a(3) assms(2) q(2-4)] by blast
  have cw: "cur_wrt_set (tvlog th4) = Some ?w" using m(9) q(1) by (auto simp: same_tx_def)
  let ?D = "set (zip (wpos ?c es) (moved_entries s Fr ?c es))"
  obtain s5 where s5: "ws_unlock_commit self s4 = Some s5" "unl clk self ?D s4 s5"
    using unlock_phase [OF assms(1) 1(2) m(7,8) cw] by blast
  obtain m5 where th5: "thrs s5 self = Some (th4\<lparr>tvlog := (tvlog th4)\<lparr>tv_mem := m5\<rparr>\<rparr>)" (is "_ = Some ?th5")
    using unl_thread [OF s5(2) m(8)] by blast
  have o: "nvlog_wf (oplog ?th5)" "nvl_store (oplog ?th5) = Some st" "s_head_cnt st = head_cnt (oplog ?th5)" using m(10-12) by simp_all
  obtain b s6 s7 where r: "oplog_try_request_ckpt_if_needed self s5 = Some (b, s6)"
    "(if b then Some s6 else tvlog_try_request_reclaim_if_needed self s6) = Some s7" "log_step self s5 s7"
    "oplog_used (oplog ?th5) < TS_OPLOG_HIGH_MARK \<Longrightarrow> s6 = s5" "map_option oplog (thrs s7 self) = map_option oplog (thrs s6 self)"
    using request_phase [OF th5 o] by blast
  let ?f = "\<lambda>th. th\<lparr>tvlog := (tvlog th)\<lparr>cur_wrt_set := None\<rparr>, tx_free_set := ptrset_reset (tx_free_set th)\<rparr>"
  have c: "tvlog_commit tsc self (local_clk th) s = Some (upd_thr self ?f s7)"
    unfolding tvlog_commit_def using 1(1) m(1-4) s5(1) r(1,2) by simp
  obtain l7 t7 where th7: "thrs s7 self = Some (?th5\<lparr>oplog := l7, stat := t7\<rparr>)" using log_step_reads(5) [OF r(3) th5] by blast
  have "same_tx th (?th5\<lparr>oplog := l7, stat := t7\<rparr>)"
    using same_tx_trans [OF same_tx_trans [OF same_tx_trans [OF same_tx_mem m(9)] same_tx_mem] same_tx_log] .
  then have "committed th (?f (?th5\<lparr>oplog := l7, stat := t7\<rparr>))" unfolding committed_def by blast
  moreover have "thrs (upd_thr self ?f s7) self = Some (?f (?th5\<lparr>oplog := l7, stat := t7\<rparr>))" using th7 by (simp add: store_simps)
  moreover have "vhdrs (upd_thr self ?f s7) = vhdrs (release self (locks ?D) s1)"
    using log_step_reads(1) [OF r(3)] s5(2) m(5) by (simp add: store_simps unl_def release_def)
  moreover have "acts (upd_thr self ?f s7) = acts s" using log_step_reads(2) [OF r(3)] s5(2) m(6) now(2)
    by (auto simp: store_simps unl_def same_logs_def)
  moreover have "get_chs (upd_thr self ?f s7) t j = map_option (stamp clk self ?D (t, j))
      (if t = self \<and> j = ?w then Some (published clk ws h) else get_chs s1 t j)" for t j
  proof -
    have "get_chs (upd_thr self ?f s7) t j = get_chs s7 t j" by (cases "thrs s7 self") (auto simp: get_chs_def upd_thr_def)
    then show ?thesis using log_step_reads(3) [OF r(3)] s5(2) m(7) by (simp add: unl_def)
  qed
  moreover have "\<exists>st. nvl_store l7 = Some st \<and> nvlog_entries (nvlog_load st) = nvlog_entries (oplog th) @ [op_record th clk]"
    if "unat (oplog_used (oplog th)) + 640 < unat TS_OPLOG_HIGH_MARK"
  proof -
    have "oplog_used (oplog ?th5) < TS_OPLOG_HIGH_MARK" using that m(13) by (simp add: word_less_nat_alt)
    then have "l7 = oplog th4" using r(4,5) th7 th5 by simp
    then show ?thesis using m(10,14) by simp
  qed
  moreover have "rdr_frame s (upd_thr self ?f s7)"
  proof (intro rdr_frame_trans [OF _ rdr_frame_upd_thr] rdr_frame_trans [OF _ rdr_frame_steps(3) [OF r(3)]])
    show "rdr_frame s s5" using 1(2) s5(2) m(15) unfolding moved_def unl_def by (metis rdr_frame_trans rdr_frame_steps(1,2))
  qed (simp add: rdr_view_def)
  ultimately show ?thesis using that [OF 1(2) [folded ps_def] c] 1(3) unfolding ps_def by simp
qed

section \<open>The version chain after a commit\<close>

lemma new_clock_after:
  assumes "new_clock tsc i l = Some (clk, k)" "l \<le> MAX_VERSION"
  shows "lt_clock l clk"
proof -
  have g: "ordo_gt_clock (fst r) t" if "ordo_new_clock tsc i t = Some r" for i t r
    by (rule ordo_new_clock.raw_induct [OF _ that]) (auto split: if_splits)
  have "ordo_gt_clock clk (l + ordo_boundary)" using g [of i "l + ordo_boundary" "(clk, k)"] assms(1) by (simp add: new_clock_def)
  moreover have "unat (l + ordo_boundary) = unat l + 1"
    using assms(2) by (simp add: ordo_boundary_def unat_word_ariths word_le_nat_alt unat_max_version)
  ultimately show ?thesis by (simp add: clock_simps ordo_boundary_def)
qed

text \<open>The clock of the version a new version is put in front of.\<close>

fun renew :: "u64 \<Rightarrow> (nat \<times> u32 \<times> chs) list \<Rightarrow> (nat \<times> u32 \<times> chs) list" where
  "renew clk [] = []"
| "renew clk ((t, j, d) # cs) = (t, j, d\<lparr>wrt_clk_prev := clk\<rparr>) # cs"

lemma chain_clocks_renew:
  assumes "chain_clocks MAX_VERSION cs" "\<And>t j d. cs \<noteq> [] \<Longrightarrow> hd cs = (t, j, d) \<Longrightarrow> lt_clock (c_wrt_clk d) clk"
  shows "chain_clocks clk (renew clk cs)"
  using assms by (cases cs rule: list.exhaust) (auto simp: split_paired_all split: list.splits)

lemma version_chain_same:
  assumes "version_chain s last_clk p cs" "\<And>t j d. (t, j, d) \<in> set cs \<Longrightarrow> get_chs s' t j = Some d"
  shows "version_chain s' last_clk p cs"
  using assms by (induction cs arbitrary: p) (auto split: if_splits)

lemma version_chain_get: "version_chain s last_clk p cs \<Longrightarrow> (t, j, d) \<in> set cs \<Longrightarrow> get_chs s t j = Some d"
  by (induction cs arbitrary: p) (auto split: if_splits)

lemma version_chain_renew:
  assumes "version_chain s last_clk p cs" "\<And>t j d. (t, j, d) \<in> set (tl cs) \<Longrightarrow> get_chs s' t j = Some d"
    "\<And>t j d. cs \<noteq> [] \<Longrightarrow> hd cs = (t, j, d) \<Longrightarrow> get_chs s' t j = Some (d\<lparr>wrt_clk_prev := clk\<rparr>)"
  shows "version_chain s' last_clk p (renew clk cs)"
proof (cases cs)
  case (Cons x ds)
  obtain t j d where x: "x = (t, j, d)" by (cases x)
  have "version_chain s' last_clk (c_p_copy d) ds" if "\<not> lt_clock (wrt_clk_next d) last_clk"
    by (rule version_chain_same) (use assms Cons x that in auto)
  then show ?thesis using assms Cons x by (auto split: if_splits)
qed (use assms(1) in simp)

text \<open>
  The versions of an object: from its header, newest first, all of them versions of the object,
  with clocks in order, and older than \<open>clk\<close>.
\<close>

definition versions :: "sys \<Rightarrow> u64 \<Rightarrow> nat \<Rightarrow> ptr \<Rightarrow> (nat \<times> u32 \<times> chs) list \<Rightarrow> bool" where
  "versions s last_clk v p cs \<longleftrightarrow>
     version_chain s last_clk p cs \<and> chain_clocks MAX_VERSION cs \<and> (\<forall>(t, j, d)\<in>set cs. c_vhdr d = Some v) \<and>
     distinct (map (\<lambda>(t, j, d). (t, j)) cs)"

lemma versions_head: "versions s last_clk v p cs \<Longrightarrow> vhdrs s v = Some h \<Longrightarrow> p_copy h = p \<Longrightarrow>
    good_head s v h \<and> (cs = [] \<longrightarrow> p = Null) \<and> (\<forall>t j d ds. cs = (t, j, d) # ds \<longrightarrow> p = Cpy t j \<and> head_clk s h = c_wrt_clk d)"
  by (cases cs) (auto simp: versions_def good_head_def head_clk_def)

text \<open>The version that a committed copy becomes.\<close>

definition new_version :: "u64 \<Rightarrow> act_vhdr \<Rightarrow> u64 \<Rightarrow> chs \<Rightarrow> chs" where
  "new_version clk h older e = e\<lparr>c_wrt_clk := clk, wrt_clk_prev := MAX_VERSION, c_p_copy := p_copy h, wrt_clk_next := older\<rparr>"

lemma moved_entry_in:
  "(i, e') \<in> set (zip (wpos c es) (moved_entries s Fr c es)) \<longleftrightarrow> (\<exists>e. (i, e) \<in> set (zip (wpos c es) es) \<and> e' = moved_copy s Fr i e)"
  by (induction es arbitrary: c) (auto simp: moved_entries_def)

lemma owners_nth:
  "distinct (owners es) \<Longrightarrow> n < length es \<Longrightarrow> m < length es \<Longrightarrow> n \<noteq> m \<Longrightarrow> is_copy (es ! n) \<Longrightarrow> is_copy (es ! m) \<Longrightarrow> c_vhdr (es ! n) \<noteq> c_vhdr (es ! m)"
proof (induction es arbitrary: n m)
  case (Cons e es)
  have hd: "c_vhdr e \<noteq> c_vhdr (es ! k)" if "is_copy e" "k < length es" "is_copy (es ! k)" for k
    using Cons.prems(1) that by (auto simp: image_iff)
  show ?case
  proof (cases n; cases m)
    fix n' m' assume "n = Suc n'" "m = Suc m'"
    then show ?thesis using Cons.IH [of n' m'] Cons.prems by (auto split: if_splits)
  qed (use Cons.prems hd in \<open>auto dest: sym\<close>)
qed simp

lemma wtiles_zip: "wtiles m c es \<Longrightarrow> (i, e) \<in> set (zip (wpos c es) es) \<Longrightarrow> m i = Some e"
  by (induction es arbitrary: c) auto

lemma commit_extends_chain:
  assumes "tx_ready self s th ws h es" "(i, e) \<in> set (zip (wpos (first_cnt ws h) es) es)" "is_copy e" "c_obj_size e \<noteq> 0" "c_vhdr e = Some v"
    and "vhdrs s v = Some hv" "p_lock hv = Cpy self i" "\<not> freed s (tx_free_set th) e"
    and "versions s last_clk v (p_copy hv) cs" "\<forall>(t, j, d)\<in>set cs. t = self \<longrightarrow> j \<notin> set (wpos (start_tail_cnt ws) (h # es))"
    and c: "moved self (zip (wpos (first_cnt ws h) es) es) Fr s s1" "i \<notin> Fr"
      "\<And>t j. get_chs s' t j = map_option (stamp clk self (set (zip (wpos (first_cnt ws h) es) (moved_entries s Fr (first_cnt ws h) es))) (t, j))
         (if t = self \<and> j = tvlog_index (start_tail_cnt ws) then Some (published clk ws h) else get_chs s1 t j)"
      "vhdrs s' = vhdrs (release self (locks (set (zip (wpos (first_cnt ws h) es) (moved_entries s Fr (first_cnt ws h) es)))) s1)"
  shows "vhdrs s' v = Some (hv\<lparr>p_copy := Cpy self i, p_lock := Null\<rparr>) \<and>
    get_chs s' self i = Some (new_version clk hv (head_clk s hv) e) \<and> version_chain s' last_clk (p_copy hv) (renew clk cs)"
proof -
  let ?c = "first_cnt ws h" and ?w = "tvlog_index (start_tail_cnt ws)"
  let ?ps = "zip (wpos ?c es) es" and ?D = "set (zip (wpos ?c es) (moved_entries s Fr ?c es))"
  from assms(1) obtain a: "thrs s self = Some th" "wtiles (tv_mem (tvlog th)) ?c es" "?w \<notin> set (wpos ?c es)" "distinct (wpos ?c es)" by (rule tx_readyE)
  have ok: "\<forall>e\<in>set es. tx_entry s (tx_free_set th) e" "distinct (owners es)" using assms(1) by (simp_all add: tx_ready_def)
  have uniq: "j = i" if p: "(j, f) \<in> set ?ps" "is_copy f" "c_vhdr f = Some v" for j f
  proof -
    obtain n m where nm: "n < length es" "j = wpos ?c es ! n" "f = es ! n" "m < length es" "i = wpos ?c es ! m" "e = es ! m"
      using p(1) assms(2) by (auto simp: in_set_zip)
    then show ?thesis using owners_nth [OF ok(2), of n m] p(2,3) assms(3,5) by auto
  qed
  have apart: "(self, i) \<notin> (\<lambda>(t, j, d). (t, j)) ` set cs" "(t, j) = (self, k) \<Longrightarrow> (t, j, d) \<in> set cs \<Longrightarrow> k \<notin> set (wpos ?c es) \<and> k \<noteq> ?w" for t j k d
    using assms(10) set_zip_leftD [OF assms(2)] by auto
  note vh = versions_head [OF assms(9,6) refl]
  have mi: "map_of ?ps i = Some e" using assms(2) a(4) by (simp add: map_of_is_SomeI)
  have iw: "i \<noteq> ?w" using a(3) set_zip_leftD [OF assms(2)] by auto
  have mc: "moved_copy s Fr i e = link_copy s hv e" using assms(3-6) c(2) by (simp add: moved_copy_def chains_to_def)
  have iD: "(i, link_copy s hv e) \<in> ?D" using assms(2) mc by (auto simp: moved_entry_in)
  have beh: "(t, j) \<in> behind ?D \<longleftrightarrow> p_copy hv = Cpy t j" if "get_chs s t j = Some d" "c_vhdr d = Some v" for t j d
  proof
    assume "(t, j) \<in> behind ?D"
    then obtain k f where f: "(k, f) \<in> set ?ps" "is_copy (moved_copy s Fr k f)" "c_p_copy (moved_copy s Fr k f) = Cpy t j"
      by (auto simp: behind_def moved_entry_in)
    have "tx_entry s (tx_free_set th) f" using ok(1) set_zip_rightD [OF f(1)] by blast
    with f(2,3) obtain u g where u: "is_copy f" "c_vhdr f = Some u" "vhdrs s u = Some g" "good_head s u g" "p_copy g = Cpy t j"
      by (auto simp: tx_entry_def moved_copy_def chains_to_def link_copy_def split: if_splits option.splits)
    then have "u = v" using that by (auto simp: good_head_def)
    then show "p_copy hv = Cpy t j" using u assms(6) by simp
  next
    assume "p_copy hv = Cpy t j"
    then show "(t, j) \<in> behind ?D" using iD assms(3) by (force simp: behind_def link_copy_def)
  qed
  have g1: "get_chs s self i = Some e"
    using assms(2) a(1,2) by (simp add: get_chs_def) (metis wtiles_zip)
  have same_e: "f = e" if "(i, f) \<in> set ?ps" for f using mi that a(4) by (metis map_of_is_SomeI map_fst_zip length_wpos option.inject)
  have v1: "vhdrs s1 v = Some (hv\<lparr>p_copy := Cpy self i\<rparr>)"
  proof -
    have "chains_to Fr v (i, e)" using assms(3-5) c(2) by (simp add: chains_to_def)
    then have "find (chains_to Fr v) ?ps \<noteq> None" using assms(2) unfolding find_None_iff by blast
    then obtain j f where f: "find (chains_to Fr v) ?ps = Some (j, f)" by auto
    then have "(j, f) \<in> set ?ps" "chains_to Fr v (j, f)" by (metis find_Some_iff nth_mem)+
    then have "j = i" using uniq by (auto simp: chains_to_def)
    with f c(1) assms(6) show ?thesis by (simp add: moved_def)
  qed
  have "(i, v) \<in> locks ?D" using iD assms(3,5) by (force simp: locks_def link_copy_def)
  then have 1: "vhdrs s' v = Some (hv\<lparr>p_copy := Cpy self i, p_lock := Null\<rparr>)"
    using v1 assms(7) c(4) by (simp add: release_vhdr)
  have "(self, i) \<notin> fset self ?D" using same_e mc assms(3) by (auto simp: fset_def moved_entry_in link_copy_def)
  moreover have "(self, i) \<in> wset self ?D" using iD assms(3) by (force simp: wset_def lockable_def link_copy_def)
  moreover have "p_copy hv \<noteq> Cpy self i" using vh apart(1) by (cases cs) auto
  then have "(self, i) \<notin> behind ?D" using beh [OF g1 assms(5)] by simp
  moreover have "get_chs s1 self i = Some (link_copy s hv e)" using c(1) mi mc by (simp add: moved_def)
  ultimately have 2: "get_chs s' self i = Some (new_version clk hv (head_clk s hv) e)"
    using c(3) [of self i] iw by (simp add: stamp_def new_version_def link_copy_def)
  have old: "get_chs s' t j = Some (if p_copy hv = Cpy t j then d\<lparr>wrt_clk_prev := clk\<rparr> else d)" if d: "(t, j, d) \<in> set cs" for t j d
  proof -
    have gd: "get_chs s t j = Some d" "c_vhdr d = Some v" using d assms(9) version_chain_get by (auto simp: versions_def)
    have out: "t = self \<Longrightarrow> j \<notin> set (wpos ?c es) \<and> j \<noteq> ?w" using apart(2) [of t j j d] d by simp
    then have "(t, j) \<notin> wset self ?D" "(t, j) \<notin> fset self ?D" by (auto simp: wset_def fset_def dest: set_zip_leftD)
    moreover have "t = self \<Longrightarrow> map_of ?ps j = None" using out by (auto simp: map_of_eq_None_iff dest: set_zip_leftD)
    then have "get_chs s1 t j = Some d" using c(1) gd(1) by (auto simp: moved_def simp del: map_of_zip_is_None)
    ultimately show ?thesis using c(3) [of t j] out beh [OF gd] by (auto simp: stamp_def)
  qed
  have "version_chain s' last_clk (p_copy hv) (renew clk cs)"
  proof (rule version_chain_renew)
    show "version_chain s last_clk (p_copy hv) cs" using assms(9) by (simp add: versions_def)
    show "get_chs s' t j = Some d" if "(t, j, d) \<in> set (tl cs)" for t j d
    proof -
      have "p_copy hv \<noteq> Cpy t j" using vh that assms(9) by (cases cs) (force simp: versions_def)+
      then show ?thesis using old [of t j d] that by (cases cs) auto
    qed
    show "get_chs s' t j = Some (d\<lparr>wrt_clk_prev := clk\<rparr>)" if "cs \<noteq> []" "hd cs = (t, j, d)" for t j d
      using old [of t j d] vh that by (cases cs) auto
  qed
  with 1 2 show ?thesis by blast
qed

text \<open>
  A copy \<open>e\<close> at position \<open>i\<close> of the write set that is going to be a version: its object \<open>v\<close> is locked
  by it, is not freed by the transaction, and has the older versions \<open>cs\<close>, all of them outside of
  the write set and older than the transaction.
\<close>

definition tx_version :: "nat \<Rightarrow> sys \<Rightarrow> thread \<Rightarrow> wrt_set \<Rightarrow> chs \<Rightarrow> chs list \<Rightarrow> u64 \<Rightarrow> nat \<Rightarrow> act_vhdr \<Rightarrow> u32 \<Rightarrow> chs \<Rightarrow> (nat \<times> u32 \<times> chs) list \<Rightarrow> bool" where
  "tx_version self s th ws h es last_clk v hv i e cs \<longleftrightarrow>
     (i, e) \<in> set (zip (wpos (first_cnt ws h) es) es) \<and> is_copy e \<and> c_obj_size e \<noteq> 0 \<and> c_vhdr e = Some v \<and>
     vhdrs s v = Some hv \<and> p_lock hv = Cpy self i \<and> \<not> freed s (tx_free_set th) e \<and>
     versions s last_clk v (p_copy hv) cs \<and> (\<forall>(t, j, d)\<in>set cs. t = self \<longrightarrow> j \<notin> set (wpos (start_tail_cnt ws) (h # es))) \<and>
     (\<forall>t j d ds. cs = (t, j, d) # ds \<longrightarrow> lt_clock (c_wrt_clk d) (local_clk th))"

text \<open>The copy has become the newest version of its object, in front of the older ones.\<close>

definition became_version :: "nat \<Rightarrow> sys \<Rightarrow> u64 \<Rightarrow> sys \<Rightarrow> u64 \<Rightarrow> nat \<Rightarrow> act_vhdr \<Rightarrow> u32 \<Rightarrow> chs \<Rightarrow> (nat \<times> u32 \<times> chs) list \<Rightarrow> bool" where
  "became_version self s clk s' last_clk v hv i e cs \<longleftrightarrow>
     vhdrs s' v = Some (hv\<lparr>p_copy := Cpy self i, p_lock := Null\<rparr>) \<and>
     (let vs = (self, i, new_version clk hv (head_clk s hv) e) # renew clk cs
      in chain_clocks MAX_VERSION vs \<and>
         version_chain s' last_clk (Cpy self i) (if lt_clock (head_clk s hv) last_clk then [hd vs] else vs))"

text \<open>An object that the write set has no copy of, with its versions.\<close>

definition tx_other :: "nat \<Rightarrow> sys \<Rightarrow> wrt_set \<Rightarrow> chs \<Rightarrow> chs list \<Rightarrow> u64 \<Rightarrow> nat \<Rightarrow> act_vhdr \<Rightarrow> (nat \<times> u32 \<times> chs) list \<Rightarrow> bool" where
  "tx_other self s ws h es last_clk v hv cs \<longleftrightarrow>
     (\<forall>e\<in>set es. is_copy e \<longrightarrow> c_vhdr e \<noteq> Some v) \<and> vhdrs s v = Some hv \<and> versions s last_clk v (p_copy hv) cs \<and>
     (\<forall>(t, j, d)\<in>set cs. t = self \<longrightarrow> j \<notin> set (wpos (start_tail_cnt ws) (h # es)))"

lemma commit_keeps_chain:
  assumes "tx_ready self s th ws h es" "tx_other self s ws h es last_clk v hv cs"
    and c: "moved self (zip (wpos (first_cnt ws h) es) es) Fr s s1"
      "\<And>t j. get_chs s' t j = map_option (stamp clk self (set (zip (wpos (first_cnt ws h) es) (moved_entries s Fr (first_cnt ws h) es))) (t, j))
         (if t = self \<and> j = tvlog_index (start_tail_cnt ws) then Some (published clk ws h) else get_chs s1 t j)"
      "vhdrs s' = vhdrs (release self (locks (set (zip (wpos (first_cnt ws h) es) (moved_entries s Fr (first_cnt ws h) es)))) s1)"
  shows "vhdrs s' v = Some hv" "version_chain s' last_clk (p_copy hv) cs"
proof -
  let ?c = "first_cnt ws h" and ?w = "tvlog_index (start_tail_cnt ws)"
  let ?ps = "zip (wpos ?c es) es" and ?D = "set (zip (wpos ?c es) (moved_entries s Fr ?c es))"
  have o: "\<forall>e\<in>set es. is_copy e \<longrightarrow> c_vhdr e \<noteq> Some v" "vhdrs s v = Some hv" "version_chain s last_clk (p_copy hv) cs"
      "\<And>t j d. (t, j, d) \<in> set cs \<Longrightarrow> c_vhdr d = Some v" "\<And>j d. (self, j, d) \<in> set cs \<Longrightarrow> j \<notin> set (wpos ?c es) \<and> j \<noteq> ?w"
    using assms(2) by (auto simp: tx_other_def versions_def)
  have none: "\<not> (is_copy f \<and> c_vhdr f = Some v)" if "(k, f) \<in> set ?ps" for k f using o(1) set_zip_rightD [OF that] by blast
  have "find (chains_to Fr v) ?ps = None" using none by (auto simp: find_None_iff chains_to_def)
  then have "vhdrs s1 v = Some hv" using c(1) o(2) by (simp add: moved_def)
  moreover have "(k, v) \<notin> locks ?D" for k
    using none by (auto simp: locks_def moved_entry_in moved_copy_def chains_to_def link_copy_def split: option.splits if_splits)
  ultimately show "vhdrs s' v = Some hv" using c(3) by (simp add: release_vhdr)
  show "version_chain s' last_clk (p_copy hv) cs"
  proof (rule version_chain_same [OF o(3)])
    fix t j d assume d: "(t, j, d) \<in> set cs"
    have gd: "get_chs s t j = Some d" using d o(3) by (rule version_chain_get [rotated])
    have "(t, j) \<notin> behind ?D"
    proof
      assume "(t, j) \<in> behind ?D"
      then obtain k f where f: "(k, f) \<in> set ?ps" "is_copy (moved_copy s Fr k f)" "c_p_copy (moved_copy s Fr k f) = Cpy t j"
        by (auto simp: behind_def moved_entry_in)
      have "tx_entry s (tx_free_set th) f" using assms(1) set_zip_rightD [OF f(1)] by (simp add: tx_ready_def)
      with f(2,3) obtain u g where "is_copy f" "c_vhdr f = Some u" "vhdrs s u = Some g" "good_head s u g" "p_copy g = Cpy t j"
        by (auto simp: tx_entry_def moved_copy_def chains_to_def link_copy_def split: if_splits option.splits)
      then show False using gd o(4) [OF d] none [OF f(1)] by (auto simp: good_head_def)
    qed
    moreover have out: "t = self \<Longrightarrow> j \<notin> set (wpos ?c es) \<and> j \<noteq> ?w" using o(5) d by blast
    then have "(t, j) \<notin> wset self ?D" "(t, j) \<notin> fset self ?D" by (auto simp: wset_def fset_def dest: set_zip_leftD)
    moreover have "t = self \<Longrightarrow> map_of ?ps j = None" using out by (auto simp: map_of_eq_None_iff dest: set_zip_leftD)
    then have "get_chs s1 t j = Some d" using c(1) gd by (auto simp: moved_def simp del: map_of_zip_is_None)
    ultimately show "get_chs s' t j = Some d" using c(2) [of t j] out by (auto simp: stamp_def)
  qed
qed

lemma tvlog_commit_versions:
  assumes "tx_ready self s th ws h es" "oplog_ok th" "new_clock tsc (now s) (local_clk th) = Some (clk, k)"
    and "local_clk th \<le> MAX_VERSION" "clk \<noteq> MAX_VERSION"
  obtains s' th' where "tvlog_commit tsc self (local_clk th) s = Some s'" "thrs s' self = Some th'" "committed th th'" "acts s' = acts s"
    "unat (oplog_used (oplog th)) + 640 < unat TS_OPLOG_HIGH_MARK \<longrightarrow>
       (\<exists>st. nvl_store (oplog th') = Some st \<and> nvlog_entries (nvlog_load st) = nvlog_entries (oplog th) @ [op_record th clk])"
    "\<forall>last_clk v hv i e cs. tx_version self s th ws h es last_clk v hv i e cs \<longrightarrow> became_version self s clk s' last_clk v hv i e cs"
    "\<forall>last_clk v hv cs. tx_other self s ws h es last_clk v hv cs \<longrightarrow> vhdrs s' v = Some hv \<and> version_chain s' last_clk (p_copy hv) cs" "rdr_frame s s'"
proof -
  let ?ps = "zip (wpos (first_cnt ws h) es) es"
  obtain Fr s1 s' th' where r: "moved self ?ps Fr s s1" "tvlog_commit tsc self (local_clk th) s = Some s'"
    "\<And>i e. (i, e) \<in> set ?ps \<Longrightarrow> i \<in> Fr \<Longrightarrow> freed s (tx_free_set th) e"
    "\<And>t j. get_chs s' t j = map_option (stamp clk self (set (zip (wpos (first_cnt ws h) es) (moved_entries s Fr (first_cnt ws h) es))) (t, j))
       (if t = self \<and> j = tvlog_index (start_tail_cnt ws) then Some (published clk ws h) else get_chs s1 t j)"
    "vhdrs s' = vhdrs (release self (locks (set (zip (wpos (first_cnt ws h) es) (moved_entries s Fr (first_cnt ws h) es)))) s1)"
    "thrs s' self = Some th'" "committed th th'" "acts s' = acts s"
    "unat (oplog_used (oplog th)) + 640 < unat TS_OPLOG_HIGH_MARK \<Longrightarrow>
       \<exists>st. nvl_store (oplog th') = Some st \<and> nvlog_entries (nvlog_load st) = nvlog_entries (oplog th) @ [op_record th clk]" "rdr_frame s s'"
    using tvlog_commit_result [OF assms(1-3)] by metis
  have "became_version self s clk s' last_clk v hv i e cs" if v: "tx_version self s th ws h es last_clk v hv i e cs" for last_clk v hv i e cs
  proof -
    have a: "(i, e) \<in> set ?ps" "is_copy e" "c_obj_size e \<noteq> 0" "c_vhdr e = Some v" "vhdrs s v = Some hv" "p_lock hv = Cpy self i"
        "\<not> freed s (tx_free_set th) e" "versions s last_clk v (p_copy hv) cs"
        "\<forall>(t, j, d)\<in>set cs. t = self \<longrightarrow> j \<notin> set (wpos (start_tail_cnt ws) (h # es))"
        "\<And>t j d ds. cs = (t, j, d) # ds \<Longrightarrow> lt_clock (c_wrt_clk d) (local_clk th)"
      using v unfolding tx_version_def by simp_all
    have "i \<notin> Fr" using r(3) a(1,7) by blast
    note x = commit_extends_chain [OF assms(1) a(1-9) r(1) this r(4,5)]
    have clk: "lt_clock (local_clk th) clk" by (rule new_clock_after [OF assms(3,4)])
    have "chain_clocks clk (renew clk cs)"
      by (rule chain_clocks_renew) (use a(8,10) clk ordo.trans in \<open>auto simp: versions_def neq_Nil_conv\<close>)
    moreover have "case renew clk cs of [] \<Rightarrow> True | (_, _, d) # _ \<Rightarrow> head_clk s hv = c_wrt_clk d"
      using versions_head [OF a(8,5) refl] by (cases cs) auto
    ultimately have "chain_clocks MAX_VERSION ((self, i, new_version clk hv (head_clk s hv) e) # renew clk cs)"
      using assms(5) by (auto simp: new_version_def split: list.splits)
    moreover have "wrt_clk_next (new_version clk hv (head_clk s hv) e) = head_clk s hv" "c_p_copy (new_version clk hv (head_clk s hv) e) = p_copy hv"
      by (simp_all add: new_version_def)
    ultimately show ?thesis using x by (simp add: became_version_def)
  qed
  moreover have "vhdrs s' v = Some hv \<and> version_chain s' last_clk (p_copy hv) cs" if "tx_other self s ws h es last_clk v hv cs" for last_clk v hv cs
    using commit_keeps_chain [OF assms(1) that r(1,4,5)] by blast
  ultimately show ?thesis using that [OF r(2,6-8)] r(9,10) by blast
qed

end
