(* ===== verification/TxEnd.thy ===== *)
theory TxEnd
  imports CommitChain "HOL-Library.Sublist"
begin

text \<open>
  The ends of a transaction as the application calls them (\<open>ts_end\<close> and \<open>ts_abort\<close> of
  \<open>src/lib/timestone.c\<close>), each as a whole: validation, the commit with its operation record and its
  versions, leaving the transaction, and on the other side the abort that leaves no trace.
\<close>

section \<open>What surrounds the commit\<close>

text \<open>A step on the thread structure that does not touch the version log.\<close>

definition thr_step :: "nat \<Rightarrow> sys \<Rightarrow> sys \<Rightarrow> bool" where
  "thr_step self s s' \<longleftrightarrow> (\<exists>f. s' = upd_thr self f s \<and> (\<forall>th. tvlog (f th) = tvlog th))"

lemma thr_step_reads:
  assumes "thr_step self s s'"
  shows "vhdrs s' = vhdrs s" "acts s' = acts s" "get_chs s' t j = get_chs s t j"
  using assms get_chs_upd_thr by (auto simp: thr_step_def upd_thr_def)

lemma thr_stepI: "(\<And>th. tvlog (f th) = tvlog th) \<Longrightarrow> thr_step self s (upd_thr self f s)"
  by (auto simp: thr_step_def)

lemma thr_step_trans: "thr_step self s s1 \<Longrightarrow> thr_step self s1 s2 \<Longrightarrow> thr_step self s s2"
proof -
  assume "thr_step self s s1" "thr_step self s1 s2"
  then obtain f g where f: "s1 = upd_thr self f s" "\<And>th. tvlog (f th) = tvlog th" and g: "s2 = upd_thr self g s1" "\<And>th. tvlog (g th) = tvlog th"
    by (auto simp: thr_step_def)
  have "s2 = upd_thr self (\<lambda>th. g (f th)) s" by (simp add: f g upd_thr_def option.map_comp comp_def)
  with f g show ?thesis unfolding thr_step_def by (intro exI [of _ "\<lambda>th. g (f th)"]) simp
qed

lemma thr_step_version_chain:
  assumes "thr_step self s s'" "version_chain s last_clk p cs"
  shows "version_chain s' last_clk p cs"
  using assms(2) by (rule version_chain_same) (simp add: thr_step_reads(3) [OF assms(1)] version_chain_get [OF assms(2)])

lemma flush_new_act_none:
  assumes "thrs s self = Some th" "num_ptrs (tx_alloc_set th) = 0"
  shows "flush_new_act self s = Some (upd_thr self (\<lambda>t. t\<lparr>tx_alloc_set := tx_alloc_set th\<rparr>) s)"
    "free_new_act self s = Some (upd_thr self (\<lambda>t. t\<lparr>tx_alloc_set := tx_alloc_set th\<rparr>) s)"
  using assms by (simp_all add: flush_new_act_def free_new_act_def ptrset_pop_def)

lemma try_reclaim_logs_none:
  "thrs s self = Some th \<Longrightarrow> \<not> requested (reclaim th) \<Longrightarrow> try_reclaim_logs ra self s = Some s"
  by (simp add: try_reclaim_logs_def)

lemma became_version_step:
  assumes "thr_step self' s' s''" "became_version self s clk s' last_clk v hv i e cs"
  shows "became_version self s clk s'' last_clk v hv i e cs"
  using assms(2) thr_step_version_chain [OF assms(1)] thr_step_reads(1) [OF assms(1)]
  by (auto simp: became_version_def Let_def)

lemma committed_fields:
  "committed th th' \<Longrightarrow> run_cnt th' = run_cnt th \<and> tx_alloc_set th' = tx_alloc_set th \<and> reclaim th' = reclaim th \<and>
     cur_wrt_set (tvlog th') = None \<and> tv_tail_cnt (tvlog th') = tv_tail_cnt (tvlog th) \<and> num_ptrs (tx_free_set th') = 0"
  by (auto simp: committed_def same_tx_def ptrset_reset_def)

section \<open>Commit\<close>

text \<open>A transaction with a write set, of a thread that nobody has asked to reclaim its logs.\<close>

definition writing :: "thread \<Rightarrow> bool" where
  "writing th \<longleftrightarrow> \<not> in_recovery_mode th \<and> is_write_detected th \<and> num_ptrs (tx_alloc_set th) = 0 \<and> \<not> requested (reclaim th)"

text \<open>The whole call, with all that later theorems need of it.\<close>

lemma ts_end_result:
  assumes "tx_ready self s th ws h es" "writing th" "oplog_ok th" "validate_read_set ser s (isolation th) = Some True"
    and "new_clock tsc (now s) (local_clk th) = Some (clk, k)" "local_clk th \<le> MAX_VERSION" "clk \<noteq> MAX_VERSION"
  obtains s' th' where "ts_end ser tsc ra self s = Some (True, s')" "thrs s' self = Some th'" "run_cnt th' = run_cnt th + 1"
    "cur_wrt_set (tvlog th') = None" "\<not> is_write_detected th'" "acts s' = acts s" "rdr_frame s s'"
    "unat (oplog_used (oplog th)) + 640 < unat TS_OPLOG_HIGH_MARK \<longrightarrow>
       (\<exists>st. nvl_store (oplog th') = Some st \<and> nvlog_entries (nvlog_load st) = nvlog_entries (oplog th) @ [op_record th clk])"
    "\<forall>last_clk v hv i e cs. tx_version self s th ws h es last_clk v hv i e cs \<longrightarrow> became_version self s clk s' last_clk v hv i e cs"
    "\<forall>last_clk v hv cs. tx_other self s ws h es last_clk v hv cs \<longrightarrow> vhdrs s' v = Some hv \<and> version_chain s' last_clk (p_copy hv) cs"
proof -
  obtain s1 th1 where c: "tvlog_commit tsc self (local_clk th) s = Some s1" "thrs s1 self = Some th1" "committed th th1" "acts s1 = acts s"
    "unat (oplog_used (oplog th)) + 640 < unat TS_OPLOG_HIGH_MARK \<longrightarrow>
       (\<exists>st. nvl_store (oplog th1) = Some st \<and> nvlog_entries (nvlog_load st) = nvlog_entries (oplog th) @ [op_record th clk])"
    "\<forall>last_clk v hv i e cs. tx_version self s th ws h es last_clk v hv i e cs \<longrightarrow> became_version self s clk s1 last_clk v hv i e cs"
    "\<forall>last_clk v hv cs. tx_other self s ws h es last_clk v hv cs \<longrightarrow> vhdrs s1 v = Some hv \<and> version_chain s1 last_clk (p_copy hv) cs" "rdr_frame s s1"
    by (rule tvlog_commit_versions [OF assms(1,3,5-7)])
  have th: "thrs s self = Some th" using assms(1) by (simp add: tx_ready_def)
  note f = committed_fields [OF c(3)]
  let ?th2 = "th1\<lparr>is_write_detected := False, run_cnt := run_cnt th1 + 1\<rparr>"
  let ?s2 = "upd_thr self (\<lambda>th. th\<lparr>run_cnt := run_cnt th + 1\<rparr>) (upd_thr self (\<lambda>th. th\<lparr>is_write_detected := False\<rparr>) s1)"
  have 2: "thrs ?s2 self = Some ?th2" using c(2) by (simp add: store_simps)
  let ?s3 = "upd_thr self (\<lambda>t. t\<lparr>tx_alloc_set := tx_alloc_set ?th2\<rparr>) ?s2"
  have 3: "flush_new_act self ?s2 = Some ?s3"
    by (rule flush_new_act_none(1) [OF 2]) (use f assms(2) in \<open>simp add: writing_def\<close>)
  have 4: "thrs ?s3 self = Some (?th2\<lparr>tx_alloc_set := tx_alloc_set ?th2\<rparr>)" using c(2) by (simp add: store_simps)
  have 5: "try_reclaim_logs ra self ?s3 = Some ?s3"
    by (rule try_reclaim_logs_none [OF 4]) (use f assms(2) in \<open>simp add: writing_def\<close>)
  let ?s4 = "stat_thread self (\<lambda>st. stat_inc st n_finish) ?s3"
  have e: "ts_end ser tsc ra self s = Some (True, ?s4)"
    using th assms(2,4) c(1) 3 5 by (simp add: ts_end_def writing_def)
  have st: "thr_step self s1 ?s4"
    unfolding stat_thread_def by (intro thr_step_trans [OF thr_step_trans [OF thr_step_trans [OF thr_stepI thr_stepI] thr_stepI] thr_stepI]) simp_all
  have fr: "rdr_frame s1 ?s4" unfolding stat_thread_def
    by (intro rdr_frame_trans [OF rdr_frame_trans [OF rdr_frame_trans [OF rdr_frame_upd_thr rdr_frame_upd_thr] rdr_frame_upd_thr] rdr_frame_upd_thr])
      (simp_all add: rdr_view_def)
  obtain th4 where th4: "thrs ?s4 self = Some th4" "run_cnt th4 = run_cnt th1 + 1" "cur_wrt_set (tvlog th4) = cur_wrt_set (tvlog th1)"
      "\<not> is_write_detected th4" "oplog th4 = oplog th1"
    using c(2) by (auto simp: stat_thread_def store_simps)
  show ?thesis
  proof (rule that [OF e th4(1)])
    show "\<forall>last_clk v hv i e cs. tx_version self s th ws h es last_clk v hv i e cs \<longrightarrow> became_version self s clk ?s4 last_clk v hv i e cs"
      using became_version_step [OF st] c(6) by blast
    show "\<forall>last_clk v hv cs. tx_other self s ws h es last_clk v hv cs \<longrightarrow> vhdrs ?s4 v = Some hv \<and> version_chain ?s4 last_clk (p_copy hv) cs"
      using c(7) thr_step_version_chain [OF st] thr_step_reads(1) [OF st] by simp
    show "rdr_frame s ?s4" by (rule rdr_frame_trans [OF c(8) fr])
  qed (use th4 f c(4,5) thr_step_reads(2) [OF st] in simp_all)
qed

text \<open>
  C4. A transaction that passes validation commits: \<open>ts_end\<close> returns success and the thread has left
  the transaction (its run count moves on, its write set is closed). The operation is durable: what
  a restart would load from the operation log is the old log followed by the record of this
  operation with its time stamps. And every copy of the write set has become the newest version of
  its object, unlocked, with the commit clock, in front of the older versions, all of whose clocks
  stay in order; this holds for all objects at once and for every checkpoint clock a reader may have.
\<close>

theorem ts_end_commits:
  assumes "tx_ready self s th ws h es" "writing th" "oplog_ok th" "unat (oplog_used (oplog th)) + 640 < unat TS_OPLOG_HIGH_MARK"
    and "validate_read_set ser s (isolation th) = Some True"
    and "new_clock tsc (now s) (local_clk th) = Some (clk, k)" "local_clk th \<le> MAX_VERSION" "clk \<noteq> MAX_VERSION"
  shows "\<exists>s' th' st. ts_end ser tsc ra self s = Some (True, s') \<and> thrs s' self = Some th' \<and>
     run_cnt th' = run_cnt th + 1 \<and> cur_wrt_set (tvlog th') = None \<and> \<not> is_write_detected th' \<and>
     nvl_store (oplog th') = Some st \<and> nvlog_entries (nvlog_load st) = nvlog_entries (oplog th) @ [op_record th clk] \<and>
     (\<forall>last_clk v hv i e cs. tx_version self s th ws h es last_clk v hv i e cs \<longrightarrow> became_version self s clk s' last_clk v hv i e cs)"
proof -
  obtain s' th' where r: "ts_end ser tsc ra self s = Some (True, s')" "thrs s' self = Some th'" "run_cnt th' = run_cnt th + 1"
    "cur_wrt_set (tvlog th') = None" "\<not> is_write_detected th'" "acts s' = acts s" "rdr_frame s s'"
    "unat (oplog_used (oplog th)) + 640 < unat TS_OPLOG_HIGH_MARK \<longrightarrow>
       (\<exists>st. nvl_store (oplog th') = Some st \<and> nvlog_entries (nvlog_load st) = nvlog_entries (oplog th) @ [op_record th clk])"
    "\<forall>last_clk v hv i e cs. tx_version self s th ws h es last_clk v hv i e cs \<longrightarrow> became_version self s clk s' last_clk v hv i e cs"
    "\<forall>last_clk v hv cs. tx_other self s ws h es last_clk v hv cs \<longrightarrow> vhdrs s' v = Some hv \<and> version_chain s' last_clk (p_copy hv) cs"
    by (rule ts_end_result [OF assms(1-3,5-8)])
  obtain st where "nvl_store (oplog th') = Some st" "nvlog_entries (nvlog_load st) = nvlog_entries (oplog th) @ [op_record th clk]"
    using r(8) assms(4) by blast
  then show ?thesis using r(1-5,9) by blast
qed

text \<open>
  An object with one older version, in the log of thread 4, and a transaction of thread 3 that has
  locked it. Thread 4 reads at clock 15, thread 6 at clock 30.
\<close>

definition demo_older :: chs where
  "demo_older = demo_locked\<lparr>c_wrt_clk := 5, wrt_clk_prev := MAX_VERSION, c_body := Data (replicate 8 1)\<rparr>"

definition demo_writer :: thread where
  "demo_writer = demo_tx_thread\<lparr>is_write_detected := True, local_clk := 10\<rparr>"

definition demo_head :: act_vhdr where
  "demo_head = \<lparr>p_copy = Cpy 4 128, p_lock = Cpy 3 128, np_org_act = Act 9, np_cur_act = Act 9, tombstone_clk = MAX_VERSION\<rparr>"

definition demo_commit_sys :: sys where
  "demo_commit_sys = demo_tx\<lparr>thrs := [3 \<mapsto> demo_writer, 4 \<mapsto> demo_thread\<lparr>tvlog := demo_tvlog\<lparr>tv_mem := [128 \<mapsto> demo_older]\<rparr>, local_clk := 15\<rparr>,
       6 \<mapsto> demo_thread\<lparr>local_clk := 30\<rparr>],
     acts := [9 \<mapsto> \<lparr>a_vhdr = Some 5, a_gen_id = 0, a_index = 0, a_obj_size = 8, a_type = TYPE_ACTUAL, a_data = replicate 8 0\<rparr>],
     vhdrs := [5 \<mapsto> demo_head]\<rparr>"

lemma demo_commit_reads:
  "thrs demo_commit_sys 3 = Some demo_writer" "vhdrs demo_commit_sys 5 = Some demo_head" "get_chs demo_commit_sys 4 128 = Some demo_older"
  "tvlog demo_writer = tvlog demo_tx_thread" "oplog demo_writer = nvlog_load demo_big_store" "c_vhdr demo_older = Some 5" "c_vhdr demo_locked = Some 5"
  by (simp_all add: demo_commit_sys_def get_chs_def demo_writer_def demo_tx_thread_def demo_thread_def demo_older_def demo_locked_def)

lemma demo_oplog_ok: "oplog_ok demo_writer" "unat (oplog_used (oplog demo_writer)) + 640 < unat TS_OPLOG_HIGH_MARK"
  using rep_wf [OF demo_big_rep]
  by (simp_all add: oplog_ok_def demo_commit_reads nvlog_load_def demo_big_store_def oplog_used_def nvlog_used_def TS_OPLOG_HIGH_MARK_def TS_OPLOG_SIZE_def)
    (simp_all add: demo_writer_def demo_tx_thread_def demo_thread_def TS_MAX_OPERAND_SIZE_def)

lemma demo_tx_ready: "tx_ready 3 demo_commit_sys demo_writer demo_wset demo_hdr [demo_locked]"
proof -
  have m: "ptrset_is_member (tx_free_set demo_writer) (np_org_act demo_head) = Some False"
    by (simp add: demo_writer_def demo_tx_thread_def demo_thread_def empty_set_def ptrset_is_member_def)
  moreover have "good_head demo_commit_sys 5 demo_head" by (simp add: good_head_def demo_head_def demo_commit_reads)
  moreover have "is_copy demo_locked" "c_p_copy demo_locked = Null" by (simp_all add: demo_locked_def zero_chs_def)
  ultimately have "tx_entry demo_commit_sys (tx_free_set demo_writer) demo_locked"
    unfolding tx_entry_def using demo_commit_reads by blast
  then show ?thesis using demo_tx_rep by (simp add: tx_ready_def demo_commit_reads)
qed

lemma demo_versions: "versions demo_commit_sys 0 5 (Cpy 4 128) [(4, 128, demo_older)]"
  by (simp add: versions_def demo_commit_reads) (simp add: demo_older_def demo_locked_def zero_chs_def clock_simps MAX_VERSION_def)

lemma demo_tx_version: "tx_version 3 demo_commit_sys demo_writer demo_wset demo_hdr [demo_locked] 0 5 demo_head 128 demo_locked [(4, 128, demo_older)]"
proof -
  have "ptrset_is_member (tx_free_set demo_writer) (np_org_act demo_head) = Some False"
    by (simp add: demo_writer_def demo_tx_thread_def demo_thread_def empty_set_def ptrset_is_member_def)
  then have "\<not> freed demo_commit_sys (tx_free_set demo_writer) demo_locked" by (simp add: freed_def demo_commit_reads)
  moreover have "lt_clock (c_wrt_clk demo_older) (local_clk demo_writer)" by (simp add: demo_older_def demo_writer_def clock_simps)
  moreover have "wpos (first_cnt demo_wset demo_hdr) [demo_locked] = [128]"
    by (simp add: demo_wset_def new_wrt_set_def demo_tx_sizes tvlog_index_ring ring_index_def)
  moreover have "is_copy demo_locked" "c_obj_size demo_locked \<noteq> 0" by (simp_all add: demo_locked_def)
  moreover have "p_lock demo_head = Cpy 3 128" "p_copy demo_head = Cpy 4 128" by (simp_all add: demo_head_def)
  ultimately show ?thesis unfolding tx_version_def using demo_versions demo_commit_reads by simp
qed

lemma demo_new_clk:
  "new_clock demo_tsc (now demo_commit_sys) (local_clk demo_writer) = Some (20, Suc 0)" "local_clk demo_writer \<le> MAX_VERSION" "(20::u64) \<noteq> MAX_VERSION"
  by (simp_all add: new_clock_def ordo_new_clock_here demo_tsc_def ordo_gt_clock_def ordo_boundary_def demo_writer_def
      demo_commit_sys_def demo_tx_def demo_sys_def MAX_VERSION_def)

lemma demo_writing: "writing demo_writer" "run_cnt demo_writer = 0"
  by (simp_all add: writing_def demo_writer_def demo_tx_thread_def demo_thread_def empty_set_def requested_def)

lemma demo_valid: "validate_read_set False demo_commit_sys (isolation demo_writer) = Some True"
  by (simp add: validate_read_set_def)

theorem ts_end_commits_witness:
  "\<exists>s' th' st c d. ts_end False demo_tsc None 3 demo_commit_sys = Some (True, s') \<and> thrs s' 3 = Some th' \<and>
     run_cnt th' = 1 \<and> cur_wrt_set (tvlog th') = None \<and> \<not> is_write_detected th' \<and>
     nvl_store (oplog th') = Some st \<and> nvlog_entries (nvlog_load st) = [op_record demo_writer 20] \<and>
     vhdrs s' 5 = Some (demo_head\<lparr>p_copy := Cpy 3 128, p_lock := Null\<rparr>) \<and>
     version_chain s' 0 (Cpy 3 128) [(3, 128, c), (4, 128, d)] \<and> c_wrt_clk c = 20 \<and> wrt_clk_prev d = 20"
proof -
  have old: "nvlog_entries (oplog demo_writer) = []" using demo_big_entries by (simp add: demo_commit_reads)
  obtain s' th' st where e: "ts_end False demo_tsc None 3 demo_commit_sys = Some (True, s')" "thrs s' 3 = Some th'"
      "run_cnt th' = run_cnt demo_writer + 1" "cur_wrt_set (tvlog th') = None" "\<not> is_write_detected th'" "nvl_store (oplog th') = Some st"
      "nvlog_entries (nvlog_load st) = nvlog_entries (oplog demo_writer) @ [op_record demo_writer 20]"
      "became_version 3 demo_commit_sys 20 s' 0 5 demo_head 128 demo_locked [(4, 128, demo_older)]"
    using ts_end_commits [OF demo_tx_ready demo_writing(1) demo_oplog_ok demo_valid demo_new_clk, of None] demo_tx_version by blast
  have "head_clk demo_commit_sys demo_head = 5" by (simp add: head_clk_def demo_head_def demo_commit_reads) (simp add: demo_older_def)
  then have "vhdrs s' 5 = Some (demo_head\<lparr>p_copy := Cpy 3 128, p_lock := Null\<rparr>) \<and>
     version_chain s' 0 (Cpy 3 128) [(3, 128, new_version 20 demo_head 5 demo_locked), (4, 128, demo_older\<lparr>wrt_clk_prev := 20\<rparr>)]"
    using e(8) by (simp add: became_version_def Let_def clock_simps)
  moreover have "c_wrt_clk (new_version 20 demo_head 5 demo_locked) = 20" "wrt_clk_prev (demo_older\<lparr>wrt_clk_prev := 20\<rparr>) = 20"
    by (simp_all add: new_version_def)
  moreover have "run_cnt th' = 1" "nvlog_entries (nvlog_load st) = [op_record demo_writer 20]" using e(3,7) demo_writing(2) old by simp_all
  ultimately show ?thesis using e(1,2,4-6) by blast
qed

section \<open>Abort\<close>

lemma release_reads: "acts (release self L s) = acts s" "get_chs (release self L s) t j = get_chs s t j" "thrs (release self L s) = thrs s"
  by (simp_all add: release_def get_chs_def)

lemma abort_get_chs: "get_chs (upd_thr self (end_tx st) s) t j = get_chs s t j"
  by (auto simp: get_chs_def upd_thr_def bind_eq_Some_conv split: option.splits bind_splits)

text \<open>
  C15. A transaction that fails validation leaves no trace: \<open>ts_end\<close> reports failure, the thread has
  left the transaction, exactly the locks its copies hold are released, the space of the write set is
  given back to the log, no copy and no master object differs, and the operation log holds no record
  that was not there (at most, records that a checkpoint covers are gone).
\<close>

theorem ts_end_invalid_aborts:
  assumes "thrs s self = Some th" "writing th" "ws_rep (tvlog th) ws h es" "\<forall>e\<in>set es. lockable e \<longrightarrow> c_vhdr e \<noteq> None" "length es < 2 ^ 32"
    and "nvlog_wf (oplog th)" "\<And>st. nvl_store (oplog th) = Some st \<Longrightarrow> s_head_cnt st = head_cnt (oplog th)"
    and "validate_read_set ser s (isolation th) = Some False"
  defines "L \<equiv> copy_locks lockable (first_cnt ws h) es"
  shows "\<exists>s' th'. ts_end ser tsc ra self s = Some (False, s') \<and> thrs s' self = Some th' \<and> run_cnt th' = run_cnt th + 1 \<and>
     tvlog th' = (tvlog th)\<lparr>tv_tail_cnt := start_tail_cnt ws, cur_wrt_set := None\<rparr> \<and> \<not> is_write_detected th' \<and> num_ptrs (tx_free_set th') = 0 \<and>
     acts s' = acts s \<and> (\<forall>t j. get_chs s' t j = get_chs s t j) \<and>
     (\<forall>v. vhdrs s' v = map_option (\<lambda>h. if \<exists>i. p_lock h = Cpy self i \<and> (i, v) \<in> L then h\<lparr>p_lock := Null\<rparr> else h) (vhdrs s v)) \<and>
     suffix (nvlog_entries (oplog th')) (nvlog_entries (oplog th))"
proof -
  let ?st = "start_tail_cnt ws"
  let ?s0 = "upd_thr self (\<lambda>th. th\<lparr>run_cnt := run_cnt th + 1\<rparr>) s"
  let ?s1 = "upd_thr self (end_tx ?st) (release self L ?s0)"
  let ?th0 = "th\<lparr>run_cnt := run_cnt th + 1\<rparr>"
  let ?th2 = "(end_tx ?st ?th0)\<lparr>is_write_detected := False\<rparr>"
  have 0: "thrs ?s0 self = Some ?th0" using assms(1) by (simp add: store_simps)
  have cw: "cur_wrt_set (tvlog th) \<noteq> None" using assms(3) by (simp add: ws_part_def)
  have 1: "tvlog_abort self ?s0 = Some ?s1"
    using abort_part [OF 0, of "length es" ws h es] assms(3-5) by (simp add: L_def)
  let ?s2 = "upd_thr self (\<lambda>th. th\<lparr>is_write_detected := False\<rparr>) ?s1"
  have 2: "thrs ?s2 self = Some ?th2" using assms(1) by (simp add: store_simps release_reads)
  let ?s3 = "upd_thr self (\<lambda>t. t\<lparr>tx_alloc_set := tx_alloc_set ?th2\<rparr>) ?s2"
  have 3: "free_new_act self ?s2 = Some ?s3"
    by (rule flush_new_act_none(2) [OF 2]) (use assms(2) in \<open>simp add: writing_def\<close>)
  have 4: "thrs ?s3 self = Some ?th2" using assms(1) by (simp add: store_simps release_reads)
  have 5: "try_reclaim_logs ra self ?s3 = Some ?s3"
    by (rule try_reclaim_logs_none [OF 4]) (use assms(2) in \<open>simp add: writing_def\<close>)
  obtain b s4 th4 where 6: "oplog_reclaim self RECLAIM_OPLOG_NORMAL ?s3 = Some (b, s4)" "thrs s4 self = Some th4"
      "suffix (nvlog_entries (oplog th4)) (nvlog_entries (oplog th))"
    using oplog_reclaim_drops [OF 4, of RECLAIM_OPLOG_NORMAL] assms(6,7) 4 by (fastforce simp: suffix_dropWhile split: if_splits)
  note r = log_step_reads [OF oplog_reclaim_step [OF 6(1)]]
  obtain l st where 7: "th4 = ?th2\<lparr>oplog := l, stat := st\<rparr>" using r(5) [OF 4] 6(2) by auto
  let ?s5 = "stat_thread self (\<lambda>st. stat_inc st n_aborts_validation) (stat_thread self (\<lambda>st. stat_inc st n_aborts) s4)"
  have e: "ts_end ser tsc ra self s = Some (False, ?s5)"
    using assms(1,2,8) cw 1 3 5 6(1) by (simp add: ts_end_def ts_abort_def writing_def)
  have th5: "thrs ?s5 self = Some (th4\<lparr>stat := stat_inc (stat_inc (stat th4) n_aborts) n_aborts_validation\<rparr>)"
    using 6(2) by (simp add: stat_thread_def store_simps)
  have v: "vhdrs ?s5 = vhdrs (release self L ?s0)" "acts ?s5 = acts s" using r(1,2) by (simp_all add: stat_thread_def upd_thr_def release_reads)
  have c: "get_chs ?s5 t j = get_chs s t j" for t j
    using r(3) by (simp add: stat_thread_def get_chs_upd_thr abort_get_chs release_reads)
  have "vhdrs ?s5 v = map_option (\<lambda>h. if \<exists>i. p_lock h = Cpy self i \<and> (i, v) \<in> L then h\<lparr>p_lock := Null\<rparr> else h) (vhdrs s v)" for v
    using v(1) by (simp add: release_vhdr store_simps)
  moreover have "num_ptrs (ptrset_reset (tx_free_set th)) = 0" by (simp add: ptrset_reset_def)
  ultimately show ?thesis using e th5 v(2) c 6(3) by (intro exI [of _ ?s5]) (simp add: 7)
qed

text \<open>The transaction above, with a read of object 5 from before thread 4 has published its version.\<close>

definition demo_stale :: isolation where
  "demo_stale = demo_reads\<lparr>read_set := \<lparr>num_ptrs = 3, num_max_ptrs = 4, ptrs = Some [Vhdr 5, Null, Act 9, Null]\<rparr>\<rparr>"

definition demo_stale_sys :: sys where
  "demo_stale_sys = upd_thr 3 (\<lambda>th. th\<lparr>isolation := demo_stale\<rparr>) demo_commit_sys"

theorem ts_end_invalid_aborts_witness:
  "\<exists>s' th'. ts_end True demo_tsc None 3 demo_stale_sys = Some (False, s') \<and> thrs s' 3 = Some th' \<and> run_cnt th' = 1 \<and>
     tv_tail_cnt (tvlog th') = 0 \<and> cur_wrt_set (tvlog th') = None \<and> get_chs s' 4 128 = Some demo_older \<and>
     vhdrs s' 5 = Some (demo_head\<lparr>p_lock := Null\<rparr>) \<and> nvlog_entries (oplog th') = []"
proof -
  let ?th = "demo_writer\<lparr>isolation := demo_stale\<rparr>"
  have th: "thrs demo_stale_sys 3 = Some ?th" by (simp add: demo_stale_sys_def store_simps demo_commit_reads)
  have w: "writing ?th" "run_cnt ?th = 0" "nvl_store (oplog ?th) = Some demo_big_store"
    by (simp_all add: writing_def demo_writer_def demo_tx_thread_def demo_thread_def empty_set_def requested_def nvlog_load_def)
  have rep: "ws_rep (tvlog ?th) demo_wset demo_hdr [demo_locked]" using demo_tx_rep by (simp add: demo_commit_reads)
  have wf: "nvlog_wf (oplog ?th)" "head_cnt (oplog ?th) = s_head_cnt demo_big_store" "nvlog_entries (oplog ?th) = []"
    using rep_wf [OF demo_big_rep] demo_big_entries by (simp_all add: demo_commit_reads nvlog_load_def)
  have vh: "vhdrs demo_stale_sys = vhdrs demo_commit_sys" by (simp add: demo_stale_sys_def upd_thr_def)
  have ch: "get_chs demo_stale_sys 4 128 = Some demo_older"
    unfolding demo_stale_sys_def by (subst get_chs_upd_thr) (simp_all add: demo_commit_reads)
  have "p_copy demo_head = Cpy 4 128" by (simp add: demo_head_def)
  then have v: "validate_read_set True demo_stale_sys (isolation ?th) = Some False"
    by (simp add: validate_read_set_def demo_stale_def demo_reads_def vh demo_commit_reads numeral_3_eq_3 read_valid_def validate_loop.simps TS_SERIALIZABILITY_def TS_LINEARIZABILITY_def)
  have L: "copy_locks lockable (first_cnt demo_wset demo_hdr) [demo_locked] = {(128, 5)}" "start_tail_cnt demo_wset = 0"
    by (simp_all add: demo_tx_sizes demo_wset_def new_wrt_set_def demo_locked_def lockable_def tvlog_index_ring ring_index_def)
  from ts_end_invalid_aborts [OF th w(1) rep _ _ wf(1) _ v, unfolded L(1), unfolded L(2), of demo_tsc None]
  obtain s' th' where "ts_end True demo_tsc None 3 demo_stale_sys = Some (False, s')" "thrs s' 3 = Some th'" "run_cnt th' = run_cnt ?th + 1"
    "tvlog th' = (tvlog ?th)\<lparr>tv_tail_cnt := 0, cur_wrt_set := None\<rparr>" "\<forall>t j. get_chs s' t j = get_chs demo_stale_sys t j"
    "\<forall>v. vhdrs s' v = map_option (\<lambda>h. if \<exists>i. p_lock h = Cpy 3 i \<and> (i, v) \<in> {(128, 5)} then h\<lparr>p_lock := Null\<rparr> else h) (vhdrs demo_stale_sys v)"
    "suffix (nvlog_entries (oplog th')) (nvlog_entries (oplog ?th))"
    using w(3) wf(2) demo_commit_reads(7) by auto
  moreover have "p_lock demo_head = Cpy 3 128" by (simp add: demo_head_def)
  ultimately show ?thesis using w(2) wf(3) vh ch demo_commit_reads(2) by (intro exI [of _ s'] exI [of _ th']) simp
qed

end
