(* ===== verification/Crash.thy ===== *)
theory Crash
  imports NvLogRing "HOL-Library.Sublist"
begin

text \<open>
  Power failures during an append to a non-volatile log. The flushes, fences and counter stores
  that \<open>nvlog_enq_persist\<close> issues (\<open>src/lib/nvlog.c\<close>) are run on a model of write-back caches over
  NVM: a cache line that was written is in NVM for sure only after it was written back (\<open>clwb\<close>) and
  a fence followed; until then NVM holds anything there. A stored counter may reach NVM at any time
  after the store, because caches evict lines as they like, and has reached it for sure once it was
  written back and a fence followed.
\<close>

section \<open>Write-back caches over NVM\<close>

text \<open>
  The lines of the buffer that were written back since the last fence and those that are durable;
  for the tail counter of the store, its value in the cache, the values NVM may hold, and whether
  the line was written back since the last store to it.
\<close>

record pm =
  written_back :: "nat set"
  durable :: "nat set"
  cached_tail :: u64
  nvm_tails :: "u64 set"
  tail_written_back :: bool

fun pm_event :: "nvm_event \<Rightarrow> pm \<Rightarrow> pm" where
  "pm_event (Clwb_line i) p = p\<lparr>written_back := insert i (written_back p)\<rparr>"
| "pm_event Wmb p =
     p\<lparr>written_back := {}, durable := durable p \<union> written_back p,
       nvm_tails := (if tail_written_back p then {cached_tail p} else nvm_tails p), tail_written_back := False\<rparr>"
| "pm_event (Store_tail c) p = p\<lparr>cached_tail := c, nvm_tails := insert c (nvm_tails p), tail_written_back := False\<rparr>"
| "pm_event Clwb_tail p = p\<lparr>tail_written_back := True\<rparr>"
| "pm_event (Store_head c) p = p"
| "pm_event Clwb_head p = p"

definition pm_run :: "nvm_event list \<Rightarrow> pm \<Rightarrow> pm" where
  "pm_run evs p = fold pm_event evs p"

text \<open>The state after the last append was persisted: exactly the lines \<open>D\<close> of the buffer are durable.\<close>

definition pm_clean :: "nat set \<Rightarrow> u64 \<Rightarrow> pm" where
  "pm_clean D c = \<lparr>written_back = {}, durable = D, cached_tail = c, nvm_tails = {c}, tail_written_back = False\<rparr>"

text \<open>The cache lines of the buffer with the \<open>n\<close> bytes from index \<open>i\<close>.\<close>

definition entry_lines :: "nat \<Rightarrow> nat \<Rightarrow> nat set" where
  "entry_lines i n = (\<lambda>j. i + 64 * j) ` {..<n div 64}"

text \<open>
  What NVM may hold after a power failure, when the caches hold the store \<open>st\<close>: an entry all of
  whose lines are durable is intact; wherever a line is not, anything may be found.
\<close>

definition crash_image :: "pm \<Rightarrow> 'e nvlog_store \<Rightarrow> 'e nvlog_store \<Rightarrow> bool" where
  "crash_image p st st' \<longleftrightarrow>
     s_tail_cnt st' \<in> nvm_tails p \<and> s_head_cnt st' = s_head_cnt st \<and> s_log_size st' = s_log_size st \<and> s_mask st' = s_mask st \<and>
     (\<forall>i e. s_mem st i = Some e \<and> entry_lines (unat i) (unat (e_size e)) \<subseteq> durable p \<longrightarrow> s_mem st' i = Some e)"

section \<open>Durable entries survive\<close>

lemma ring_lines_append:
  assumes "64 dvd a"
  shows "ring_lines N p (a + b) = ring_lines N p a @ ring_lines N ((p + a) mod N) b"
proof -
  have "(a + b) div 64 = a div 64 + b div 64" using assms by (rule div_plus_div_distrib_dvd_left)
  then have "[0..<(a + b) div 64] = [0..<a div 64] @ map (\<lambda>j. j + a div 64) [0..<b div 64]"
    using upt_add_eq_append [of 0 "a div 64" "b div 64"] map_add_upt [of "a div 64" "b div 64"] by (metis add.commute le0)
  moreover have "(p + 64 * (j + a div 64)) mod N = ((p + a) mod N + 64 * j) mod N" for j
    using assms by (simp add: mod_add_left_eq algebra_simps)
  ultimately show ?thesis by (simp add: ring_lines_def)
qed

lemma entry_lines_ring: "i + n \<le> N \<Longrightarrow> entry_lines i n = set (ring_lines N i n)"
  by (simp add: ring_lines_straight entry_lines_def atLeast0LessThan)

text \<open>A tiling whose lines are durable is found again.\<close>

lemma tiles_survive:
  assumes k: "k < 32"
    and keep: "\<And>i e. m i = Some e \<Longrightarrow> entry_lines (unat i) (unat (e_size e)) \<subseteq> D \<Longrightarrow> m' i = Some e"
  shows "tiles k m c es \<Longrightarrow> set (ring_lines (2 ^ k) (unat c mod 2 ^ k) (total_size es)) \<subseteq> D \<Longrightarrow> tiles k m' c es"
proof (induction es arbitrary: c)
  case (Cons e es)
  let ?i = "ring_index (ring_mask (2 ^ k)) c" and ?n = "unat (e_size e)"
  have t: "m ?i = Some e" "64 dvd ?n" "unat c mod 2 ^ k + ?n \<le> 2 ^ k" using Cons.prems(1) by auto
  have i: "unat ?i = unat c mod 2 ^ k" by (rule unat_ring_index [OF k])
  have r: "ring_lines (2 ^ k) (unat c mod 2 ^ k) (total_size (e # es)) =
      ring_lines (2 ^ k) (unat c mod 2 ^ k) ?n @ ring_lines (2 ^ k) (unat (c + ucast (e_size e)) mod 2 ^ k) (total_size es)"
    using unat_ring_index_add [OF k, of c "e_size e"] unat_ring_index [OF k, of "c + ucast (e_size e)"]
    by (simp add: ring_lines_append [OF t(2)] mod_add_left_eq)
  have "m' ?i = Some e" using t Cons.prems(2) unfolding r by (intro keep) (simp_all add: i entry_lines_ring)
  moreover have "tiles k m' (c + ucast (e_size e)) es" using Cons.prems unfolding r by (intro Cons.IH) auto
  ultimately show ?case using Cons.prems(1) by simp
qed simp

section \<open>The trace of an append\<close>

lemma pm_run_append: "pm_run (xs @ ys) p = pm_run ys (pm_run xs p)"
  by (simp add: pm_run_def)

lemma pm_run_clwb: "pm_run (map Clwb_line L) p = p\<lparr>written_back := set L \<union> written_back p\<rparr>"
  by (induction L arbitrary: p) (simp_all add: pm_run_def)

text \<open>
  However far the trace got, either NVM still has the old tail, or the lines written back are
  durable and NVM has the old or the new tail; at its end, after the next fence, it has the new one.
\<close>

lemma trace_outcome:
  fixes D :: "nat set" and c c' :: u64
  assumes "prefix evs1 (map Clwb_line L @ [Wmb, Store_tail c', Clwb_tail, Wmb])"
  defines "p \<equiv> pm_run evs1 (pm_clean D c)"
  shows "D \<subseteq> durable p" "nvm_tails p = {c} \<or> nvm_tails p \<subseteq> {c, c'} \<and> set L \<subseteq> durable p"
    "evs1 = map Clwb_line L @ [Wmb, Store_tail c', Clwb_tail, Wmb] \<Longrightarrow> nvm_tails p = {c'} \<and> set L \<subseteq> durable p"
proof -
  let ?R = "[Wmb, Store_tail c', Clwb_tail, Wmb]"
  have "us = take (length us) ?R" if "prefix us ?R" for us using that by (elim prefixE) simp
  then consider (lines) "prefix evs1 (map Clwb_line L)" | (rest) n where "evs1 = map Clwb_line L @ take n ?R"
    using assms(1) unfolding prefix_append by blast
  then have "D \<subseteq> durable p \<and> (nvm_tails p = {c} \<or> nvm_tails p \<subseteq> {c, c'} \<and> set L \<subseteq> durable p)"
  proof cases
    case lines
    then have "evs1 = take (length evs1) (map Clwb_line L)" by (elim prefixE) simp
    then have "evs1 = map Clwb_line (take (length evs1) L)" by (simp only: take_map)
    then have "p = (pm_clean D c)\<lparr>written_back := set (take (length evs1) L)\<rparr>"
      unfolding p_def using pm_run_clwb [of "take (length evs1) L" "pm_clean D c"] by (simp add: pm_clean_def)
    then show ?thesis by (simp add: pm_clean_def)
  next
    case rest
    then have p: "p = pm_run (take n ?R) ((pm_clean D c)\<lparr>written_back := set L\<rparr>)"
      unfolding p_def by (simp add: pm_run_append pm_run_clwb pm_clean_def)
    consider "n = 0" | "n = 1" | "n = 2" | "n = 3" | "4 \<le> n" by linarith
    then show ?thesis by cases (auto simp: p pm_run_def pm_clean_def numeral_2_eq_2 numeral_3_eq_3)
  qed
  then show "D \<subseteq> durable p" "nvm_tails p = {c} \<or> nvm_tails p \<subseteq> {c, c'} \<and> set L \<subseteq> durable p" by auto
  show "nvm_tails p = {c'} \<and> set L \<subseteq> durable p" if "evs1 = map Clwb_line L @ ?R"
    unfolding p_def that pm_run_append pm_run_clwb by (simp add: pm_run_def pm_clean_def)
qed

text \<open>A store found after a failure, with its tail behind a durable tiling.\<close>

lemma crash_rep:
  assumes r: "nvlog_rep k l (es @ fs)" and st: "nvl_store l = Some st" "s_head_cnt st = head_cnt l" "s_log_size st = log_size l" "s_mask st = nvl_mask l"
    and im: "crash_image p st st'" "s_tail_cnt st' = head_cnt l + of_nat (total_size es)"
    and du: "set (ring_lines (2 ^ k) (unat (head_cnt l) mod 2 ^ k) (total_size es)) \<subseteq> durable p"
  shows "nvlog_rep k (nvlog_load st') es"
proof -
  have k: "k < 32" and t: "tiles k (s_mem st) (head_cnt l) es" and le: "total_size es \<le> 2 ^ k"
    using r st(1) by (auto simp: nvlog_rep_def tiles_append nvlog_mem_def)
  have "tiles k (s_mem st') (head_cnt l) es"
    by (rule tiles_survive [OF k _ t du]) (use im(1) in \<open>auto simp: crash_image_def\<close>)
  then show ?thesis using r st im le
    by (auto simp: nvlog_rep_def nvlog_load_def nvlog_mem_def nvlog_used_def crash_image_def)
qed

lemma append_outcome:
  assumes r: "nvlog_rep k l (es @ fs)" and st: "nvl_store l = Some st" "s_head_cnt st = head_cnt l" "s_log_size st = log_size l" "s_mask st = nvl_mask l"
    and tl: "s_tail_cnt st = head_cnt l + of_nat (total_size es)" and fs: "total_size fs < 2 ^ k"
    and D: "D = set (ring_lines (2 ^ k) (unat (head_cnt l) mod 2 ^ k) (total_size es))"
    and im: "prefix evs1 (fst (nvlog_enq_persist l) @ [Wmb])" "crash_image (pm_run evs1 (pm_clean D (s_tail_cnt st))) st st'"
  shows "nvlog_rep k (nvlog_load st') es \<or> nvlog_rep k (nvlog_load st') (es @ fs)"
    "evs1 = fst (nvlog_enq_persist l) @ [Wmb] \<Longrightarrow> nvlog_rep k (nvlog_load st') (es @ fs)"
proof -
  let ?p = "pm_run evs1 (pm_clean D (s_tail_cnt st))"
  have k: "6 \<le> k" "k < 32" and m: "nvl_mask l = ring_mask (2 ^ k)" and ls: "unat (log_size l) = 2 ^ k" and h: "64 dvd unat (head_cnt l)"
    using r by (auto simp: nvlog_rep_def unat_pow2_u64)
  have al: "64 dvd total_size es" "64 dvd total_size fs" using r tiles_aligned by (auto simp: nvlog_rep_def tiles_append)
  have t: "tail_cnt l = s_tail_cnt st + of_nat (total_size fs)" using rep_tail [OF r] tl by simp
  have u: "unat (nvlog_unpersisted l) = total_size fs"
    using st(1) t unat_total [OF k(2), of "total_size fs"] fs by (simp add: nvlog_unpersisted_def)
  have ix: "unat (nvlog_index l (s_tail_cnt st)) = (unat (head_cnt l) mod 2 ^ k + total_size es) mod 2 ^ k"
    unfolding nvlog_index_def m tl using unat_ring_index_of_nat [OF k(2)] by (simp add: mod_add_left_eq)
  have "(64::nat) dvd 2 ^ k" using le_imp_power_dvd [OF k(1), of "2::nat"] by simp
  moreover have sal: "64 dvd unat (s_tail_cnt st)"
  proof -
    have "unat (s_tail_cnt st) = (unat (head_cnt l) + total_size es) mod 2 ^ 64"
      unfolding tl by (simp add: unat_word_ariths unat_of_nat mod_add_right_eq)
    then show ?thesis using h al(1) by (simp add: dvd_mod_iff)
  qed
  ultimately have eq: "nvlog_enq_persist l = (if nvlog_unpersisted l = 0 then ([], l)
        else (map Clwb_line (ring_lines (2 ^ k) (unat (nvlog_index l (s_tail_cnt st))) (total_size fs)) @ [Wmb, Store_tail (tail_cnt l), Clwb_tail],
              l\<lparr>nvl_store := Some (st\<lparr>s_tail_cnt := tail_cnt l\<rparr>)\<rparr>))"
    using enq_persist_eq [OF rep_wf [OF r] st(1)] u ls fs al(2) by simp
  have all: "set (ring_lines (2 ^ k) (unat (head_cnt l) mod 2 ^ k) (total_size (es @ fs))) =
      D \<union> set (ring_lines (2 ^ k) (unat (nvlog_index l (s_tail_cnt st))) (total_size fs))"
    by (simp add: ring_lines_append [OF al(1)] D ix)
  note rep = crash_rep [OF _ st im(2)]
  have "nvlog_rep k (nvlog_load st') (if s_tail_cnt st' = s_tail_cnt st then es else es @ fs) \<and>
     (evs1 = fst (nvlog_enq_persist l) @ [Wmb] \<longrightarrow> nvlog_rep k (nvlog_load st') (es @ fs))"
  proof (cases "nvlog_unpersisted l = 0")
    case True
    then have "total_size fs = 0" using u by simp
    then have "fs = []" using r by (cases fs) (auto simp: nvlog_rep_def tiles_append unat_eq_0)
    moreover have "evs1 = [] \<or> evs1 = [Wmb]" using im(1) True by (auto simp: eq prefix_Cons)
    then have "nvm_tails ?p = {s_tail_cnt st}" "D \<subseteq> durable ?p" by (auto simp: pm_run_def pm_clean_def)
    ultimately show ?thesis using rep [of k es "[]"] r im(2) tl D by (simp add: crash_image_def)
  next
    case False
    note o = trace_outcome [of evs1 _ _ D "s_tail_cnt st", OF im(1) [unfolded eq, simplified False if_False fst_conv append_assoc append.simps]]
    have old: "nvlog_rep k (nvlog_load st') es" if "s_tail_cnt st' = s_tail_cnt st"
      using rep [of k es fs] r that o(1) tl D by simp
    have new: "nvlog_rep k (nvlog_load st') (es @ fs)"
      if "s_tail_cnt st' = tail_cnt l" "set (ring_lines (2 ^ k) (unat (nvlog_index l (s_tail_cnt st))) (total_size fs)) \<subseteq> durable ?p"
      using rep [of k "es @ fs" "[]"] r that o(1) rep_tail [OF r] unfolding all by simp
    have "s_tail_cnt st' \<in> nvm_tails ?p" using im(2) by (simp add: crash_image_def)
    then show ?thesis using o(2,3) old new False by (auto simp: eq)
  qed
  then show "nvlog_rep k (nvlog_load st') es \<or> nvlog_rep k (nvlog_load st') (es @ fs)"
    "evs1 = fst (nvlog_enq_persist l) @ [Wmb] \<Longrightarrow> nvlog_rep k (nvlog_load st') (es @ fs)" by (auto split: if_splits)
qed

section \<open>Appends are failure atomic\<close>

text \<open>The cache lines of the live bytes of a log.\<close>

definition live_lines :: "'e nvlog \<Rightarrow> nat set" where
  "live_lines l = set (ring_lines (unat (log_size l)) (unat (nvlog_index l (head_cnt l))) (unat (nvlog_used l)))"

text \<open>The counters and the geometry in the store are those of the control structure.\<close>

definition nvlog_synced :: "'e nvlog \<Rightarrow> 'e nvlog_store \<Rightarrow> bool" where
  "nvlog_synced l st \<longleftrightarrow> nvl_store l = Some st \<and> s_head_cnt st = head_cnt l \<and> s_tail_cnt st = tail_cnt l \<and>
     s_log_size st = log_size l \<and> s_mask st = nvl_mask l"

lemma upd_mem_synced:
  "nvl_store l = Some st \<Longrightarrow> \<exists>m. nvl_store (upd_mem f l) = Some (st\<lparr>s_mem := m\<rparr>)"
  by (auto simp: upd_mem_def)

lemma enq_fill_fields:
  assumes "nvlog_enq l sz = (Some i, l1)" "nvl_store l = Some st"
  shows "head_cnt (nvlog_fill i clk b l1) = head_cnt l" "log_size (nvlog_fill i clk b l1) = log_size l" "nvl_mask (nvlog_fill i clk b l1) = nvl_mask l"
    "\<exists>m. nvl_store (nvlog_fill i clk b l1) = Some (st\<lparr>s_mem := m\<rparr>)"
  using assms by (auto simp: nvlog_enq_def nvlog_skip_end_def nvlog_fill_def Let_def upd_mem_def split: if_splits)

text \<open>
  C6. An append to a non-volatile log is failure atomic. Take a log whose store is up to date, with
  only the lines of its live entries known to be durable, append an entry (\<open>nvlog_enq\<close>, filled by
  the caller) and let the power fail at any point of \<open>nvlog_enq_persist\<close>, with anything in the lines
  that have not reached NVM: the log that is loaded afterwards is well formed and holds either the
  old queue or the old queue with the new entry. Once the fence behind \<open>nvlog_enq_persist\<close> has
  passed it holds the new entry.
\<close>

theorem nvlog_append_crash_atomic:
  assumes "nvlog_wf l" "nvlog_synced l st" "unat obj_size + 79 < 2 ^ 32" "ucast (entry_size_of obj_size) < log_size l"
    and "nvlog_enq l obj_size = (Some i, l1)" "nvlog_gap l (entry_size_of obj_size) + unat (entry_size_of obj_size) < unat (log_size l)"
    and "nvl_store (nvlog_fill i clk b l1) = Some st1"
    and "prefix evs (fst (nvlog_enq_persist (nvlog_fill i clk b l1)) @ [Wmb])"
    and "crash_image (pm_run evs (pm_clean (live_lines l) (tail_cnt l))) st1 st'"
  defines "entry \<equiv> \<lparr>e_wrt_clk = clk, e_size = entry_size_of obj_size, e_type = TYPE_ACTUAL, e_body = Some b\<rparr>"
  shows "nvlog_wf (nvlog_load st') \<and>
     (nvlog_entries (nvlog_load st') = nvlog_entries l \<or> nvlog_entries (nvlog_load st') = nvlog_entries l @ [entry]) \<and>
     (evs = fst (nvlog_enq_persist (nvlog_fill i clk b l1)) @ [Wmb] \<longrightarrow> nvlog_entries (nvlog_load st') = nvlog_entries l @ [entry])"
proof -
  from assms(1) obtain k es where r: "nvlog_rep k l es" and en: "nvlog_entries l = filter is_real es"
    by (rule wf_repE)
  let ?s = "entry_size_of obj_size" and ?f = "nvlog_fill i clk b l1"
  have k: "k < 32" and ls: "unat (log_size l) = 2 ^ k" and m: "nvl_mask l = ring_mask (2 ^ k)"
    using r by (auto simp: nvlog_rep_def unat_pow2_u64)
  have s: "unat ?s < 2 ^ k" using assms(4) ls by (simp add: word_less_nat_alt)
  have fits: "nvlog_fits l ?s" using enq_none_iff [OF r assms(3) s] assms(5) by simp
  obtain gs where e: "filter is_real gs = []" "nvlog_rep k l1 ((es @ gs) @ [fresh_entry ?s])"
      "i = nvlog_index l1 (head_cnt l1 + of_nat (total_size (es @ gs)))" "total_size gs = nvlog_gap l ?s"
    using enq_some_gap [OF r assms(3) s fits] assms(5) by auto
  have f: "nvlog_rep k ?f (es @ gs @ [entry])" using rep_fill [OF e(2,3), of clk b] by (simp add: entry_def fresh_entry_def)
  note sy = assms(2) [unfolded nvlog_synced_def]
  obtain mem where st1: "st1 = st\<lparr>s_mem := mem\<rparr>" using enq_fill_fields(4) [OF assms(5) conjunct1 [OF sy], where clk = clk and b = b] assms(7) by auto
  note keep = enq_fill_fields(1-3) [OF assms(5), of st, where clk = clk and b = b]
  have u: "unat (nvlog_used l) = total_size es" using r unat_total [OF k] by (auto simp: nvlog_rep_def)
  have D: "live_lines l = set (ring_lines (2 ^ k) (unat (head_cnt ?f) mod 2 ^ k) (total_size es))"
    using sy keep(1) by (simp add: live_lines_def ls u rep_index [OF r])
  have tl: "s_tail_cnt st1 = head_cnt ?f + of_nat (total_size es)" "tail_cnt l = s_tail_cnt st1"
    using sy keep(1) rep_tail [OF r] by (simp_all add: st1)
  have small: "total_size (gs @ [entry]) < 2 ^ k" using assms(6) e(4) ls by (simp add: entry_def)
  note o = append_outcome [OF f assms(7) _ _ _ tl(1) small D assms(8) assms(9) [unfolded tl(2)]]
  have "nvlog_rep k (nvlog_load st') es \<or> nvlog_rep k (nvlog_load st') (es @ gs @ [entry])"
    "evs = fst (nvlog_enq_persist ?f) @ [Wmb] \<Longrightarrow> nvlog_rep k (nvlog_load st') (es @ gs @ [entry])"
    by (rule o; use sy keep in \<open>simp add: st1\<close>)+
  moreover have "filter is_real (es @ gs @ [entry]) = nvlog_entries l @ [entry]" using e(1) en by (simp add: entry_def)
  ultimately show ?thesis using en rep_wf rep_entries by metis
qed

text \<open>An entry of 64 bytes appended to an empty log of 256 bytes at index 192, behind a skipped end.\<close>

definition crash_log :: "nat nvlog" where
  "crash_log = nvlog_load (demo_store 192 192 Map.empty)"

definition crash_log1 :: "nat nvlog" where
  "crash_log1 = nvlog_fill 0 5 7 (snd (nvlog_enq crash_log 40))"

lemma crash_log_enq: "nvlog_enq crash_log 40 = (Some 0, snd (nvlog_enq crash_log 40))"
proof -
  have "fst (nvlog_enq crash_log 40) = Some 0" by code_simp
  then show ?thesis by (simp add: prod_eq_iff)
qed

lemma crash_log_trace: "fst (nvlog_enq_persist crash_log1) @ [Wmb] = [Clwb_line 192, Clwb_line 0, Wmb, Store_tail 320, Clwb_tail, Wmb]"
  by code_simp

theorem nvlog_append_crash_atomic_witness:
  "\<exists>st1. nvl_store crash_log1 = Some st1 \<and>
     nvlog_entries (nvlog_load (st1\<lparr>s_tail_cnt := 320\<rparr>)) = [\<lparr>e_wrt_clk = 5, e_size = 64, e_type = TYPE_ACTUAL, e_body = Some 7\<rparr>]"
proof -
  let ?st = "demo_store 192 192 Map.empty :: nat nvlog_store"
  have wf: "nvlog_wf crash_log" "nvlog_entries crash_log = []"
    using rep_wf [OF demo_rep] rep_entries [OF demo_rep] unfolding crash_log_def by auto
  have sy: "nvlog_synced crash_log ?st" by (simp add: nvlog_synced_def crash_log_def nvlog_load_def demo_store_def)
  have sz: "ucast (entry_size_of 40) < log_size crash_log" "nvlog_gap crash_log (entry_size_of 40) + unat (entry_size_of 40) < unat (log_size crash_log)"
    "entry_size_of 40 = 64" by code_simp+
  obtain m where m: "nvl_store crash_log1 = Some (?st\<lparr>s_mem := m\<rparr>)"
    using enq_fill_fields(4) [OF crash_log_enq conjunct1 [OF sy [unfolded nvlog_synced_def]], where clk = 5 and b = 7] by (auto simp: crash_log1_def)
  let ?st1 = "?st\<lparr>s_mem := m\<rparr>"
  have "crash_image (pm_run (fst (nvlog_enq_persist crash_log1) @ [Wmb]) (pm_clean (live_lines crash_log) (tail_cnt crash_log))) ?st1 (?st1\<lparr>s_tail_cnt := 320\<rparr>)"
    unfolding crash_log_trace by (simp add: crash_image_def pm_run_def pm_clean_def)
  from nvlog_append_crash_atomic [OF wf(1) sy _ sz(1) crash_log_enq sz(2), where clk = 5 and b = 7, folded crash_log1_def, OF _ m prefix_order.refl this]
  show ?thesis using m wf(2) sz(3) by simp
qed

end
