(* ===== verification/CkptView.thy ===== *)
theory CkptView
  imports CommitChain Crash
begin

text \<open>
  Checkpointing does not change what anybody reads. The second loop of \<open>tvlog_reclaim\<close>
  (\<open>src/lib/tvlog.c\<close>) copies the borderline version of an object to the checkpoint log, makes the
  checkpoint entry the current master and, when the version is the newest one, detaches it. A reader
  that found the version in the chain finds the checkpointed master afterwards, with the same bytes.
\<close>

section \<open>What a transaction reads\<close>

text \<open>The bytes of the object with the master \<open>a\<close> as thread \<open>t\<close> sees them.\<close>

definition tx_reads :: "sys \<Rightarrow> nat \<Rightarrow> nat \<Rightarrow> bytes option" where
  "tx_reads s t a = do { (p, _) \<leftarrow> ts_deref False None t (Act a) s; obj_data s p }"

lemma add_read_snapshot: "add_read False ra t v q p s = map_option (\<lambda>th. upd_thr t (\<lambda>t. t\<lparr>isolation := isolation th\<rparr>) s) (thrs s t)"
  by (cases "thrs s t") (simp_all add: add_read_def read_set_add_def)

lemma tx_reads_chain:
  assumes "acts s a = Some ao" "a_type ao = TYPE_ACTUAL" "a_vhdr ao = Some v"
  shows "tx_reads s t a = do {
     h \<leftarrow> vhdrs s v;
     rt \<leftarrow> thrs s t;
     p \<leftarrow> deref_chain s (local_clk rt) (last_ckpt (clks rt)) (p_copy h);
     obj_data s (if p \<noteq> Null then p else np_cur_act h) }"
  using assms by (cases "thrs s t") (auto simp: tx_reads_def ts_deref_def get_act_vhdr_def obj_to_obj_type_def is_obj_actual_def
      add_read_snapshot Let_def split: bind_splits)

lemma tx_reads_master:
  assumes "acts s a = Some ao" "a_type ao \<noteq> TYPE_ACTUAL \<or> a_vhdr ao = None"
  shows "tx_reads s t a = (if thrs s t = None then None else Some (a_data ao))"
  using assms by (cases "a_type ao") (auto simp: tx_reads_def ts_deref_def get_act_vhdr_def obj_to_obj_type_def is_obj_actual_def
      add_read_snapshot obj_data_def split: bind_splits)

lemma tx_reads_none: "acts s a = None \<Longrightarrow> tx_reads s t a = None"
  by (simp add: tx_reads_def ts_deref_def get_act_vhdr_def obj_to_obj_type_def is_obj_actual_def)

section \<open>Copies that differ in their status only\<close>

definition chs_same :: "sys \<Rightarrow> sys \<Rightarrow> bool" where
  "chs_same s s' \<longleftrightarrow> (\<forall>t i. map_option (c_status_update (\<lambda>_. STATUS_NONE)) (get_chs s' t i) = map_option (c_status_update (\<lambda>_. STATUS_NONE)) (get_chs s t i))"

lemma chs_same_refl [simp]: "chs_same s s"
  by (simp add: chs_same_def)

lemma chs_same_sym: "chs_same s s' \<Longrightarrow> chs_same s' s"
  by (simp add: chs_same_def)

lemma chs_same_trans: "chs_same s s1 \<Longrightarrow> chs_same s1 s2 \<Longrightarrow> chs_same s s2"
  by (simp add: chs_same_def)

lemma status_fields:
  "c_status_update (\<lambda>_. x) d = c_status_update (\<lambda>_. x) c \<Longrightarrow>
     p_ws d = p_ws c \<and> c_wrt_clk d = c_wrt_clk c \<and> c_obj_size d = c_obj_size c \<and> c_padding_size d = c_padding_size c \<and> c_type d = c_type c \<and>
     c_vhdr d = c_vhdr c \<and> c_p_copy d = c_p_copy c \<and> wrt_clk_next d = wrt_clk_next c \<and> wrt_clk_prev d = wrt_clk_prev c \<and> c_body d = c_body c"
  by (cases c; cases d) auto

lemma chs_sameD:
  assumes "chs_same s s'" "get_chs s t i = Some c"
  obtains d where "get_chs s' t i = Some d"
    "p_ws d = p_ws c" "c_wrt_clk d = c_wrt_clk c" "c_obj_size d = c_obj_size c" "c_type d = c_type c"
    "c_vhdr d = c_vhdr c" "c_p_copy d = c_p_copy c" "wrt_clk_next d = wrt_clk_next c" "wrt_clk_prev d = wrt_clk_prev c" "c_body d = c_body c" "csz d = csz c"
proof -
  have "map_option (c_status_update (\<lambda>_. STATUS_NONE)) (get_chs s' t i) = Some (c_status_update (\<lambda>_. STATUS_NONE) c)"
    using assms by (simp add: chs_same_def)
  then obtain d where "get_chs s' t i = Some d" "c_status_update (\<lambda>_. STATUS_NONE) d = c_status_update (\<lambda>_. STATUS_NONE) c" by auto
  then show thesis using that status_fields [of STATUS_NONE d c] by (auto simp: csz_def get_entry_size_def)
qed

lemma chs_same_ws:
  assumes "chs_same s s'"
  shows "get_ws s' t i = get_ws s t i"
proof (cases "get_chs s t i")
  case None
  then have "get_chs s' t i = None" using assms by (metis chs_same_def option.map_disc_iff)
  with None show ?thesis by (simp add: get_ws_def)
next
  case (Some c)
  with assms obtain d where "get_chs s' t i = Some d" "c_body d = c_body c" by (rule chs_sameD)
  with Some show ?thesis by (simp add: get_ws_def)
qed

lemma chs_same_deref: "deref_chain s lclk last_clk p = Some q \<Longrightarrow> chs_same s s' \<Longrightarrow> deref_chain s' lclk last_clk p = Some q"
proof (induction s lclk last_clk p q rule: deref_chain.raw_induct [rotated, consumes 1, case_names 1])
  case (1 rec s lclk last_clk p q)
  show ?case
  proof (cases "p = Null")
    case True
    with 1 show ?thesis by (subst deref_chain.simps) simp
  next
    case False
    with 1(2) obtain t i c w where p: "cpy_of p = Some (t, i)" "get_chs s t i = Some c" "get_wrt_clk s t c lclk = Some w"
        "(if lt_clock w lclk then Some p else if lt_clock (wrt_clk_next c) last_clk then Some Null else rec s lclk last_clk (c_p_copy c)) = Some q"
      by (auto split: bind_splits)
    from 1(3) p(2) obtain d where d: "get_chs s' t i = Some d" "p_ws d = p_ws c" "c_wrt_clk d = c_wrt_clk c" "c_p_copy d = c_p_copy c" "wrt_clk_next d = wrt_clk_next c"
      by (rule chs_sameD)
    have "get_wrt_clk s' t d lclk = get_wrt_clk s t c lclk" using d chs_same_ws [OF 1(3)] by (simp add: get_wrt_clk_def)
    moreover have "deref_chain s' lclk last_clk (c_p_copy c) = Some q" if "rec s lclk last_clk (c_p_copy c) = Some q" using 1(1) [OF that 1(3)] .
    ultimately show ?thesis using False p d by (subst deref_chain.simps) (auto split: if_splits)
  qed
qed

lemma chs_same_data: "chs_same s s' \<Longrightarrow> obj_data s (Cpy t i) = Some d \<Longrightarrow> obj_data s' (Cpy t i) = Some d"
  by (auto simp: obj_data_def split: bind_splits chs_body.splits elim: chs_sameD)

section \<open>Chains that lead to a version\<close>

inductive reaches :: "sys \<Rightarrow> u64 \<Rightarrow> ptr \<Rightarrow> nat \<Rightarrow> u32 \<Rightarrow> bool" for s last_clk where
  here: "reaches s last_clk (Cpy t i) t i"
| later: "get_chs s u j = Some d \<Longrightarrow> \<not> lt_clock (wrt_clk_next d) last_clk \<Longrightarrow> reaches s last_clk (c_p_copy d) t i \<Longrightarrow>
          reaches s last_clk (Cpy u j) t i"

lemma version_chain_reaches: "version_chain s last_clk p (xs @ (t, i, c) # ys) \<Longrightarrow> reaches s last_clk p t i"
  by (induction xs arbitrary: p) (auto split: if_splits intro: reaches.here, blast intro: reaches.later)

lemma reaches_same: "reaches s last_clk p t i \<Longrightarrow> chs_same s s' \<Longrightarrow> reaches s' last_clk p t i"
proof (induction rule: reaches.induct)
  case (later u j d)
  then obtain d' where "get_chs s' u j = Some d'" "c_p_copy d' = c_p_copy d" "wrt_clk_next d' = wrt_clk_next d" by (metis chs_sameD)
  with later show ?case by (metis reaches.later)
qed (rule reaches.here)

text \<open>A reader that may see a version finds it or a newer one.\<close>

lemma deref_reaches:
  assumes "reaches s last_clk p t i" "get_chs s t i = Some c" "c_wrt_clk c \<noteq> MAX_VERSION" "lt_clock (c_wrt_clk c) lclk"
  shows "deref_chain s lclk last_clk p = Some q \<Longrightarrow> \<exists>u j. q = Cpy u j"
  using assms
proof (induction rule: reaches.induct)
  case here
  then show ?case by (subst (asm) deref_chain.simps) (auto simp: get_wrt_clk_def)
next
  case (later u j d)
  then show ?case by (subst (asm) (2) deref_chain.simps) (auto split: bind_splits if_splits)
qed

lemma reaches_newest:
  assumes "get_chs s t i = Some c" "c_wrt_clk c \<noteq> MAX_VERSION" "lt_clock (c_wrt_clk c) lclk"
  shows "deref_chain s lclk last_clk (Cpy t i) = Some (Cpy t i)"
  using assms by (subst deref_chain.simps) (simp add: get_wrt_clk_def)

section \<open>Entries of the checkpoint log in use\<close>

definition nvlog_live :: "'e nvlog \<Rightarrow> u32 \<Rightarrow> bool" where
  "nvlog_live l j \<longleftrightarrow> (\<exists>xs e ys. nvlog_raw l = xs @ e # ys \<and> j = nvlog_index l (head_cnt l + of_nat (total_size xs)))"

lemma rep_used: "nvlog_rep k l es \<Longrightarrow> unat (nvlog_used l) = total_size es"
  using unat_total [of k "total_size es"] by (simp add: nvlog_rep_def)

lemma rep_live_at:
  assumes "nvlog_rep k l (xs @ e # ys)" "j = nvlog_index l (head_cnt l + of_nat (total_size xs))"
  shows "nvlog_mem l j = Some e"
  using assms by (auto simp: nvlog_rep_def tiles_append nvlog_index_def)

text \<open>An append leaves the entries in use where they are.\<close>

lemma enq_fill_live:
  assumes "nvlog_wf l" "unat sz + 79 < 2 ^ 32" "ucast (entry_size_of sz) < log_size l"
    and "unat (nvlog_used l) + 2 * unat (entry_size_of sz) \<le> unat (log_size l)"
  obtains i l1 where "nvlog_enq l sz = (Some i, l1)" "nvlog_wf (nvlog_fill i clk b l1)" "log_size (nvlog_fill i clk b l1) = log_size l"
    "unat (nvlog_used (nvlog_fill i clk b l1)) \<le> unat (nvlog_used l) + 2 * unat (entry_size_of sz)"
    "nvlog_live (nvlog_fill i clk b l1) i"
    "map_option e_body (nvlog_mem (nvlog_fill i clk b l1) i) = Some (Some b)"
    "\<And>j. nvlog_live l j \<Longrightarrow> nvlog_live (nvlog_fill i clk b l1) j \<and> nvlog_mem (nvlog_fill i clk b l1) j = nvlog_mem l j"
proof -
  from assms(1) obtain k es where r: "nvlog_rep k l es" by (rule wf_repE)
  let ?s = "entry_size_of sz"
  have k: "k < 32" and ls: "unat (log_size l) = 2 ^ k" using r by (auto simp: nvlog_rep_def unat_pow2_u64)
  have s: "unat ?s < 2 ^ k" using assms(3) ls by (simp add: word_less_nat_alt)
  have gap: "nvlog_gap l ?s \<le> unat ?s" by (auto simp: nvlog_gap_def Let_def)
  then have "nvlog_fits l ?s" using assms(4) by (simp add: nvlog_fits_def)
  then obtain i l1 gs where e: "nvlog_enq l sz = (Some i, l1)" "nvlog_rep k l1 ((es @ gs) @ [fresh_entry ?s])"
      "i = nvlog_index l1 (head_cnt l1 + of_nat (total_size (es @ gs)))" "total_size gs = nvlog_gap l ?s"
    using enq_some_gap [OF r assms(2) s] by auto
  let ?f = "nvlog_fill i clk b l1" and ?e = "(fresh_entry ?s)\<lparr>e_wrt_clk := clk, e_body := Some b\<rparr>"
  have f: "nvlog_rep k ?f (es @ gs @ [?e])" using rep_fill [OF e(2,3), of clk b] by simp
  obtain st where "nvl_store l = Some st" using r by (auto simp: nvlog_rep_def)
  note keep = enq_fill_fields(1-3) [OF e(1) this, where clk = clk and b = b]
  have hd: "head_cnt l1 = head_cnt l" "nvl_mask l1 = nvl_mask l" using keep by (simp_all add: nvlog_fill_def)
  have i: "i = nvlog_index ?f (head_cnt ?f + of_nat (total_size (es @ gs)))" using e(3) hd keep by (simp add: nvlog_index_def)
  have raw: "nvlog_raw l = es" "nvlog_raw ?f = es @ gs @ [?e]" using rep_raw r f by blast+
  have u: "unat (nvlog_used l) = total_size es" "unat (nvlog_used ?f) = total_size (es @ gs @ [?e])"
    using rep_used r f by blast+
  show thesis
  proof (rule that [OF e(1)])
    show "nvlog_wf ?f" by (rule rep_wf [OF f])
    show "log_size ?f = log_size l" by (rule keep(2))
    show "unat (nvlog_used ?f) \<le> unat (nvlog_used l) + 2 * unat ?s" using u e(4) gap by (simp add: fresh_entry_def)
    show "nvlog_live ?f i" unfolding nvlog_live_def raw using i by (intro exI [of _ "es @ gs"]) auto
    show "map_option e_body (nvlog_mem ?f i) = Some (Some b)" using rep_live_at [of k ?f "es @ gs" ?e "[]" i] f i by simp
    fix j assume "nvlog_live l j"
    then obtain xs x ys where j: "es = xs @ x # ys" "j = nvlog_index l (head_cnt l + of_nat (total_size xs))"
      by (auto simp: nvlog_live_def raw)
    have j': "j = nvlog_index ?f (head_cnt ?f + of_nat (total_size xs))" using j(2) keep by (simp add: nvlog_index_def)
    have "nvlog_mem ?f j = Some x" using rep_live_at [of k ?f xs x "ys @ gs @ [?e]" j] f j(1) j' by simp
    moreover have "nvlog_mem l j = Some x" using rep_live_at [of k l xs x ys j] r j by simp
    moreover have "nvlog_live ?f j" unfolding nvlog_live_def raw using j(1) j' by auto
    ultimately show "nvlog_live ?f j \<and> nvlog_mem ?f j = nvlog_mem l j" by simp
  qed
qed

section \<open>One checkpointed version\<close>

definition ckpt_due :: "sys \<Rightarrow> nat \<Rightarrow> u64 \<Rightarrow> u64 \<Rightarrow> u32 \<Rightarrow> chs \<Rightarrow> bool" where
  "ckpt_due s self sclk last_clk i c \<longleftrightarrow>
     get_chs s self i = Some c \<and> c_type c = TYPE_COPY \<and> c_status c \<noteq> STATUS_DETACHED \<and> is_at_borderline c sclk last_clk"

text \<open>The size of the checkpoint of a copy, and a bound on the bytes of log it takes with a skipped end.\<close>

definition ckpt_size :: "chs \<Rightarrow> u32" where
  "ckpt_size c = sizeof_ckpt_entry_hdr + sizeof_obj_hdr + c_obj_size c"

definition ckpt_cost :: "chs \<Rightarrow> nat" where
  "ckpt_cost c = 2 * unat (entry_size_of (ckpt_size c))"

text \<open>
  A copy that thread \<open>self\<close> has to checkpoint: its bytes are complete, the log can hold them, and the
  chain of its object leads to it for a reader with the checkpoint clock \<open>rl\<close>.
\<close>

definition ckpt_fit :: "sys \<Rightarrow> nat \<Rightarrow> u64 \<Rightarrow> u32 \<Rightarrow> chs \<Rightarrow> u64 \<Rightarrow> bool" where
  "ckpt_fit s self rl i c n \<longleftrightarrow>
     unat (ckpt_size c) + 79 < 2 ^ 32 \<and> ucast (entry_size_of (ckpt_size c)) < n \<and>
     (case c_body c of Data d \<Rightarrow> length d = unat (c_obj_size c) | _ \<Rightarrow> False) \<and>
     (\<exists>v h. c_vhdr c = Some v \<and> vhdrs s v = Some h \<and> reaches s rl (p_copy h) self i)"

text \<open>
  What the loop relies on, for a reader \<open>rt\<close> whose snapshot is not older than the checkpoint clock:
  the copies to checkpoint are fit, at most one per object, and the masters in the log of the thread
  are entries in use.
\<close>

definition ckpt_inv :: "nat \<Rightarrow> u64 \<Rightarrow> u64 \<Rightarrow> u64 \<Rightarrow> u64 \<Rightarrow> sys \<Rightarrow> bool" where
  "ckpt_inv self sclk last_clk rl n s \<longleftrightarrow>
     (\<exists>th. thrs s self = Some th \<and> nvlog_wf (ckptlog th) \<and> log_size (ckptlog th) = n \<and>
        (\<forall>v h j. vhdrs s v = Some h \<and> np_cur_act h = Ckpt self j \<longrightarrow> nvlog_live (ckptlog th) j)) \<and>
     (\<forall>i c. ckpt_due s self sclk last_clk i c \<longrightarrow> ckpt_fit s self rl i c n) \<and>
     (\<forall>i c i' c'. ckpt_due s self sclk last_clk i c \<and> ckpt_due s self sclk last_clk i' c' \<and> c_vhdr c = c_vhdr c' \<longrightarrow> i = i')"

definition ckpt_used :: "nat \<Rightarrow> sys \<Rightarrow> nat" where
  "ckpt_used self s = (case thrs s self of Some th \<Rightarrow> unat (nvlog_used (ckptlog th)) | None \<Rightarrow> 0)"

text \<open>Nothing that the thread of a reader needs is changed.\<close>

definition rdr_same :: "sys \<Rightarrow> sys \<Rightarrow> bool" where
  "rdr_same s s' \<longleftrightarrow> acts s' = acts s \<and>
     (\<forall>t. map_option (\<lambda>rt. (local_clk rt, last_ckpt (clks rt))) (thrs s' t) = map_option (\<lambda>rt. (local_clk rt, last_ckpt (clks rt))) (thrs s t))"

text \<open>A reader with the clocks \<open>lclk\<close> and \<open>rl\<close> reads what it read.\<close>

definition same_reads :: "u64 \<Rightarrow> u64 \<Rightarrow> sys \<Rightarrow> sys \<Rightarrow> bool" where
  "same_reads lclk rl s s' \<longleftrightarrow>
     (\<forall>t rt a d. thrs s t = Some rt \<and> local_clk rt = lclk \<and> last_ckpt (clks rt) = rl \<and> tx_reads s t a = Some d \<longrightarrow> tx_reads s' t a = Some d)"

text \<open>The state after the version at \<open>i\<close> of object \<open>v\<close> was checkpointed at index \<open>j\<close> of the log \<open>l\<close>.\<close>

definition ckpt_result :: "nat \<Rightarrow> u32 \<Rightarrow> nat \<Rightarrow> act_vhdr \<Rightarrow> u32 \<Rightarrow> log \<Rightarrow> sys \<Rightarrow> sys" where
  "ckpt_result self i v h j l s =
     (let s = upd_chs self i (\<lambda>c. c\<lparr>c_status := STATUS_DETACHED\<rparr>) (upd_vhdr v (\<lambda>h. h\<lparr>np_cur_act := Ckpt self j\<rparr>) (upd_ckptlog self (\<lambda>_. l) s))
      in if p_copy h \<noteq> Cpy self i then s else upd_vhdr v (\<lambda>h. h\<lparr>p_copy := Null\<rparr>) s)"

lemma deref_result: "deref_chain s lclk last_clk p = Some q \<Longrightarrow> q = Null \<or> (\<exists>t i. q = Cpy t i)"
  by (induction s lclk last_clk p q rule: deref_chain.raw_induct [rotated, consumes 1, case_names 1])
    (auto simp: cpy_of_def split: bind_splits if_splits ptr.splits, blast)

lemma ckpt_result_reads:
  fixes i j :: u32 and l :: log
  assumes "thrs s self = Some th" "vhdrs s v = Some h"
  defines "s' \<equiv> ckpt_result self i v h j l s"
  shows "acts s' = acts s"
    "vhdrs s' u = (if u = v then Some (h\<lparr>np_cur_act := Ckpt self j, p_copy := (if p_copy h = Cpy self i then Null else p_copy h)\<rparr>) else vhdrs s u)"
    "get_chs s' t k = (if t = self \<and> k = i then map_option (\<lambda>c. c\<lparr>c_status := STATUS_DETACHED\<rparr>) (get_chs s self i) else get_chs s t k)"
    "\<exists>m. thrs s' self = Some (th\<lparr>ckptlog := l, tvlog := (tvlog th)\<lparr>tv_mem := m\<rparr>\<rparr>)" "t \<noteq> self \<Longrightarrow> thrs s' t = thrs s t"
proof -
  show "acts s' = acts s" "vhdrs s' u = (if u = v then Some (h\<lparr>np_cur_act := Ckpt self j, p_copy := (if p_copy h = Cpy self i then Null else p_copy h)\<rparr>) else vhdrs s u)"
    using assms(2) by (auto simp: s'_def ckpt_result_def Let_def store_simps)
  have "get_chs (upd_ckptlog self (\<lambda>_. l) s) t k = get_chs s t k" for t k by (simp add: get_chs_upd_thr)
  then show "get_chs s' t k = (if t = self \<and> k = i then map_option (\<lambda>c. c\<lparr>c_status := STATUS_DETACHED\<rparr>) (get_chs s self i) else get_chs s t k)"
    by (auto simp: s'_def ckpt_result_def Let_def get_chs_upd_vhdr get_chs_upd_chs)
  show "\<exists>m. thrs s' self = Some (th\<lparr>ckptlog := l, tvlog := (tvlog th)\<lparr>tv_mem := m\<rparr>\<rparr>)" "t \<noteq> self \<Longrightarrow> thrs s' t = thrs s t"
    using assms(1) by (auto simp: s'_def ckpt_result_def Let_def upd_vhdr_def upd_chs_def upd_tvlog_def upd_thr_def)
qed

lemma ckpt_result_same:
  assumes "thrs s self = Some th" "vhdrs s v = Some h"
  shows "chs_same s (ckpt_result self i v h j l s)" "rdr_same s (ckpt_result self i v h j l s)"
proof -
  note r = ckpt_result_reads [OF assms]
  show "chs_same s (ckpt_result self i v h j l s)" by (auto simp: chs_same_def r(3) option.map_comp comp_def)
  have "map_option (\<lambda>rt. (local_clk rt, last_ckpt (clks rt))) (thrs (ckpt_result self i v h j l s) t) =
      map_option (\<lambda>rt. (local_clk rt, last_ckpt (clks rt))) (thrs s t)" for t
    using r(4,5) [where i = i and j = j and l = l] assms(1) by (cases "t = self") fastforce+
  then show "rdr_same s (ckpt_result self i v h j l s)" by (simp add: rdr_same_def r(1))
qed

text \<open>Readers that are not older than the checkpoint clock see the same bytes of every object.\<close>

lemma ckpt_result_keeps_reads:
  assumes th: "thrs s self = Some th" and due: "ckpt_due s self sclk last_clk i c" and v: "c_vhdr c = Some v" "vhdrs s v = Some h"
    and ch: "reaches s rl (p_copy h) self i" and cl: "sclk \<le> lclk"
    and body: "c_body c = Data d" "map_option e_body (nvlog_mem l j) = Some (Some (CkBody ck))" "ck_data ck = d"
    and live: "\<And>u g k. vhdrs s u = Some g \<Longrightarrow> np_cur_act g = Ckpt self k \<Longrightarrow> nvlog_mem l k = nvlog_mem (ckptlog th) k"
  shows "same_reads lclk rl s (ckpt_result self i v h j l s)"
  unfolding same_reads_def
proof (intro allI impI)
  fix t rt a x
  assume a: "thrs s t = Some rt \<and> local_clk rt = lclk \<and> last_ckpt (clks rt) = rl \<and> tx_reads s t a = Some x"
  let ?s = "ckpt_result self i v h j l s"
  note r = ckpt_result_reads [OF th v(2), where i = i and j = j and l = l]
  have same: "chs_same s ?s" by (rule ckpt_result_same(1) [OF th v(2)])
  have "map_option (\<lambda>rt. (local_clk rt, last_ckpt (clks rt))) (thrs ?s t) = Some (lclk, rl)"
    using ckpt_result_same(2) [OF th v(2), where i = i and j = j and l = l] a by (simp add: rdr_same_def)
  then obtain rt' where rt': "thrs ?s t = Some rt'" "local_clk rt' = lclk" "last_ckpt (clks rt') = rl" by auto
  obtain m where th': "thrs ?s self = Some (th\<lparr>ckptlog := l, tvlog := (tvlog th)\<lparr>tv_mem := m\<rparr>\<rparr>)" using r(4) by blast
  obtain ao where ao: "acts s a = Some ao" using a tx_reads_none by (cases "acts s a") auto
  then have ao': "acts ?s a = Some ao" by (simp add: r(1))
  show "tx_reads ?s t a = Some x"
  proof (cases "a_type ao = TYPE_ACTUAL \<and> a_vhdr ao \<noteq> None")
    case False
    then show ?thesis using a rt'(1) tx_reads_master [OF ao] tx_reads_master [OF ao'] by auto
  next
    case True
    then obtain u where u: "a_type ao = TYPE_ACTUAL" "a_vhdr ao = Some u" by auto
    obtain g q where q: "vhdrs s u = Some g" "deref_chain s lclk rl (p_copy g) = Some q" "obj_data s (if q \<noteq> Null then q else np_cur_act g) = Some x"
      using a tx_reads_chain [OF ao u] by (auto split: bind_splits)
    note q' = chs_same_deref [OF q(2) same]
    have data: "obj_data ?s (if q \<noteq> Null then q else np_cur_act g) = Some x" if "q \<noteq> Null \<longrightarrow> (\<exists>t k. q = Cpy t k)"
    proof (cases "if q \<noteq> Null then q else np_cur_act g")
      case (Cpy t' k)
      then show ?thesis using q(3) chs_same_data [OF same] by simp
    next
      case (Ckpt t' k)
      moreover from this that have "np_cur_act g = Ckpt t' k" by (auto split: if_splits)
      moreover have "get_ckpt ?s t' k = get_ckpt s t' k"
        using live [OF q(1)] calculation th th' r(5) by (cases "t' = self") (auto simp: get_ckpt_def)
      ultimately show ?thesis using q(3) by (auto simp: obj_data_def)
    qed (use q(3) r(1) in \<open>auto simp: obj_data_def\<close>)
    have clk: "get_chs s self i = Some c" "c_wrt_clk c \<noteq> MAX_VERSION" "lt_clock (c_wrt_clk c) lclk"
      using due cl max_version_not_lt
      by (auto simp: ckpt_due_def is_at_borderline_def get_raw_wrt_clk_def lt_clock_nat word_le_nat_alt split: if_splits)
    show ?thesis
    proof (cases "u = v \<and> p_copy h = Cpy self i")
      case True
      then have "g = h" using q(1) v(2) by simp
      then have "q = Cpy self i" using q(2) True reaches_newest [OF clk] by simp
      then have "x = d" using q(3) body(1) clk(1) by (simp add: obj_data_def)
      moreover have "deref_chain ?s lclk rl Null = Some Null" by (subst deref_chain.simps) simp
      moreover have "obj_data ?s (Ckpt self j) = Some d" using th' body by (auto simp: obj_data_def get_ckpt_def)
      ultimately show ?thesis using tx_reads_chain [OF ao' u] rt' True r(2) [of v] by simp
    next
      case False
      have nn: "q \<noteq> Null \<and> (\<exists>t k. q = Cpy t k)" if "u = v" using deref_reaches [OF ch clk] q(1,2) v(2) that by auto
      have ex: "q \<noteq> Null \<longrightarrow> (\<exists>t k. q = Cpy t k)" using deref_result [OF q(2)] by auto
      show ?thesis using tx_reads_chain [OF ao' u] rt' r(2) [of u] False q(1) q' data [OF ex] nn v(2) by auto
    qed
  qed
qed

lemma same_readsI_refl [simp]: "same_reads lclk rl s s"
  by (simp add: same_reads_def)

lemma same_reads_trans:
  assumes "same_reads lclk rl s s1" "rdr_same s s1" "same_reads lclk rl s1 s2"
  shows "same_reads lclk rl s s2"
  unfolding same_reads_def
proof (intro allI impI)
  fix t rt a d
  assume a: "thrs s t = Some rt \<and> local_clk rt = lclk \<and> last_ckpt (clks rt) = rl \<and> tx_reads s t a = Some d"
  have "map_option (\<lambda>rt. (local_clk rt, last_ckpt (clks rt))) (thrs s1 t) = Some (lclk, rl)" using a assms(2) by (simp add: rdr_same_def)
  then obtain rt1 where "thrs s1 t = Some rt1" "local_clk rt1 = lclk" "last_ckpt (clks rt1) = rl" by auto
  moreover have "tx_reads s1 t a = Some d" using a assms(1) by (auto simp: same_reads_def)
  ultimately show "tx_reads s2 t a = Some d" using assms(3) by (auto simp: same_reads_def)
qed

lemma rdr_same_trans: "rdr_same s s1 \<Longrightarrow> rdr_same s1 s2 \<Longrightarrow> rdr_same s s2"
  by (simp add: rdr_same_def)

text \<open>What a step of the loop keeps.\<close>

definition ckpt_keeps :: "nat \<Rightarrow> u64 \<Rightarrow> u64 \<Rightarrow> sys \<Rightarrow> sys \<Rightarrow> bool" where
  "ckpt_keeps self lclk rl s s' \<longleftrightarrow> same_reads lclk rl s s' \<and> chs_same s s' \<and> rdr_same s s'"

lemma ckpt_keeps_refl [simp]: "ckpt_keeps self lclk rl s s"
  by (simp add: ckpt_keeps_def rdr_same_def)

lemma ckpt_keeps_trans: "ckpt_keeps self lclk rl s s1 \<Longrightarrow> ckpt_keeps self lclk rl s1 s2 \<Longrightarrow> ckpt_keeps self lclk rl s s2"
  unfolding ckpt_keeps_def using same_reads_trans chs_same_trans rdr_same_trans by blast

lemma ckpt_body_due:
  assumes inv: "ckpt_inv self sclk last_clk rl n s" and due: "ckpt_due s self sclk last_clk i c" and cl: "sclk \<le> lclk"
    and room: "ckpt_used self s + ckpt_cost c \<le> unat n"
  obtains x' s' where "reclaim_step2_body self RECLAIM_TVLOG_CKPT sclk last_clk wclk i c (x, s) = Some (False, x', s')"
    "ckpt_inv self sclk last_clk rl n s'" "ckpt_keeps self lclk rl s s'" "ckpt_used self s' \<le> ckpt_used self s + ckpt_cost c"
    "\<And>k. k \<noteq> i \<Longrightarrow> get_chs s' self k = get_chs s self k" "\<And>d. \<not> ckpt_due s' self sclk last_clk i d"
proof -
  obtain th where th: "thrs s self = Some th" "nvlog_wf (ckptlog th)" "log_size (ckptlog th) = n"
      "\<And>v h j. vhdrs s v = Some h \<Longrightarrow> np_cur_act h = Ckpt self j \<Longrightarrow> nvlog_live (ckptlog th) j"
    using inv unfolding ckpt_inv_def by blast
  have fit: "ckpt_fit s self rl i c n" using inv due unfolding ckpt_inv_def by blast
  then obtain v h d where f: "unat (ckpt_size c) + 79 < 2 ^ 32" "ucast (entry_size_of (ckpt_size c)) < n"
      "c_body c = Data d" "length d = unat (c_obj_size c)" "c_vhdr c = Some v" "vhdrs s v = Some h" "reaches s rl (p_copy h) self i"
    unfolding ckpt_fit_def by (auto split: chs_body.splits)
  let ?ck = "\<lparr>ckpt_s_clk = sclk, ck_np_org_act = np_org_act h, ck_tombstone = False, ck_obj_size = c_obj_size c, ck_type = TYPE_NVLOG_ENTRY, ck_data = d\<rparr>"
  have g: "get_chs s self i = Some c" "c_type c = TYPE_COPY" "c_status c \<noteq> STATUS_DETACHED" "is_at_borderline c sclk last_clk"
    using due by (simp_all add: ckpt_due_def)
  have room': "unat (nvlog_used (ckptlog th)) + 2 * unat (entry_size_of (ckpt_size c)) \<le> unat (log_size (ckptlog th))"
    using room th(1,3) by (simp add: ckpt_used_def ckpt_cost_def)
  obtain j l1 where e: "nvlog_enq (ckptlog th) (ckpt_size c) = (Some j, l1)" "nvlog_wf (nvlog_fill j wclk (CkBody ?ck) l1)"
      "log_size (nvlog_fill j wclk (CkBody ?ck) l1) = log_size (ckptlog th)"
      "unat (nvlog_used (nvlog_fill j wclk (CkBody ?ck) l1)) \<le> unat (nvlog_used (ckptlog th)) + 2 * unat (entry_size_of (ckpt_size c))"
      "nvlog_live (nvlog_fill j wclk (CkBody ?ck) l1) j"
      "map_option e_body (nvlog_mem (nvlog_fill j wclk (CkBody ?ck) l1) j) = Some (Some (CkBody ?ck))"
      "\<And>k. nvlog_live (ckptlog th) k \<Longrightarrow> nvlog_live (nvlog_fill j wclk (CkBody ?ck) l1) k \<and>
         nvlog_mem (nvlog_fill j wclk (CkBody ?ck) l1) k = nvlog_mem (ckptlog th) k"
    using enq_fill_live [OF th(2) f(1) f(2) [folded th(3)] room', of wclk "CkBody ?ck"] by metis
  define l where "l = nvlog_fill j wclk (CkBody ?ck) l1"
  note e' = e(2-7) [folded l_def]
  let ?s = "ckpt_result self i v h j l s"
  note r = ckpt_result_reads [OF th(1) f(6), where i = i and j = j and l = l]
  have "ckptlog_enq self wclk sclk self i s = Some (j, upd_vhdr v (\<lambda>h. h\<lparr>np_cur_act := Ckpt self j\<rparr>) (upd_ckptlog self (\<lambda>_. l) s))"
    using g f th(1) e(1) by (simp add: ckptlog_enq_def ckptlog_enq_x_def ckpt_size_def l_def)
  moreover have "get_chs (upd_ckptlog self (\<lambda>_. l) s) self i = Some c" using g(1) by (simp add: get_chs_upd_thr)
  then have "try_detach_obj self i (upd_vhdr v (\<lambda>h. h\<lparr>np_cur_act := Ckpt self j\<rparr>) (upd_ckptlog self (\<lambda>_. l) s)) = Some ?s"
    using f(5,6) by (auto simp: try_detach_obj_def ckpt_result_def Let_def get_chs_upd_chs get_chs_upd_vhdr upd_chs_other store_simps)
  ultimately have body: "reclaim_step2_body self RECLAIM_TVLOG_CKPT sclk last_clk wclk i c (x, s) =
      Some (False, (True, snd x + ucast (sizeof_chs c)), ?s)"
    using g(2-4) by (cases x) (simp add: reclaim_step2_body_def)
  obtain m where th': "thrs ?s self = Some (th\<lparr>ckptlog := l, tvlog := (tvlog th)\<lparr>tv_mem := m\<rparr>\<rparr>)" using r(4) by blast
  have keeps: "ckpt_keeps self lclk rl s ?s"
    unfolding ckpt_keeps_def using ckpt_result_same [OF th(1) f(6)] ckpt_result_keeps_reads [OF th(1) due f(5-7) cl f(3) e'(5)] e'(6) th(4)
    by auto
  have old: "i' \<noteq> i \<and> ckpt_due s self sclk last_clk i' c'" if "ckpt_due ?s self sclk last_clk i' c'" for i' c'
    using that g(1) by (auto simp: ckpt_due_def r(3) split: if_splits)
  have fit': "ckpt_fit ?s self rl i' c' n" if "ckpt_due ?s self sclk last_clk i' c'" for i' c'
  proof -
    have "c_vhdr c' \<noteq> Some v" using old [OF that] inv due f(5) unfolding ckpt_inv_def by metis
    moreover have "ckpt_fit s self rl i' c' n" using old [OF that] inv unfolding ckpt_inv_def by blast
    ultimately show ?thesis using reaches_same [OF _ ckpt_result_same(1) [OF th(1) f(6)]] unfolding ckpt_fit_def r(2) by auto
  qed
  have "ckpt_inv self sclk last_clk rl n ?s"
    unfolding ckpt_inv_def
  proof (intro conjI)
    show "\<exists>th. thrs ?s self = Some th \<and> nvlog_wf (ckptlog th) \<and> log_size (ckptlog th) = n \<and>
        (\<forall>v h j. vhdrs ?s v = Some h \<and> np_cur_act h = Ckpt self j \<longrightarrow> nvlog_live (ckptlog th) j)"
      using th' th(3,4) e'(1,2,4,6) by (auto simp: r(2) split: if_splits)
  qed (use fit' old inv in \<open>unfold ckpt_inv_def, blast+\<close>)
  moreover have "ckpt_used self ?s \<le> ckpt_used self s + ckpt_cost c" using th' th(1) e'(3) by (simp add: ckpt_used_def ckpt_cost_def)
  ultimately show thesis using that [OF body] keeps r(3) old by auto
qed

section \<open>The loops over the write sets\<close>

definition ckpt_costs :: "chs list \<Rightarrow> nat" where
  "ckpt_costs es = sum_list (map ckpt_cost es)"

lemma ckpt_costs_simps [simp]:
  "ckpt_costs [] = 0" "ckpt_costs (e # es) = ckpt_cost e + ckpt_costs es" "ckpt_costs (es @ fs) = ckpt_costs es + ckpt_costs fs"
  by (simp_all add: ckpt_costs_def)

text \<open>The copies at the positions \<open>ps\<close> have been dealt with, and only they were touched.\<close>

definition ckpt_done :: "nat \<Rightarrow> u64 \<Rightarrow> u64 \<Rightarrow> u32 set \<Rightarrow> sys \<Rightarrow> sys \<Rightarrow> bool" where
  "ckpt_done self sclk last_clk ps s s' \<longleftrightarrow>
     (\<forall>k. k \<notin> ps \<longrightarrow> get_chs s' self k = get_chs s self k) \<and> (\<forall>k\<in>ps. \<forall>d. \<not> ckpt_due s' self sclk last_clk k d)"

lemma ckpt_done_Un:
  "ckpt_done self sclk last_clk ps s s1 \<Longrightarrow> ckpt_done self sclk last_clk qs s1 s2 \<Longrightarrow> ps \<inter> qs = {} \<Longrightarrow> ckpt_done self sclk last_clk (ps \<union> qs) s s2"
  unfolding ckpt_done_def ckpt_due_def by (metis (no_types, lifting) Un_iff disjoint_iff)

lemma ckpt_body:
  assumes inv: "ckpt_inv self sclk last_clk rl n s" and c: "get_chs s self i = Some c" and cl: "sclk \<le> lclk"
    and room: "ckpt_used self s + ckpt_cost c \<le> unat n"
  obtains x' s' where "reclaim_step2_body self RECLAIM_TVLOG_CKPT sclk last_clk wclk i c (x, s) = Some (False, x', s')"
    "ckpt_inv self sclk last_clk rl n s'" "ckpt_keeps self lclk rl s s'" "ckpt_used self s' \<le> ckpt_used self s + ckpt_cost c"
    "ckpt_done self sclk last_clk {i} s s'"
proof (cases "ckpt_due s self sclk last_clk i c")
  case True
  from inv this cl room show thesis by (rule ckpt_body_due [where wclk = wclk and x = x]) (rule that, auto simp: ckpt_done_def)
next
  case False
  then have "reclaim_step2_body self RECLAIM_TVLOG_CKPT sclk last_clk wclk i c (x, s) = Some (False, x, s)"
    using c by (cases x) (auto simp: reclaim_step2_body_def ckpt_due_def)
  then show thesis using that inv False c by (auto simp: ckpt_done_def ckpt_due_def)
qed

lemma ckpt_each:
  "ckpt_inv self sclk last_clk rl n s \<Longrightarrow> wtiles (get_chs s self) c es \<Longrightarrow> distinct (wpos c es) \<Longrightarrow> sclk \<le> lclk \<Longrightarrow>
   ckpt_used self s + ckpt_costs es \<le> unat n \<Longrightarrow>
   \<exists>x' s'. ws_for_each self (reclaim_step2_body self RECLAIM_TVLOG_CKPT sclk last_clk wclk) (length es) c (x, s) = Some (False, c + of_nat (csizes es), x', s') \<and>
     ckpt_inv self sclk last_clk rl n s' \<and> ckpt_keeps self lclk rl s s' \<and> ckpt_used self s' \<le> ckpt_used self s + ckpt_costs es \<and>
     ckpt_done self sclk last_clk (set (wpos c es)) s s'"
proof (induction es arbitrary: c s x)
  case Nil
  then show ?case by (simp add: ckpt_done_def)
next
  case (Cons e es)
  let ?i = "tvlog_index c" and ?c = "c + of_nat (csz e)"
  have g: "get_chs s self ?i = Some e" using Cons.prems(2) by simp
  have r: "ckpt_used self s + ckpt_cost e \<le> unat n" using Cons.prems(5) by simp
  obtain x1 s1 where b: "reclaim_step2_body self RECLAIM_TVLOG_CKPT sclk last_clk wclk ?i e (x, s) = Some (False, x1, s1)"
      "ckpt_inv self sclk last_clk rl n s1" "ckpt_keeps self lclk rl s s1" "ckpt_used self s1 \<le> ckpt_used self s + ckpt_cost e"
      "ckpt_done self sclk last_clk {?i} s s1"
    by (rule ckpt_body [OF Cons.prems(1) g Cons.prems(4) r])
  obtain e1 where e1: "get_chs s1 self ?i = Some e1" "csz e1 = csz e" using b(3) g unfolding ckpt_keeps_def by (metis chs_sameD)
  have "\<forall>j\<in>set (wpos ?c es). get_chs s1 self j = get_chs s self j"
    using Cons.prems(3) b(5) unfolding ckpt_done_def wpos.simps distinct.simps(2) by (metis singletonD)
  then have w: "wtiles (get_chs s1 self) ?c es" using Cons.prems(2) wtiles_cong by auto
  have d: "distinct (wpos ?c es)" and u: "ckpt_used self s1 + ckpt_costs es \<le> unat n" using Cons.prems(3,5) b(4) by simp_all
  obtain x2 s2 where s2: "ws_for_each self (reclaim_step2_body self RECLAIM_TVLOG_CKPT sclk last_clk wclk) (length es) ?c (x1, s1) =
        Some (False, ?c + of_nat (csizes es), x2, s2)" "ckpt_inv self sclk last_clk rl n s2" "ckpt_keeps self lclk rl s1 s2"
      "ckpt_used self s2 \<le> ckpt_used self s1 + ckpt_costs es" "ckpt_done self sclk last_clk (set (wpos ?c es)) s1 s2"
    using Cons.IH [OF b(2) w d Cons.prems(4) u, of x1] by blast
  have "ws_iter_next c e1 = ?c" using e1(2) by (simp add: ws_iter_next_def ucast_entry_size)
  then have "ws_for_each self (reclaim_step2_body self RECLAIM_TVLOG_CKPT sclk last_clk wclk) (length (e # es)) c (x, s) =
      Some (False, c + of_nat (csizes (e # es)), x2, s2)" using g b(1) e1(1) s2(1) by (simp add: algebra_simps)
  moreover have "ckpt_done self sclk last_clk (set (wpos c (e # es))) s s2" using ckpt_done_Un [OF b(5) s2(5)] Cons.prems(3) by simp
  ultimately show ?case using s2(2,4) b(4) ckpt_keeps_trans [OF b(3) s2(3)] by auto
qed

text \<open>The log as a sequence of write sets.\<close>

fun log_sets :: "(u32 \<rightharpoonup> chs) \<Rightarrow> u64 \<Rightarrow> (chs \<times> wrt_set \<times> chs list) list \<Rightarrow> bool" where
  "log_sets m c [] \<longleftrightarrow> True"
| "log_sets m c ((h, ws, es) # wss) \<longleftrightarrow>
     wtiles m c (h # es) \<and> c_body h = Ws ws \<and> start_tail_cnt ws = c \<and> unat (num_objs ws) = length es \<and>
     log_sets m (c + of_nat (csizes (h # es))) wss"

definition set_entries :: "(chs \<times> wrt_set \<times> chs list) list \<Rightarrow> chs list" where
  "set_entries wss = concat (map (\<lambda>(h, ws, es). h # es) wss)"

lemma set_entries_simps [simp]:
  "set_entries [] = []" "set_entries ((h, ws, es) # wss) = (h # es) @ set_entries wss"
  by (simp_all add: set_entries_def)

lemma log_sets_cong: "\<forall>j\<in>set (wpos c (set_entries wss)). m' j = m j \<Longrightarrow> log_sets m c wss \<Longrightarrow> log_sets m' c wss"
proof (induction wss arbitrary: c)
  case (Cons x wss)
  obtain h ws es where x: "x = (h, ws, es)" by (cases x)
  have p: "set (wpos c (set_entries (x # wss))) = set (wpos c (h # es)) \<union> set (wpos (c + of_nat (csizes (h # es))) (set_entries wss))"
    unfolding x set_entries_simps wpos_append by (simp only: set_append)
  have "wtiles m' c (h # es)" using Cons.prems(1)  Cons.prems(2) [unfolded x log_sets.simps] wtiles_cong [of c "h # es" m' m] unfolding p by blast
  moreover have "log_sets m' (c + of_nat (csizes (h # es))) wss" using Cons.prems(1) Cons.prems(2) [unfolded x log_sets.simps] Cons.IH unfolding p by blast
  ultimately show ?case using Cons.prems(2) x by simp
qed simp

abbreviation set_due :: "u64 \<Rightarrow> chs \<times> wrt_set \<times> chs list \<Rightarrow> bool" where
  "set_due sclk \<equiv> \<lambda>(h, ws, es). lt_clock (ws_wrt_clk ws) sclk"

lemma wpos_takeWhile: "set (wpos c (set_entries (takeWhile P wss))) \<subseteq> set (wpos c (set_entries wss))"
proof -
  have "set_entries wss = set_entries (takeWhile P wss) @ set_entries (dropWhile P wss)"
    unfolding set_entries_def map_append [symmetric] concat_append [symmetric] by simp
  then show ?thesis by (metis Un_upper1 set_append wpos_append)
qed

lemma ckpt_set:
  assumes inv: "ckpt_inv self sclk last_clk rl n s" and w: "wtiles (get_chs s self) c (h # es)" "c_body h = Ws ws" "start_tail_cnt ws = c" "unat (num_objs ws) = length es"
    and d: "distinct (wpos c (h # es))" and cl: "sclk \<le> lclk" and room: "ckpt_used self s + ckpt_costs es \<le> unat n"
    and hd: "\<not> is_copy h"
  shows "\<exists>x' s'. ws_loop self (tvlog_index c) (reclaim_step2_body self RECLAIM_TVLOG_CKPT sclk last_clk wclk) (x, s) =
        Some (False, c + of_nat (csizes (h # es)), x', s') \<and>
     ckpt_inv self sclk last_clk rl n s' \<and> ckpt_keeps self lclk rl s s' \<and> ckpt_used self s' \<le> ckpt_used self s + ckpt_costs es \<and>
     ckpt_done self sclk last_clk (set (wpos c (h # es))) s s'"
proof -
  let ?c = "c + of_nat (csz h)"
  have t: "wtiles (get_chs s self) ?c es" "distinct (wpos ?c es)" "get_chs s self (tvlog_index c) = Some h" using w(1) d by simp_all
  obtain x' s' where e: "ws_for_each self (reclaim_step2_body self RECLAIM_TVLOG_CKPT sclk last_clk wclk) (length es) ?c (x, s) =
        Some (False, ?c + of_nat (csizes es), x', s')" "ckpt_inv self sclk last_clk rl n s'" "ckpt_keeps self lclk rl s s'"
      "ckpt_used self s' \<le> ckpt_used self s + ckpt_costs es" "ckpt_done self sclk last_clk (set (wpos ?c es)) s s'"
    using ckpt_each [OF inv t(1,2) cl room] by blast
  have "get_ws s self (tvlog_index c) = Some ws" using t(3) w(2) by (simp add: get_ws_def)
  then have "ws_loop self (tvlog_index c) (reclaim_step2_body self RECLAIM_TVLOG_CKPT sclk last_clk wclk) (x, s) =
      Some (False, c + of_nat (csizes (h # es)), x', s')"
    using t(3) w(3,4) e(1) by (simp add: ws_loop_def ws_iter_begin_def ucast_entry_size algebra_simps)
  moreover have "ckpt_done self sclk last_clk (set (wpos c (h # es))) s s'"
    using e(5) d t(3) hd by (auto simp: ckpt_done_def ckpt_due_def)
  ultimately show ?thesis using e(2-4) by blast
qed

lemma ckpt_sets:
  "ckpt_inv self sclk last_clk rl n s \<Longrightarrow> log_sets (get_chs s self) c wss \<Longrightarrow> distinct (wpos c (set_entries wss)) \<Longrightarrow>
   \<forall>(h, ws, es)\<in>set wss. \<not> is_copy h \<Longrightarrow> sclk \<le> lclk \<Longrightarrow> ckpt_used self s + ckpt_costs (set_entries wss) \<le> unat n \<Longrightarrow>
   unat c + csizes (set_entries wss) = unat tail \<Longrightarrow> length wss < fuel \<Longrightarrow>
   \<exists>x' s'. tvlog_reclaim_step2 self RECLAIM_TVLOG_CKPT sclk last_clk tail fuel c (x, s) =
        Some (c + of_nat (csizes (set_entries (takeWhile (set_due sclk) wss))), x', s') \<and>
     ckpt_inv self sclk last_clk rl n s' \<and> ckpt_keeps self lclk rl s s' \<and>
     ckpt_done self sclk last_clk (set (wpos c (set_entries (takeWhile (set_due sclk) wss)))) s s'"
proof (induction wss arbitrary: c s x fuel)
  case Nil
  then obtain f where "fuel = Suc f" by (cases fuel) auto
  with Nil show ?case by (simp add: ckpt_done_def word_less_nat_alt)
next
  case (Cons y wss)
  obtain h ws es where y: "y = (h, ws, es)" by (cases y)
  obtain f where f: "fuel = Suc f" using Cons.prems(8) by (cases fuel) auto
  let ?c = "c + of_nat (csizes (h # es))"
  note p = Cons.prems(2) [unfolded y log_sets.simps]
  have g: "get_chs s self (tvlog_index c) = Some h" using p by simp
  then have gw: "get_ws s self (tvlog_index c) = Some ws" using p by (simp add: get_ws_def)
  have "c < tail" using Cons.prems(7) p y by (simp add: word_less_nat_alt)
  show ?case
  proof (cases "lt_clock (ws_wrt_clk ws) sclk")
    case False
    then show ?thesis using Cons.prems(1) f \<open>c < tail\<close> gw y by (simp add: gte_clock_def lt_clock_def ckpt_done_def)
  next
    case True
    have wp: "wpos c (set_entries (y # wss)) = wpos c (h # es) @ wpos ?c (set_entries wss)"
      unfolding y set_entries_simps wpos_append by simp
    have d: "distinct (wpos c (h # es))" "distinct (wpos ?c (set_entries wss))" "set (wpos c (h # es)) \<inter> set (wpos ?c (set_entries wss)) = {}"
      using Cons.prems(3) unfolding wp by (simp_all only: distinct_append)
    have room: "ckpt_used self s + ckpt_costs es \<le> unat n" and hd: "\<not> is_copy h" using Cons.prems(4,6) y by auto
    obtain x1 s1 where s1: "ws_loop self (tvlog_index c) (reclaim_step2_body self RECLAIM_TVLOG_CKPT sclk last_clk (ws_wrt_clk ws)) (x, s) =
        Some (False, ?c, x1, s1)" "ckpt_inv self sclk last_clk rl n s1" "ckpt_keeps self lclk rl s s1" "ckpt_used self s1 \<le> ckpt_used self s + ckpt_costs es"
        "ckpt_done self sclk last_clk (set (wpos c (h # es))) s s1"
      using ckpt_set [OF Cons.prems(1) _ _ _ _ d(1) Cons.prems(5) room hd] p by blast
    have "\<forall>j\<in>set (wpos ?c (set_entries wss)). get_chs s1 self j = get_chs s self j" using s1(5) d(3) unfolding ckpt_done_def by blast
    then have ls: "log_sets (get_chs s1 self) ?c wss" using p log_sets_cong by blast
    have un: "unat ?c = unat c + csizes (h # es)"
    proof -
      have "unat c + csizes (h # es) < 2 ^ 64" using Cons.prems(7) y unsigned_less [of tail, where ?'a = nat] by simp
      then show ?thesis by (simp only: unat_word_ariths unat_of_nat) simp
    qed
    obtain x2 s2 where s2: "tvlog_reclaim_step2 self RECLAIM_TVLOG_CKPT sclk last_clk tail f ?c (x1, s1) =
          Some (?c + of_nat (csizes (set_entries (takeWhile (set_due sclk) wss))), x2, s2)" "ckpt_inv self sclk last_clk rl n s2" "ckpt_keeps self lclk rl s1 s2"
        "ckpt_done self sclk last_clk (set (wpos ?c (set_entries (takeWhile (set_due sclk) wss)))) s1 s2"
      using Cons.IH [OF s1(2) ls d(2) _ Cons.prems(5), of f x1] Cons.prems(4,6,7,8) y f s1(4) un by auto
    have tw: "takeWhile (set_due sclk) (y # wss) = y # takeWhile (set_due sclk) wss" using True y by simp
    have "set (wpos ?c (set_entries (takeWhile (set_due sclk) wss))) \<subseteq> set (wpos ?c (set_entries wss))" by (rule wpos_takeWhile)
    then have dj: "set (wpos c (h # es)) \<inter> set (wpos ?c (set_entries (takeWhile (set_due sclk) wss))) = {}" using d(3) by blast
    have "ws_wrt_clk ws \<noteq> MAX_VERSION" "\<not> gte_clock (ws_wrt_clk ws) sclk" using True max_version_not_lt by (auto simp: gte_clock_def lt_clock_def)
    then have "tvlog_reclaim_step2 self RECLAIM_TVLOG_CKPT sclk last_clk tail fuel c (x, s) =
        Some (c + of_nat (csizes (set_entries (takeWhile (set_due sclk) (y # wss)))), x2, s2)"
      using f \<open>c < tail\<close> gw s1(1) s2(1) unfolding tw by (simp add: y algebra_simps)
    moreover have "wpos c (set_entries (takeWhile (set_due sclk) (y # wss))) = wpos c (h # es) @ wpos ?c (set_entries (takeWhile (set_due sclk) wss))"
      unfolding tw by (simp only: y set_entries_simps wpos_append)
    ultimately show ?thesis using s2(2) ckpt_keeps_trans [OF s1(3) s2(3)] ckpt_done_Un [OF s1(5) s2(4) dj] by auto
  qed
qed

lemma log_sets_tiles: "log_sets m c wss \<Longrightarrow> wtiles m c (set_entries wss)"
proof (induction wss arbitrary: c)
  case (Cons y wss)
  obtain h ws es where y: "y = (h, ws, es)" by (cases y)
  show ?case using Cons unfolding y set_entries_simps log_sets.simps wtiles_append by blast
qed simp

text \<open>
  C5. Checkpointing is invisible to readers. The second loop of a reclamation that checkpoints
  returns, with room in the checkpoint log for the copies it meets; it stops at the first write set
  that is not older than the checkpoint clock; it leaves no copy in front of that to be
  checkpointed; and every transaction whose snapshot is not older than the checkpoint clock reads
  the same bytes of every object afterwards, also where its version has left the version chain and
  a checkpoint entry has taken its place.
\<close>

theorem tvlog_ckpt_keeps_reads:
  assumes "ckpt_inv self sclk last_clk rl n s" "sclk \<le> lclk"
    and "log_sets (get_chs s self) c wss" "\<forall>(h, ws, es)\<in>set wss. \<not> is_copy h" "csizes (set_entries wss) \<le> tv_size"
    and "unat c + csizes (set_entries wss) = unat tail" "length wss < fuel"
    and "ckpt_used self s + ckpt_costs (set_entries wss) \<le> unat n"
  defines "seen \<equiv> set_entries (takeWhile (set_due sclk) wss)"
  shows "\<exists>x' s'. tvlog_reclaim_step2 self RECLAIM_TVLOG_CKPT sclk last_clk tail fuel c (x, s) = Some (c + of_nat (csizes seen), x', s') \<and>
     (\<forall>i\<in>set (wpos c seen). \<forall>d. \<not> ckpt_due s' self sclk last_clk i d) \<and>
     (\<forall>t rt a d. thrs s t = Some rt \<and> local_clk rt = lclk \<and> last_ckpt (clks rt) = rl \<and> tx_reads s t a = Some d \<longrightarrow> tx_reads s' t a = Some d)"
proof -
  have "distinct (wpos c (set_entries wss))" by (rule wpos_distinct [OF log_sets_tiles [OF assms(3)] assms(5)])
  from ckpt_sets [OF assms(1,3) this assms(4,2,8,6,7)] show ?thesis
    unfolding seen_def ckpt_keeps_def same_reads_def ckpt_done_def by blast
qed

text \<open>Thread 3 has committed a version of object 5 at clock 5; thread 4 reads it at clock 100.\<close>

definition view_ws :: wrt_set where
  "view_ws = demo_wset\<lparr>ws_wrt_clk := 5\<rparr>"

definition view_hdr :: chs where
  "view_hdr = demo_hdr\<lparr>c_wrt_clk := 5, c_body := Ws view_ws\<rparr>"

definition view_copy :: chs where
  "view_copy = demo_locked\<lparr>c_wrt_clk := 5, wrt_clk_prev := MAX_VERSION\<rparr>"

definition view_head :: act_vhdr where
  "view_head = \<lparr>p_copy = Cpy 3 128, p_lock = Null, np_org_act = Act 9, np_cur_act = Act 9, tombstone_clk = MAX_VERSION\<rparr>"

definition view_act :: act_obj where
  "view_act = \<lparr>a_vhdr = Some 5, a_gen_id = 1, a_index = 0, a_obj_size = 8, a_type = TYPE_ACTUAL, a_data = replicate 8 1\<rparr>"

definition view_thread :: thread where
  "view_thread = demo_thread\<lparr>tvlog := demo_tvlog\<lparr>tv_tail_cnt := 192, tv_mem := [0 \<mapsto> view_hdr, 128 \<mapsto> view_copy]\<rparr>\<rparr>"

definition view_sys :: sys where
  "view_sys = demo_sys\<lparr>thrs := [3 \<mapsto> view_thread, 4 \<mapsto> demo_thread\<lparr>local_clk := 100\<rparr>], vhdrs := [5 \<mapsto> view_head],
     acts := [9 \<mapsto> view_act]\<rparr>"

lemma view_reads:
  "thrs view_sys 3 = Some view_thread" "thrs view_sys 4 = Some (demo_thread\<lparr>local_clk := 100\<rparr>)" "vhdrs view_sys v = (if v = 5 then Some view_head else None)"
  "get_chs view_sys 3 i = (if i = 128 then Some view_copy else if i = 0 then Some view_hdr else None)"
  "ckptlog view_thread = nvlog_load demo_big_store" "acts view_sys 9 = Some view_act" "a_type view_act = TYPE_ACTUAL" "a_vhdr view_act = Some 5"
  by (simp_all add: view_sys_def get_chs_def view_thread_def demo_thread_def view_act_def)

lemma view_sets:
  "log_sets (get_chs view_sys 3) 0 [(view_hdr, view_ws, [view_copy])]" "csizes (set_entries [(view_hdr, view_ws, [view_copy])]) = 192"
  "wpos 0 (set_entries [(view_hdr, view_ws, [view_copy])]) = [0, 128]" "\<not> is_copy view_hdr"
proof -
  have sz: "csz view_hdr = 128" "csz view_copy = 64"
    using demo_tx_sizes by (simp_all add: view_hdr_def view_copy_def csz_def get_entry_size_def)
  have ix: "tvlog_index 0 = 0" "tvlog_index 128 = 128" by (simp_all add: tvlog_index_ring ring_index_def)
  show "csizes (set_entries [(view_hdr, view_ws, [view_copy])]) = 192" "wpos 0 (set_entries [(view_hdr, view_ws, [view_copy])]) = [0, 128]"
    by (simp_all add: sz ix)
  show "\<not> is_copy view_hdr" by (simp add: view_hdr_def demo_hdr_def)
  show "log_sets (get_chs view_sys 3) 0 [(view_hdr, view_ws, [view_copy])]"
    by (simp add: view_reads sz ix) (simp add: view_hdr_def view_ws_def demo_wset_def new_wrt_set_def)
qed

lemma view_due: "ckpt_due view_sys 3 50 0 i c \<Longrightarrow> i = 128 \<and> c = view_copy"
  by (auto simp: ckpt_due_def view_reads view_sets(4) split: if_splits)

lemma view_inv: "ckpt_inv 3 50 0 0 TS_OPLOG_SIZE view_sys"
proof -
  have "ckpt_fit view_sys 3 0 128 view_copy TS_OPLOG_SIZE"
  proof -
    have "entry_size_of (ckpt_size view_copy) = 64" "unat (ckpt_size view_copy) = 40"
      by (simp_all add: ckpt_size_def view_copy_def demo_locked_def sizeof_ckpt_entry_hdr_def sizeof_obj_hdr_def entry_size_of_def
          align_uint_to_cacheline_def sizeof_nvlog_entry_hdr_def TS_CACHE_LINE_SIZE_def)
    moreover have "c_body view_copy = Data (replicate 8 7)" "c_obj_size view_copy = 8" "c_vhdr view_copy = Some 5" "p_copy view_head = Cpy 3 128"
      by (simp_all add: view_copy_def demo_locked_def view_head_def)
    ultimately show ?thesis by (simp add: ckpt_fit_def view_reads TS_OPLOG_SIZE_def) (rule reaches.here)
  qed
  moreover have "nvlog_wf (ckptlog view_thread)" "log_size (ckptlog view_thread) = TS_OPLOG_SIZE"
    using rep_wf [OF demo_big_rep] by (simp_all add: view_reads nvlog_load_def demo_big_store_def)
  ultimately show ?thesis unfolding ckpt_inv_def using view_reads(1,3) by (auto simp: view_head_def dest!: view_due split: if_splits)
qed

theorem tvlog_ckpt_keeps_reads_witness:
  "\<exists>x' s'. tvlog_reclaim_step2 3 RECLAIM_TVLOG_CKPT 50 0 192 2 0 ((False, 0), view_sys) = Some (192, x', s') \<and>
     (\<forall>d. \<not> ckpt_due s' 3 50 0 128 d) \<and> tx_reads s' 4 9 = Some (replicate 8 7)"
proof -
  let ?w = "[(view_hdr, view_ws, [view_copy])]"
  have tw: "takeWhile (set_due 50) ?w = ?w" by (simp add: view_ws_def clock_simps)
  have "ckpt_used 3 view_sys = 0"
    by (simp add: ckpt_used_def view_reads nvlog_load_def demo_big_store_def nvlog_used_def)
  moreover have "ckpt_costs (set_entries ?w) \<le> 1000"
    by (simp add: ckpt_cost_def ckpt_size_def view_copy_def view_hdr_def demo_hdr_def demo_locked_def sizeof_ckpt_entry_hdr_def sizeof_obj_hdr_def entry_size_of_def
          align_uint_to_cacheline_def sizeof_nvlog_entry_hdr_def TS_CACHE_LINE_SIZE_def)
  ultimately have room: "ckpt_used 3 view_sys + ckpt_costs (set_entries ?w) \<le> unat TS_OPLOG_SIZE" by (simp add: TS_OPLOG_SIZE_def)
  have rd: "tx_reads view_sys 4 9 = Some (replicate 8 7)"
  proof -
    have "c_wrt_clk view_copy = 5" "c_body view_copy = Data (replicate 8 7)" "p_copy view_head = Cpy 3 128"
      by (simp_all add: view_copy_def view_head_def demo_locked_def)
    moreover have "(5 :: u64) \<noteq> MAX_VERSION" "lt_clock 5 100" by (simp_all add: MAX_VERSION_def clock_simps)
    ultimately have "deref_chain view_sys 100 (last_ckpt (clks demo_thread)) (p_copy view_head) = Some (Cpy 3 128)" "obj_data view_sys (Cpy 3 128) = Some (replicate 8 7)"
      using reaches_newest [of view_sys 3 128 view_copy 100] by (simp_all add: view_reads obj_data_def)
    then show ?thesis unfolding tx_reads_chain [OF view_reads(6-8)] by (simp add: view_reads)
  qed
  have "last_ckpt (clks demo_thread) = 0" by (simp add: demo_thread_def zero_clks_def MIN_VERSION_def)
  then show ?thesis
    using tvlog_ckpt_keeps_reads [OF view_inv, of 100 0 ?w 192 2 "(False, 0)"] view_sets room rd view_reads(2) unfolding tw by fastforce
qed

end
