(* ===== verification/Snapshots.thy ===== *)
theory Snapshots
  imports TxEnd CkptView
begin

text \<open>
  What a commit means to the other transactions. All objects of the write set change for a reader
  at once, and only if the reader began after the commit: snapshot isolation, for whole calls of
  \<open>ts_end\<close> and \<open>ts_deref\<close> (\<open>src/lib/timestone.c\<close>).
\<close>

section \<open>Reading along committed versions\<close>

definition sees :: "u64 \<Rightarrow> nat \<times> u32 \<times> chs \<Rightarrow> bool" where
  "sees lclk = (\<lambda>(t, j, d). lt_clock (c_wrt_clk d) lclk)"

definition body_data :: "chs \<Rightarrow> bytes option" where
  "body_data d = (case c_body d of Data b \<Rightarrow> Some b | _ \<Rightarrow> None)"

lemma deref_committed:
  assumes "version_chain s last_clk p cs" "\<And>t j d. (t, j, d) \<in> set cs \<Longrightarrow> c_wrt_clk d \<noteq> MAX_VERSION"
  shows "deref_chain s lclk last_clk p = Some (case find (sees lclk) cs of None \<Rightarrow> Null | Some (t, j, d) \<Rightarrow> Cpy t j)"
proof -
  have vis: "is_visible s t d lclk = Some (sees lclk (t, j, d))" if "(t, j, d) \<in> set cs" for t j d
    using assms(2) [OF that] by (simp add: is_visible_def get_wrt_clk_def sees_def)
  have dw: "dropWhile (\<lambda>(t, j, d). is_visible s t d lclk = Some False) cs = dropWhile (\<lambda>x. \<not> sees lclk x) cs"
    using vis by (intro dropWhile_cong) auto
  have fd: "find (sees lclk) cs = (case dropWhile (\<lambda>x. \<not> sees lclk x) cs of [] \<Rightarrow> None | x # _ \<Rightarrow> Some x)"
    by (induction cs) auto
  have "\<forall>(t, j, d)\<in>set cs. is_visible s t d lclk \<noteq> None" using vis by auto
  from deref_chain_finds [OF assms(1) this] show ?thesis unfolding dw fd
    by (cases "dropWhile (\<lambda>x. \<not> sees lclk x) cs") (simp_all del: dropWhile_eq_Nil_conv split: prod.splits)
qed

lemma tx_reads_versions:
  assumes "acts s a = Some ao" "a_type ao = TYPE_ACTUAL" "a_vhdr ao = Some v" "vhdrs s v = Some hv" "thrs s t = Some rt"
    and "version_chain s (last_ckpt (clks rt)) (p_copy hv) cs" "chain_clocks MAX_VERSION cs"
  shows "tx_reads s t a = (case find (sees (local_clk rt)) cs of None \<Rightarrow> obj_data s (np_cur_act hv) | Some (u, j, d) \<Rightarrow> body_data d)"
proof -
  have "get_chs s u j = Some d" if "find (sees (local_clk rt)) cs = Some (u, j, d)" for u j d
    using that version_chain_get [OF assms(6)] by (auto simp: find_Some_iff)
  then show ?thesis
    unfolding tx_reads_chain [OF assms(1-3)] using assms(4,5) deref_committed [OF assms(6)] chain_clocks_committed [OF assms(7)]
    by (auto simp: obj_data_def body_data_def split: option.splits)
qed

lemma obj_data_frame:
  assumes "rdr_frame s s'" "acts s' = acts s" "is_obj_actual p"
  shows "obj_data s' p = obj_data s p"
proof -
  have "get_ckpt s' t i = get_ckpt s t i" for t i
  proof -
    have "map_option rdr_view (thrs s' t) = map_option rdr_view (thrs s t)" using assms(1) by (simp add: rdr_frame_def)
    then show ?thesis by (cases "thrs s t"; cases "thrs s' t") (auto simp: get_ckpt_def rdr_view_def)
  qed
  then show ?thesis using assms(2,3) by (auto simp: obj_data_def is_obj_actual_def split: ptr.splits)
qed

lemma rdr_frameD:
  assumes "rdr_frame s s'" "thrs s t = Some rt"
  obtains rt' where "thrs s' t = Some rt'" "local_clk rt' = local_clk rt" "clks rt' = clks rt \<or> last_ckpt (clks rt') = last_ckpt (clks rt)"
proof -
  have "map_option rdr_view (thrs s' t) = Some (rdr_view rt)" using assms by (simp add: rdr_frame_def)
  then show thesis using that by (auto simp: rdr_view_def)
qed

section \<open>Snapshots and commits\<close>

text \<open>
  Versions older than the last checkpoint that the reader knows of must not be touched, and the
  newest of them is in the current master.
\<close>

definition checkpointed :: "sys \<Rightarrow> thread \<Rightarrow> act_vhdr \<Rightarrow> bool" where
  "checkpointed s rt hv \<longleftrightarrow>
     last_ckpt (clks rt) \<le> local_clk rt \<and> is_obj_actual (np_cur_act hv) \<and>
     (p_copy hv \<noteq> Null \<and> lt_clock (head_clk s hv) (last_ckpt (clks rt)) \<longrightarrow> obj_data s (p_copy hv) = obj_data s (np_cur_act hv))"

text \<open>
  The object with the master \<open>a\<close> as a reader \<open>rt\<close> finds it in front of a commit: written by the
  transaction, with the bytes \<open>Some d\<close>, or not (\<open>None\<close>).
\<close>

definition tx_object :: "nat \<Rightarrow> sys \<Rightarrow> thread \<Rightarrow> wrt_set \<Rightarrow> chs \<Rightarrow> chs list \<Rightarrow> thread \<Rightarrow> nat \<Rightarrow> bytes option \<Rightarrow> bool" where
  "tx_object self s th ws h es rt a w \<longleftrightarrow>
     (\<exists>ao v hv cs. acts s a = Some ao \<and> a_type ao = TYPE_ACTUAL \<and> a_vhdr ao = Some v \<and> vhdrs s v = Some hv \<and> checkpointed s rt hv \<and>
        (case w of
           Some d \<Rightarrow> \<exists>i e. tx_version self s th ws h es (last_ckpt (clks rt)) v hv i e cs \<and> c_body e = Data d
         | None \<Rightarrow> tx_other self s ws h es (last_ckpt (clks rt)) v hv cs))"

lemma lt_clock_mono: "lt_clock a b \<Longrightarrow> b \<le> c \<Longrightarrow> lt_clock a c"
  by (auto simp: clock_simps word_le_nat_alt)

lemma find_renew:
  "map_option (\<lambda>(u, j, d). body_data d) (find (sees lclk) (renew clk cs)) = map_option (\<lambda>(u, j, d). body_data d) (find (sees lclk) cs)"
  by (cases cs rule: list.exhaust; auto simp: split_paired_all) (auto simp: sees_def body_data_def)

lemma commit_view:
  assumes f: "rdr_frame s s'" "acts s' = acts s" and t: "thrs s t = Some rt"
    and v: "\<And>v hv i e cs. tx_version self s th ws h es (last_ckpt (clks rt)) v hv i e cs \<Longrightarrow> became_version self s clk s' (last_ckpt (clks rt)) v hv i e cs"
    and o: "\<And>v hv cs. tx_other self s ws h es (last_ckpt (clks rt)) v hv cs \<Longrightarrow> vhdrs s' v = Some hv \<and> version_chain s' (last_ckpt (clks rt)) (p_copy hv) cs"
    and a: "tx_object self s th ws h es rt a w"
  shows "tx_reads s' t a = (case w of Some d \<Rightarrow> if lt_clock clk (local_clk rt) then Some d else tx_reads s t a | None \<Rightarrow> tx_reads s t a)"
proof -
  let ?l = "last_ckpt (clks rt)" and ?r = "local_clk rt"
  obtain rt' where rt': "thrs s' t = Some rt'" "local_clk rt' = ?r" "last_ckpt (clks rt') = ?l" using rdr_frameD [OF f(1) t] by metis
  obtain ao v' hv cs where ao: "acts s a = Some ao" "a_type ao = TYPE_ACTUAL" "a_vhdr ao = Some v'" "vhdrs s v' = Some hv" "checkpointed s rt hv"
      "case w of Some d \<Rightarrow> \<exists>i e. tx_version self s th ws h es ?l v' hv i e cs \<and> c_body e = Data d | None \<Rightarrow> tx_other self s ws h es ?l v' hv cs"
    using a by (auto simp: tx_object_def)
  have ao': "acts s' a = Some ao" using ao(1) f(2) by simp
  have cur: "obj_data s' (np_cur_act hv) = obj_data s (np_cur_act hv)" using ao(5) by (intro obj_data_frame f) (simp add: checkpointed_def)
  have vs: "versions s ?l v' (p_copy hv) cs" using ao(6) by (auto simp: tx_version_def tx_other_def split: option.splits)
  then have before: "tx_reads s t a = (case find (sees ?r) cs of None \<Rightarrow> obj_data s (np_cur_act hv) | Some (u, j, d) \<Rightarrow> body_data d)"
    by (intro tx_reads_versions [OF ao(1-4) t]) (simp_all add: versions_def)
  show ?thesis
  proof (cases w)
    case None
    with ao(6) o have k: "vhdrs s' v' = Some hv" "version_chain s' ?l (p_copy hv) cs" by auto
    have "tx_reads s' t a = (case find (sees ?r) cs of None \<Rightarrow> obj_data s' (np_cur_act hv) | Some (u, j, d) \<Rightarrow> body_data d)"
      using tx_reads_versions [OF ao' ao(2,3) k(1) rt'(1)] rt' k(2) vs by (simp add: versions_def)
    then show ?thesis unfolding before None cur by simp
  next
    case (Some d)
    with ao(6) obtain i e where e: "tx_version self s th ws h es ?l v' hv i e cs" "c_body e = Data d" by auto
    let ?n = "new_version clk hv (head_clk s hv) e"
    let ?vs = "(self, i, ?n) # (if lt_clock (head_clk s hv) ?l then [] else renew clk cs)"
    have k: "vhdrs s' v' = Some (hv\<lparr>p_copy := Cpy self i, p_lock := Null\<rparr>)" "chain_clocks MAX_VERSION ?vs" "version_chain s' ?l (Cpy self i) ?vs"
      using v [OF e(1)] by (auto simp: became_version_def Let_def)
    have "np_cur_act (hv\<lparr>p_copy := Cpy self i, p_lock := Null\<rparr>) = np_cur_act hv" "p_copy (hv\<lparr>p_copy := Cpy self i, p_lock := Null\<rparr>) = Cpy self i" by simp_all
    from tx_reads_versions [OF ao' ao(2,3) k(1) rt'(1), unfolded this, unfolded rt'(2,3), OF k(3,2), unfolded cur]
    have after: "tx_reads s' t a = (case find (sees ?r) ?vs of None \<Rightarrow> obj_data s (np_cur_act hv) | Some (u, j, d) \<Rightarrow> body_data d)" .
    have n: "sees ?r (self, i, ?n) \<longleftrightarrow> lt_clock clk ?r" "body_data ?n = Some d" using e(2) by (simp_all add: sees_def new_version_def body_data_def)
    show ?thesis
    proof (cases "lt_clock clk ?r")
      case True
      then show ?thesis using after n Some by simp
    next
      case new: False
      have "tx_reads s' t a = tx_reads s t a"
      proof (cases "lt_clock (head_clk s hv) ?l \<and> cs \<noteq> []")
        case True
        then obtain u j d0 ds where cs: "cs = (u, j, d0) # ds" by (cases cs) auto
        have hd: "p_copy hv = Cpy u j" "head_clk s hv = c_wrt_clk d0" "get_chs s u j = Some d0"
          using versions_head [OF vs ao(4) refl] vs cs by (auto simp: versions_def)
        have "lt_clock (c_wrt_clk d0) ?r" using True hd(2) ao(5) lt_clock_mono by (auto simp: checkpointed_def)
        then have "tx_reads s t a = body_data d0" using before cs by (simp add: sees_def)
        moreover have "obj_data s (np_cur_act hv) = body_data d0" using ao(5) True hd by (simp add: checkpointed_def obj_data_def body_data_def)
        ultimately show ?thesis using after n(1) new True by simp
      next
        case False
        then have "?vs = (self, i, ?n) # renew clk cs" by auto
        then have "tx_reads s' t a = (case find (sees ?r) (renew clk cs) of None \<Rightarrow> obj_data s (np_cur_act hv) | Some (u, j, d) \<Rightarrow> body_data d)"
          using after n(1) new by simp
        then show ?thesis using before find_renew [of ?r clk cs]
          by (cases "find (sees ?r) cs"; cases "find (sees ?r) (renew clk cs)") auto
      qed
      then show ?thesis using Some new by simp
    qed
  qed
qed

text \<open>
  C3. Snapshot isolation of commits. After a \<open>ts_end\<close> that passed validation and committed at
  \<open>clk\<close>, every thread reads of every object that the transaction wrote the new bytes if its
  snapshot is later than \<open>clk\<close>, and what it read before if it is not; of the other objects it reads
  what it read before. This holds for all objects and all readers of the same state, so a reader
  sees all writes of the transaction or none of them.
\<close>

theorem ts_end_snapshots:
  assumes "tx_ready self s th ws h es" "writing th" "oplog_ok th" "validate_read_set ser s (isolation th) = Some True"
    and "new_clock tsc (now s) (local_clk th) = Some (clk, k)" "local_clk th \<le> MAX_VERSION" "clk \<noteq> MAX_VERSION"
  shows "\<exists>s'. ts_end ser tsc ra self s = Some (True, s') \<and>
     (\<forall>t rt a w. thrs s t = Some rt \<and> tx_object self s th ws h es rt a w \<longrightarrow>
        tx_reads s' t a = (case w of Some d \<Rightarrow> if lt_clock clk (local_clk rt) then Some d else tx_reads s t a | None \<Rightarrow> tx_reads s t a))"
proof -
  obtain s' th' where r: "ts_end ser tsc ra self s = Some (True, s')" "thrs s' self = Some th'" "run_cnt th' = run_cnt th + 1"
    "cur_wrt_set (tvlog th') = None" "\<not> is_write_detected th'" "acts s' = acts s" "rdr_frame s s'"
    "unat (oplog_used (oplog th)) + 640 < unat TS_OPLOG_HIGH_MARK \<longrightarrow>
       (\<exists>st. nvl_store (oplog th') = Some st \<and> nvlog_entries (nvlog_load st) = nvlog_entries (oplog th) @ [op_record th clk])"
    "\<forall>last_clk v hv i e cs. tx_version self s th ws h es last_clk v hv i e cs \<longrightarrow> became_version self s clk s' last_clk v hv i e cs"
    "\<forall>last_clk v hv cs. tx_other self s ws h es last_clk v hv cs \<longrightarrow> vhdrs s' v = Some hv \<and> version_chain s' last_clk (p_copy hv) cs"
    by (rule ts_end_result [OF assms])
  have "tx_reads s' t a = (case w of Some d \<Rightarrow> if lt_clock clk (local_clk rt) then Some d else tx_reads s t a | None \<Rightarrow> tx_reads s t a)"
    if "thrs s t = Some rt" "tx_object self s th ws h es rt a w" for t rt a w
    by (rule commit_view [OF r(7,6) that(1) _ _ that(2)]) (use r(9,10) in blast)+
  then show ?thesis using r(1) by blast
qed

text \<open>The transaction of thread 3 commits at 20; thread 4 reads the version of clock 5 and thread 6 the new one.\<close>

lemma demo_snap_object:
  assumes "thrs demo_commit_sys t = Some rt" "clks rt = zero_clks"
  shows "tx_object 3 demo_commit_sys demo_writer demo_wset demo_hdr [demo_locked] rt 9 (Some (replicate 8 7))"
proof -
  have l: "last_ckpt (clks rt) = 0" using assms(2) by (simp add: zero_clks_def MIN_VERSION_def)
  have "checkpointed demo_commit_sys rt demo_head" using l by (simp add: checkpointed_def demo_head_def is_obj_actual_def clock_simps)
  moreover have "c_body demo_locked = Data (replicate 8 7)" by (simp add: demo_locked_def)
  moreover have "acts demo_commit_sys 9 = Some \<lparr>a_vhdr = Some 5, a_gen_id = 0, a_index = 0, a_obj_size = 8, a_type = TYPE_ACTUAL, a_data = replicate 8 0\<rparr>"
    by (simp add: demo_commit_sys_def)
  ultimately show ?thesis unfolding tx_object_def using l demo_tx_version demo_commit_reads(2) by fastforce
qed

theorem ts_end_snapshots_witness:
  "\<exists>s'. ts_end False demo_tsc None 3 demo_commit_sys = Some (True, s') \<and>
     tx_reads s' 4 9 = Some (replicate 8 1) \<and> tx_reads s' 6 9 = Some (replicate 8 7)"
proof -
  have t: "\<exists>rt. thrs demo_commit_sys 4 = Some rt \<and> local_clk rt = 15 \<and> clks rt = zero_clks" "\<exists>rt. thrs demo_commit_sys 6 = Some rt \<and> local_clk rt = 30 \<and> clks rt = zero_clks"
    by (simp_all add: demo_commit_sys_def demo_thread_def)
  then obtain r4 r6 where r: "thrs demo_commit_sys 4 = Some r4" "local_clk r4 = 15" "clks r4 = zero_clks"
      "thrs demo_commit_sys 6 = Some r6" "local_clk r6 = 30" "clks r6 = zero_clks" by blast
  have old: "tx_reads demo_commit_sys 4 9 = Some (replicate 8 1)"
  proof -
    have "version_chain demo_commit_sys (last_ckpt (clks r4)) (p_copy demo_head) [(4, 128, demo_older)]" "chain_clocks MAX_VERSION [(4, 128, demo_older)]"
      using demo_versions r(3) by (auto simp: versions_def demo_head_def zero_clks_def MIN_VERSION_def split: if_splits)
    from tx_reads_versions [OF _ _ _ demo_commit_reads(2) r(1) this] show ?thesis
      using r(2) by (simp add: demo_commit_sys_def) (simp add: sees_def demo_older_def clock_simps body_data_def)
  qed
  obtain s' where s': "ts_end False demo_tsc None 3 demo_commit_sys = Some (True, s')"
    "\<forall>t rt a w. thrs demo_commit_sys t = Some rt \<and> tx_object 3 demo_commit_sys demo_writer demo_wset demo_hdr [demo_locked] rt a w \<longrightarrow>
        tx_reads s' t a = (case w of Some d \<Rightarrow> if lt_clock 20 (local_clk rt) then Some d else tx_reads demo_commit_sys t a | None \<Rightarrow> tx_reads demo_commit_sys t a)"
    using ts_end_snapshots [OF demo_tx_ready demo_writing(1) demo_oplog_ok(1) demo_valid demo_new_clk, of None] by blast
  have "tx_reads s' 4 9 = (if lt_clock 20 (local_clk r4) then Some (replicate 8 7) else tx_reads demo_commit_sys 4 9)"
    "tx_reads s' 6 9 = (if lt_clock 20 (local_clk r6) then Some (replicate 8 7) else tx_reads demo_commit_sys 6 9)"
    using s'(2) r(1,4) demo_snap_object [OF r(1,3)] demo_snap_object [OF r(4,6)] by force+
  then show ?thesis using s'(1) old r(2,5) by (simp add: clock_simps)
qed

end
