(* ===== verification/HashList.thy ===== *)
theory HashList
  imports Prelude
begin

text \<open>
  The sorted linked lists and hash tables of the benchmark (\<open>src/benchmark/rlu/hash-list.c\<close>,
  \<open>src/benchmark/rlu/types.h\<close>): the sequential version, and the RCU version, whose writers hold the
  lock of the bucket (\<open>src/benchmark/rlu/new-urcu.c\<close>). Nodes lie in a store from addresses to nodes.
  What \<open>malloc\<close> returns is an argument, with the bytes the new node holds; reading or writing where
  no node lies gives \<open>None\<close>, and so does waiting forever for a lock. Where the code calls \<open>exit(1)\<close>
  because it is out of memory, the answer in the result is \<open>None\<close>.
\<close>

section \<open>Data (types.h)\<close>

definition LIST_VAL_MIN :: int where "LIST_VAL_MIN = - 2147483648"
definition LIST_VAL_MAX :: int where "LIST_VAL_MAX = 2147483647"

record hnode =
  n_val :: int
  n_next :: "nat option"

type_synonym nodes = "nat \<rightharpoonup> hnode"
type_synonym memory = "(nat \<times> hnode) option"

record list_t =
  p_head :: nat

record hash_list =
  n_buckets :: int
  buckets :: "list_t list"

definition upd_node :: "nat \<Rightarrow> (hnode \<Rightarrow> hnode) \<Rightarrow> nodes \<Rightarrow> nodes option" where
  "upd_node a f h = map_option (\<lambda>n. h(a \<mapsto> f n)) (h a)"

section \<open>Nodes and lists\<close>

definition pure_new_node :: "memory \<Rightarrow> nodes \<Rightarrow> nat option \<times> nodes" where
  "pure_new_node mem h = (case mem of None \<Rightarrow> (None, h) | Some (a, n) \<Rightarrow> (Some a, h(a \<mapsto> n)))"

definition pure_free_node :: "nat option \<Rightarrow> nodes \<Rightarrow> nodes" where
  "pure_free_node p h = (case p of None \<Rightarrow> h | Some a \<Rightarrow> h(a := None))"

text \<open>A node with a value and a successor, as all callers initialise it.\<close>

definition init_node :: "nat \<Rightarrow> int \<Rightarrow> nat option \<Rightarrow> nodes \<Rightarrow> nodes option" where
  "init_node a v nxt h = do {
     h \<leftarrow> upd_node a (\<lambda>n. n\<lparr>n_val := v\<rparr>) h;
     upd_node a (\<lambda>n. n\<lparr>n_next := nxt\<rparr>) h }"

text \<open>The memory for a list: whether there is room for the structure, and the two sentinels.\<close>

type_synonym list_memory = "bool \<times> memory \<times> memory"

definition pure_new_list :: "list_memory \<Rightarrow> nodes \<Rightarrow> (list_t option \<times> nodes) option" where
  "pure_new_list mems h =
     (case mems of (room, m1, m2) \<Rightarrow>
        if \<not> room then Some (None, h)
        else
          (case pure_new_node m1 h of
             (None, h) \<Rightarrow> Some (None, h)
           | (Some p_max_node, h) \<Rightarrow> do {
               h \<leftarrow> init_node p_max_node LIST_VAL_MAX None h;
               (case pure_new_node m2 h of
                  (None, h) \<Rightarrow> Some (None, h)
                | (Some p_min_node, h) \<Rightarrow> do {
                    h \<leftarrow> init_node p_min_node LIST_VAL_MIN (Some p_max_node) h;
                    Some (Some \<lparr>p_head = p_min_node\<rparr>, h) }) }))"

text \<open>
  The loop over the buckets of a new table. The array of the table has room for \<open>MAX_BUCKETS\<close>; the
  code does not check that this is enough, and with more buckets writes past its end.
\<close>

fun new_buckets :: "nat \<Rightarrow> (nat \<Rightarrow> list_memory) \<Rightarrow> nodes \<Rightarrow> (list_t list option \<times> nodes) option" where
  "new_buckets 0 mems h = Some (Some [], h)"
| "new_buckets (Suc n) mems h = do {
     (ls, h) \<leftarrow> new_buckets n mems h;
     (case ls of
        None \<Rightarrow> Some (None, h)
      | Some ls \<Rightarrow> do {
          (l, h) \<leftarrow> pure_new_list (mems n) h;
          Some (map_option (\<lambda>l. ls @ [l]) l, h) }) }"

definition MAX_BUCKETS :: int where "MAX_BUCKETS = 1000000"

definition pure_new_hash_list :: "bool \<Rightarrow> (nat \<Rightarrow> list_memory) \<Rightarrow> int \<Rightarrow> nodes \<Rightarrow> (hash_list option \<times> nodes) option" where
  "pure_new_hash_list room mems n h =
     (if \<not> room then Some (None, h)
      else if MAX_BUCKETS < n then None
      else do {
        (ls, h) \<leftarrow> new_buckets (nat n) mems h;
        Some (map_option (\<lambda>ls. \<lparr>n_buckets = n, buckets = ls\<rparr>) ls, h) })"

partial_function (option) count_nodes :: "nodes \<Rightarrow> int \<Rightarrow> nat \<Rightarrow> int option" where
  "count_nodes h sz p_node = do {
     n \<leftarrow> h p_node;
     (case n_next n of
        None \<Rightarrow> Some sz
      | Some p \<Rightarrow> count_nodes h (sz + 1) p) }"

definition list_size :: "nodes \<Rightarrow> list_t \<Rightarrow> int option" where
  "list_size h p_list = do {
     n \<leftarrow> h (p_head p_list);
     p \<leftarrow> n_next n;
     count_nodes h 0 p }"

fun sum_sizes :: "nodes \<Rightarrow> list_t list \<Rightarrow> int \<Rightarrow> int option" where
  "sum_sizes h [] sz = Some sz"
| "sum_sizes h (l # ls) sz = do { n \<leftarrow> list_size h l; sum_sizes h ls (sz + n) }"

definition hash_list_size :: "nodes \<Rightarrow> hash_list \<Rightarrow> int option" where
  "hash_list_size h p_hash_list =
     (if length (buckets p_hash_list) < nat (n_buckets p_hash_list) then None
      else sum_sizes h (take (nat (n_buckets p_hash_list)) (buckets p_hash_list)) 0)"

section \<open>The sequential list\<close>

text \<open>The loop that all operations begin with: the first node not below the value, and its predecessor.\<close>

partial_function (option) list_search :: "nodes \<Rightarrow> int \<Rightarrow> nat \<Rightarrow> nat \<Rightarrow> (nat \<times> nat) option" where
  "list_search h val p_prev p_next = do {
     n \<leftarrow> h p_next;
     (if n_val n < val then do {
        p \<leftarrow> n_next n;
        list_search h val p_next p }
      else Some (p_prev, p_next)) }"

declare list_search.simps [code] count_nodes.simps [code]

definition list_find :: "nodes \<Rightarrow> list_t \<Rightarrow> int \<Rightarrow> (nat \<times> nat) option" where
  "list_find h p_list val = do {
     n \<leftarrow> h (p_head p_list);
     p \<leftarrow> n_next n;
     list_search h val (p_head p_list) p }"

definition pure_list_contains :: "nodes \<Rightarrow> list_t \<Rightarrow> int \<Rightarrow> bool option" where
  "pure_list_contains h p_list val = do {
     (p_prev, p_next) \<leftarrow> list_find h p_list val;
     n \<leftarrow> h p_next;
     Some (n_val n = val) }"

definition pure_list_add :: "memory \<Rightarrow> nodes \<Rightarrow> list_t \<Rightarrow> int \<Rightarrow> (bool option \<times> nodes) option" where
  "pure_list_add mem h p_list val = do {
     (p_prev, p_next) \<leftarrow> list_find h p_list val;
     n \<leftarrow> h p_next;
     (if n_val n \<noteq> val then
        (case pure_new_node mem h of
           (None, h) \<Rightarrow> Some (None, h)
         | (Some p_new_node, h) \<Rightarrow> do {
             h \<leftarrow> init_node p_new_node val (Some p_next) h;
             h \<leftarrow> upd_node p_prev (\<lambda>n. n\<lparr>n_next := Some p_new_node\<rparr>) h;
             Some (Some True, h) })
      else Some (Some False, h)) }"

definition pure_list_remove :: "nodes \<Rightarrow> list_t \<Rightarrow> int \<Rightarrow> (bool \<times> nodes) option" where
  "pure_list_remove h p_list val = do {
     (p_prev, p_next) \<leftarrow> list_find h p_list val;
     n \<leftarrow> h p_next;
     (if n_val n = val then do {
        h \<leftarrow> upd_node p_prev (\<lambda>m. m\<lparr>n_next := n_next n\<rparr>) h;
        Some (True, pure_free_node (Some p_next) h) }
      else Some (False, h)) }"

section \<open>The hash table\<close>

text \<open>The remainder of C has the sign of the dividend; a table without buckets divides by zero.\<close>

definition HASH_VALUE :: "hash_list \<Rightarrow> int \<Rightarrow> int option" where
  "HASH_VALUE p_hash_list val =
     (if n_buckets p_hash_list = 0 then None
      else Some (sgn val * (\<bar>val\<bar> mod \<bar>n_buckets p_hash_list\<bar>)))"

definition bucket :: "hash_list \<Rightarrow> int \<Rightarrow> list_t option" where
  "bucket p_hash_list hash =
     (if 0 \<le> hash \<and> nat hash < length (buckets p_hash_list) then Some (buckets p_hash_list ! nat hash) else None)"

definition pure_hash_list_contains :: "nodes \<Rightarrow> hash_list \<Rightarrow> int \<Rightarrow> bool option" where
  "pure_hash_list_contains h p_hash_list val = do {
     hash \<leftarrow> HASH_VALUE p_hash_list val;
     l \<leftarrow> bucket p_hash_list hash;
     pure_list_contains h l val }"

definition pure_hash_list_add :: "memory \<Rightarrow> nodes \<Rightarrow> hash_list \<Rightarrow> int \<Rightarrow> (bool option \<times> nodes) option" where
  "pure_hash_list_add mem h p_hash_list val = do {
     hash \<leftarrow> HASH_VALUE p_hash_list val;
     l \<leftarrow> bucket p_hash_list hash;
     pure_list_add mem h l val }"

definition pure_hash_list_remove :: "nodes \<Rightarrow> hash_list \<Rightarrow> int \<Rightarrow> (bool \<times> nodes) option" where
  "pure_hash_list_remove h p_hash_list val = do {
     hash \<leftarrow> HASH_VALUE p_hash_list val;
     l \<leftarrow> bucket p_hash_list hash;
     pure_list_remove h l val }"

section \<open>Lists of nodes\<close>

fun nseg :: "nodes \<Rightarrow> nat option \<Rightarrow> (nat \<times> int) list \<Rightarrow> nat option \<Rightarrow> bool" where
  "nseg h p [] q \<longleftrightarrow> p = q"
| "nseg h p ((a, v) # cs) q \<longleftrightarrow> p = Some a \<and> (\<exists>n. h a = Some n \<and> n_val n = v \<and> nseg h (n_next n) cs q)"

lemma nseg_append: "nseg h p (xs @ ys) r \<longleftrightarrow> (\<exists>q. nseg h p xs q \<and> nseg h q ys r)"
  by (induction xs arbitrary: p) (simp, fastforce)

lemma nseg_cong: "(\<And>a. a \<in> fst ` set cs \<Longrightarrow> h' a = h a) \<Longrightarrow> nseg h' p cs q \<longleftrightarrow> nseg h p cs q"
proof (induction cs arbitrary: p)
  case (Cons c cs)
  obtain a v where c: "c = (a, v)" by (cases c)
  have "nseg h' p cs q \<longleftrightarrow> nseg h p cs q" for p using Cons.prems by (intro Cons.IH) auto
  then show ?case using Cons.prems c by simp
qed simp

text \<open>A list with its cells: strictly increasing values between the two sentinels.\<close>

definition list_rep :: "nodes \<Rightarrow> list_t \<Rightarrow> (nat \<times> int) list \<Rightarrow> bool" where
  "list_rep h l cs \<longleftrightarrow>
     nseg h (Some (p_head l)) cs None \<and> distinct (map fst cs) \<and> sorted_wrt (<) (map snd cs) \<and>
     2 \<le> length cs \<and> snd (hd cs) = LIST_VAL_MIN \<and> snd (last cs) = LIST_VAL_MAX"

definition list_elems :: "(nat \<times> int) list \<Rightarrow> int set" where
  "list_elems cs = snd ` set cs - {LIST_VAL_MIN, LIST_VAL_MAX}"

definition list_val :: "int \<Rightarrow> bool" where
  "list_val v \<longleftrightarrow> LIST_VAL_MIN < v \<and> v < LIST_VAL_MAX"

lemma list_search_finds:
  "nseg h (Some q) ((q, w) # cs) None \<Longrightarrow> \<exists>c\<in>set ((q, w) # cs). val \<le> snd c \<Longrightarrow>
   \<exists>xs b zs. (q, w) # cs = xs @ b # zs \<and> (\<forall>x\<in>set xs. snd x < val) \<and> val \<le> snd b \<and>
     list_search h val p q = Some (if xs = [] then p else fst (last xs), fst b)"
proof (induction cs arbitrary: p q w)
  case Nil
  then have "list_search h val p q = Some (p, q)" by (subst list_search.simps) auto
  with Nil show ?case by (intro exI [of _ "[]"] exI [of _ "(q, w)"] exI [of _ "[]"]) simp
next
  case (Cons c cs)
  obtain r u where c: "c = (r, u)" by (cases c)
  obtain n where n: "h q = Some n" "n_val n = w" "n_next n = Some r" "nseg h (Some r) ((r, u) # cs) None"
    using Cons.prems(1) c by auto
  show ?case
  proof (cases "w < val")
    case False
    then have "list_search h val p q = Some (p, q)" using n by (subst list_search.simps) auto
    with False show ?thesis by (intro exI [of _ "[]"] exI [of _ "(q, w)"] exI [of _ "c # cs"]) simp
  next
    case True
    then have "\<exists>c\<in>set ((r, u) # cs). val \<le> snd c" using Cons.prems(2) c by auto
    from Cons.IH [OF n(4) this, of q] obtain xs b zs where xs: "(r, u) # cs = xs @ b # zs" "\<forall>x\<in>set xs. snd x < val" "val \<le> snd b"
      "list_search h val q r = Some (if xs = [] then q else fst (last xs), fst b)" by blast
    have "list_search h val p q = list_search h val q r" using n True by (subst list_search.simps) simp
    with xs True c show ?thesis by (intro exI [of _ "(q, w) # xs"] exI [of _ b] exI [of _ zs]) simp
  qed
qed

text \<open>The place of a value in a list.\<close>

lemma list_find_splits:
  assumes "list_rep h l cs" "list_val val"
  obtains xs p q zs where "cs = xs @ p # q # zs" "snd p < val" "val \<le> snd q" "list_find h l val = Some (fst p, fst q)"
    "\<forall>x\<in>set xs. snd x < val" "\<forall>z\<in>set zs. val < snd z"
proof -
  obtain a q w cs' where cs: "cs = (a, LIST_VAL_MIN) # (q, w) # cs'"
    using assms(1) unfolding list_rep_def by (cases cs; cases "tl cs") auto
  obtain n where n: "h a = Some n" "p_head l = a" "n_next n = Some q" "nseg h (Some q) ((q, w) # cs') None"
    using assms(1) by (auto simp: list_rep_def cs)
  have "last ((q, w) # cs') \<in> set ((q, w) # cs')" "val \<le> snd (last ((q, w) # cs'))"
    using assms by (auto simp: list_rep_def cs list_val_def)
  then have "\<exists>c\<in>set ((q, w) # cs'). val \<le> snd c" by blast
  from list_search_finds [OF n(4) this, of a] obtain xs b zs where xs: "(q, w) # cs' = xs @ b # zs" "\<forall>x\<in>set xs. snd x < val" "val \<le> snd b"
      "list_search h val a q = Some (if xs = [] then a else fst (last xs), fst b)" by blast
  have f: "list_find h l val = Some (if xs = [] then a else fst (last xs), fst b)" using n xs(4) by (simp add: list_find_def)
  have "sorted_wrt (<) (map snd (xs @ b # zs))" using assms(1) unfolding list_rep_def cs xs(1) by simp
  then have z: "\<forall>z\<in>set zs. val < snd z" using xs(3) by (force simp: sorted_wrt_append)
  have lo: "LIST_VAL_MIN < val" using assms(2) by (simp add: list_val_def)
  show thesis
  proof (cases xs rule: rev_cases)
    case Nil
    then show thesis using that [of "[]" "(a, LIST_VAL_MIN)" b zs] cs xs f z lo by simp
  next
    case (snoc ys y)
    then show thesis using that [of "(a, LIST_VAL_MIN) # ys" y b zs] cs xs f z lo by auto
  qed
qed

lemma list_elems_mem:
  assumes "list_rep h l (xs @ p # q # zs)" "list_val val" "snd p < val" "val \<le> snd q" "\<forall>x\<in>set xs. snd x < val" "\<forall>z\<in>set zs. val < snd z"
  shows "val \<in> list_elems (xs @ p # q # zs) \<longleftrightarrow> snd q = val"
  using assms by (auto simp: list_elems_def list_val_def)

lemma pure_list_contains_correct:
  assumes "list_rep h l cs" "list_val val"
  shows "pure_list_contains h l val = Some (val \<in> list_elems cs)"
proof -
  obtain xs p q zs where f: "cs = xs @ p # q # zs" "snd p < val" "val \<le> snd q" "list_find h l val = Some (fst p, fst q)"
    "\<forall>x\<in>set xs. snd x < val" "\<forall>z\<in>set zs. val < snd z" using assms by (rule list_find_splits)
  moreover have "\<exists>n. h (fst q) = Some n \<and> n_val n = snd q"
    using assms(1) f(1) by (cases p; cases q) (auto simp: list_rep_def nseg_append)
  ultimately show ?thesis using list_elems_mem assms unfolding f(1) by (auto simp: pure_list_contains_def)
qed

lemma nseg_node: "nseg h p (xs @ (a, v) # ys) r \<Longrightarrow> \<exists>n. h a = Some n \<and> n_val n = v"
  by (auto simp: nseg_append)

lemma list_rep_dom: "list_rep h l cs \<Longrightarrow> fst ` set cs \<subseteq> dom h"
proof
  fix a assume r: "list_rep h l cs" and "a \<in> fst ` set cs"
  then obtain v where "(a, v) \<in> set cs" by auto
  then obtain xs ys where "cs = xs @ (a, v) # ys" by (auto dest: split_list)
  with r show "a \<in> dom h" using nseg_node by (fastforce simp: list_rep_def)
qed

text \<open>Changing the successor of one cell.\<close>

lemma nseg_relink:
  assumes "nseg h p (xs @ [(b, w)]) r" "distinct (map fst (xs @ [(b, w)]))" "h b = Some m"
  shows "nseg (h(b \<mapsto> m\<lparr>n_next := r'\<rparr>)) p (xs @ [(b, w)]) r'"
proof -
  have "nseg (h(b \<mapsto> m\<lparr>n_next := r'\<rparr>)) p xs q \<longleftrightarrow> nseg h p xs q" for q using assms(2) by (intro nseg_cong) (auto simp: image_iff)
  then show ?thesis using assms(1,3) by (auto simp: nseg_append)
qed

text \<open>What an operation on one list does to the store.\<close>

definition touches :: "nat set \<Rightarrow> nodes \<Rightarrow> nodes \<Rightarrow> bool" where
  "touches A h h' \<longleftrightarrow> (\<forall>a. a \<notin> A \<longrightarrow> h' a = h a)"

lemma list_rep_insert:
  assumes r: "list_rep h l (xs @ p # q # zs)" and a: "a \<notin> dom h" and v: "snd p < val" "val < snd q" and m: "h (fst p) = Some m"
  defines "h' \<equiv> h(a \<mapsto> \<lparr>n_val = val, n_next = Some (fst q)\<rparr>, fst p \<mapsto> m\<lparr>n_next := Some a\<rparr>)"
  shows "list_rep h' l (xs @ p # (a, val) # q # zs)"
proof -
  obtain b w c u where pq: "p = (b, w)" "q = (c, u)" by (cases p; cases q)
  have na: "a \<notin> fst ` set (xs @ p # q # zs)" using list_rep_dom [OF r] a by blast
  have d: "distinct (map fst (xs @ p # q # zs))" using r by (simp add: list_rep_def)
  have n: "nseg h (Some (p_head l)) (xs @ [(b, w)]) (Some c)" "nseg h (Some c) (q # zs) None"
    using r unfolding pq list_rep_def by (auto simp: nseg_append)
  let ?h = "h(a \<mapsto> \<lparr>n_val = val, n_next = Some c\<rparr>)"
  have "nseg ?h (Some (p_head l)) (xs @ [(b, w)]) (Some c)" using n(1) na by (subst nseg_cong [of _ _ h]) (auto simp: pq)
  then have "nseg h' (Some (p_head l)) (xs @ [(b, w)]) (Some a)"
    using nseg_relink [of ?h _ xs b w _ m] d m na unfolding h'_def pq by auto
  moreover have "nseg h' (Some c) (q # zs) None" using n(2) na d by (subst nseg_cong [of _ _ h]) (auto simp: h'_def pq)
  moreover have "h' a = Some \<lparr>n_val = val, n_next = Some c\<rparr>" using na by (auto simp: h'_def pq)
  ultimately have "nseg h' (Some (p_head l)) ((xs @ [(b, w)]) @ (a, val) # q # zs) None" unfolding nseg_append by auto
  then show ?thesis using r v na d by (auto simp: list_rep_def pq sorted_wrt_append hd_append split: if_splits)
qed

lemma list_rep_touches: "list_rep h l cs \<Longrightarrow> touches A h h' \<Longrightarrow> A \<inter> fst ` set cs = {} \<Longrightarrow> list_rep h' l cs"
  using nseg_cong [of cs h' h] unfolding list_rep_def touches_def by (metis disjoint_iff)

lemma list_rep_unlink:
  assumes r: "list_rep h l (xs @ p # q # zs)" and m: "h (fst p) = Some m" "h (fst q) = Some n" and z: "zs \<noteq> []"
  shows "list_rep (h(fst p \<mapsto> m\<lparr>n_next := n_next n\<rparr>)) l (xs @ p # zs)"
proof -
  let ?h = "h(fst p \<mapsto> m\<lparr>n_next := n_next n\<rparr>)"
  obtain b w c u where pq: "p = (b, w)" "q = (c, u)" by (cases p; cases q)
  have d: "distinct (map fst (xs @ p # q # zs))" using r by (simp add: list_rep_def)
  have s: "nseg h (Some (p_head l)) (xs @ [(b, w)]) (Some c)" "nseg h (n_next n) zs None"
    using r m unfolding pq list_rep_def by (auto simp: nseg_append)
  have "nseg ?h (Some (p_head l)) (xs @ [(b, w)]) (n_next n)" using nseg_relink [OF s(1)] d m(1) by (simp add: pq)
  moreover have "nseg ?h (n_next n) zs None" using s(2) d by (subst nseg_cong [of _ _ h]) (auto simp: pq)
  ultimately have "nseg ?h (Some (p_head l)) ((xs @ [(b, w)]) @ zs) None" unfolding nseg_append by auto
  then show ?thesis using r z d by (auto simp: list_rep_def pq sorted_wrt_append hd_append Suc_le_eq split: if_splits)
qed

lemma list_rep_delete:
  assumes r: "list_rep h l (xs @ p # q # zs)" and m: "h (fst p) = Some m" "h (fst q) = Some n" and z: "zs \<noteq> []"
  shows "list_rep (h(fst p \<mapsto> m\<lparr>n_next := n_next n\<rparr>, fst q := None)) l (xs @ p # zs)"
proof (rule list_rep_touches [OF list_rep_unlink [OF assms], of "{fst q}"])
  show "{fst q} \<inter> fst ` set (xs @ p # zs) = {}" using r by (auto simp: list_rep_def)
qed (simp add: touches_def)

lemma list_split_nodes:
  assumes "list_rep h l (xs @ p # q # zs)"
  obtains m n where "h (fst p) = Some m" "h (fst q) = Some n" "n_val n = snd q" "fst p \<noteq> fst q"
proof -
  obtain b w c u where pq: "p = (b, w)" "q = (c, u)" by (cases p; cases q)
  have s: "nseg h (Some (p_head l)) (xs @ (b, w) # (q # zs)) None" "nseg h (Some (p_head l)) ((xs @ [p]) @ (c, u) # zs) None"
    using assms by (simp_all add: list_rep_def pq)
  obtain m n where "h b = Some m" "h c = Some n" "n_val n = u" using nseg_node [OF s(1)] nseg_node [OF s(2)] by blast
  then show thesis using that assms by (simp add: pq list_rep_def)
qed

text \<open>The nodes that an operation looks at and whether the value is there.\<close>

lemma list_find_nodes:
  assumes r: "list_rep h l cs" and v: "list_val val"
  obtains xs p q zs m n where "cs = xs @ p # q # zs" "snd p < val" "val \<le> snd q" "list_find h l val = Some (fst p, fst q)"
    "\<forall>x\<in>set xs. snd x < val" "\<forall>z\<in>set zs. val < snd z"
    "h (fst p) = Some m" "h (fst q) = Some n" "n_val n = snd q" "fst p \<noteq> fst q" "val \<in> list_elems cs \<longleftrightarrow> snd q = val"
proof -
  obtain xs p q zs where f: "cs = xs @ p # q # zs" "snd p < val" "val \<le> snd q" "list_find h l val = Some (fst p, fst q)"
    "\<forall>x\<in>set xs. snd x < val" "\<forall>z\<in>set zs. val < snd z" using r v by (rule list_find_splits)
  obtain m n where "h (fst p) = Some m" "h (fst q) = Some n" "n_val n = snd q" "fst p \<noteq> fst q"
    using r unfolding f(1) by (rule list_split_nodes)
  then show thesis using that [OF f] list_elems_mem [OF r [unfolded f(1)] v f(2,3,5,6), folded f(1)] by blast
qed

lemma list_elems_insert: "list_val val \<Longrightarrow> list_elems (xs @ p # (a, val) # ys) = insert val (list_elems (xs @ p # ys))"
  by (auto simp: list_elems_def list_val_def)

lemma pure_list_add_correct:
  assumes r: "list_rep h l cs" and v: "list_val val" and a: "a \<notin> dom h"
  shows "\<exists>h' cs'. pure_list_add (Some (a, n0)) h l val = Some (Some (val \<notin> list_elems cs), h') \<and>
     list_rep h' l cs' \<and> list_elems cs' = insert val (list_elems cs) \<and> fst ` set cs' \<subseteq> insert a (fst ` set cs) \<and> touches (insert a (fst ` set cs)) h h'"
proof -
  obtain xs p q zs m n where f: "cs = xs @ p # q # zs" "snd p < val" "val \<le> snd q" "list_find h l val = Some (fst p, fst q)"
      "\<forall>x\<in>set xs. snd x < val" "\<forall>z\<in>set zs. val < snd z"
    and mn: "h (fst p) = Some m" "h (fst q) = Some n" "n_val n = snd q" "fst p \<noteq> fst q" and el: "val \<in> list_elems cs \<longleftrightarrow> snd q = val"
    using r v by (rule list_find_nodes)
  show ?thesis
  proof (cases "snd q = val")
    case True
    then have "pure_list_add (Some (a, n0)) h l val = Some (Some False, h)" using f(4) mn by (simp add: pure_list_add_def)
    then show ?thesis using True el r by (intro exI [of _ h] exI [of _ cs]) (auto simp: touches_def)
  next
    case False
    let ?h = "h(a \<mapsto> \<lparr>n_val = val, n_next = Some (fst q)\<rparr>, fst p \<mapsto> m\<lparr>n_next := Some a\<rparr>)"
    have "fst p \<noteq> a" using mn(1) a by auto
    then have "pure_list_add (Some (a, n0)) h l val = Some (Some True, ?h)"
      using f(4) mn False by (cases n0) (simp add: pure_list_add_def pure_new_node_def init_node_def upd_node_def)
    moreover have "list_rep ?h l (xs @ p # (a, val) # q # zs)" using r f(2,3) False a mn(1) unfolding f(1) by (intro list_rep_insert) auto
    moreover have "list_elems (xs @ p # (a, val) # q # zs) = insert val (list_elems cs)" unfolding f(1) by (rule list_elems_insert [OF v])
    ultimately show ?thesis using False el f(1) by (intro exI [of _ ?h] exI [of _ "xs @ p # (a, val) # q # zs"]) (auto simp: touches_def)
  qed
qed

lemma pure_list_remove_correct:
  assumes r: "list_rep h l cs" and v: "list_val val"
  shows "\<exists>h' cs'. pure_list_remove h l val = Some (val \<in> list_elems cs, h') \<and>
     list_rep h' l cs' \<and> list_elems cs' = list_elems cs - {val} \<and> set cs' \<subseteq> set cs \<and> touches (fst ` set cs) h h'"
proof -
  obtain xs p q zs m n where f: "cs = xs @ p # q # zs" "snd p < val" "val \<le> snd q" "list_find h l val = Some (fst p, fst q)"
      "\<forall>x\<in>set xs. snd x < val" "\<forall>z\<in>set zs. val < snd z"
    and mn: "h (fst p) = Some m" "h (fst q) = Some n" "n_val n = snd q" "fst p \<noteq> fst q" and el: "val \<in> list_elems cs \<longleftrightarrow> snd q = val"
    using r v by (rule list_find_nodes)
  show ?thesis
  proof (cases "snd q = val")
    case False
    then have "pure_list_remove h l val = Some (False, h)" using f(4) mn by (simp add: pure_list_remove_def)
    then show ?thesis using False el r by (intro exI [of _ h] exI [of _ cs]) (auto simp: touches_def)
  next
    case True
    let ?h = "h(fst p \<mapsto> m\<lparr>n_next := n_next n\<rparr>, fst q := None)"
    have "zs \<noteq> []" using r v True by (auto simp: list_rep_def f(1) list_val_def)
    then have "list_rep ?h l (xs @ p # zs)" using r mn unfolding f(1) by (intro list_rep_delete) auto
    moreover have "pure_list_remove h l val = Some (True, ?h)"
      using f(4) mn True by (simp add: pure_list_remove_def upd_node_def pure_free_node_def)
    moreover have "list_elems (xs @ p # zs) = list_elems cs - {val}" using f True by (auto simp: list_elems_def)
    ultimately show ?thesis using True el f(1) by (intro exI [of _ ?h] exI [of _ "xs @ p # zs"]) (auto simp: touches_def)
  qed
qed

section \<open>Tables\<close>

definition hash_rep :: "nodes \<Rightarrow> hash_list \<Rightarrow> (nat \<times> int) list list \<Rightarrow> bool" where
  "hash_rep h hl css \<longleftrightarrow>
     0 < n_buckets hl \<and> length (buckets hl) = nat (n_buckets hl) \<and> length css = length (buckets hl) \<and>
     (\<forall>i < length css. list_rep h (buckets hl ! i) (css ! i) \<and> (\<forall>v \<in> list_elems (css ! i). 0 \<le> v \<and> nat (v mod n_buckets hl) = i)) \<and>
     (\<forall>i < length css. \<forall>j < length css. i \<noteq> j \<longrightarrow> fst ` set (css ! i) \<inter> fst ` set (css ! j) = {})"

definition hash_elems :: "(nat \<times> int) list list \<Rightarrow> int set" where
  "hash_elems css = (\<Union>cs\<in>set css. list_elems cs)"

definition hash_addrs :: "(nat \<times> int) list list \<Rightarrow> nat set" where
  "hash_addrs css = (\<Union>cs\<in>set css. fst ` set cs)"

lemma hash_addrs_nth: "i < length css \<Longrightarrow> fst ` set (css ! i) \<subseteq> hash_addrs css"
  using nth_mem [of i css] unfolding hash_addrs_def by blast

lemma hash_addrs_update: "hash_addrs (css[i := cs']) \<subseteq> hash_addrs css \<union> fst ` set cs'"
proof
  fix a assume "a \<in> hash_addrs (css[i := cs'])"
  then obtain cs where "cs \<in> set (css[i := cs'])" "a \<in> fst ` set cs" by (auto simp: hash_addrs_def)
  moreover from this(1) have "cs = cs' \<or> cs \<in> set css" using set_update_subset_insert [of css i cs'] by blast
  ultimately show "a \<in> hash_addrs css \<union> fst ` set cs'" unfolding hash_addrs_def by blast
qed

lemma hash_addrs_replace:
  assumes "hash_rep h hl css" "i < length css"
  shows "hash_addrs (css[i := cs']) \<subseteq> hash_addrs css - fst ` set (css ! i) \<union> fst ` set cs'"
proof
  fix a assume "a \<in> hash_addrs (css[i := cs'])"
  then obtain cs where cs: "cs \<in> set (css[i := cs'])" "a \<in> fst ` set cs" by (auto simp: hash_addrs_def)
  then obtain j where j: "j < length css" "a \<in> fst ` set (css[i := cs'] ! j)" by (metis in_set_conv_nth length_list_update)
  show "a \<in> hash_addrs css - fst ` set (css ! i) \<union> fst ` set cs'"
  proof (cases "j = i")
    case False
    then have "fst ` set (css ! i) \<inter> fst ` set (css ! j) = {}" using assms j(1) unfolding hash_rep_def by blast
    then show ?thesis using False j(2) hash_addrs_nth [OF j(1)] by auto
  qed (use j in simp)
qed

lemma touches_mono: "touches A h h' \<Longrightarrow> A \<subseteq> B \<Longrightarrow> touches B h h'"
  by (auto simp: touches_def)

definition hash_val :: "int \<Rightarrow> bool" where
  "hash_val v \<longleftrightarrow> 0 \<le> v \<and> v < LIST_VAL_MAX"

lemma hash_rep_vals: "hash_rep h hl css \<Longrightarrow> i < length css \<Longrightarrow> \<forall>v\<in>list_elems (css ! i). 0 \<le> v \<and> nat (v mod n_buckets hl) = i"
  unfolding hash_rep_def by blast

lemma hash_bucket:
  assumes "hash_rep h hl css" "hash_val val"
  defines "i \<equiv> nat (val mod n_buckets hl)"
  shows "i < length css" "HASH_VALUE hl val = Some (int i)" "bucket hl (int i) = Some (buckets hl ! i)" "list_val val"
    "list_rep h (buckets hl ! i) (css ! i)" "val \<in> hash_elems css \<longleftrightarrow> val \<in> list_elems (css ! i)"
proof -
  have n: "0 < n_buckets hl" "length (buckets hl) = nat (n_buckets hl)" "length css = length (buckets hl)"
    using assms(1) by (auto simp: hash_rep_def)
  have b: "0 \<le> val mod n_buckets hl" "val mod n_buckets hl < n_buckets hl" using n(1) by simp_all
  then show i: "i < length css" using n by (simp add: i_def)
  have "sgn val * (\<bar>val\<bar> mod \<bar>n_buckets hl\<bar>) = val mod n_buckets hl" using assms(2) n(1) by (cases "val = 0") (simp_all add: hash_val_def)
  then show "HASH_VALUE hl val = Some (int i)" using n(1) b by (simp add: HASH_VALUE_def i_def)
  show "bucket hl (int i) = Some (buckets hl ! i)" using i n(3) by (simp add: bucket_def)
  show "list_val val" using assms(2) by (simp add: hash_val_def list_val_def LIST_VAL_MIN_def)
  show "list_rep h (buckets hl ! i) (css ! i)" using assms(1) i by (simp add: hash_rep_def)
  show "val \<in> hash_elems css \<longleftrightarrow> val \<in> list_elems (css ! i)"
  proof
    assume "val \<in> hash_elems css"
    then obtain j where "j < length css" "val \<in> list_elems (css ! j)" by (auto simp: hash_elems_def in_set_conv_nth)
    moreover from this have "nat (val mod n_buckets hl) = j" using assms(1) unfolding hash_rep_def by blast
    ultimately show "val \<in> list_elems (css ! i)" by (simp add: i_def)
  qed (use i in \<open>auto simp: hash_elems_def\<close>)
qed

text \<open>Replacing the cells of one bucket.\<close>

lemma hash_rep_update:
  assumes r: "hash_rep h hl css" and i: "i < length css" and l: "list_rep h' (buckets hl ! i) cs'"
    and e: "\<forall>v\<in>list_elems cs'. 0 \<le> v \<and> nat (v mod n_buckets hl) = i"
    and A: "fst ` set cs' \<subseteq> A \<union> fst ` set (css ! i)" "touches (A \<union> fst ` set (css ! i)) h h'" "A \<inter> dom h = {}"
  shows "hash_rep h' hl (css[i := cs'])"
proof -
  have dj: "fst ` set (css ! j) \<inter> (A \<union> fst ` set (css ! i)) = {}" if "j < length css" "j \<noteq> i" for j
  proof -
    have "fst ` set (css ! j) \<subseteq> dom h" using r that(1) list_rep_dom unfolding hash_rep_def by blast
    moreover have "fst ` set (css ! j) \<inter> fst ` set (css ! i) = {}" using r that i unfolding hash_rep_def by blast
    ultimately show ?thesis using A(3) by blast
  qed
  have lj: "list_rep h' (buckets hl ! j) (css ! j)" if "j < length css" "j \<noteq> i" for j
  proof -
    have "h' a = h a" if "a \<in> fst ` set (css ! j)" for a using A(2) dj [OF \<open>j < length css\<close> \<open>j \<noteq> i\<close>] that unfolding touches_def by blast
    then have "nseg h' p (css ! j) q \<longleftrightarrow> nseg h p (css ! j) q" for p q by (rule nseg_cong)
    moreover have "list_rep h (buckets hl ! j) (css ! j)" using r that(1) unfolding hash_rep_def by blast
    ultimately show ?thesis by (simp add: list_rep_def)
  qed
  have "fst ` set (css[i := cs'] ! j) \<inter> fst ` set (css[i := cs'] ! k) = {}" if "j < length css" "k < length css" "j \<noteq> k" for j k
  proof -
    consider "j = i" | "k = i" | "j \<noteq> i" "k \<noteq> i" by blast
    then show ?thesis
    proof cases
      case 1
      then show ?thesis using that dj [of k] A(1) by simp blast
    next
      case 2
      then show ?thesis using that dj [of j] A(1) by simp blast
    next
      case 3
      then show ?thesis using that r unfolding hash_rep_def by simp
    qed
  qed
  moreover have "list_rep h' (buckets hl ! j) (css[i := cs'] ! j) \<and> (\<forall>v \<in> list_elems (css[i := cs'] ! j). 0 \<le> v \<and> nat (v mod n_buckets hl) = j)"
    if "j < length css" for j using that r l e lj by (cases "j = i") (auto simp: hash_rep_def)
  ultimately show ?thesis using r by (simp add: hash_rep_def)
qed

lemma hash_elems_update:
  assumes "i < length css"
  shows "hash_elems (css[i := cs']) = list_elems cs' \<union> (\<Union>j\<in>{..<length css} - {i}. list_elems (css ! j))"
proof -
  have "hash_elems ds = (\<Union>j\<in>{..<length ds}. list_elems (ds ! j))" for ds
    unfolding hash_elems_def set_conv_nth by auto
  then show ?thesis using assms by (auto simp: nth_list_update split: if_splits)
qed

lemma hash_elems_split: "i < length css \<Longrightarrow> hash_elems css = list_elems (css ! i) \<union> (\<Union>j\<in>{..<length css} - {i}. list_elems (css ! j))"
  using hash_elems_update [of i css "css ! i"] by simp

lemma pure_hash_list_contains_correct:
  assumes "hash_rep h hl css" "hash_val val"
  shows "pure_hash_list_contains h hl val = Some (val \<in> hash_elems css)"
  using hash_bucket [OF assms] pure_list_contains_correct by (simp add: pure_hash_list_contains_def)

lemma pure_hash_list_add_correct:
  assumes r: "hash_rep h hl css" and v: "hash_val val" and a: "a \<notin> dom h"
  shows "\<exists>h' css'. pure_hash_list_add (Some (a, n0)) h hl val = Some (Some (val \<notin> hash_elems css), h') \<and>
     hash_rep h' hl css' \<and> hash_elems css' = insert val (hash_elems css) \<and>
     hash_addrs css' \<subseteq> insert a (hash_addrs css) \<and> touches (insert a (hash_addrs css)) h h'"
proof -
  let ?i = "nat (val mod n_buckets hl)"
  note b = hash_bucket [OF r v]
  obtain h' cs' where o: "pure_list_add (Some (a, n0)) h (buckets hl ! ?i) val = Some (Some (val \<notin> list_elems (css ! ?i)), h')"
      "list_rep h' (buckets hl ! ?i) cs'" "list_elems cs' = insert val (list_elems (css ! ?i))"
      "fst ` set cs' \<subseteq> insert a (fst ` set (css ! ?i))" "touches (insert a (fst ` set (css ! ?i))) h h'"
    using pure_list_add_correct [OF b(5,4) a] by blast
  have e: "\<forall>v\<in>list_elems cs'. 0 \<le> v \<and> nat (v mod n_buckets hl) = ?i" using hash_rep_vals [OF r b(1)] v unfolding o(3) hash_val_def by blast
  have "hash_rep h' hl (css[?i := cs'])" by (rule hash_rep_update [OF r b(1) o(2) e, of "{a}"]) (use o(4,5) a in auto)
  moreover have "hash_elems (css[?i := cs']) = insert val (hash_elems css)"
    unfolding hash_elems_update [OF b(1)] hash_elems_split [OF b(1)] o(3) by simp
  moreover have "hash_addrs (css[?i := cs']) \<subseteq> insert a (hash_addrs css)"
    using hash_addrs_update [of css ?i cs'] o(4) hash_addrs_nth [OF b(1)] by blast
  moreover have "touches (insert a (hash_addrs css)) h h'" using hash_addrs_nth [OF b(1)] by (intro touches_mono [OF o(5)]) blast
  moreover have "pure_hash_list_add (Some (a, n0)) h hl val = Some (Some (val \<notin> hash_elems css), h')"
    using o(1) b(2,3,6) by (simp add: pure_hash_list_add_def)
  ultimately show ?thesis by blast
qed

text \<open>Removing a value from its bucket removes it from the table.\<close>

lemma hash_rep_remove:
  assumes r: "hash_rep h hl css" and v: "hash_val val"
  defines "i \<equiv> nat (val mod n_buckets hl)"
  assumes l: "list_rep h' (buckets hl ! i) cs'" "list_elems cs' = list_elems (css ! i) - {val}" "set cs' \<subseteq> set (css ! i)"
    and t: "touches (fst ` set (css ! i)) h h'"
  shows "hash_rep h' hl (css[i := cs'])" "hash_elems (css[i := cs']) = hash_elems css - {val}"
proof -
  note b = hash_bucket [OF r v, folded i_def]
  have e: "\<forall>v\<in>list_elems cs'. 0 \<le> v \<and> nat (v mod n_buckets hl) = i" using hash_rep_vals [OF r b(1)] unfolding l(2) by blast
  show "hash_rep h' hl (css[i := cs'])" by (rule hash_rep_update [OF r b(1) l(1) e, of "{}"]) (use image_mono [OF l(3), of fst] t in simp_all)
  have "val \<notin> list_elems (css ! j)" if "j < length css" "j \<noteq> i" for j using hash_rep_vals [OF r that(1)] that(2) by (auto simp: i_def)
  then show "hash_elems (css[i := cs']) = hash_elems css - {val}"
    unfolding hash_elems_update [OF b(1)] hash_elems_split [OF b(1)] l(2) by auto
qed

text \<open>What is outside the nodes of a table does not matter to it.\<close>

lemma hash_rep_touches:
  assumes "hash_rep h hl css" "touches A h h'" "A \<inter> hash_addrs css = {}"
  shows "hash_rep h' hl css"
proof -
  have "list_rep h' (buckets hl ! i) (css ! i)" if "i < length css" for i
  proof (rule list_rep_touches [OF _ assms(2)])
    show "list_rep h (buckets hl ! i) (css ! i)" using assms(1) that by (simp add: hash_rep_def)
    show "A \<inter> fst ` set (css ! i) = {}" using assms(3) hash_addrs_nth [OF that] by blast
  qed
  then show ?thesis using assms(1) by (simp add: hash_rep_def)
qed

lemma pure_hash_list_remove_correct:
  assumes r: "hash_rep h hl css" and v: "hash_val val"
  shows "\<exists>h' css'. pure_hash_list_remove h hl val = Some (val \<in> hash_elems css, h') \<and>
     hash_rep h' hl css' \<and> hash_elems css' = hash_elems css - {val}"
proof -
  let ?i = "nat (val mod n_buckets hl)"
  note b = hash_bucket [OF r v]
  obtain h' cs' where o: "pure_list_remove h (buckets hl ! ?i) val = Some (val \<in> list_elems (css ! ?i), h')"
      "list_rep h' (buckets hl ! ?i) cs'" "list_elems cs' = list_elems (css ! ?i) - {val}"
      "set cs' \<subseteq> set (css ! ?i)" "touches (fst ` set (css ! ?i)) h h'"
    using pure_list_remove_correct [OF b(5,4)] by blast
  show ?thesis using hash_rep_remove [OF r v o(2-5)] o(1) b(2,3,6)
    by (intro exI [of _ h'] exI [of _ "css[?i := cs']"]) (simp add: pure_hash_list_remove_def)
qed

section \<open>Tables as sets\<close>

text \<open>
  What the benchmark relies on, for all versions of the table: the operations return and answer as
  those of a set of values. \<open>rep s A\<close> says that the state \<open>s\<close> holds the set \<open>A\<close>, \<open>ready m s\<close> that the
  memory \<open>m\<close> is free.
\<close>

datatype 'm set_op = Contains int | Add 'm int | Remove int

fun run_set ::
  "('s \<Rightarrow> int \<Rightarrow> (bool \<times> 's) option) \<Rightarrow> ('m \<Rightarrow> 's \<Rightarrow> int \<Rightarrow> (bool option \<times> 's) option) \<Rightarrow> ('s \<Rightarrow> int \<Rightarrow> (bool \<times> 's) option) \<Rightarrow>
   's \<Rightarrow> 'm set_op list \<Rightarrow> (bool list \<times> 's) option" where
  "run_set contains add remove s [] = Some ([], s)"
| "run_set contains add remove s (Contains v # ops) = do {
     (b, s) \<leftarrow> contains s v; (bs, s) \<leftarrow> run_set contains add remove s ops; Some (b # bs, s) }"
| "run_set contains add remove s (Add m v # ops) = do {
     (b, s) \<leftarrow> add m s v; b \<leftarrow> b; (bs, s) \<leftarrow> run_set contains add remove s ops; Some (b # bs, s) }"
| "run_set contains add remove s (Remove v # ops) = do {
     (b, s) \<leftarrow> remove s v; (bs, s) \<leftarrow> run_set contains add remove s ops; Some (b # bs, s) }"

fun spec_set :: "int set \<Rightarrow> 'm set_op list \<Rightarrow> bool list \<times> int set" where
  "spec_set A [] = ([], A)"
| "spec_set A (Contains v # ops) = (let (bs, A') = spec_set A ops in ((v \<in> A) # bs, A'))"
| "spec_set A (Add m v # ops) = (let (bs, A') = spec_set (insert v A) ops in ((v \<notin> A) # bs, A'))"
| "spec_set A (Remove v # ops) = (let (bs, A') = spec_set (A - {v}) ops in ((v \<in> A) # bs, A'))"

text \<open>The values are in range and every addition gets memory that is free at that point.\<close>

fun ops_ok ::
  "('s \<Rightarrow> int \<Rightarrow> (bool \<times> 's) option) \<Rightarrow> ('m \<Rightarrow> 's \<Rightarrow> int \<Rightarrow> (bool option \<times> 's) option) \<Rightarrow> ('s \<Rightarrow> int \<Rightarrow> (bool \<times> 's) option) \<Rightarrow>
   (int \<Rightarrow> bool) \<Rightarrow> ('m \<Rightarrow> 's \<Rightarrow> bool) \<Rightarrow> 's \<Rightarrow> 'm set_op list \<Rightarrow> bool" where
  "ops_ok contains add remove valid ready s [] \<longleftrightarrow> True"
| "ops_ok contains add remove valid ready s (Contains v # ops) \<longleftrightarrow>
     valid v \<and> (case contains s v of None \<Rightarrow> True | Some (b, s) \<Rightarrow> ops_ok contains add remove valid ready s ops)"
| "ops_ok contains add remove valid ready s (Add m v # ops) \<longleftrightarrow>
     valid v \<and> ready m s \<and> (case add m s v of None \<Rightarrow> True | Some (b, s) \<Rightarrow> ops_ok contains add remove valid ready s ops)"
| "ops_ok contains add remove valid ready s (Remove v # ops) \<longleftrightarrow>
     valid v \<and> (case remove s v of None \<Rightarrow> True | Some (b, s) \<Rightarrow> ops_ok contains add remove valid ready s ops)"

locale int_set =
  fixes rep :: "'s \<Rightarrow> int set \<Rightarrow> bool"
    and valid :: "int \<Rightarrow> bool"
    and ready :: "'m \<Rightarrow> 's \<Rightarrow> bool"
    and contains :: "'s \<Rightarrow> int \<Rightarrow> (bool \<times> 's) option"
    and add :: "'m \<Rightarrow> 's \<Rightarrow> int \<Rightarrow> (bool option \<times> 's) option"
    and remove :: "'s \<Rightarrow> int \<Rightarrow> (bool \<times> 's) option"
  assumes contains_set: "rep s A \<Longrightarrow> valid v \<Longrightarrow> \<exists>s'. contains s v = Some (v \<in> A, s') \<and> rep s' A"
    and add_set: "rep s A \<Longrightarrow> valid v \<Longrightarrow> ready m s \<Longrightarrow> \<exists>s'. add m s v = Some (Some (v \<notin> A), s') \<and> rep s' (insert v A)"
    and remove_set: "rep s A \<Longrightarrow> valid v \<Longrightarrow> \<exists>s'. remove s v = Some (v \<in> A, s') \<and> rep s' (A - {v})"
begin

lemma run_refines:
  "rep s A \<Longrightarrow> ops_ok contains add remove valid ready s ops \<Longrightarrow>
   \<exists>s'. run_set contains add remove s ops = Some (fst (spec_set A ops), s') \<and> rep s' (snd (spec_set A ops))"
proof (induction ops arbitrary: s A)
  case (Cons x ops)
  show ?case
  proof (cases x)
    case (Contains v)
    obtain s1 where "contains s v = Some (v \<in> A, s1)" "rep s1 A" using Cons.prems Contains contains_set [of s A v] by auto
    with Cons.IH [of s1 A] Cons.prems Contains show ?thesis by (auto simp: case_prod_beta Let_def)
  next
    case (Add m v)
    obtain s1 where "add m s v = Some (Some (v \<notin> A), s1)" "rep s1 (insert v A)" using Cons.prems Add add_set [of s A v m] by auto
    with Cons.IH [of s1 "insert v A"] Cons.prems Add show ?thesis by (auto simp: case_prod_beta Let_def)
  next
    case (Remove v)
    obtain s1 where "remove s v = Some (v \<in> A, s1)" "rep s1 (A - {v})" using Cons.prems Remove remove_set [of s A v] by auto
    with Cons.IH [of s1 "A - {v}"] Cons.prems Remove show ?thesis by (auto simp: case_prod_beta Let_def)
  qed
qed simp

end

section \<open>The sequential table is a set\<close>

text \<open>The operations on a store and a table.\<close>

type_synonym table = "nodes \<times> hash_list"

definition table_contains :: "table \<Rightarrow> int \<Rightarrow> (bool \<times> table) option" where
  "table_contains s v = (case s of (h, hl) \<Rightarrow> map_option (\<lambda>b. (b, h, hl)) (pure_hash_list_contains h hl v))"

definition table_add :: "memory \<Rightarrow> table \<Rightarrow> int \<Rightarrow> (bool option \<times> table) option" where
  "table_add m s v = (case s of (h, hl) \<Rightarrow> map_option (\<lambda>(b, h). (b, h, hl)) (pure_hash_list_add m h hl v))"

definition table_remove :: "table \<Rightarrow> int \<Rightarrow> (bool \<times> table) option" where
  "table_remove s v = (case s of (h, hl) \<Rightarrow> map_option (\<lambda>(b, h). (b, h, hl)) (pure_hash_list_remove h hl v))"

definition table_rep :: "table \<Rightarrow> int set \<Rightarrow> bool" where
  "table_rep s A \<longleftrightarrow> (\<exists>css. hash_rep (fst s) (snd s) css \<and> hash_elems css = A)"

definition node_free :: "memory \<Rightarrow> nodes \<Rightarrow> bool" where
  "node_free m h \<longleftrightarrow> (case m of None \<Rightarrow> False | Some (a, n) \<Rightarrow> h a = None)"

definition table_ready :: "memory \<Rightarrow> table \<Rightarrow> bool" where
  "table_ready m s \<longleftrightarrow> node_free m (fst s)"

interpretation pure: int_set table_rep hash_val table_ready table_contains table_add table_remove
proof
  fix s A v m
  assume "table_rep s A" and v: "hash_val v"
  then obtain h hl css where s: "s = (h, hl)" "hash_rep h hl css" "hash_elems css = A" by (cases s) (auto simp: table_rep_def)
  show "\<exists>s'. table_contains s v = Some (v \<in> A, s') \<and> table_rep s' A"
    using pure_hash_list_contains_correct [OF s(2) v] s by (auto simp: table_contains_def table_rep_def)
  show "\<exists>s'. table_remove s v = Some (v \<in> A, s') \<and> table_rep s' (A - {v})"
    using pure_hash_list_remove_correct [OF s(2) v] s by (fastforce simp: table_remove_def table_rep_def)
next
  fix s A v m
  assume "table_rep s A" and v: "hash_val v" and "table_ready m s"
  then obtain h hl css a n where s: "s = (h, hl)" "hash_rep h hl css" "hash_elems css = A" "m = Some (a, n)" "a \<notin> dom h"
    by (cases s) (auto simp: table_rep_def table_ready_def node_free_def split: option.splits)
  show "\<exists>s'. table_add m s v = Some (Some (v \<notin> A), s') \<and> table_rep s' (insert v A)"
    using pure_hash_list_add_correct [OF s(2) v s(5), of n] s by (fastforce simp: table_add_def table_rep_def)
qed

section \<open>New tables and sizes\<close>

definition list_addrs :: "list_memory \<Rightarrow> nat list" where
  "list_addrs m = (case m of (True, Some (a, _), Some (b, _)) \<Rightarrow> [a, b] | _ \<Rightarrow> [])"

text \<open>Memory for \<open>n\<close> lists, all of it free.\<close>

definition fresh_mems :: "nat \<Rightarrow> (nat \<Rightarrow> list_memory) \<Rightarrow> nodes \<Rightarrow> bool" where
  "fresh_mems n mems h \<longleftrightarrow>
     (\<forall>i<n. list_addrs (mems i) \<noteq> [] \<and> distinct (list_addrs (mems i)) \<and> (\<forall>a\<in>set (list_addrs (mems i)). h a = None)) \<and>
     (\<forall>i<n. \<forall>j<n. i \<noteq> j \<longrightarrow> set (list_addrs (mems i)) \<inter> set (list_addrs (mems j)) = {})"

lemma new_list_rep:
  assumes "list_addrs m = [a, b]" "a \<noteq> b"
  shows "\<exists>l h'. pure_new_list m h = Some (Some l, h') \<and> list_rep h' l [(b, LIST_VAL_MIN), (a, LIST_VAL_MAX)] \<and> touches {a, b} h h'"
proof -
  obtain x y where m: "m = (True, Some (a, x), Some (b, y))" using assms(1) by (auto simp: list_addrs_def split: prod.splits option.splits bool.splits)
  let ?h = "h(a \<mapsto> x\<lparr>n_val := LIST_VAL_MAX, n_next := None\<rparr>, b \<mapsto> y\<lparr>n_val := LIST_VAL_MIN, n_next := Some a\<rparr>)"
  have "pure_new_list m h = Some (Some \<lparr>p_head = b\<rparr>, ?h)"
    by (simp add: pure_new_list_def m pure_new_node_def init_node_def upd_node_def)
  moreover have "list_rep ?h \<lparr>p_head = b\<rparr> [(b, LIST_VAL_MIN), (a, LIST_VAL_MAX)]"
    using assms(2) by (simp add: list_rep_def LIST_VAL_MIN_def LIST_VAL_MAX_def)
  ultimately show ?thesis by (auto simp: touches_def)
qed

lemma new_buckets_rep:
  "fresh_mems n mems h \<Longrightarrow>
   \<exists>ls css h'. new_buckets n mems h = Some (Some ls, h') \<and> length ls = n \<and> length css = n \<and>
     (\<forall>i<n. list_rep h' (ls ! i) (css ! i) \<and> list_elems (css ! i) = {} \<and> fst ` set (css ! i) = set (list_addrs (mems i)))"
proof (induction n)
  case (Suc n)
  have "fresh_mems n mems h" using Suc.prems unfolding fresh_mems_def by (meson less_SucI)
  from Suc.IH [OF this] obtain ls css h1 where i: "new_buckets n mems h = Some (Some ls, h1)" "length ls = n" "length css = n"
      "\<And>i. i < n \<Longrightarrow> list_rep h1 (ls ! i) (css ! i) \<and> list_elems (css ! i) = {} \<and> fst ` set (css ! i) = set (list_addrs (mems i))" by blast
  have "list_addrs (mems n) \<noteq> []" using Suc.prems by (simp add: fresh_mems_def)
  then obtain a b where ab: "list_addrs (mems n) = [a, b]" by (auto simp: list_addrs_def split: prod.splits option.splits bool.splits)
  have d: "a \<noteq> b" "\<And>i. i < n \<Longrightarrow> {a, b} \<inter> set (list_addrs (mems i)) = {}"
  proof -
    have "distinct (list_addrs (mems n))" using Suc.prems by (simp add: fresh_mems_def)
    then show "a \<noteq> b" by (simp add: ab)
    fix i assume "i < n"
    then have "set (list_addrs (mems n)) \<inter> set (list_addrs (mems i)) = {}"
      using Suc.prems unfolding fresh_mems_def by (metis lessI less_SucI nat_neq_iff)
    then show "{a, b} \<inter> set (list_addrs (mems i)) = {}" by (simp add: ab)
  qed
  obtain l h2 where l: "pure_new_list (mems n) h1 = Some (Some l, h2)" "list_rep h2 l [(b, LIST_VAL_MIN), (a, LIST_VAL_MAX)]" "touches {a, b} h1 h2"
    using new_list_rep [OF ab d(1)] by blast
  let ?css = "css @ [[(b, LIST_VAL_MIN), (a, LIST_VAL_MAX)]]"
  have "list_rep h2 ((ls @ [l]) ! i) (?css ! i) \<and> list_elems (?css ! i) = {} \<and> fst ` set (?css ! i) = set (list_addrs (mems i))" if "i < Suc n" for i
  proof (cases "i = n")
    case True
    then show ?thesis using l(2) i(2,3) ab by (auto simp: nth_append list_elems_def)
  next
    case False
    then have "i < n" using that by simp
    then show ?thesis using i(2,3) i(4) [of i] list_rep_touches [OF _ l(3)] d(2) [of i] by (auto simp: nth_append)
  qed
  moreover have "new_buckets (Suc n) mems h = Some (Some (ls @ [l]), h2)" using i(1) l(1) by simp
  ultimately show ?case using i(2,3) by (intro exI [of _ "ls @ [l]"] exI [of _ ?css] exI [of _ h2]) auto
qed simp

lemma new_table_rep:
  assumes "fresh_mems (nat n) mems h" "0 < n" "n \<le> MAX_BUCKETS"
  shows "\<exists>hl h'. pure_new_hash_list True mems n h = Some (Some hl, h') \<and> table_rep (h', hl) {}"
proof -
  obtain ls css h' where b: "new_buckets (nat n) mems h = Some (Some ls, h')" "length ls = nat n" "length css = nat n"
      "\<And>i. i < nat n \<Longrightarrow> list_rep h' (ls ! i) (css ! i) \<and> list_elems (css ! i) = {} \<and> fst ` set (css ! i) = set (list_addrs (mems i))"
    using new_buckets_rep [OF assms(1)] by blast
  let ?hl = "\<lparr>n_buckets = n, buckets = ls\<rparr>"
  have "set (list_addrs (mems i)) \<inter> set (list_addrs (mems j)) = {}" if "i < nat n" "j < nat n" "i \<noteq> j" for i j
    using assms(1) that by (simp add: fresh_mems_def)
  then have "hash_rep h' ?hl css" unfolding hash_rep_def using assms(2) b by simp
  moreover have "hash_elems css = {}" using b(3,4) by (auto simp: hash_elems_def in_set_conv_nth)
  ultimately show ?thesis using b(1) assms(3) by (auto simp: pure_new_hash_list_def table_rep_def)
qed

lemma count_nodes_length: "nseg h (Some a) ((a, v) # cs) None \<Longrightarrow> count_nodes h k a = Some (k + int (length cs))"
proof (induction cs arbitrary: a v k)
  case Nil
  then show ?case by (subst count_nodes.simps) auto
next
  case (Cons c cs)
  obtain b w where c: "c = (b, w)" by (cases c)
  then have "nseg h (Some b) ((b, w) # cs) None" "\<exists>n. h a = Some n \<and> n_next n = Some b" using Cons.prems by auto
  with Cons.IH [of b w "k + 1"] c show ?case by (subst count_nodes.simps) auto
qed

lemma list_size_correct:
  assumes "list_rep h l cs"
  shows "list_size h l = Some (int (card (list_elems cs)))"
proof -
  obtain a b v cs' where cs: "cs = (a, LIST_VAL_MIN) # (b, v) # cs'"
    using assms unfolding list_rep_def by (cases cs; cases "tl cs") auto
  have "\<exists>n. h a = Some n \<and> p_head l = a \<and> n_next n = Some b" "nseg h (Some b) ((b, v) # cs') None" using assms by (auto simp: list_rep_def cs)
  then have "list_size h l = Some (int (length cs'))" using count_nodes_length [of h b v cs' 0] by (auto simp: list_size_def)
  moreover have "card (list_elems cs) = length cs'"
  proof -
    have s: "sorted_wrt (<) (map snd cs)" "snd (last cs) = LIST_VAL_MAX" "LIST_VAL_MIN \<noteq> LIST_VAL_MAX"
      using assms by (auto simp: list_rep_def LIST_VAL_MIN_def LIST_VAL_MAX_def)
    then have "distinct (map snd cs)" using strict_sorted_iff by blast
    then have "card (set (map snd cs)) = length cs' + 2" using distinct_card [of "map snd cs"] by (simp add: cs)
    moreover have "{LIST_VAL_MIN, LIST_VAL_MAX} \<subseteq> set (map snd cs)" using s(2) last_in_set [of cs] cs by (auto simp: image_iff intro: bexI [of _ "last cs"])
    moreover have "list_elems cs = set (map snd cs) - {LIST_VAL_MIN, LIST_VAL_MAX}" by (simp add: list_elems_def)
    ultimately show ?thesis using s(3) by (simp add: card_Diff_subset)
  qed
  ultimately show ?thesis by simp
qed

lemma sum_sizes_correct:
  "length css = length ls \<Longrightarrow> (\<And>i. i < length ls \<Longrightarrow> list_rep h (ls ! i) (css ! i)) \<Longrightarrow>
   sum_sizes h ls k = Some (k + int (sum_list (map (\<lambda>cs. card (list_elems cs)) css)))"
proof (induction ls arbitrary: css k)
  case (Cons l ls)
  then obtain cs css' where c: "css = cs # css'" by (cases css) auto
  have "list_rep h l cs" using Cons.prems(2) [of 0] by (simp add: c)
  moreover have "list_rep h (ls ! i) (css' ! i)" if "i < length ls" for i using Cons.prems(2) [of "Suc i"] that by (simp add: c)
  ultimately show ?case using Cons.IH [of css' "k + int (card (list_elems cs))"] Cons.prems(1) by (simp add: c list_size_correct)
qed simp

lemma list_elems_finite: "finite (list_elems cs)"
  by (simp add: list_elems_def)

lemma hash_elems_card:
  assumes "\<And>i j. i < length css \<Longrightarrow> j < length css \<Longrightarrow> i \<noteq> j \<Longrightarrow> list_elems (css ! i) \<inter> list_elems (css ! j) = {}"
  shows "card (hash_elems css) = sum_list (map (\<lambda>cs. card (list_elems cs)) css)"
  using assms
proof (induction css)
  case (Cons cs css)
  have "list_elems (css ! i) \<inter> list_elems (css ! j) = {}" if "i < length css" "j < length css" "i \<noteq> j" for i j
    using Cons.prems [of "Suc i" "Suc j"] that by simp
  then have "card (hash_elems css) = sum_list (map (\<lambda>cs. card (list_elems cs)) css)" by (rule Cons.IH)
  moreover have "list_elems cs \<inter> hash_elems css = {}"
    using Cons.prems [of 0] by (force simp: hash_elems_def in_set_conv_nth)
  moreover have "hash_elems (cs # css) = list_elems cs \<union> hash_elems css" "finite (hash_elems css)" using list_elems_finite by (auto simp: hash_elems_def)
  ultimately show ?case using list_elems_finite by (simp add: card_Un_disjoint)
qed (simp add: hash_elems_def)

lemma hash_list_size_correct:
  assumes "hash_rep h hl css"
  shows "hash_list_size h hl = Some (int (card (hash_elems css)))"
proof -
  have n: "length css = length (buckets hl)" "length (buckets hl) = nat (n_buckets hl)" "\<And>i. i < length (buckets hl) \<Longrightarrow> list_rep h (buckets hl ! i) (css ! i)"
    using assms by (auto simp: hash_rep_def)
  have "list_elems (css ! i) \<inter> list_elems (css ! j) = {}" if "i < length css" "j < length css" "i \<noteq> j" for i j
    using hash_rep_vals [OF assms that(1)] hash_rep_vals [OF assms that(2)] that(3) by auto
  then have "card (hash_elems css) = sum_list (map (\<lambda>cs. card (list_elems cs)) css)" by (rule hash_elems_card)
  then show ?thesis using sum_sizes_correct [OF n(1,3), of 0] n(2) by (simp add: hash_list_size_def)
qed

text \<open>
  C17. The sequential hash table of the benchmark is a set. A new table with room for its lists is
  empty, and on any sequence of lookups, insertions and removals of values from 0 to below
  \<open>LIST_VAL_MAX\<close>, with free memory for every insertion, all calls return, answer as those of a set
  of integers, and \<open>hash_list_size\<close> returns the number of elements at the end.
\<close>

theorem hash_list_refines_set:
  assumes "fresh_mems (nat n) mems h" "0 < n" "n \<le> MAX_BUCKETS"
  shows "\<exists>hl h0. pure_new_hash_list True mems n h = Some (Some hl, h0) \<and>
     (\<forall>ops. ops_ok table_contains table_add table_remove hash_val table_ready (h0, hl) ops \<longrightarrow>
        (\<exists>h' hl'. run_set table_contains table_add table_remove (h0, hl) ops = Some (fst (spec_set {} ops), h', hl') \<and>
           hash_list_size h' hl' = Some (int (card (snd (spec_set {} ops))))))"
proof -
  obtain hl h0 where n: "pure_new_hash_list True mems n h = Some (Some hl, h0)" "table_rep (h0, hl) {}"
    using new_table_rep [OF assms] by blast
  have "\<exists>h' hl'. run_set table_contains table_add table_remove (h0, hl) ops = Some (fst (spec_set {} ops), h', hl') \<and>
      hash_list_size h' hl' = Some (int (card (snd (spec_set {} ops))))"
    if "ops_ok table_contains table_add table_remove hash_val table_ready (h0, hl) ops" for ops
    using pure.run_refines [OF n(2) that] hash_list_size_correct by (fastforce simp: table_rep_def)
  then show ?thesis using n(1) by blast
qed

definition demo_mems :: "nat \<Rightarrow> list_memory" where
  "demo_mems i = (True, Some (2 * i, \<lparr>n_val = 0, n_next = None\<rparr>), Some (2 * i + 1, \<lparr>n_val = 0, n_next = None\<rparr>))"

definition demo_ops :: "memory set_op list" where
  "demo_ops = [Add (Some (10, \<lparr>n_val = 0, n_next = None\<rparr>)) 5, Add (Some (11, \<lparr>n_val = 0, n_next = None\<rparr>)) 7, Contains 5, Remove 5, Contains 5]"

definition demo_table :: table where
  "demo_table = (case pure_new_hash_list True demo_mems 2 Map.empty of Some (Some hl, h) \<Rightarrow> (h, hl) | _ \<Rightarrow> (Map.empty, \<lparr>n_buckets = 0, buckets = []\<rparr>))"

theorem hash_list_refines_set_witness:
  "\<exists>h' hl'. run_set table_contains table_add table_remove demo_table demo_ops = Some ([True, True, True, True, False], h', hl') \<and>
     hash_list_size h' hl' = Some 1"
proof -
  have "fresh_mems (nat 2) demo_mems Map.empty"
    by (simp add: fresh_mems_def list_addrs_def demo_mems_def)
  then obtain hl h0 where n: "pure_new_hash_list True demo_mems 2 Map.empty = Some (Some hl, h0)"
      "\<And>ops. ops_ok table_contains table_add table_remove hash_val table_ready (h0, hl) ops \<Longrightarrow>
        (\<exists>h' hl'. run_set table_contains table_add table_remove (h0, hl) ops = Some (fst (spec_set {} ops), h', hl') \<and>
           hash_list_size h' hl' = Some (int (card (snd (spec_set {} ops)))))"
    using hash_list_refines_set [of 2 demo_mems Map.empty] by (auto simp: MAX_BUCKETS_def)
  have t: "(h0, hl) = demo_table" by (simp add: demo_table_def n(1))
  have "ops_ok table_contains table_add table_remove hash_val table_ready demo_table demo_ops" by code_simp
  moreover have "spec_set {} demo_ops = ([True, True, True, True, False], {7})" by (simp add: demo_ops_def insert_Diff_if)
  ultimately show ?thesis using n(2) [of demo_ops] unfolding t by simp
qed

end
