(* ===== verification/Urcu.thy ===== *)
theory Urcu
  imports HashList
begin

text \<open>
  The user-level RCU of the benchmark (\<open>src/benchmark/rlu/new-urcu.c\<close>) and the hash table that uses
  it (\<open>src/benchmark/rlu/hash-list.c\<close>). Every thread has a counter that is even while it is in a read
  section; a writer holds the spin lock of its bucket, and hands removed nodes to a list that is
  freed, 1000 at a time, after all read sections that were open have ended. What the other threads
  do while a thread polls is the argument \<open>env\<close>; waiting forever, or an access outside an array, is
  the result \<open>None\<close>.
\<close>

section \<open>Read sections and grace periods (new-urcu.c)\<close>

definition URCU_MAX_FREE_PTRS :: nat where "URCU_MAX_FREE_PTRS = 1000"
definition MAX_SPIN_LOCKS :: nat where "MAX_SPIN_LOCKS = 10000"

record urcu =
  u_time :: "u64 list"
  u_free_ptrs :: "nat list list"
  u_spin :: "bool list"

definition urcu_init :: "nat \<Rightarrow> urcu" where
  "urcu_init num_threads =
     \<lparr>u_time = replicate num_threads 1, u_free_ptrs = replicate num_threads [], u_spin = replicate MAX_SPIN_LOCKS False\<rparr>"

definition urcu_reader_lock :: "nat \<Rightarrow> urcu \<Rightarrow> urcu option" where
  "urcu_reader_lock i u = (if i < length (u_time u) then Some (u\<lparr>u_time := (u_time u)[i := u_time u ! i + 1]\<rparr>) else None)"

definition urcu_reader_unlock :: "nat \<Rightarrow> urcu \<Rightarrow> urcu option" where
  "urcu_reader_unlock i u = (if i < length (u_time u) then Some (u\<lparr>u_time := (u_time u)[i := u_time u ! i OR 1]\<rparr>) else None)"

definition urcu_writer_lock :: "nat \<Rightarrow> urcu \<Rightarrow> urcu option" where
  "urcu_writer_lock lock_id u =
     (if lock_id < length (u_spin u) \<and> \<not> u_spin u ! lock_id then Some (u\<lparr>u_spin := (u_spin u)[lock_id := True]\<rparr>) else None)"

definition urcu_writer_unlock :: "nat \<Rightarrow> urcu \<Rightarrow> urcu option" where
  "urcu_writer_unlock lock_id u =
     (if lock_id < length (u_spin u) then Some (u\<lparr>u_spin := (u_spin u)[lock_id := False]\<rparr>) else None)"

text \<open>The inner loop of \<open>urcu_synchronize\<close>: poll until thread \<open>i\<close> is outside or in a later section.\<close>

partial_function (option) urcu_wait :: "(nat \<Rightarrow> urcu \<Rightarrow> urcu) \<Rightarrow> u64 \<Rightarrow> nat \<Rightarrow> nat \<Rightarrow> urcu \<Rightarrow> (nat \<times> urcu) option" where
  "urcu_wait env t0 i k u = do {
     let u = env k u;
     t \<leftarrow> (if i < length (u_time u) then Some (u_time u ! i) else None);
     (if t AND 1 \<noteq> 0 \<or> t > t0 then Some (Suc k, u) else urcu_wait env t0 i (Suc k) u) }"

declare urcu_wait.simps [code]

text \<open>The outer loop, over the counters read at the beginning.\<close>

fun urcu_sync_loop :: "(nat \<Rightarrow> urcu \<Rightarrow> urcu) \<Rightarrow> u64 list \<Rightarrow> nat \<Rightarrow> nat \<Rightarrow> urcu \<Rightarrow> (nat \<times> urcu) option" where
  "urcu_sync_loop env [] i k u = Some (k, u)"
| "urcu_sync_loop env (t # ts) i k u =
     (if t AND 1 \<noteq> 0 then urcu_sync_loop env ts (Suc i) k u
      else do { (k, u) \<leftarrow> urcu_wait env t i k u; urcu_sync_loop env ts (Suc i) k u })"

definition urcu_synchronize :: "(nat \<Rightarrow> urcu \<Rightarrow> urcu) \<Rightarrow> nat \<Rightarrow> urcu \<Rightarrow> (nat \<times> urcu) option" where
  "urcu_synchronize env k u = urcu_sync_loop env (u_time u) 0 k u"

definition free_all :: "nat list \<Rightarrow> nodes \<Rightarrow> nodes" where
  "free_all ps h = (\<lambda>a. if a \<in> set ps then None else h a)"

definition urcu_free :: "(nat \<Rightarrow> urcu \<Rightarrow> urcu) \<Rightarrow> nat \<Rightarrow> nat \<Rightarrow> nat \<Rightarrow> urcu \<Rightarrow> nodes \<Rightarrow> (nat \<times> urcu \<times> nodes) option" where
  "urcu_free env i p k u h =
     (if i < length (u_free_ptrs u) \<and> length (u_free_ptrs u ! i) < URCU_MAX_FREE_PTRS then do {
        let u = u\<lparr>u_free_ptrs := (u_free_ptrs u)[i := u_free_ptrs u ! i @ [p]]\<rparr>;
        (if length (u_free_ptrs u ! i) = URCU_MAX_FREE_PTRS then do {
           (k, u) \<leftarrow> urcu_synchronize env k u;
           Some (k, u\<lparr>u_free_ptrs := (u_free_ptrs u)[i := []]\<rparr>, free_all (u_free_ptrs u ! i) h) }
         else Some (k, u, h)) }
      else None)"

section \<open>The list and the table (hash-list.c)\<close>

record rcu =
  r_nodes :: nodes
  r_urcu :: urcu
  r_poll :: nat

definition rcu_list_contains :: "nat \<Rightarrow> rcu \<Rightarrow> list_t \<Rightarrow> int \<Rightarrow> (bool \<times> rcu) option" where
  "rcu_list_contains self r p_list val = do {
     u \<leftarrow> urcu_reader_lock self (r_urcu r);
     (p_prev, p_next) \<leftarrow> list_find (r_nodes r) p_list val;
     n \<leftarrow> r_nodes r p_next;
     u \<leftarrow> urcu_reader_unlock self u;
     Some (n_val n = val, r\<lparr>r_urcu := u\<rparr>) }"

definition rcu_list_add :: "memory \<Rightarrow> rcu \<Rightarrow> list_t \<Rightarrow> int \<Rightarrow> nat \<Rightarrow> (bool option \<times> rcu) option" where
  "rcu_list_add mem r p_list val lock_id = do {
     u \<leftarrow> urcu_writer_lock lock_id (r_urcu r);
     (p_prev, p_next) \<leftarrow> list_find (r_nodes r) p_list val;
     n \<leftarrow> r_nodes r p_next;
     (if n_val n \<noteq> val then
        (case pure_new_node mem (r_nodes r) of
           (None, h) \<Rightarrow> Some (None, r\<lparr>r_urcu := u\<rparr>)
         | (Some p_new_node, h) \<Rightarrow> do {
             h \<leftarrow> init_node p_new_node val (Some p_next) h;
             h \<leftarrow> upd_node p_prev (\<lambda>n. n\<lparr>n_next := Some p_new_node\<rparr>) h;
             u \<leftarrow> urcu_writer_unlock lock_id u;
             Some (Some True, r\<lparr>r_nodes := h, r_urcu := u\<rparr>) })
      else do {
        u \<leftarrow> urcu_writer_unlock lock_id u;
        Some (Some False, r\<lparr>r_urcu := u\<rparr>) }) }"

definition rcu_list_remove :: "(nat \<Rightarrow> urcu \<Rightarrow> urcu) \<Rightarrow> nat \<Rightarrow> rcu \<Rightarrow> list_t \<Rightarrow> int \<Rightarrow> nat \<Rightarrow> (bool \<times> rcu) option" where
  "rcu_list_remove env self r p_list val lock_id = do {
     u \<leftarrow> urcu_writer_lock lock_id (r_urcu r);
     (p_prev, p_next) \<leftarrow> list_find (r_nodes r) p_list val;
     n \<leftarrow> r_nodes r p_next;
     (if n_val n = val then do {
        h \<leftarrow> upd_node p_prev (\<lambda>m. m\<lparr>n_next := n_next n\<rparr>) (r_nodes r);
        u \<leftarrow> urcu_writer_unlock lock_id u;
        (k, u, h) \<leftarrow> urcu_free env self p_next (r_poll r) u h;
        Some (True, r\<lparr>r_nodes := h, r_urcu := u, r_poll := k\<rparr>) }
      else do {
        u \<leftarrow> urcu_writer_unlock lock_id u;
        Some (False, r\<lparr>r_urcu := u\<rparr>) }) }"

definition rcu_hash_list_contains :: "nat \<Rightarrow> rcu \<Rightarrow> hash_list \<Rightarrow> int \<Rightarrow> (bool \<times> rcu) option" where
  "rcu_hash_list_contains self r p_hash_list val = do {
     hash \<leftarrow> HASH_VALUE p_hash_list val;
     l \<leftarrow> bucket p_hash_list hash;
     rcu_list_contains self r l val }"

definition rcu_hash_list_add :: "memory \<Rightarrow> rcu \<Rightarrow> hash_list \<Rightarrow> int \<Rightarrow> (bool option \<times> rcu) option" where
  "rcu_hash_list_add mem r p_hash_list val = do {
     hash \<leftarrow> HASH_VALUE p_hash_list val;
     l \<leftarrow> bucket p_hash_list hash;
     rcu_list_add mem r l val (nat hash) }"

definition rcu_hash_list_remove :: "(nat \<Rightarrow> urcu \<Rightarrow> urcu) \<Rightarrow> nat \<Rightarrow> rcu \<Rightarrow> hash_list \<Rightarrow> int \<Rightarrow> (bool \<times> rcu) option" where
  "rcu_hash_list_remove env self r p_hash_list val = do {
     hash \<leftarrow> HASH_VALUE p_hash_list val;
     l \<leftarrow> bucket p_hash_list hash;
     rcu_list_remove env self r l val (nat hash) }"

section \<open>A grace period\<close>

lemma counter_bit [simp]: "(t :: u64) AND 1 = 0 \<longleftrightarrow> even t"
  by (simp add: and_one_eq mod2_eq_if)

text \<open>The state after \<open>n\<close> polls, and the counters of the other threads, which only grow.\<close>

fun polls :: "(nat \<Rightarrow> urcu \<Rightarrow> urcu) \<Rightarrow> nat \<Rightarrow> nat \<Rightarrow> urcu \<Rightarrow> urcu" where
  "polls env 0 k u = u"
| "polls env (Suc n) k u = env (k + n) (polls env n k u)"

definition env_mono :: "(nat \<Rightarrow> urcu \<Rightarrow> urcu) \<Rightarrow> bool" where
  "env_mono env \<longleftrightarrow>
     (\<forall>k u. length (u_time (env k u)) = length (u_time u) \<and> (\<forall>j < length (u_time u). u_time u ! j \<le> u_time (env k u) ! j))"

lemma polls_mono:
  assumes "env_mono env"
  shows "length (u_time (polls env n k u)) = length (u_time u)"
    "m \<le> n \<Longrightarrow> j < length (u_time u) \<Longrightarrow> u_time (polls env m k u) ! j \<le> u_time (polls env n k u) ! j"
proof -
  show l: "length (u_time (polls env n k u)) = length (u_time u)" for n using assms by (induction n) (auto simp: env_mono_def)
  show "u_time (polls env m k u) ! j \<le> u_time (polls env n k u) ! j" if "m \<le> n" "j < length (u_time u)"
    using that(1)
  proof (induction rule: dec_induct)
    case (step n)
    then show ?case using assms that(2) l [of n] by (auto simp: env_mono_def intro: order_trans)
  qed simp
qed

lemma urcu_wait_returns:
  assumes m: "env_mono env" and i: "i < length (u_time u)" and t: "t0 < u_time (polls env n k u) ! i" "t0 \<le> u_time u ! i" "even t0"
  shows "\<exists>d'\<ge>d. urcu_wait env t0 i (k + d) (polls env d k u) = Some (k + d', polls env d' k u) \<and> t0 < u_time (polls env d' k u) ! i"
proof (induction "n - d" arbitrary: d rule: less_induct)
  case less
  let ?v = "polls env (Suc d) k u"
  have l: "i < length (u_time ?v)" using polls_mono(1) [OF m, of "Suc d"] i by simp
  have le: "t0 \<le> u_time ?v ! i" using t(2) polls_mono(2) [OF m, of 0 "Suc d" i] i by (auto intro: order_trans)
  show ?case
  proof (cases "odd (u_time ?v ! i) \<or> u_time ?v ! i > t0")
    case True
    then have "t0 < u_time ?v ! i" using le t(3) by (auto simp: order_le_less)
    moreover have "urcu_wait env t0 i (k + d) (polls env d k u) = Some (k + Suc d, ?v)"
      using True l by (subst urcu_wait.simps) (simp add: Let_def)
    ultimately show ?thesis by (intro exI [of _ "Suc d"]) simp
  next
    case False
    have "Suc d < n"
    proof (rule ccontr)
      assume "\<not> Suc d < n"
      then have "u_time (polls env n k u) ! i \<le> u_time ?v ! i" using polls_mono(2) [OF m, of n "Suc d" i] i by simp
      then show False using t(1) False by auto
    qed
    then have "n - Suc d < n - d" by simp
    from less [OF this] obtain d' where "Suc d \<le> d'" "urcu_wait env t0 i (k + Suc d) ?v = Some (k + d', polls env d' k u)" "t0 < u_time (polls env d' k u) ! i"
      by blast
    moreover have "urcu_wait env t0 i (k + d) (polls env d k u) = urcu_wait env t0 i (k + Suc d) ?v"
      using False l by (subst urcu_wait.simps) (simp add: Let_def)
    ultimately show ?thesis by (intro exI [of _ d']) simp
  qed
qed

lemma urcu_sync_loop_returns:
  assumes m: "env_mono env"
    and p: "\<And>j. j < length (u_time u) \<Longrightarrow> even (u_time u ! j) \<Longrightarrow> \<exists>n. u_time u ! j < u_time (polls env n k u) ! j"
  shows "ts = drop i (u_time u) \<Longrightarrow> \<exists>d'\<ge>d. urcu_sync_loop env ts i (k + d) (polls env d k u) = Some (k + d', polls env d' k u) \<and>
     (\<forall>j. i \<le> j \<and> j < length (u_time u) \<and> even (u_time u ! j) \<longrightarrow> u_time u ! j < u_time (polls env d' k u) ! j)"
proof (induction ts arbitrary: i d)
  case Nil
  then show ?case by auto
next
  case (Cons t ts)
  have i: "i < length (u_time u)" and t: "t = u_time u ! i" and ts: "ts = drop (Suc i) (u_time u)"
    using Cons.prems by (metis drop_all list.discI not_less, metis nth_via_drop, metis drop_Suc list.sel(3) tl_drop)
  have grow: "u_time u ! i < u_time (polls env e k u) ! i" if "d1 \<le> e" "u_time u ! i < u_time (polls env d1 k u) ! i" for d1 e
    using polls_mono(2) [OF m that(1) i] that(2) by (rule order_less_le_trans [rotated])
  obtain d1 where d1: "d \<le> d1" "urcu_sync_loop env (t # ts) i (k + d) (polls env d k u) = urcu_sync_loop env ts (Suc i) (k + d1) (polls env d1 k u)"
      "even t \<longrightarrow> u_time u ! i < u_time (polls env d1 k u) ! i"
  proof (cases "odd t")
    case True
    then show thesis using that [of d] by simp
  next
    case False
    then obtain n where n: "u_time u ! i < u_time (polls env n k u) ! i" using p [OF i] t by auto
    have "\<exists>d'\<ge>d. urcu_wait env t i (k + d) (polls env d k u) = Some (k + d', polls env d' k u) \<and> t < u_time (polls env d' k u) ! i"
      by (rule urcu_wait_returns [OF m i, of _ n]) (use n t False in simp_all)
    then show thesis using that False t by auto
  qed
  obtain d2 where d2: "d1 \<le> d2" "urcu_sync_loop env ts (Suc i) (k + d1) (polls env d1 k u) = Some (k + d2, polls env d2 k u)"
      "\<forall>j. Suc i \<le> j \<and> j < length (u_time u) \<and> even (u_time u ! j) \<longrightarrow> u_time u ! j < u_time (polls env d2 k u) ! j"
    using Cons.IH [OF ts] by blast
  have "u_time u ! j < u_time (polls env d2 k u) ! j" if "i \<le> j" "j < length (u_time u)" "even (u_time u ! j)" for j
    using that d1(3) d2(3) grow [OF d2(1)] t by (cases "j = i") auto
  then show ?case using d1(1,2) d2(1,2) by (intro exI [of _ d2]) auto
qed

text \<open>
  C22. The grace period of the user-level RCU: if every thread that is in a read section ends it
  sooner or later, \<open>urcu_synchronize\<close> returns, and by then the counter of every thread that was in
  a read section when it began has moved on, so that section is over.
\<close>

theorem urcu_synchronize_grace:
  assumes "env_mono env"
    and "\<And>j. j < length (u_time u) \<Longrightarrow> even (u_time u ! j) \<Longrightarrow> \<exists>n. u_time u ! j < u_time (polls env n k u) ! j"
  shows "\<exists>k' u'. urcu_synchronize env k u = Some (k', u') \<and>
     (\<forall>j. j < length (u_time u) \<and> even (u_time u ! j) \<longrightarrow> u_time u ! j < u_time u' ! j)"
  using urcu_sync_loop_returns [OF assms, of "u_time u" 0 0] by (auto simp: urcu_synchronize_def)

text \<open>Thread 1 is in a read section and leaves it at the first poll.\<close>

definition demo_env :: "nat \<Rightarrow> urcu \<Rightarrow> urcu" where
  "demo_env k u = u\<lparr>u_time := map (max 3) (u_time u)\<rparr>"

definition demo_urcu :: urcu where
  "demo_urcu = \<lparr>u_time = [1, 2], u_free_ptrs = [[], []], u_spin = []\<rparr>"

theorem urcu_synchronize_grace_witness: "\<exists>k' u'. urcu_synchronize demo_env 0 demo_urcu = Some (k', u') \<and> 2 < u_time u' ! 1"
proof -
  have "env_mono demo_env" by (simp add: env_mono_def demo_env_def)
  moreover have "\<exists>n. u_time demo_urcu ! j < u_time (polls demo_env n 0 demo_urcu) ! j" if "j < length (u_time demo_urcu)" "even (u_time demo_urcu ! j)" for j
  proof (intro exI [of _ "Suc 0"])
    have "j = 1" using that by (auto simp: demo_urcu_def less_Suc_eq)
    then show "u_time demo_urcu ! j < u_time (polls demo_env (Suc 0) 0 demo_urcu) ! j" by (simp add: demo_env_def demo_urcu_def)
  qed
  ultimately obtain k' u' where "urcu_synchronize demo_env 0 demo_urcu = Some (k', u')"
      "\<forall>j. j < length (u_time demo_urcu) \<and> even (u_time demo_urcu ! j) \<longrightarrow> u_time demo_urcu ! j < u_time u' ! j"
    using urcu_synchronize_grace [of demo_env demo_urcu 0] by blast
  moreover from this(2) have "u_time demo_urcu ! 1 < u_time u' ! 1" by (auto simp: demo_urcu_def)
  ultimately show ?thesis by (simp add: demo_urcu_def)
qed

section \<open>The table under RCU is a set\<close>

text \<open>
  While a thread works on the table the others only read: their counters grow, a read section ends
  sooner or later, and they leave everything else and the counter of the thread as they are.
\<close>

definition readers_only :: "nat \<Rightarrow> (nat \<Rightarrow> urcu \<Rightarrow> urcu) \<Rightarrow> bool" where
  "readers_only self env \<longleftrightarrow> env_mono env \<and>
     (\<forall>k u. \<exists>ts. env k u = u\<lparr>u_time := ts\<rparr> \<and> (self < length ts \<longrightarrow> ts ! self = u_time u ! self)) \<and>
     (\<forall>k u j. j < length (u_time u) \<and> j \<noteq> self \<and> even (u_time u ! j) \<longrightarrow> (\<exists>n. u_time u ! j < u_time (polls env n k u) ! j))"

lemma readers_polls:
  assumes "readers_only self env" "self < length (u_time u)"
  shows "\<exists>ts. polls env n k u = u\<lparr>u_time := ts\<rparr> \<and> length ts = length (u_time u) \<and> ts ! self = u_time u ! self"
proof (induction n)
  case (Suc n)
  then obtain ts where ts: "polls env n k u = u\<lparr>u_time := ts\<rparr>" "length ts = length (u_time u)" "ts ! self = u_time u ! self" by blast
  have "\<exists>ts'. env (k + n) (u\<lparr>u_time := ts\<rparr>) = u\<lparr>u_time := ts, u_time := ts'\<rparr> \<and> (self < length ts' \<longrightarrow> ts' ! self = u_time (u\<lparr>u_time := ts\<rparr>) ! self)"
    using assms(1) unfolding readers_only_def by blast
  then obtain ts' where ts': "env (k + n) (u\<lparr>u_time := ts\<rparr>) = u\<lparr>u_time := ts'\<rparr>" "self < length ts' \<longrightarrow> ts' ! self = ts ! self" by auto
  have "length (u_time (env (k + n) (u\<lparr>u_time := ts\<rparr>))) = length ts" using assms(1) by (simp add: readers_only_def env_mono_def)
  then show ?case using ts ts' assms(2) by (intro exI [of _ ts']) simp
qed (intro exI [of _ "u_time u"]; simp)

definition rcu_idle :: "nat \<Rightarrow> urcu \<Rightarrow> bool" where
  "rcu_idle self u \<longleftrightarrow> self < length (u_time u) \<and> odd (u_time u ! self) \<and> self < length (u_free_ptrs u) \<and>
     length (u_free_ptrs u ! self) < URCU_MAX_FREE_PTRS \<and> True \<notin> set (u_spin u)"

lemma readers_synchronize:
  assumes e: "readers_only self env" and s: "self < length (u_time u)" "odd (u_time u ! self)"
  shows "\<exists>k' ts. urcu_synchronize env k u = Some (k', u\<lparr>u_time := ts\<rparr>) \<and> length ts = length (u_time u) \<and> ts ! self = u_time u ! self"
proof -
  have "env_mono env" "\<And>j. j < length (u_time u) \<Longrightarrow> even (u_time u ! j) \<Longrightarrow> \<exists>n. u_time u ! j < u_time (polls env n k u) ! j"
    using e s(2) unfolding readers_only_def by blast+
  from urcu_sync_loop_returns [OF this, of "u_time u" 0 0] obtain d
    where "urcu_synchronize env k u = Some (k + d, polls env d k u)" by (auto simp: urcu_synchronize_def)
  then show ?thesis using readers_polls [OF e s(1), of d k] by auto
qed

lemma writer_lock_unlock:
  assumes "i < length (u_spin u)" "True \<notin> set (u_spin u)"
  shows "urcu_writer_lock i u = Some (u\<lparr>u_spin := (u_spin u)[i := True]\<rparr>)"
    "urcu_writer_unlock i (u\<lparr>u_spin := (u_spin u)[i := True]\<rparr>) = Some u"
proof -
  have f: "\<not> u_spin u ! i" using assms nth_mem by metis
  show "urcu_writer_lock i u = Some (u\<lparr>u_spin := (u_spin u)[i := True]\<rparr>)" using assms(1) f by (simp add: urcu_writer_lock_def)
  have "(u_spin u)[i := False] = u_spin u" using f by (metis (full_types) list_update_id)
  then show "urcu_writer_unlock i (u\<lparr>u_spin := (u_spin u)[i := True]\<rparr>) = Some u" using assms(1) by (simp add: urcu_writer_unlock_def)
qed

text \<open>Handing over a node: what is freed was pending, and nothing is left that was not pending.\<close>

lemma urcu_free_correct:
  assumes e: "readers_only self env" and u: "rcu_idle self u" and p: "insert p (set (u_free_ptrs u ! self)) \<subseteq> dom h"
  shows "\<exists>k' u' h'. urcu_free env self p k u h = Some (k', u', h') \<and> rcu_idle self u' \<and> u_spin u' = u_spin u \<and>
     set (u_free_ptrs u' ! self) \<subseteq> insert p (set (u_free_ptrs u ! self)) \<and> set (u_free_ptrs u' ! self) \<subseteq> dom h' \<and>
     touches (insert p (set (u_free_ptrs u ! self))) h h'"
proof -
  let ?u = "u\<lparr>u_free_ptrs := (u_free_ptrs u)[self := u_free_ptrs u ! self @ [p]]\<rparr>"
  note i = u [unfolded rcu_idle_def]
  show ?thesis
  proof (cases "Suc (length (u_free_ptrs u ! self)) = URCU_MAX_FREE_PTRS")
    case False
    then have "urcu_free env self p k u h = Some (k, ?u, h)" using i by (simp add: urcu_free_def)
    then show ?thesis using i p False by (auto simp: rcu_idle_def touches_def)
  next
    case True
    obtain k' ts where s: "urcu_synchronize env k ?u = Some (k', ?u\<lparr>u_time := ts\<rparr>)" "length ts = length (u_time u)" "ts ! self = u_time u ! self"
      using readers_synchronize [OF e, of ?u k] i by auto
    let ?u' = "?u\<lparr>u_time := ts, u_free_ptrs := (u_free_ptrs u)[self := []]\<rparr>"
    have "urcu_free env self p k u h = Some (k', ?u', free_all (u_free_ptrs u ! self @ [p]) h)"
      using s i True by (simp add: urcu_free_def Let_def)
    moreover have "rcu_idle self ?u'" using i s by (simp add: rcu_idle_def URCU_MAX_FREE_PTRS_def)
    ultimately show ?thesis using i by (auto simp: touches_def free_all_def)
  qed
qed

text \<open>The operations on a list.\<close>

lemma rcu_list_add_pure:
  assumes "lock_id < length (u_spin (r_urcu r))" "True \<notin> set (u_spin (r_urcu r))" "pure_list_add mem (r_nodes r) l val = Some (Some b, h)"
  shows "rcu_list_add mem r l val lock_id = Some (Some b, r\<lparr>r_nodes := h\<rparr>)"
  using assms(3) writer_lock_unlock [OF assms(1,2)]
  by (auto simp: rcu_list_add_def pure_list_add_def split: bind_splits option.splits if_splits prod.splits)

lemma rcu_list_remove_correct:
  assumes e: "readers_only self env" and i: "rcu_idle self (r_urcu r)" "lock_id < length (u_spin (r_urcu r))"
    and r: "list_rep (r_nodes r) l cs" and v: "list_val val"
    and d: "set (u_free_ptrs (r_urcu r) ! self) \<subseteq> dom (r_nodes r)" "set (u_free_ptrs (r_urcu r) ! self) \<inter> A = {}" "fst ` set cs \<subseteq> A"
  shows "\<exists>h' cs' r'. rcu_list_remove env self r l val lock_id = Some (val \<in> list_elems cs, r') \<and>
     list_rep h' l cs' \<and> list_elems cs' = list_elems cs - {val} \<and> set cs' \<subseteq> set cs \<and> touches (fst ` set cs) (r_nodes r) h' \<and>
     rcu_idle self (r_urcu r') \<and> u_spin (r_urcu r') = u_spin (r_urcu r) \<and>
     set (u_free_ptrs (r_urcu r') ! self) \<subseteq> dom (r_nodes r') \<and> set (u_free_ptrs (r_urcu r') ! self) \<inter> (A - fst ` set cs \<union> fst ` set cs') = {} \<and>
     (\<exists>F. touches F h' (r_nodes r') \<and> F \<inter> (A - fst ` set cs \<union> fst ` set cs') = {})"
proof -
  obtain xs p q zs m n where f: "cs = xs @ p # q # zs" "snd p < val" "val \<le> snd q" "list_find (r_nodes r) l val = Some (fst p, fst q)"
      "\<forall>x\<in>set xs. snd x < val" "\<forall>z\<in>set zs. val < snd z"
    and mn: "r_nodes r (fst p) = Some m" "r_nodes r (fst q) = Some n" "n_val n = snd q" "fst p \<noteq> fst q" and el: "val \<in> list_elems cs \<longleftrightarrow> snd q = val"
    using r v by (rule list_find_nodes)
  have "True \<notin> set (u_spin (r_urcu r))" using i(1) by (simp add: rcu_idle_def)
  note lk = writer_lock_unlock [OF i(2) this]
  show ?thesis
  proof (cases "snd q = val")
    case False
    then have "rcu_list_remove env self r l val lock_id = Some (False, r)" using f(4) mn lk by (simp add: rcu_list_remove_def)
    moreover have "A - fst ` set cs \<union> fst ` set cs = A" using d(3) by blast
    moreover have "touches {} (r_nodes r) (r_nodes r)" "touches (fst ` set cs) (r_nodes r) (r_nodes r)" by (simp_all add: touches_def)
    moreover have "list_elems cs - {val} = list_elems cs" using False el by simp
    ultimately show ?thesis using False el r i d
      by (intro exI [of _ "r_nodes r"] exI [of _ cs] exI [of _ r] conjI exI [of _ "{}"]) simp_all
  next
    case True
    let ?h = "(r_nodes r)(fst p \<mapsto> m\<lparr>n_next := n_next n\<rparr>)"
    let ?F = "insert (fst q) (set (u_free_ptrs (r_urcu r) ! self))"
    have "zs \<noteq> []" using r v True by (auto simp: list_rep_def f(1) list_val_def)
    then have l: "list_rep ?h l (xs @ p # zs)" using r mn unfolding f(1) by (intro list_rep_unlink) auto
    have dm: "?F \<subseteq> dom ?h" using d(1) mn by auto
    obtain k' u' h' where u: "urcu_free env self (fst q) (r_poll r) (r_urcu r) ?h = Some (k', u', h')" "rcu_idle self u'" "u_spin u' = u_spin (r_urcu r)"
        "set (u_free_ptrs u' ! self) \<subseteq> ?F" "set (u_free_ptrs u' ! self) \<subseteq> dom h'" "touches ?F ?h h'"
      using urcu_free_correct [OF e i(1) dm, of "r_poll r"] by (elim exE conjE) rule
    have "rcu_list_remove env self r l val lock_id = Some (True, r\<lparr>r_nodes := h', r_urcu := u', r_poll := k'\<rparr>)"
      using f(4) mn lk True u(1) by (simp add: rcu_list_remove_def upd_node_def)
    moreover have "list_elems (xs @ p # zs) = list_elems cs - {val}" using f True by (auto simp: list_elems_def)
    moreover have "distinct (map fst cs)" using r by (simp add: list_rep_def)
    then have F: "?F \<inter> (A - fst ` set cs \<union> fst ` set (xs @ p # zs)) = {}" using d(2,3) unfolding f(1) by auto
    moreover have "set (u_free_ptrs u' ! self) \<inter> (A - fst ` set cs \<union> fst ` set (xs @ p # zs)) = {}" using u(4) F by blast
    moreover have "set (xs @ p # zs) \<subseteq> set cs" "touches (fst ` set cs) (r_nodes r) ?h" by (auto simp: f(1) touches_def)
    ultimately show ?thesis using True el l u(2,3,5,6)
      by (intro exI [of _ ?h] exI [of _ "xs @ p # zs"] exI [of _ "r\<lparr>r_nodes := h', r_urcu := u', r_poll := k'\<rparr>"] conjI exI [of _ ?F]) simp_all
  qed
qed

text \<open>
  The operations on the shared state and a table, and the set that they hold: the nodes waiting to
  be freed are still allocated and not part of the table, and there is a spin lock for every bucket.
\<close>

type_synonym rcu_table = "rcu \<times> hash_list"

definition rcu_table_contains :: "nat \<Rightarrow> rcu_table \<Rightarrow> int \<Rightarrow> (bool \<times> rcu_table) option" where
  "rcu_table_contains self s v = (case s of (r, hl) \<Rightarrow> map_option (\<lambda>(b, r). (b, r, hl)) (rcu_hash_list_contains self r hl v))"

definition rcu_table_add :: "memory \<Rightarrow> rcu_table \<Rightarrow> int \<Rightarrow> (bool option \<times> rcu_table) option" where
  "rcu_table_add m s v = (case s of (r, hl) \<Rightarrow> map_option (\<lambda>(b, r). (b, r, hl)) (rcu_hash_list_add m r hl v))"

definition rcu_table_remove :: "(nat \<Rightarrow> urcu \<Rightarrow> urcu) \<Rightarrow> nat \<Rightarrow> rcu_table \<Rightarrow> int \<Rightarrow> (bool \<times> rcu_table) option" where
  "rcu_table_remove env self s v = (case s of (r, hl) \<Rightarrow> map_option (\<lambda>(b, r). (b, r, hl)) (rcu_hash_list_remove env self r hl v))"

definition rcu_inv :: "nat \<Rightarrow> rcu \<Rightarrow> hash_list \<Rightarrow> (nat \<times> int) list list \<Rightarrow> bool" where
  "rcu_inv self r hl css \<longleftrightarrow> hash_rep (r_nodes r) hl css \<and> rcu_idle self (r_urcu r) \<and> n_buckets hl \<le> int (length (u_spin (r_urcu r))) \<and>
     set (u_free_ptrs (r_urcu r) ! self) \<subseteq> dom (r_nodes r) \<and> set (u_free_ptrs (r_urcu r) ! self) \<inter> hash_addrs css = {}"

definition rcu_rep :: "(nat \<Rightarrow> urcu \<Rightarrow> urcu) \<Rightarrow> nat \<Rightarrow> rcu_table \<Rightarrow> int set \<Rightarrow> bool" where
  "rcu_rep env self s A \<longleftrightarrow> readers_only self env \<and> (\<exists>css. rcu_inv self (fst s) (snd s) css \<and> hash_elems css = A)"

definition rcu_ready :: "memory \<Rightarrow> rcu_table \<Rightarrow> bool" where
  "rcu_ready m s \<longleftrightarrow> node_free m (r_nodes (fst s))"

lemma reader_lock_unlock:
  assumes "rcu_idle self u"
  shows "\<exists>u1 u2. urcu_reader_lock self u = Some u1 \<and> urcu_reader_unlock self u1 = Some u2 \<and> rcu_idle self u2 \<and>
     u_spin u2 = u_spin u \<and> u_free_ptrs u2 = u_free_ptrs u"
  using assms by (simp add: urcu_reader_lock_def urcu_reader_unlock_def rcu_idle_def even_or_iff)

lemma rcu_hash_list_contains_correct:
  assumes r: "rcu_inv self r hl css" and v: "hash_val val"
  shows "\<exists>r'. rcu_hash_list_contains self r hl val = Some (val \<in> hash_elems css, r') \<and> rcu_inv self r' hl css"
proof -
  have h: "hash_rep (r_nodes r) hl css" and i: "rcu_idle self (r_urcu r)" using r by (simp_all add: rcu_inv_def)
  note b = hash_bucket [OF h v]
  obtain u1 u2 where u: "urcu_reader_lock self (r_urcu r) = Some u1" "urcu_reader_unlock self u1 = Some u2" "rcu_idle self u2"
      "u_spin u2 = u_spin (r_urcu r)" "u_free_ptrs u2 = u_free_ptrs (r_urcu r)" using reader_lock_unlock [OF i] by blast
  have "rcu_list_contains self r (buckets hl ! nat (val mod n_buckets hl)) val = Some (val \<in> hash_elems css, r\<lparr>r_urcu := u2\<rparr>)"
    using pure_list_contains_correct [OF b(5,4)] b(6) u(1,2)
    by (auto simp: rcu_list_contains_def pure_list_contains_def split: bind_splits)
  then have "rcu_hash_list_contains self r hl val = Some (val \<in> hash_elems css, r\<lparr>r_urcu := u2\<rparr>)" using b(2,3) by (simp add: rcu_hash_list_contains_def)
  then show ?thesis using r u(3-5) by (simp add: rcu_inv_def)
qed

lemma rcu_spin_bucket:
  assumes "rcu_inv self r hl css" "hash_val val"
  shows "nat (val mod n_buckets hl) < length (u_spin (r_urcu r))"
proof -
  have "0 < n_buckets hl" using assms(1) by (simp add: rcu_inv_def hash_rep_def)
  then have "0 \<le> val mod n_buckets hl" "val mod n_buckets hl < n_buckets hl" by simp_all
  then show ?thesis using assms(1) by (simp add: rcu_inv_def nat_less_iff)
qed

lemma rcu_hash_list_add_correct:
  assumes r: "rcu_inv self r hl css" and v: "hash_val val" and a: "a \<notin> dom (r_nodes r)"
  shows "\<exists>r' css'. rcu_hash_list_add (Some (a, n0)) r hl val = Some (Some (val \<notin> hash_elems css), r') \<and>
     rcu_inv self r' hl css' \<and> hash_elems css' = insert val (hash_elems css)"
proof -
  have h: "hash_rep (r_nodes r) hl css" and s: "True \<notin> set (u_spin (r_urcu r))"
    and d: "set (u_free_ptrs (r_urcu r) ! self) \<subseteq> dom (r_nodes r)" "set (u_free_ptrs (r_urcu r) ! self) \<inter> hash_addrs css = {}"
    using r by (simp_all add: rcu_inv_def rcu_idle_def)
  note b = hash_bucket [OF h v]
  obtain h' css' where o: "pure_hash_list_add (Some (a, n0)) (r_nodes r) hl val = Some (Some (val \<notin> hash_elems css), h')"
      "hash_rep h' hl css'" "hash_elems css' = insert val (hash_elems css)"
      "hash_addrs css' \<subseteq> insert a (hash_addrs css)" "touches (insert a (hash_addrs css)) (r_nodes r) h'"
    using pure_hash_list_add_correct [OF h v a, of n0] by (elim exE conjE) rule
  have "rcu_hash_list_add (Some (a, n0)) r hl val = Some (Some (val \<notin> hash_elems css), r\<lparr>r_nodes := h'\<rparr>)"
    using o(1) b(2,3) rcu_list_add_pure [OF rcu_spin_bucket [OF r v] s] by (simp add: rcu_hash_list_add_def pure_hash_list_add_def del: int_nat_eq)
  moreover have na: "a \<notin> set (u_free_ptrs (r_urcu r) ! self)" using d(1) a by blast
  have "set (u_free_ptrs (r_urcu r) ! self) \<subseteq> dom h'"
  proof
    fix x assume x: "x \<in> set (u_free_ptrs (r_urcu r) ! self)"
    then have "x \<notin> insert a (hash_addrs css)" using d(2) na by blast
    then show "x \<in> dom h'" using o(5) d(1) x by (auto simp: touches_def)
  qed
  moreover have "set (u_free_ptrs (r_urcu r) ! self) \<inter> hash_addrs css' = {}" using o(4) d(2) na by blast
  ultimately show ?thesis using r o(2,3)
    by (intro exI [of _ "r\<lparr>r_nodes := h'\<rparr>"] exI [of _ css']) (simp add: rcu_inv_def)
qed

lemma rcu_hash_list_remove_correct:
  assumes e: "readers_only self env" and r: "rcu_inv self r hl css" and v: "hash_val val"
  shows "\<exists>r' css'. rcu_hash_list_remove env self r hl val = Some (val \<in> hash_elems css, r') \<and>
     rcu_inv self r' hl css' \<and> hash_elems css' = hash_elems css - {val}"
proof -
  let ?i = "nat (val mod n_buckets hl)"
  let ?l = "buckets hl ! ?i" and ?A = "hash_addrs css - fst ` set (css ! ?i)"
  have h: "hash_rep (r_nodes r) hl css" and i: "rcu_idle self (r_urcu r)"
    and d: "set (u_free_ptrs (r_urcu r) ! self) \<subseteq> dom (r_nodes r)" "set (u_free_ptrs (r_urcu r) ! self) \<inter> hash_addrs css = {}"
    using r by (simp_all add: rcu_inv_def)
  note b = hash_bucket [OF h v]
  obtain h' cs' r' F where o: "rcu_list_remove env self r ?l val ?i = Some (val \<in> list_elems (css ! ?i), r')"
      "list_rep h' ?l cs'" "list_elems cs' = list_elems (css ! ?i) - {val}" "set cs' \<subseteq> set (css ! ?i)" "touches (fst ` set (css ! ?i)) (r_nodes r) h'"
      "rcu_idle self (r_urcu r')" "u_spin (r_urcu r') = u_spin (r_urcu r)" "set (u_free_ptrs (r_urcu r') ! self) \<subseteq> dom (r_nodes r')"
      "set (u_free_ptrs (r_urcu r') ! self) \<inter> (?A \<union> fst ` set cs') = {}" "touches F h' (r_nodes r')" "F \<inter> (?A \<union> fst ` set cs') = {}"
    using rcu_list_remove_correct [OF e i rcu_spin_bucket [OF r v] b(5,4) d hash_addrs_nth [OF b(1)]] by (elim exE conjE) rule
  note h' = hash_rep_remove [OF h v o(2-5)]
  have a: "hash_addrs (css[?i := cs']) \<subseteq> ?A \<union> fst ` set cs'" by (rule hash_addrs_replace [OF h b(1)])
  then have "hash_rep (r_nodes r') hl (css[?i := cs'])" using o(11) by (intro hash_rep_touches [OF h'(1) o(10)]) blast
  moreover have "set (u_free_ptrs (r_urcu r') ! self) \<inter> hash_addrs (css[?i := cs']) = {}" using a o(9) by blast
  ultimately have "rcu_inv self r' hl (css[?i := cs'])" using r o(6-8) by (simp add: rcu_inv_def)
  moreover have "rcu_hash_list_remove env self r hl val = Some (val \<in> hash_elems css, r')"
    using o(1) b(2,3,6) by (simp add: rcu_hash_list_remove_def del: int_nat_eq)
  ultimately show ?thesis using h'(2) by blast
qed

interpretation rcu: int_set "rcu_rep env self" hash_val rcu_ready "rcu_table_contains self" rcu_table_add "rcu_table_remove env self" for env self
proof
  fix s A v
  assume "rcu_rep env self s A" and v: "hash_val v"
  then obtain r hl css where s: "s = (r, hl)" "readers_only self env" "rcu_inv self r hl css" "hash_elems css = A"
    by (cases s) (auto simp: rcu_rep_def)
  show "\<exists>s'. rcu_table_contains self s v = Some (v \<in> A, s') \<and> rcu_rep env self s' A"
    using rcu_hash_list_contains_correct [OF s(3) v] s by (fastforce simp: rcu_table_contains_def rcu_rep_def)
  show "\<exists>s'. rcu_table_remove env self s v = Some (v \<in> A, s') \<and> rcu_rep env self s' (A - {v})"
    using rcu_hash_list_remove_correct [OF s(2,3) v] s by (fastforce simp: rcu_table_remove_def rcu_rep_def)
next
  fix s A v m
  assume "rcu_rep env self s A" and v: "hash_val v" and "rcu_ready m s"
  then obtain r hl css a n where s: "s = (r, hl)" "readers_only self env" "rcu_inv self r hl css" "hash_elems css = A" "m = Some (a, n)" "a \<notin> dom (r_nodes r)"
    by (cases s) (auto simp: rcu_rep_def rcu_ready_def node_free_def split: option.splits)
  show "\<exists>s'. rcu_table_add m s v = Some (Some (v \<notin> A), s') \<and> rcu_rep env self s' (insert v A)"
    using rcu_hash_list_add_correct [OF s(3) v s(6), of n] s by (fastforce simp: rcu_table_add_def rcu_rep_def)
qed

text \<open>A new table, and threads that are outside read sections.\<close>

lemma rcu_new_rep:
  assumes "fresh_mems (nat n) mems h" "0 < n" "n \<le> int MAX_SPIN_LOCKS" "readers_only self env" "self < threads"
  shows "\<exists>hl h0. pure_new_hash_list True mems n h = Some (Some hl, h0) \<and>
     rcu_rep env self (\<lparr>r_nodes = h0, r_urcu = urcu_init threads, r_poll = 0\<rparr>, hl) {}"
proof -
  obtain hl h0 where n: "pure_new_hash_list True mems n h = Some (Some hl, h0)" "table_rep (h0, hl) {}" using new_table_rep [OF assms(1,2)] assms(3) by (auto simp: MAX_SPIN_LOCKS_def MAX_BUCKETS_def)
  have "n_buckets hl = n" using n(1) by (auto simp: pure_new_hash_list_def split: bind_splits option.splits if_splits)
  moreover have "rcu_idle self (urcu_init threads)" using assms(5) by (simp add: rcu_idle_def urcu_init_def URCU_MAX_FREE_PTRS_def)
  ultimately show ?thesis using n assms(3,4,5) by (fastforce simp: rcu_rep_def rcu_inv_def table_rep_def urcu_init_def)
qed

text \<open>
  C18. The hash table under RCU is a set: with readers that come and go, no more buckets than spin
  locks and free memory for every insertion, all calls of a thread return, answer as those of a set
  of integers, and \<open>hash_list_size\<close> returns the number of elements at the end. No node of the table
  is ever freed.
\<close>

theorem rcu_hash_list_refines_set:
  assumes "fresh_mems (nat n) mems h" "0 < n" "n \<le> int MAX_SPIN_LOCKS" "readers_only self env" "self < threads"
  shows "\<exists>hl h0. pure_new_hash_list True mems n h = Some (Some hl, h0) \<and>
     (\<forall>ops. ops_ok (rcu_table_contains self) rcu_table_add (rcu_table_remove env self) hash_val rcu_ready
          (\<lparr>r_nodes = h0, r_urcu = urcu_init threads, r_poll = 0\<rparr>, hl) ops \<longrightarrow>
        (\<exists>r' hl'. run_set (rcu_table_contains self) rcu_table_add (rcu_table_remove env self)
             (\<lparr>r_nodes = h0, r_urcu = urcu_init threads, r_poll = 0\<rparr>, hl) ops = Some (fst (spec_set {} ops), r', hl') \<and>
           hash_list_size (r_nodes r') hl' = Some (int (card (snd (spec_set {} ops))))))"
proof -
  obtain hl h0 where n: "pure_new_hash_list True mems n h = Some (Some hl, h0)"
      "rcu_rep env self (\<lparr>r_nodes = h0, r_urcu = urcu_init threads, r_poll = 0\<rparr>, hl) {}" using rcu_new_rep [OF assms] by blast
  show ?thesis using rcu.run_refines [OF n(2)] n(1) hash_list_size_correct by (fastforce simp: rcu_rep_def rcu_inv_def)
qed

text \<open>Thread 0 works on the table; every other thread is outside read sections when it is looked at.\<close>

definition demo_readers :: "nat \<Rightarrow> urcu \<Rightarrow> urcu" where
  "demo_readers k u = u\<lparr>u_time := (map (\<lambda>_. - 1) (u_time u))[0 := u_time u ! 0]\<rparr>"

lemma demo_readers_only: "readers_only 0 demo_readers"
proof -
  have "\<exists>n. u_time u ! j < u_time (polls demo_readers n k u) ! j" if "j < length (u_time u)" "j \<noteq> 0" "even (u_time u ! j)" for k j and u :: urcu
  proof (intro exI [of _ "Suc 0"])
    have "u_time u ! j \<noteq> - 1" using that(3) by auto
    then show "u_time u ! j < u_time (polls demo_readers (Suc 0) k u) ! j" using that(1,2) by (simp add: demo_readers_def word_order.not_eq_extremum)
  qed
  moreover have "u_time u ! j \<le> (map (\<lambda>_. - 1) (u_time u))[0 := u_time u ! 0] ! j" if "j < length (u_time u)" for u :: urcu and j
    using that by (cases "j = 0") simp_all
  then have "env_mono demo_readers" by (simp add: env_mono_def demo_readers_def)
  moreover have "\<exists>ts. demo_readers k u = u\<lparr>u_time := ts\<rparr> \<and> (0 < length ts \<longrightarrow> ts ! 0 = u_time u ! 0)" for k u
    unfolding demo_readers_def by (intro exI conjI) (rule refl, simp)
  ultimately show ?thesis by (simp add: readers_only_def)
qed

definition demo_rcu :: rcu_table where
  "demo_rcu = (\<lparr>r_nodes = fst demo_table, r_urcu = urcu_init 2, r_poll = 0\<rparr>, snd demo_table)"

lemma demo_rcu_eq:
  "demo_rcu =
     (\<lparr>r_nodes = Map.empty(0 \<mapsto> \<lparr>n_val = 2147483647, n_next = None\<rparr>, 1 \<mapsto> \<lparr>n_val = - 2147483648, n_next = Some 0\<rparr>,
          2 \<mapsto> \<lparr>n_val = 2147483647, n_next = None\<rparr>, 3 \<mapsto> \<lparr>n_val = - 2147483648, n_next = Some 2\<rparr>),
        r_urcu = urcu_init 2, r_poll = 0\<rparr>, \<lparr>n_buckets = 2, buckets = [\<lparr>p_head = 1\<rparr>, \<lparr>p_head = 3\<rparr>]\<rparr>)"
  by (simp add: demo_rcu_def demo_table_def demo_mems_def pure_new_hash_list_def MAX_BUCKETS_def pure_new_list_def pure_new_node_def init_node_def upd_node_def
    LIST_VAL_MIN_def LIST_VAL_MAX_def eval_nat_numeral)

theorem rcu_hash_list_refines_set_witness:
  "\<exists>r' hl'. run_set (rcu_table_contains 0) rcu_table_add (rcu_table_remove demo_readers 0) demo_rcu demo_ops =
       Some ([True, True, True, True, False], r', hl') \<and> hash_list_size (r_nodes r') hl' = Some 1"
proof -
  have "fresh_mems (nat 2) demo_mems Map.empty" by (simp add: fresh_mems_def list_addrs_def demo_mems_def)
  then obtain hl h0 where n: "pure_new_hash_list True demo_mems 2 Map.empty = Some (Some hl, h0)"
      "\<And>ops. ops_ok (rcu_table_contains 0) rcu_table_add (rcu_table_remove demo_readers 0) hash_val rcu_ready
          (\<lparr>r_nodes = h0, r_urcu = urcu_init 2, r_poll = 0\<rparr>, hl) ops \<Longrightarrow>
        (\<exists>r' hl'. run_set (rcu_table_contains 0) rcu_table_add (rcu_table_remove demo_readers 0)
             (\<lparr>r_nodes = h0, r_urcu = urcu_init 2, r_poll = 0\<rparr>, hl) ops = Some (fst (spec_set {} ops), r', hl') \<and>
           hash_list_size (r_nodes r') hl' = Some (int (card (snd (spec_set {} ops)))))"
    using rcu_hash_list_refines_set [of 2 demo_mems Map.empty 0 demo_readers 2] demo_readers_only by (auto simp: MAX_SPIN_LOCKS_def)
  have t: "(\<lparr>r_nodes = h0, r_urcu = urcu_init 2, r_poll = 0\<rparr>, hl) = demo_rcu" by (simp add: demo_rcu_def demo_table_def n(1))
  have "ops_ok (rcu_table_contains 0) rcu_table_add (rcu_table_remove demo_readers 0) hash_val rcu_ready demo_rcu demo_ops"
    by (simp add: demo_rcu_eq demo_ops_def rcu_table_contains_def rcu_table_add_def rcu_table_remove_def rcu_ready_def node_free_def hash_val_def LIST_VAL_MAX_def
      rcu_hash_list_contains_def rcu_hash_list_add_def rcu_hash_list_remove_def HASH_VALUE_def bucket_def
      rcu_list_contains_def rcu_list_add_def rcu_list_remove_def list_find_def list_search.simps pure_new_node_def init_node_def upd_node_def
      urcu_init_def MAX_SPIN_LOCKS_def urcu_reader_lock_def urcu_reader_unlock_def urcu_writer_lock_def urcu_writer_unlock_def urcu_free_def URCU_MAX_FREE_PTRS_def)
  moreover have "spec_set {} demo_ops = ([True, True, True, True, False], {7})" by (simp add: demo_ops_def insert_Diff_if)
  ultimately show ?thesis using n(2) [of demo_ops] unfolding t by simp
qed

text \<open>With more buckets than spin locks, a writer of one of the last buckets takes a lock outside the array.\<close>

lemma rcu_add_lock_out_of_range:
  assumes "hash_rep (r_nodes r) hl css" "hash_val val" "length (u_spin (r_urcu r)) = MAX_SPIN_LOCKS" "int MAX_SPIN_LOCKS \<le> val mod n_buckets hl"
  shows "rcu_hash_list_add mem r hl val = None"
proof -
  have "\<not> nat (val mod n_buckets hl) < length (u_spin (r_urcu r))" using assms(3,4) by simp
  then show ?thesis using hash_bucket(2,3) [OF assms(1,2)]
    by (simp add: rcu_hash_list_add_def rcu_list_add_def urcu_writer_lock_def del: int_nat_eq)
qed

end
