(* ===== verification/Rlu.thy ===== *)
theory Rlu
  imports HashList
begin

text \<open>
  Read-log-update (\<open>src/benchmark/rlu/rlu.c\<close>, \<open>src/benchmark/rlu/rlu.h\<close>), the transactional memory
  that the benchmark of the hash table compares with, in the build with a global clock. An object
  has a header that points to the copy of the thread that has locked it; a thread collects its copies
  in a write set, makes them visible by publishing its writer version, waits for the readers that
  began before that, and writes the copies back. Objects have an arbitrary type of contents. The
  buffer of a write set maps byte offsets to headers with their copies. A failed assertion, which
  aborts the program, an access outside of what is allocated, and waiting forever have the result
  \<open>None\<close>. Versions count synchronisations and are unbounded.
\<close>

section \<open>Configuration and types (rlu.h)\<close>

definition RLU_TYPE_FINE_GRAINED :: int where "RLU_TYPE_FINE_GRAINED = 1"
definition RLU_TYPE_COARSE_GRAINED :: int where "RLU_TYPE_COARSE_GRAINED = 2"
definition RLU_TYPE :: int where "RLU_TYPE = RLU_TYPE_FINE_GRAINED"
definition RLU_NUM_WS :: int where "RLU_NUM_WS = 1"
definition RLU_MAX_THREADS :: int where "RLU_MAX_THREADS = 450"
definition RLU_MAX_WRITE_SETS :: int where "RLU_MAX_WRITE_SETS = 200"
definition RLU_MAX_FREE_NODES :: int where "RLU_MAX_FREE_NODES = 100000"
definition RLU_MAX_WRITE_SET_BUFFER_SIZE :: int where "RLU_MAX_WRITE_SET_BUFFER_SIZE = 100000"
definition RLU_MAX_NESTED_WRITER_LOCKS :: int where "RLU_MAX_NESTED_WRITER_LOCKS = 20"
definition RLU_MAX_WRITER_LOCKS :: int where "RLU_MAX_WRITER_LOCKS = 20000"
definition RLU_MAX_VERSION :: int where "RLU_MAX_VERSION = 9223372036854775806"
definition OBJ_HEADER_SIZE :: int where "OBJ_HEADER_SIZE = 8"
definition WS_OBJ_HEADER_SIZE :: int where "WS_OBJ_HEADER_SIZE = 32"

definition ALIGN_OBJ_SIZE :: "int \<Rightarrow> int" where
  "ALIGN_OBJ_SIZE obj_size = (if obj_size mod 8 \<noteq> 0 then obj_size + (8 - obj_size mod 8) else obj_size)"

definition WS_INDEX :: "int \<Rightarrow> int" where
  "WS_INDEX ws_counter = ws_counter mod RLU_MAX_WRITE_SETS"

definition LOCK_ID :: "int \<Rightarrow> int" where
  "LOCK_ID th_id = th_id + 1"

text \<open>
  Pointers to objects: a master at an address, or a copy at an offset in the buffer of a write set
  of a thread. The field \<open>p_obj_copy\<close> in front of a master is null or points to a copy; the one in
  front of a copy is the mark \<open>PTR_ID_OBJ_COPY\<close>. The counter \<open>n_writer_sync_waits\<close> is never used and left out.
\<close>

datatype rptr = RNull | RObj nat | RCpy int int int

datatype obj_copy = Unlocked | Is_copy | Locked int int int

record 'a rlu_obj =
  o_copy :: obj_copy
  o_body :: 'a

record 'a rlu_ws_obj =
  p_obj_actual :: nat
  ws_obj_size :: int
  ws_run_counter :: u64
  ws_thread_id :: int
  ws_body :: "'a option"

record 'a obj_list =
  writer_locks :: "int list"
  num_of_objs :: nat
  p_cur :: int
  ws_buffer :: "int \<rightharpoonup> 'a rlu_ws_obj"

record wait_entry =
  is_wait :: bool
  we_run_counter :: u64

datatype rlu_stat =
  n_starts | n_finish | n_writers | n_writer_writeback | n_pure_readers | n_aborts | n_steals |
  n_writeback_q_iters | n_sync_requests | n_sync_and_writeback

record 'a rlu_thread =
  uniq_id :: int
  is_check_locks :: bool
  rlu_write_detected :: bool
  is_steal :: bool
  rlu_type :: int
  max_write_sets :: int
  run_counter :: u64
  local_version :: int
  local_commit_version :: int
  is_no_quiescence :: bool
  is_sync :: int
  writer_version :: int
  q_threads :: "int \<Rightarrow> wait_entry"
  ws_head_counter :: int
  ws_wb_counter :: int
  ws_tail_counter :: int
  ws_cur_id :: int
  obj_write_set :: "int \<Rightarrow> 'a obj_list"
  free_nodes :: "nat list"
  n_stat :: "rlu_stat \<Rightarrow> int"

record 'a rlu =
  rlu_objs :: "nat \<rightharpoonup> 'a rlu_obj"
  g_rlu_threads :: "int \<rightharpoonup> 'a rlu_thread"
  g_rlu_cur_threads :: int
  g_rlu_writer_locks :: "int \<Rightarrow> int"
  g_rlu_writer_version :: int
  g_rlu_commit_version :: int
  g_rlu_type :: int
  g_rlu_max_write_sets :: int
  g_rlu_data :: "rlu_stat \<Rightarrow> int"

definition upd_rthr :: "int \<Rightarrow> ('a rlu_thread \<Rightarrow> 'a rlu_thread) \<Rightarrow> 'a rlu \<Rightarrow> 'a rlu" where
  "upd_rthr self f s = s\<lparr>g_rlu_threads := (g_rlu_threads s)(self := map_option f (g_rlu_threads s self))\<rparr>"

definition upd_robj :: "nat \<Rightarrow> ('a rlu_obj \<Rightarrow> 'a rlu_obj) \<Rightarrow> 'a rlu \<Rightarrow> 'a rlu" where
  "upd_robj a f s = s\<lparr>rlu_objs := (rlu_objs s)(a := map_option f (rlu_objs s a))\<rparr>"

definition upd_wset :: "int \<Rightarrow> int \<Rightarrow> ('a obj_list \<Rightarrow> 'a obj_list) \<Rightarrow> 'a rlu \<Rightarrow> 'a rlu" where
  "upd_wset self ws_id f = upd_rthr self (\<lambda>t. t\<lparr>obj_write_set := (obj_write_set t)(ws_id := f (obj_write_set t ws_id))\<rparr>)"

definition rlu_count :: "int \<Rightarrow> rlu_stat \<Rightarrow> int \<Rightarrow> 'a rlu \<Rightarrow> 'a rlu" where
  "rlu_count self n k = upd_rthr self (\<lambda>t. t\<lparr>n_stat := (n_stat t)(n := n_stat t n + k)\<rparr>)"

definition RLU_ASSERT :: "bool \<Rightarrow> unit option" where
  "RLU_ASSERT cond = (if cond then Some () else None)"

text \<open>The header of the copy at an offset, \<open>GET_COPY\<close>, \<open>GET_ACTUAL\<close>, \<open>GET_THREAD_ID\<close> and \<open>FORCE_ACTUAL\<close>.\<close>

definition ws_header :: "'a rlu \<Rightarrow> int \<Rightarrow> int \<Rightarrow> int \<Rightarrow> 'a rlu_ws_obj option" where
  "ws_header s t w p = do { th \<leftarrow> g_rlu_threads s t; ws_buffer (obj_write_set th w) (p - (OBJ_HEADER_SIZE + WS_OBJ_HEADER_SIZE)) }"

definition GET_COPY :: "'a rlu \<Rightarrow> rptr \<Rightarrow> obj_copy option" where
  "GET_COPY s p =
     (case p of
        RNull \<Rightarrow> None
      | RObj a \<Rightarrow> map_option o_copy (rlu_objs s a)
      | RCpy t w off \<Rightarrow> map_option (\<lambda>_. Is_copy) (ws_header s t w off))"

definition GET_THREAD_ID :: "'a rlu \<Rightarrow> nat \<Rightarrow> int option" where
  "GET_THREAD_ID s a = do {
     ob \<leftarrow> rlu_objs s a;
     (case o_copy ob of Locked t w p \<Rightarrow> map_option ws_thread_id (ws_header s t w p) | _ \<Rightarrow> None) }"

definition FORCE_ACTUAL :: "'a rlu \<Rightarrow> rptr \<Rightarrow> rptr option" where
  "FORCE_ACTUAL s p =
     (case p of
        RCpy t w off \<Rightarrow> map_option (\<lambda>h. RObj (p_obj_actual h)) (ws_header s t w off)
      | RObj a \<Rightarrow> Some (RObj a)
      | RNull \<Rightarrow> None)"

section \<open>Writer locks (rlu.c)\<close>

definition rlu_reset_writer_locks :: "int \<Rightarrow> int \<Rightarrow> 'a rlu \<Rightarrow> 'a rlu" where
  "rlu_reset_writer_locks self ws_id = upd_wset self ws_id (\<lambda>w. w\<lparr>writer_locks := []\<rparr>)"

definition rlu_add_writer_lock :: "int \<Rightarrow> int \<Rightarrow> 'a rlu \<Rightarrow> 'a rlu option" where
  "rlu_add_writer_lock self writer_lock_id s = do {
     th \<leftarrow> g_rlu_threads s self;
     let ids = writer_locks (obj_write_set th (ws_cur_id th));
     _ \<leftarrow> RLU_ASSERT (writer_lock_id \<notin> set ids);
     _ \<leftarrow> RLU_ASSERT (int (length ids) + 1 < RLU_MAX_NESTED_WRITER_LOCKS);
     Some (upd_wset self (ws_cur_id th) (\<lambda>w. w\<lparr>writer_locks := ids @ [writer_lock_id]\<rparr>) s) }"

definition rlu_try_acquire_writer_lock :: "int \<Rightarrow> int \<Rightarrow> 'a rlu \<Rightarrow> (bool \<times> 'a rlu) option" where
  "rlu_try_acquire_writer_lock self writer_lock_id s = do {
     th \<leftarrow> g_rlu_threads s self;
     _ \<leftarrow> (if 0 \<le> writer_lock_id \<and> writer_lock_id < RLU_MAX_WRITER_LOCKS then Some () else None);
     (if g_rlu_writer_locks s writer_lock_id = 0
      then Some (True, s\<lparr>g_rlu_writer_locks := (g_rlu_writer_locks s)(writer_lock_id := LOCK_ID (uniq_id th))\<rparr>)
      else Some (False, s)) }"

definition rlu_release_writer_lock :: "int \<Rightarrow> int \<Rightarrow> 'a rlu \<Rightarrow> 'a rlu option" where
  "rlu_release_writer_lock self writer_lock_id s = do {
     th \<leftarrow> g_rlu_threads s self;
     _ \<leftarrow> RLU_ASSERT (g_rlu_writer_locks s writer_lock_id = LOCK_ID (uniq_id th));
     Some (s\<lparr>g_rlu_writer_locks := (g_rlu_writer_locks s)(writer_lock_id := 0)\<rparr>) }"

fun release_locks :: "int \<Rightarrow> int list \<Rightarrow> 'a rlu \<Rightarrow> 'a rlu option" where
  "release_locks self [] s = Some s"
| "release_locks self (l # ls) s = do { s \<leftarrow> rlu_release_writer_lock self l s; release_locks self ls s }"

definition rlu_release_writer_locks :: "int \<Rightarrow> int \<Rightarrow> 'a rlu \<Rightarrow> 'a rlu option" where
  "rlu_release_writer_locks self ws_id s = do {
     th \<leftarrow> g_rlu_threads s self;
     release_locks self (writer_locks (obj_write_set th ws_id)) s }"

section \<open>Write sets\<close>

definition rlu_reset :: "int \<Rightarrow> 'a rlu \<Rightarrow> 'a rlu" where
  "rlu_reset self = upd_rthr self (\<lambda>t. t\<lparr>rlu_write_detected := False, is_steal := True, is_check_locks := True\<rparr>)"

definition rlu_reset_write_set :: "int \<Rightarrow> int \<Rightarrow> 'a rlu \<Rightarrow> 'a rlu" where
  "rlu_reset_write_set self ws_counter s =
     rlu_reset_writer_locks self (WS_INDEX ws_counter)
       (upd_wset self (WS_INDEX ws_counter) (\<lambda>w. w\<lparr>num_of_objs := 0, p_cur := 0\<rparr>) s)"

text \<open>The header is written at \<open>p_cur\<close>; what follows has not been copied yet.\<close>

definition rlu_add_ws_obj_header_to_write_set :: "int \<Rightarrow> nat \<Rightarrow> int \<Rightarrow> 'a rlu \<Rightarrow> (int \<times> 'a rlu) option" where
  "rlu_add_ws_obj_header_to_write_set self p_obj obj_size s = do {
     th \<leftarrow> g_rlu_threads s self;
     let cur = p_cur (obj_write_set th (ws_cur_id th));
     let p = cur + WS_OBJ_HEADER_SIZE + OBJ_HEADER_SIZE;
     let h = \<lparr>p_obj_actual = p_obj, ws_obj_size = obj_size, ws_run_counter = run_counter th, ws_thread_id = uniq_id th, ws_body = None\<rparr>;
     Some (p, upd_wset self (ws_cur_id th) (\<lambda>w. w\<lparr>p_cur := p, ws_buffer := (ws_buffer w)(cur \<mapsto> h)\<rparr>) s) }"

definition rlu_add_obj_copy_to_write_set :: "int \<Rightarrow> nat \<Rightarrow> int \<Rightarrow> 'a rlu \<Rightarrow> 'a rlu option" where
  "rlu_add_obj_copy_to_write_set self p_obj obj_size s = do {
     th \<leftarrow> g_rlu_threads s self;
     ob \<leftarrow> rlu_objs s p_obj;
     let cur = p_cur (obj_write_set th (ws_cur_id th));
     let h = cur - (OBJ_HEADER_SIZE + WS_OBJ_HEADER_SIZE);
     let s = upd_wset self (ws_cur_id th) (\<lambda>w. w\<lparr>p_cur := cur + ALIGN_OBJ_SIZE obj_size, num_of_objs := Suc (num_of_objs w),
           ws_buffer := (ws_buffer w)(h := map_option (\<lambda>e. e\<lparr>ws_body := Some (o_body ob)\<rparr>) (ws_buffer w h))\<rparr>) s;
     _ \<leftarrow> RLU_ASSERT (cur + ALIGN_OBJ_SIZE obj_size < RLU_MAX_WRITE_SET_BUFFER_SIZE);
     Some s }"

text \<open>The loops over a write set: its headers follow each other from the start of the buffer.\<close>

fun writeback_objs :: "int \<Rightarrow> int \<Rightarrow> nat \<Rightarrow> int \<Rightarrow> 'a rlu \<Rightarrow> (int \<times> 'a rlu) option" where
  "writeback_objs self ws_id 0 cur s = Some (cur, s)"
| "writeback_objs self ws_id (Suc n) cur s = do {
     th \<leftarrow> g_rlu_threads s self;
     e \<leftarrow> ws_buffer (obj_write_set th ws_id) cur;
     b \<leftarrow> ws_body e;
     _ \<leftarrow> rlu_objs s (p_obj_actual e);
     let s = upd_robj (p_obj_actual e) (\<lambda>ob. ob\<lparr>o_body := b\<rparr>) s;
     i \<leftarrow> GET_THREAD_ID s (p_obj_actual e);
     _ \<leftarrow> RLU_ASSERT (i = uniq_id th);
     writeback_objs self ws_id n (cur + WS_OBJ_HEADER_SIZE + OBJ_HEADER_SIZE + ALIGN_OBJ_SIZE (ws_obj_size e))
       (upd_robj (p_obj_actual e) (\<lambda>ob. ob\<lparr>o_copy := Unlocked\<rparr>) s) }"

definition rlu_writeback_write_set :: "int \<Rightarrow> int \<Rightarrow> 'a rlu \<Rightarrow> 'a rlu option" where
  "rlu_writeback_write_set self ws_counter s = do {
     th \<leftarrow> g_rlu_threads s self;
     let w = obj_write_set th (WS_INDEX ws_counter);
     (cur, s) \<leftarrow> writeback_objs self (WS_INDEX ws_counter) (num_of_objs w) 0 s;
     _ \<leftarrow> RLU_ASSERT (cur = p_cur w);
     Some s }"

fun reset_sets :: "int \<Rightarrow> nat \<Rightarrow> int \<Rightarrow> 'a rlu \<Rightarrow> 'a rlu" where
  "reset_sets self 0 ws_counter s = s"
| "reset_sets self (Suc n) ws_counter s = reset_sets self n (ws_counter + 1) (rlu_reset_write_set self ws_counter s)"

fun writeback_sets :: "int \<Rightarrow> nat \<Rightarrow> int \<Rightarrow> 'a rlu \<Rightarrow> 'a rlu option" where
  "writeback_sets self 0 ws_counter s = Some s"
| "writeback_sets self (Suc n) ws_counter s = do {
     s \<leftarrow> rlu_writeback_write_set self ws_counter s;
     writeback_sets self n (ws_counter + 1) s }"

definition rlu_writeback_write_sets_and_unlock :: "int \<Rightarrow> 'a rlu \<Rightarrow> (int \<times> 'a rlu) option" where
  "rlu_writeback_write_sets_and_unlock self s = do {
     th \<leftarrow> g_rlu_threads s self;
     let s = reset_sets self (nat (ws_wb_counter th - ws_head_counter th)) (ws_head_counter th) s;
     let s = upd_rthr self (\<lambda>t. t\<lparr>ws_head_counter := ws_wb_counter th\<rparr>) s;
     let n = nat (ws_tail_counter th - ws_wb_counter th);
     s \<leftarrow> writeback_sets self n (ws_wb_counter th) s;
     Some (int n, upd_rthr self (\<lambda>t. t\<lparr>ws_wb_counter := ws_tail_counter th\<rparr>) s) }"

fun unlock_objs :: "int \<Rightarrow> int \<Rightarrow> nat \<Rightarrow> int \<Rightarrow> 'a rlu \<Rightarrow> 'a rlu option" where
  "unlock_objs self ws_id 0 cur s = Some s"
| "unlock_objs self ws_id (Suc n) cur s = do {
     th \<leftarrow> g_rlu_threads s self;
     e \<leftarrow> ws_buffer (obj_write_set th ws_id) cur;
     ob \<leftarrow> rlu_objs s (p_obj_actual e);
     let p = cur + WS_OBJ_HEADER_SIZE + OBJ_HEADER_SIZE;
     _ \<leftarrow> RLU_ASSERT (o_copy ob = Locked self ws_id p);
     unlock_objs self ws_id n (p + ALIGN_OBJ_SIZE (ws_obj_size e))
       (upd_robj (p_obj_actual e) (\<lambda>ob. ob\<lparr>o_copy := Unlocked\<rparr>) s) }"

definition rlu_unlock_objs :: "int \<Rightarrow> int \<Rightarrow> 'a rlu \<Rightarrow> 'a rlu option" where
  "rlu_unlock_objs self ws_counter s = do {
     th \<leftarrow> g_rlu_threads s self;
     unlock_objs self (WS_INDEX ws_counter) (num_of_objs (obj_write_set th (WS_INDEX ws_counter))) 0 s }"

section \<open>Sections, frees and synchronisation\<close>

definition rlu_assert_in_section :: "int \<Rightarrow> 'a rlu \<Rightarrow> unit option" where
  "rlu_assert_in_section self s = do { th \<leftarrow> g_rlu_threads s self; RLU_ASSERT (run_counter th AND 1 \<noteq> 0) }"

definition rlu_register_thread :: "int \<Rightarrow> 'a rlu \<Rightarrow> 'a rlu option" where
  "rlu_register_thread self s = do {
     th \<leftarrow> g_rlu_threads s self;
     _ \<leftarrow> RLU_ASSERT (run_counter th AND 1 = 0);
     Some (upd_rthr self (\<lambda>t. t\<lparr>run_counter := run_counter t + 1, local_version := g_rlu_writer_version s,
       local_commit_version := g_rlu_commit_version s\<rparr>) s) }"

definition rlu_unregister_thread :: "int \<Rightarrow> 'a rlu \<Rightarrow> 'a rlu option" where
  "rlu_unregister_thread self s = do {
     th \<leftarrow> g_rlu_threads s self;
     _ \<leftarrow> RLU_ASSERT (run_counter th AND 1 \<noteq> 0);
     Some (upd_rthr self (\<lambda>t. t\<lparr>run_counter := run_counter t + 1\<rparr>) s) }"

fun free_objs :: "nat list \<Rightarrow> 'a rlu \<Rightarrow> 'a rlu option" where
  "free_objs [] s = Some s"
| "free_objs (p # ps) s = do {
     ob \<leftarrow> rlu_objs s p;
     _ \<leftarrow> RLU_ASSERT (o_copy ob = Unlocked);
     free_objs ps (s\<lparr>rlu_objs := (rlu_objs s)(p := None)\<rparr>) }"

definition rlu_process_free :: "int \<Rightarrow> 'a rlu \<Rightarrow> 'a rlu option" where
  "rlu_process_free self s = do {
     th \<leftarrow> g_rlu_threads s self;
     s \<leftarrow> free_objs (free_nodes th) s;
     Some (upd_rthr self (\<lambda>t. t\<lparr>free_nodes := []\<rparr>) s) }"

fun init_wait :: "int \<Rightarrow> nat \<Rightarrow> int \<Rightarrow> 'a rlu \<Rightarrow> 'a rlu" where
  "init_wait self 0 th_id s = s"
| "init_wait self (Suc n) th_id s =
     init_wait self n (th_id + 1)
       (let s = upd_rthr self (\<lambda>t. t\<lparr>q_threads := (q_threads t)(th_id := (q_threads t th_id)\<lparr>is_wait := False\<rparr>)\<rparr>) s
        in if th_id = self then s
           else (case g_rlu_threads s th_id of
                   None \<Rightarrow> s
                 | Some o_th \<Rightarrow>
                     upd_rthr self (\<lambda>t. t\<lparr>q_threads := (q_threads t)(th_id :=
                       \<lparr>is_wait = (run_counter o_th AND 1 \<noteq> 0), we_run_counter = run_counter o_th\<rparr>)\<rparr>) s))"

definition rlu_init_quiescence :: "int \<Rightarrow> 'a rlu \<Rightarrow> 'a rlu" where
  "rlu_init_quiescence self s = init_wait self (nat (g_rlu_cur_threads s)) 0 s"

text \<open>
  The loop that waits for one thread, and the loop over the threads. \<open>env\<close> is what the other threads
  do between two polls, \<open>k\<close> counts the polls.
\<close>

partial_function (option) wait_thread :: "(nat \<Rightarrow> 'a rlu \<Rightarrow> 'a rlu) \<Rightarrow> int \<Rightarrow> int \<Rightarrow> int \<Rightarrow> nat \<times> int \<times> 'a rlu \<Rightarrow> (nat \<times> int \<times> 'a rlu) option" where
  "wait_thread env self version_limit th_id x = (case x of (k, iters, s) \<Rightarrow> do {
     th \<leftarrow> g_rlu_threads s self;
     (if \<not> is_wait (q_threads th th_id) then Some (k, iters, s)
      else do {
        o_th \<leftarrow> g_rlu_threads s th_id;
        (if we_run_counter (q_threads th th_id) \<noteq> run_counter o_th \<or> version_limit \<noteq> 0 \<and> version_limit \<le> local_version o_th
         then Some (k, iters + 1, upd_rthr self (\<lambda>t. t\<lparr>q_threads := (q_threads t)(th_id := (q_threads t th_id)\<lparr>is_wait := False\<rparr>)\<rparr>) s)
         else wait_thread env self version_limit th_id (Suc k, if iters + 1 > 100000000 then 0 else iters + 1, env k s)) }) })"

declare wait_thread.simps [code]

fun wait_threads :: "(nat \<Rightarrow> 'a rlu \<Rightarrow> 'a rlu) \<Rightarrow> int \<Rightarrow> int \<Rightarrow> nat \<Rightarrow> int \<Rightarrow> nat \<times> int \<times> 'a rlu \<Rightarrow> (nat \<times> int \<times> 'a rlu) option" where
  "wait_threads env self version_limit 0 th_id x = Some x"
| "wait_threads env self version_limit (Suc n) th_id x = do {
     x \<leftarrow> wait_thread env self version_limit th_id x;
     wait_threads env self version_limit n (th_id + 1) x }"

definition rlu_wait_for_quiescence :: "(nat \<Rightarrow> 'a rlu \<Rightarrow> 'a rlu) \<Rightarrow> int \<Rightarrow> int \<Rightarrow> nat \<Rightarrow> 'a rlu \<Rightarrow> (nat \<times> int \<times> 'a rlu) option" where
  "rlu_wait_for_quiescence env self version_limit k s = wait_threads env self version_limit (nat (g_rlu_cur_threads s)) 0 (k, 0, s)"

definition rlu_synchronize :: "(nat \<Rightarrow> 'a rlu \<Rightarrow> 'a rlu) \<Rightarrow> int \<Rightarrow> nat \<Rightarrow> 'a rlu \<Rightarrow> (nat \<times> 'a rlu) option" where
  "rlu_synchronize env self k s = do {
     th \<leftarrow> g_rlu_threads s self;
     (if is_no_quiescence th then Some (k, s)
      else do {
        (k, q_iters, s) \<leftarrow> rlu_wait_for_quiescence env self (writer_version th) k (rlu_init_quiescence self s);
        Some (k, rlu_count self n_writeback_q_iters q_iters s) }) }"

text \<open>\<open>rlu_sync_and_writeback\<close>: first the part that publishes the writer version.\<close>

definition sync_publish :: "int \<Rightarrow> 'a rlu \<Rightarrow> 'a rlu" where
  "sync_publish self s =
     (rlu_count self n_sync_and_writeback 1 (upd_rthr self (\<lambda>t. t\<lparr>writer_version := g_rlu_writer_version s + 1\<rparr>) s))
       \<lparr>g_rlu_writer_version := g_rlu_writer_version s + 1\<rparr>"

definition sync_retire :: "int \<Rightarrow> 'a rlu \<Rightarrow> 'a rlu" where
  "sync_retire self s =
     (upd_rthr self (\<lambda>t. t\<lparr>writer_version := RLU_MAX_VERSION, is_sync := 0\<rparr>) s)\<lparr>g_rlu_commit_version := g_rlu_commit_version s + 1\<rparr>"

definition rlu_sync_and_writeback :: "(nat \<Rightarrow> 'a rlu \<Rightarrow> 'a rlu) \<Rightarrow> int \<Rightarrow> nat \<Rightarrow> 'a rlu \<Rightarrow> (nat \<times> 'a rlu) option" where
  "rlu_sync_and_writeback env self k s = do {
     th \<leftarrow> g_rlu_threads s self;
     _ \<leftarrow> RLU_ASSERT (run_counter th AND 1 = 0);
     (if ws_tail_counter th = ws_head_counter th then Some (k, s)
      else do {
        let ws_num = ws_tail_counter th - ws_wb_counter th;
        (k, s) \<leftarrow> rlu_synchronize env self k (sync_publish self s);
        (ws_wb_num, s) \<leftarrow> rlu_writeback_write_sets_and_unlock self s;
        _ \<leftarrow> RLU_ASSERT (ws_num = ws_wb_num);
        s \<leftarrow> rlu_process_free self (sync_retire self s);
        Some (k, s) }) }"

definition rlu_send_sync_request :: "int \<Rightarrow> 'a rlu \<Rightarrow> 'a rlu" where
  "rlu_send_sync_request other_th_id = upd_rthr other_th_id (\<lambda>t. t\<lparr>is_sync := is_sync t + 1\<rparr>)"

definition rlu_commit_write_set :: "(nat \<Rightarrow> 'a rlu \<Rightarrow> 'a rlu) \<Rightarrow> int \<Rightarrow> nat \<Rightarrow> 'a rlu \<Rightarrow> (nat \<times> 'a rlu) option" where
  "rlu_commit_write_set env self k s = do {
     th \<leftarrow> g_rlu_threads s self;
     let s = rlu_count self n_writer_writeback 1 (rlu_count self n_writers 1 s);
     let tl = ws_tail_counter th + 1;
     let s = upd_rthr self (\<lambda>t. t\<lparr>ws_tail_counter := tl, ws_cur_id := WS_INDEX tl\<rparr>) s;
     (k, s) \<leftarrow> (if WS_INDEX tl = WS_INDEX (ws_head_counter th) \<or> tl - ws_wb_counter th \<ge> max_write_sets th
               then rlu_sync_and_writeback env self k s else Some (k, s));
     th \<leftarrow> g_rlu_threads s self;
     _ \<leftarrow> RLU_ASSERT (ws_tail_counter th > ws_head_counter th);
     _ \<leftarrow> RLU_ASSERT (WS_INDEX (ws_tail_counter th) \<noteq> WS_INDEX (ws_head_counter th));
     Some (k, s) }"

section \<open>The interface\<close>

definition rlu_init_args :: "int \<Rightarrow> int \<Rightarrow> 'a rlu \<Rightarrow> 'a rlu option" where
  "rlu_init_args type ws s = do {
     let s = s\<lparr>g_rlu_writer_version := 0, g_rlu_commit_version := 0\<rparr>;
     s \<leftarrow> (if type = RLU_TYPE_COARSE_GRAINED then Some (s\<lparr>g_rlu_type := RLU_TYPE_COARSE_GRAINED, g_rlu_max_write_sets := 1\<rparr>)
          else if type = RLU_TYPE_FINE_GRAINED then Some (s\<lparr>g_rlu_type := RLU_TYPE_FINE_GRAINED, g_rlu_max_write_sets := ws\<rparr>)
          else None);
     _ \<leftarrow> RLU_ASSERT (RLU_MAX_WRITE_SETS \<ge> 2);
     _ \<leftarrow> RLU_ASSERT (ws \<ge> 1);
     _ \<leftarrow> RLU_ASSERT (ws * 2 \<le> RLU_MAX_WRITE_SETS);
     Some s }"

definition rlu_init :: "'a rlu \<Rightarrow> 'a rlu option" where
  "rlu_init s = rlu_init_args RLU_TYPE RLU_NUM_WS s"

definition zero_thread :: "'a rlu_thread" where
  "zero_thread =
     \<lparr>uniq_id = 0, is_check_locks = False, rlu_write_detected = False, is_steal = False, rlu_type = 0, max_write_sets = 0,
      run_counter = 0, local_version = 0, local_commit_version = 0, is_no_quiescence = False, is_sync = 0, writer_version = 0,
      q_threads = (\<lambda>_. \<lparr>is_wait = False, we_run_counter = 0\<rparr>), ws_head_counter = 0, ws_wb_counter = 0, ws_tail_counter = 0, ws_cur_id = 0,
      obj_write_set = (\<lambda>_. \<lparr>writer_locks = [], num_of_objs = 0, p_cur = 0, ws_buffer = Map.empty\<rparr>), free_nodes = [], n_stat = (\<lambda>_. 0)\<rparr>"

text \<open>The thread gets the next number; all its write sets are empty.\<close>

definition rlu_thread_init :: "'a rlu \<Rightarrow> (int \<times> 'a rlu) option" where
  "rlu_thread_init s =
     (let i = g_rlu_cur_threads s;
          th = zero_thread\<lparr>rlu_type := g_rlu_type s, max_write_sets := g_rlu_max_write_sets s, uniq_id := i, writer_version := RLU_MAX_VERSION\<rparr>;
          s = reset_sets i (nat RLU_MAX_WRITE_SETS) 0 (s\<lparr>g_rlu_cur_threads := i + 1, g_rlu_threads := (g_rlu_threads s)(i \<mapsto> th)\<rparr>)
      in if 0 \<le> i \<and> i < RLU_MAX_THREADS then Some (i, s) else None)"

definition rlu_thread_finish :: "(nat \<Rightarrow> 'a rlu \<Rightarrow> 'a rlu) \<Rightarrow> int \<Rightarrow> nat \<Rightarrow> 'a rlu \<Rightarrow> (nat \<times> 'a rlu) option" where
  "rlu_thread_finish env self k s = do {
     (k, s) \<leftarrow> rlu_sync_and_writeback env self k s;
     (k, s) \<leftarrow> rlu_sync_and_writeback env self k s;
     th \<leftarrow> g_rlu_threads s self;
     Some (k, s\<lparr>g_rlu_data := (\<lambda>n. g_rlu_data s n + n_stat th n)\<rparr>) }"

text \<open>\<open>mem\<close> is what \<open>malloc\<close> returns, with the bytes that are there.\<close>

definition rlu_alloc :: "(nat \<times> 'a) option \<Rightarrow> 'a rlu \<Rightarrow> rptr \<times> 'a rlu" where
  "rlu_alloc mem s =
     (case mem of
        None \<Rightarrow> (RNull, s)
      | Some (a, b) \<Rightarrow> (RObj a, s\<lparr>rlu_objs := (rlu_objs s)(a \<mapsto> \<lparr>o_copy = Unlocked, o_body = b\<rparr>)\<rparr>))"

definition rlu_free :: "int option \<Rightarrow> rptr \<Rightarrow> 'a rlu \<Rightarrow> 'a rlu option" where
  "rlu_free self p_obj s =
     (if p_obj = RNull then Some s
      else (case self of
          None \<Rightarrow> (case p_obj of RObj a \<Rightarrow> Some (s\<lparr>rlu_objs := (rlu_objs s)(a := None)\<rparr>) | _ \<Rightarrow> None)
        | Some self \<Rightarrow> do {
            _ \<leftarrow> rlu_assert_in_section self s;
            p \<leftarrow> FORCE_ACTUAL s p_obj;
            th \<leftarrow> g_rlu_threads s self;
            _ \<leftarrow> RLU_ASSERT (int (length (free_nodes th)) + 1 < RLU_MAX_FREE_NODES);
            (case p of RObj a \<Rightarrow> Some (upd_rthr self (\<lambda>t. t\<lparr>free_nodes := free_nodes t @ [a]\<rparr>) s) | _ \<Rightarrow> None) }))"

definition rlu_sync_checkpoint :: "(nat \<Rightarrow> 'a rlu \<Rightarrow> 'a rlu) \<Rightarrow> int \<Rightarrow> nat \<Rightarrow> 'a rlu \<Rightarrow> (nat \<times> 'a rlu) option" where
  "rlu_sync_checkpoint env self k s = do {
     th \<leftarrow> g_rlu_threads s self;
     (if is_sync th = 0 then Some (k, s)
      else rlu_sync_and_writeback env self k (rlu_count self n_sync_requests 1 s)) }"

definition rlu_reader_lock :: "(nat \<Rightarrow> 'a rlu \<Rightarrow> 'a rlu) \<Rightarrow> int \<Rightarrow> nat \<Rightarrow> 'a rlu \<Rightarrow> (nat \<times> 'a rlu) option" where
  "rlu_reader_lock env self k s = do {
     (k, s) \<leftarrow> rlu_sync_checkpoint env self k (rlu_count self n_starts 1 s);
     s \<leftarrow> rlu_register_thread self (rlu_reset self s);
     th \<leftarrow> g_rlu_threads s self;
     let same = local_version th - local_commit_version th = 0;
     let pure_reader = (same \<and> ws_tail_counter th - ws_wb_counter th = 0);
     let s = upd_rthr self (\<lambda>t. t\<lparr>is_steal := \<not> same, is_check_locks := \<not> pure_reader\<rparr>) s;
     Some (k, if pure_reader then rlu_count self n_pure_readers 1 s else s) }"

definition rlu_try_writer_lock :: "int \<Rightarrow> int \<Rightarrow> 'a rlu \<Rightarrow> (bool \<times> 'a rlu) option" where
  "rlu_try_writer_lock self writer_lock_id s = do {
     th \<leftarrow> g_rlu_threads s self;
     _ \<leftarrow> RLU_ASSERT (rlu_type th = RLU_TYPE_COARSE_GRAINED);
     (ok, s) \<leftarrow> rlu_try_acquire_writer_lock self writer_lock_id s;
     (if \<not> ok then Some (False, s)
      else do { s \<leftarrow> rlu_add_writer_lock self writer_lock_id s; Some (True, s) }) }"

definition rlu_reader_unlock :: "(nat \<Rightarrow> 'a rlu \<Rightarrow> 'a rlu) \<Rightarrow> int \<Rightarrow> nat \<Rightarrow> 'a rlu \<Rightarrow> (nat \<times> 'a rlu) option" where
  "rlu_reader_unlock env self k s = do {
     s \<leftarrow> rlu_unregister_thread self (rlu_count self n_finish 1 s);
     th \<leftarrow> g_rlu_threads s self;
     (k, s) \<leftarrow>
       (if rlu_write_detected th then do {
          (k, s) \<leftarrow> rlu_commit_write_set env self k (upd_rthr self (\<lambda>t. t\<lparr>rlu_write_detected := False\<rparr>) s);
          th \<leftarrow> g_rlu_threads s self;
          s \<leftarrow> rlu_release_writer_locks self (WS_INDEX (ws_tail_counter th - 1)) s;
          Some (k, s) }
        else do {
          s \<leftarrow> rlu_release_writer_locks self (ws_cur_id th) s;
          Some (k, rlu_reset_writer_locks self (ws_cur_id th) s) });
     rlu_sync_checkpoint env self k s }"

text \<open>\<open>rlu_deref_slow_path\<close> and the macro \<open>RLU_DEREF\<close> in front of it.\<close>

definition rlu_deref_slow_path :: "int \<Rightarrow> rptr \<Rightarrow> 'a rlu \<Rightarrow> (rptr \<times> 'a rlu) option" where
  "rlu_deref_slow_path self p_obj s =
     (if p_obj = RNull then Some (p_obj, s)
      else do {
        th \<leftarrow> g_rlu_threads s self;
        c \<leftarrow> GET_COPY s p_obj;
        (case c of
           Unlocked \<Rightarrow> Some (p_obj, s)
         | Is_copy \<Rightarrow> Some (p_obj, s)
         | Locked t w p \<Rightarrow> do {
             h \<leftarrow> ws_header s t w p;
             let th_id = ws_thread_id h;
             (if th_id = uniq_id th then Some (RCpy t w p, s)
              else if is_steal th then do {
                o_th \<leftarrow> g_rlu_threads s th_id;
                Some (if writer_version o_th \<le> local_version th then (RCpy t w p, rlu_count self n_steals 1 s) else (p_obj, s)) }
              else Some (p_obj, s)) }) })"

definition RLU_DEREF :: "int \<Rightarrow> rptr \<Rightarrow> 'a rlu \<Rightarrow> (rptr \<times> 'a rlu) option" where
  "RLU_DEREF self p_obj s = do {
     th \<leftarrow> g_rlu_threads s self;
     (if \<not> is_check_locks th then Some (p_obj, s)
      else if p_obj \<noteq> RNull \<and> GET_COPY s p_obj = Some Unlocked then Some (p_obj, s)
      else rlu_deref_slow_path self p_obj s) }"

text \<open>
  \<open>rlu_try_lock\<close>: the result and the pointer to be used from now on. \<open>race\<close> is what the other threads
  do between the test and the compare-and-swap.
\<close>

definition rlu_try_lock :: "('a rlu \<Rightarrow> 'a rlu) \<Rightarrow> int \<Rightarrow> rptr \<Rightarrow> int \<Rightarrow> 'a rlu \<Rightarrow> (bool \<times> rptr \<times> 'a rlu) option" where
  "rlu_try_lock race self p_p_obj obj_size s = do {
     _ \<leftarrow> RLU_ASSERT (p_p_obj \<noteq> RNull);
     th \<leftarrow> g_rlu_threads s self;
     q \<leftarrow> FORCE_ACTUAL s p_p_obj;
     a \<leftarrow> (case q of RObj a \<Rightarrow> Some a | _ \<Rightarrow> None);
     ob \<leftarrow> rlu_objs s a;
     (case o_copy ob of
        Is_copy \<Rightarrow> None
      | Locked t w p \<Rightarrow> do {
          h \<leftarrow> ws_header s t w p;
          let th_id = ws_thread_id h;
          (if th_id = uniq_id th then
             (if run_counter th = ws_run_counter h then Some (True, RCpy t w p, s)
              else Some (False, p_p_obj, upd_rthr self (\<lambda>t. t\<lparr>is_sync := is_sync t + 1\<rparr>) s))
           else Some (False, p_p_obj, upd_rthr self (\<lambda>t. t\<lparr>is_sync := is_sync t + 1\<rparr>) (rlu_send_sync_request th_id s))) }
      | Unlocked \<Rightarrow> do {
          let s = (if rlu_write_detected th then s else upd_rthr self (\<lambda>t. t\<lparr>rlu_write_detected := True, is_check_locks := True\<rparr>) s);
          (p, s) \<leftarrow> rlu_add_ws_obj_header_to_write_set self a obj_size s;
          let s = race s;
          ob \<leftarrow> rlu_objs s a;
          (if o_copy ob \<noteq> Unlocked then Some (False, p_p_obj, s)
           else do {
             let s = upd_robj a (\<lambda>ob. ob\<lparr>o_copy := Locked self (ws_cur_id th) p\<rparr>) s;
             s \<leftarrow> rlu_add_obj_copy_to_write_set self a obj_size s;
             Some (True, RCpy self (ws_cur_id th) p, s) }) }) }"

definition rlu_lock :: "('a rlu \<Rightarrow> 'a rlu) \<Rightarrow> int \<Rightarrow> rptr \<Rightarrow> int \<Rightarrow> 'a rlu \<Rightarrow> (rptr \<times> 'a rlu) option" where
  "rlu_lock race self p_p_obj obj_size s = do {
     th \<leftarrow> g_rlu_threads s self;
     _ \<leftarrow> RLU_ASSERT (rlu_type th = RLU_TYPE_COARSE_GRAINED);
     (ok, p, s) \<leftarrow> rlu_try_lock race self p_p_obj obj_size s;
     _ \<leftarrow> RLU_ASSERT ok;
     Some (p, s) }"

definition rlu_abort :: "(nat \<Rightarrow> 'a rlu \<Rightarrow> 'a rlu) \<Rightarrow> int \<Rightarrow> nat \<Rightarrow> 'a rlu \<Rightarrow> (nat \<times> 'a rlu) option" where
  "rlu_abort env self k s = do {
     s \<leftarrow> rlu_unregister_thread self (rlu_count self n_aborts 1 s);
     th \<leftarrow> g_rlu_threads s self;
     s \<leftarrow>
       (if rlu_write_detected th then do {
          s \<leftarrow> rlu_unlock_objs self (ws_tail_counter th) (upd_rthr self (\<lambda>t. t\<lparr>rlu_write_detected := False\<rparr>) s);
          s \<leftarrow> rlu_release_writer_locks self (ws_cur_id th) s;
          Some (rlu_reset_write_set self (ws_tail_counter th) s) }
        else do {
          s \<leftarrow> rlu_release_writer_locks self (ws_cur_id th) s;
          Some (rlu_reset_writer_locks self (ws_cur_id th) s) });
     rlu_sync_checkpoint env self k s }"

definition rlu_cmp_ptrs :: "'a rlu \<Rightarrow> rptr \<Rightarrow> rptr \<Rightarrow> bool option" where
  "rlu_cmp_ptrs s p_obj_1 p_obj_2 = do {
     p \<leftarrow> (if p_obj_1 \<noteq> RNull then FORCE_ACTUAL s p_obj_1 else Some RNull);
     q \<leftarrow> (if p_obj_2 \<noteq> RNull then FORCE_ACTUAL s p_obj_2 else Some RNull);
     Some (p = q) }"

text \<open>The pointer that \<open>rlu_assign_pointer\<close> stores.\<close>

definition rlu_assign_pointer :: "'a rlu \<Rightarrow> rptr \<Rightarrow> rptr option" where
  "rlu_assign_pointer s p_obj = (if p_obj \<noteq> RNull then FORCE_ACTUAL s p_obj else Some RNull)"

section \<open>Writing back\<close>

lemma upd_rthr_reads [simp]:
  "rlu_objs (upd_rthr self f s) = rlu_objs s" "g_rlu_cur_threads (upd_rthr self f s) = g_rlu_cur_threads s"
  "g_rlu_writer_version (upd_rthr self f s) = g_rlu_writer_version s" "g_rlu_commit_version (upd_rthr self f s) = g_rlu_commit_version s"
  "g_rlu_threads (upd_rthr self f s) t = (if t = self then map_option f (g_rlu_threads s t) else g_rlu_threads s t)"
  by (simp_all add: upd_rthr_def)

text \<open>
  A write set holds the copies \<open>es\<close> one after the other from offset \<open>cur\<close> to \<open>fin\<close>, and their
  objects are locked by them.
\<close>

fun ws_tiles :: "'a rlu \<Rightarrow> int \<Rightarrow> int \<Rightarrow> int \<Rightarrow> 'a rlu_ws_obj list \<Rightarrow> int \<Rightarrow> bool" where
  "ws_tiles s self w cur [] fin \<longleftrightarrow> fin = cur"
| "ws_tiles s self w cur (e # es) fin \<longleftrightarrow>
     ws_header s self w (cur + 40) = Some e \<and> ws_thread_id e = self \<and> ws_body e \<noteq> None \<and>
     map_option o_copy (rlu_objs s (p_obj_actual e)) = Some (Locked self w (cur + 40)) \<and>
     ws_tiles s self w (cur + 40 + ALIGN_OBJ_SIZE (ws_obj_size e)) es fin"

lemma ws_tiles_append:
  "ws_tiles s self w cur (es @ fs) fin \<longleftrightarrow> (\<exists>m. ws_tiles s self w cur es m \<and> ws_tiles s self w m fs fin)"
  by (induction es arbitrary: cur) auto

lemma ws_tiles_cong:
  assumes "\<And>e. e \<in> set es \<Longrightarrow> map_option o_copy (rlu_objs s' (p_obj_actual e)) = map_option o_copy (rlu_objs s (p_obj_actual e))"
    and "\<And>p. ws_header s' self w p = ws_header s self w p"
  shows "ws_tiles s' self w cur es fin \<longleftrightarrow> ws_tiles s self w cur es fin"
  using assms by (induction es arbitrary: cur) auto

lemma ws_tiles_header:
  assumes "ws_tiles s self w cur es fin" "e \<in> set es"
  obtains p where "ws_header s self w p = Some e" "map_option o_copy (rlu_objs s (p_obj_actual e)) = Some (Locked self w p)" "ws_thread_id e = self" "ws_body e \<noteq> None"
  using assms by (induction es arbitrary: cur) auto

definition written_back :: "'a rlu_ws_obj list \<Rightarrow> (nat \<rightharpoonup> 'a rlu_obj) \<Rightarrow> nat \<rightharpoonup> 'a rlu_obj" where
  "written_back es m = foldl (\<lambda>m e. m(p_obj_actual e \<mapsto> \<lparr>o_copy = Unlocked, o_body = the (ws_body e)\<rparr>)) m es"

lemma written_back_simps [simp]:
  "written_back [] m = m" "written_back (e # es) m = written_back es (m(p_obj_actual e \<mapsto> \<lparr>o_copy = Unlocked, o_body = the (ws_body e)\<rparr>))"
  "written_back (es @ fs) m = written_back fs (written_back es m)"
  by (simp_all add: written_back_def)

lemma written_back_other: "a \<notin> p_obj_actual ` set es \<Longrightarrow> written_back es m a = m a"
  by (induction es arbitrary: m) auto

lemma written_back_mem:
  "distinct (map p_obj_actual es) \<Longrightarrow> e \<in> set es \<Longrightarrow> written_back es m (p_obj_actual e) = Some \<lparr>o_copy = Unlocked, o_body = the (ws_body e)\<rparr>"
  by (induction es arbitrary: m) (auto simp: written_back_other)

lemma ws_header_objs [simp]: "ws_header (s\<lparr>rlu_objs := m\<rparr>) t w p = ws_header s t w p"
  by (simp add: ws_header_def)

lemma ws_header_cur: "g_rlu_threads s self = Some th \<Longrightarrow> ws_header s self w (cur + 40) = ws_buffer (obj_write_set th w) cur"
  by (simp add: ws_header_def OBJ_HEADER_SIZE_def WS_OBJ_HEADER_SIZE_def)

lemma writeback_objs_tiles:
  assumes "g_rlu_threads s self = Some th" "uniq_id th = self"
    and "ws_tiles s self w cur es fin" "distinct (map p_obj_actual es)"
  shows "writeback_objs self w (length es) cur s = Some (fin, s\<lparr>rlu_objs := written_back es (rlu_objs s)\<rparr>)"
  using assms
proof (induction es arbitrary: cur s)
  case (Cons e es)
  let ?a = "p_obj_actual e"
  obtain b where b: "ws_body e = Some b" using Cons.prems(3) by auto
  obtain ob where ob: "rlu_objs s ?a = Some ob" "o_copy ob = Locked self w (cur + 40)" using Cons.prems(3) by auto
  let ?s = "s\<lparr>rlu_objs := (rlu_objs s)(?a \<mapsto> \<lparr>o_copy = Unlocked, o_body = b\<rparr>)\<rparr>"
  have e: "ws_buffer (obj_write_set th w) cur = Some e" "ws_thread_id e = self"
    using Cons.prems(3) ws_header_cur [OF Cons.prems(1)] by auto
  have "ws_tiles ?s self w (cur + 40 + ALIGN_OBJ_SIZE (ws_obj_size e)) es fin"
    using Cons.prems(3,4) by (subst ws_tiles_cong [of _ _ s]) (auto simp: image_iff)
  then have "writeback_objs self w (length es) (cur + 40 + ALIGN_OBJ_SIZE (ws_obj_size e)) ?s = Some (fin, ?s\<lparr>rlu_objs := written_back es (rlu_objs ?s)\<rparr>)"
    using Cons.prems(1,2,4) by (intro Cons.IH) auto
  moreover have "upd_robj ?a (\<lambda>ob. ob\<lparr>o_copy := Unlocked\<rparr>) (upd_robj ?a (\<lambda>ob. ob\<lparr>o_body := b\<rparr>) s) = ?s"
    using ob by (cases ob) (simp add: upd_robj_def)
  moreover have "GET_THREAD_ID (upd_robj ?a (\<lambda>ob. ob\<lparr>o_body := b\<rparr>) s) ?a = Some self"
    using ob e Cons.prems(3) by (simp add: GET_THREAD_ID_def upd_robj_def)
  ultimately show ?case
    using Cons.prems(1,2) e b ob by (simp add: RLU_ASSERT_def WS_OBJ_HEADER_SIZE_def OBJ_HEADER_SIZE_def add.assoc)
qed simp

text \<open>The write sets from the counter \<open>c\<close> on, with the copies \<open>ess\<close>.\<close>

definition sets_rep :: "'a rlu \<Rightarrow> int \<Rightarrow> int \<Rightarrow> 'a rlu_ws_obj list list \<Rightarrow> bool" where
  "sets_rep s self c ess \<longleftrightarrow>
     (\<exists>th. g_rlu_threads s self = Some th \<and> uniq_id th = self \<and> distinct (map p_obj_actual (concat ess)) \<and>
        (\<forall>i < length ess. let w = WS_INDEX (c + int i) in
           num_of_objs (obj_write_set th w) = length (ess ! i) \<and> ws_tiles s self w 0 (ess ! i) (p_cur (obj_write_set th w))))"

lemma writeback_sets_rep:
  "sets_rep s self c ess \<Longrightarrow> writeback_sets self (length ess) c s = Some (s\<lparr>rlu_objs := written_back (concat ess) (rlu_objs s)\<rparr>)"
proof (induction ess arbitrary: c s)
  case (Cons es ess)
  let ?w = "WS_INDEX c"
  obtain th where th: "g_rlu_threads s self = Some th" "uniq_id th = self" "distinct (map p_obj_actual (concat (es # ess)))"
      "\<And>i. i < Suc (length ess) \<Longrightarrow> num_of_objs (obj_write_set th (WS_INDEX (c + int i))) = length ((es # ess) ! i) \<and>
         ws_tiles s self (WS_INDEX (c + int i)) 0 ((es # ess) ! i) (p_cur (obj_write_set th (WS_INDEX (c + int i))))"
    using Cons.prems by (auto simp: sets_rep_def Let_def)
  let ?s = "s\<lparr>rlu_objs := written_back es (rlu_objs s)\<rparr>"
  have "rlu_writeback_write_set self c s = Some ?s"
    using writeback_objs_tiles [OF th(1,2), of ?w 0 es "p_cur (obj_write_set th ?w)"] th(3) th(4) [of 0] th(1)
    by (simp add: rlu_writeback_write_set_def RLU_ASSERT_def)
  moreover have "sets_rep ?s self (c + 1) ess"
  proof -
    have "ws_tiles ?s self (WS_INDEX (c + 1 + int i)) 0 (ess ! i) (p_cur (obj_write_set th (WS_INDEX (c + 1 + int i))))" if "i < length ess" for i
    proof (subst ws_tiles_cong [of _ _ s])
      fix e assume "e \<in> set (ess ! i)"
      then have "e \<in> set (concat ess)" using that by auto
      then have "p_obj_actual e \<notin> p_obj_actual ` set es" using th(3) by auto
      then show "map_option o_copy (rlu_objs ?s (p_obj_actual e)) = map_option o_copy (rlu_objs s (p_obj_actual e))" by (simp add: written_back_other)
    qed (use th(4) [of "Suc i"] that in \<open>auto simp: add.assoc\<close>)
    moreover have "num_of_objs (obj_write_set th (WS_INDEX (c + 1 + int i))) = length (ess ! i)" if "i < length ess" for i
      using th(4) [of "Suc i"] that by (simp add: add.assoc)
    ultimately show ?thesis using th(1-3) by (simp add: sets_rep_def Let_def)
  qed
  ultimately show ?case using Cons.IH [of ?s "c + 1"] by simp
qed simp

text \<open>Resetting older write sets.\<close>

definition cleared :: "int set \<Rightarrow> (int \<Rightarrow> 'a obj_list) \<Rightarrow> int \<Rightarrow> 'a obj_list" where
  "cleared I W = (\<lambda>w. if w \<in> I then (W w)\<lparr>num_of_objs := 0, p_cur := 0, writer_locks := []\<rparr> else W w)"

lemma cleared_simps [simp]:
  "cleared {} W = W" "ws_buffer (cleared I W w) = ws_buffer (W w)" "w \<notin> I \<Longrightarrow> cleared I W w = W w"
  "cleared I (cleared J W) = cleared (I \<union> J) W"
  by (auto simp: cleared_def)

definition ws_indices :: "int \<Rightarrow> nat \<Rightarrow> int set" where
  "ws_indices c n = (\<lambda>i. WS_INDEX (c + int i)) ` {..<n}"

lemma ws_indices_simps [simp]: "ws_indices c 0 = {}" "ws_indices c (Suc n) = insert (WS_INDEX c) (ws_indices (c + 1) n)"
  by (simp_all add: ws_indices_def lessThan_Suc_eq_insert_0 image_image add.assoc)

lemma reset_set_frame:
  "g_rlu_threads s self = Some th \<Longrightarrow>
   rlu_reset_write_set self c s = upd_rthr self (\<lambda>t. t\<lparr>obj_write_set := cleared {WS_INDEX c} (obj_write_set th)\<rparr>) s"
  by (auto simp: rlu_reset_write_set_def rlu_reset_writer_locks_def upd_wset_def upd_rthr_def cleared_def fun_eq_iff)

lemma reset_sets_frame:
  assumes "g_rlu_threads s self = Some th"
  shows "reset_sets self n c s = upd_rthr self (\<lambda>t. t\<lparr>obj_write_set := cleared (ws_indices c n) (obj_write_set th)\<rparr>) s"
  using assms
proof (induction n arbitrary: c s th)
  case 0
  then show ?case by (cases s) (auto simp: upd_rthr_def fun_upd_idem)
next
  case (Suc n)
  let ?W = "cleared {WS_INDEX c} (obj_write_set th)"
  let ?s = "upd_rthr self (\<lambda>t. t\<lparr>obj_write_set := ?W\<rparr>) s"
  have "g_rlu_threads ?s self = Some (th\<lparr>obj_write_set := ?W\<rparr>)" using Suc.prems by simp
  from Suc.IH [OF this, of "c + 1"] show ?case using Suc.prems by (simp add: reset_set_frame upd_rthr_def)
qed

lemma find_SomeD: "find P xs = Some x \<Longrightarrow> x \<in> set xs \<and> P x"
  by (induction xs) (auto split: if_splits)

lemma WS_INDEX_inj:
  assumes "WS_INDEX x = WS_INDEX y" "\<bar>x - y\<bar> < RLU_MAX_WRITE_SETS"
  shows "x = y"
proof -
  have "200 dvd x - y" using assms(1) by (simp add: WS_INDEX_def RLU_MAX_WRITE_SETS_def mod_eq_dvd_iff)
  then obtain k where "x - y = 200 * k" by (elim dvdE)
  moreover from this have "k = 0" using assms(2) by (simp add: RLU_MAX_WRITE_SETS_def)
  ultimately show ?thesis by simp
qed

lemma ws_indices_apart:
  assumes "head \<le> wb" "wb + int i - head < RLU_MAX_WRITE_SETS"
  shows "WS_INDEX (wb + int i) \<notin> ws_indices head (nat (wb - head))"
proof
  assume "WS_INDEX (wb + int i) \<in> ws_indices head (nat (wb - head))"
  then obtain j where "j < nat (wb - head)" and j2: "WS_INDEX (wb + int i) = WS_INDEX (head + int j)" by (auto simp: ws_indices_def)
  then have j: "int j < wb - head" by linarith
  have "\<bar>(wb + int i) - (head + int j)\<bar> < RLU_MAX_WRITE_SETS" using assms j by linarith
  with j2 have "wb + int i = head + int j" by (rule WS_INDEX_inj)
  with j show False by simp
qed

text \<open>Steps on the thread that keep the copies.\<close>

lemma ws_header_upd_rthr:
  "(\<And>th w. ws_buffer (obj_write_set (f th) w) = ws_buffer (obj_write_set th w)) \<Longrightarrow> ws_header (upd_rthr self f s) t w p = ws_header s t w p"
  by (cases "g_rlu_threads s self") (auto simp: ws_header_def)

lemma ws_header_cleared:
  assumes "g_rlu_threads s self = Some th"
  shows "ws_header (upd_rthr self (\<lambda>t. t\<lparr>obj_write_set := cleared I (obj_write_set th)\<rparr>) s) t w p = ws_header s t w p"
  using assms by (simp add: ws_header_def)

lemma writeback_result:
  assumes th: "g_rlu_threads s self = Some th" and c: "ws_head_counter th \<le> ws_wb_counter th" "ws_wb_counter th \<le> ws_tail_counter th"
      "ws_tail_counter th - ws_head_counter th < RLU_MAX_WRITE_SETS"
    and r: "sets_rep s self (ws_wb_counter th) ess" "int (length ess) = ws_tail_counter th - ws_wb_counter th"
  shows "rlu_writeback_write_sets_and_unlock self s =
     Some (int (length ess), upd_rthr self (\<lambda>t. t\<lparr>obj_write_set := cleared (ws_indices (ws_head_counter th) (nat (ws_wb_counter th - ws_head_counter th))) (obj_write_set th),
         ws_head_counter := ws_wb_counter th, ws_wb_counter := ws_tail_counter th\<rparr>) (s\<lparr>rlu_objs := written_back (concat ess) (rlu_objs s)\<rparr>))"
proof -
  let ?I = "ws_indices (ws_head_counter th) (nat (ws_wb_counter th - ws_head_counter th))"
  let ?th = "th\<lparr>obj_write_set := cleared ?I (obj_write_set th), ws_head_counter := ws_wb_counter th\<rparr>"
  let ?s = "upd_rthr self (\<lambda>t. t\<lparr>ws_head_counter := ws_wb_counter th\<rparr>) (upd_rthr self (\<lambda>t. t\<lparr>obj_write_set := cleared ?I (obj_write_set th)\<rparr>) s)"
  have t: "g_rlu_threads ?s self = Some ?th" using th by simp
  have "ws_header ?s t w p = ws_header s t w p" for t w p using ws_header_cleared [OF th] by (subst ws_header_upd_rthr) simp_all
  then have tiles: "ws_tiles ?s self w cur es fin \<longleftrightarrow> ws_tiles s self w cur es fin" for w cur es fin by (intro ws_tiles_cong) simp_all
  have "WS_INDEX (ws_wb_counter th + int i) \<notin> ?I" if "i < length ess" for i using that c r(2) by (intro ws_indices_apart) linarith+
  then have "sets_rep ?s self (ws_wb_counter th) ess" using r(1) th t unfolding sets_rep_def Let_def tiles by simp
  moreover have n: "nat (ws_tail_counter th - ws_wb_counter th) = length ess" using r(2) by linarith
  ultimately show ?thesis
    using writeback_sets_rep [of ?s self "ws_wb_counter th" ess] th r(2) c(2) unfolding rlu_writeback_write_sets_and_unlock_def by (simp add: n reset_sets_frame [OF th] Let_def) (simp add: upd_rthr_def)
qed

section \<open>What readers see\<close>

text \<open>The contents a pointer leads to, and the contents that a thread in a section reads of an object.\<close>

definition rlu_body :: "'a rlu \<Rightarrow> rptr \<Rightarrow> 'a option" where
  "rlu_body s p =
     (case p of
        RNull \<Rightarrow> None
      | RObj a \<Rightarrow> map_option o_body (rlu_objs s a)
      | RCpy t w off \<Rightarrow> do { h \<leftarrow> ws_header s t w off; ws_body h })"

definition rlu_reads :: "'a rlu \<Rightarrow> int \<Rightarrow> nat \<Rightarrow> 'a option" where
  "rlu_reads s t a = do { (p, _) \<leftarrow> RLU_DEREF t (RObj a) s; rlu_body s p }"

lemma rlu_reads_eq:
  assumes "g_rlu_threads s t = Some rt" "rlu_objs s a = Some ob" "is_check_locks rt"
  shows "rlu_reads s t a =
     (case o_copy ob of
        Locked u w p \<Rightarrow> do {
          h \<leftarrow> ws_header s u w p;
          (if ws_thread_id h = uniq_id rt then ws_body h
           else if is_steal rt then do { o_th \<leftarrow> g_rlu_threads s (ws_thread_id h); if writer_version o_th \<le> local_version rt then ws_body h else Some (o_body ob) }
           else Some (o_body ob)) }
      | _ \<Rightarrow> Some (o_body ob))"
  using assms by (auto simp: rlu_reads_def RLU_DEREF_def rlu_deref_slow_path_def GET_COPY_def rlu_body_def Let_def
      split: obj_copy.splits bind_splits)

lemma written_back_find:
  assumes "distinct (map p_obj_actual es)"
  shows "written_back es m a = (case find (\<lambda>e. p_obj_actual e = a) es of Some e \<Rightarrow> Some \<lparr>o_copy = Unlocked, o_body = the (ws_body e)\<rparr> | None \<Rightarrow> m a)"
proof (cases "find (\<lambda>e. p_obj_actual e = a) es")
  case None
  then have "a \<notin> p_obj_actual ` set es" unfolding find_None_iff by blast
  then show ?thesis using None by (simp add: written_back_other)
next
  case (Some e)
  then have "e \<in> set es" "p_obj_actual e = a" by (auto dest: find_SomeD)
  then show ?thesis using Some written_back_mem [OF assms] by auto
qed

text \<open>Reads of an object that is not touched, when the copies and the versions of the threads stay.\<close>

lemma rlu_reads_cong:
  fixes s s' :: "'a rlu"
  assumes ob: "rlu_objs s' a = rlu_objs s a" and hd: "\<And>t w p. ws_header s' t w p = ws_header s t w p"
    and wv: "\<And>u. map_option writer_version (g_rlu_threads s' u) = map_option writer_version (g_rlu_threads s u)"
    and t: "g_rlu_threads s t = Some rt" "is_check_locks rt"
    and t': "g_rlu_threads s' t = Some rt'" "uniq_id rt' = uniq_id rt" "is_check_locks rt'" "is_steal rt' = is_steal rt" "local_version rt' = local_version rt"
  shows "rlu_reads s' t a = rlu_reads s t a"
proof (cases "rlu_objs s a")
  case None
  then show ?thesis using ob t t' by (simp add: rlu_reads_def RLU_DEREF_def rlu_deref_slow_path_def GET_COPY_def)
next
  case (Some x)
  have g: "(g_rlu_threads s' u \<bind> (\<lambda>o_th. if writer_version o_th \<le> v then y else z)) = (g_rlu_threads s u \<bind> (\<lambda>o_th. if writer_version o_th \<le> v then y else z))" for u v and y z :: "'a option"
    using wv [of u] by (cases "g_rlu_threads s u"; cases "g_rlu_threads s' u") auto
  show ?thesis unfolding rlu_reads_eq [OF t(1) Some t(2)] rlu_reads_eq [OF t'(1) ob [unfolded Some] t'(3)] hd t'(2,4,5) g ..
qed

text \<open>
  C19. Writing back is invisible. A thread whose writer version is published and whose write sets
  \<open>ess\<close> wait to be written back writes exactly their copies to their objects and unlocks these. Every
  thread whose section began when the writer version was published (all other sections have been
  waited for), and the writer itself, reads the same contents of every object before and after,
  first in the copy and then in the object.
\<close>

theorem rlu_writeback_keeps_reads:
  assumes "g_rlu_threads s self = Some th" "ws_head_counter th \<le> ws_wb_counter th" "ws_wb_counter th \<le> ws_tail_counter th"
      "ws_tail_counter th - ws_head_counter th < RLU_MAX_WRITE_SETS"
    and "sets_rep s self (ws_wb_counter th) ess" "int (length ess) = ws_tail_counter th - ws_wb_counter th"
  shows "\<exists>s'. rlu_writeback_write_sets_and_unlock self s = Some (ws_tail_counter th - ws_wb_counter th, s') \<and>
     (\<forall>a. rlu_objs s' a = (case find (\<lambda>e. p_obj_actual e = a) (concat ess) of
        Some e \<Rightarrow> Some \<lparr>o_copy = Unlocked, o_body = the (ws_body e)\<rparr> | None \<Rightarrow> rlu_objs s a)) \<and>
     (\<forall>t rt a. g_rlu_threads s t = Some rt \<and> is_check_locks rt \<and> (uniq_id rt = self \<or> is_steal rt \<and> writer_version th \<le> local_version rt) \<longrightarrow>
        rlu_reads s' t a = rlu_reads s t a)"
proof -
  let ?I = "ws_indices (ws_head_counter th) (nat (ws_wb_counter th - ws_head_counter th))"
  let ?f = "\<lambda>t. t\<lparr>obj_write_set := cleared ?I (obj_write_set th), ws_head_counter := ws_wb_counter th, ws_wb_counter := ws_tail_counter th\<rparr>"
  let ?s' = "upd_rthr self ?f (s\<lparr>rlu_objs := written_back (concat ess) (rlu_objs s)\<rparr>)"
  have d: "distinct (map p_obj_actual (concat ess))" using assms(5) by (auto simp: sets_rep_def)
  have objs: "rlu_objs ?s' a = (case find (\<lambda>e. p_obj_actual e = a) (concat ess) of
      Some e \<Rightarrow> Some \<lparr>o_copy = Unlocked, o_body = the (ws_body e)\<rparr> | None \<Rightarrow> rlu_objs s a)" for a using written_back_find [OF d] by simp
  have hd: "ws_header ?s' t w p = ws_header s t w p" for t w p using assms(1) by (simp add: ws_header_def)
  have thr: "\<exists>rt'. g_rlu_threads ?s' t = Some rt' \<and> uniq_id rt' = uniq_id rt \<and> is_check_locks rt' = is_check_locks rt \<and> is_steal rt' = is_steal rt \<and>
      local_version rt' = local_version rt \<and> writer_version rt' = writer_version rt" if "g_rlu_threads s t = Some rt" for t rt using that by (cases "t = self") simp_all
  have "rlu_reads ?s' t a = rlu_reads s t a"
    if t: "g_rlu_threads s t = Some rt" "is_check_locks rt" "uniq_id rt = self \<or> is_steal rt \<and> writer_version th \<le> local_version rt" for t rt a
  proof -
    obtain rt' where rt': "g_rlu_threads ?s' t = Some rt'" "uniq_id rt' = uniq_id rt" "is_check_locks rt'" "is_steal rt' = is_steal rt"
      "local_version rt' = local_version rt" using thr [OF t(1)] t(2) by auto
    have wv: "map_option writer_version (g_rlu_threads ?s' u) = map_option writer_version (g_rlu_threads s u)" for u
      using thr by (cases "g_rlu_threads s u") auto
    show ?thesis
    proof (cases "find (\<lambda>e. p_obj_actual e = a) (concat ess)")
      case None
      then have "rlu_objs ?s' a = rlu_objs s a" using objs by simp
      then show ?thesis using hd wv t(1,2) rt' by (rule rlu_reads_cong)
    next
      case (Some e)
      then have e: "e \<in> set (concat ess)" "p_obj_actual e = a" by (auto dest: find_SomeD)
      then obtain i where "i < length ess" "e \<in> set (ess ! i)" by (auto simp: in_set_conv_nth) (metis nth_mem)
      then obtain w p where w: "ws_header s self w p = Some e" "map_option o_copy (rlu_objs s a) = Some (Locked self w p)" "ws_thread_id e = self" "ws_body e \<noteq> None"
        using assms(5) e(2) ws_tiles_header unfolding sets_rep_def Let_def by metis
      then obtain ob where ob: "rlu_objs s a = Some ob" "o_copy ob = Locked self w p" by auto
      have "rlu_reads s t a = ws_body e" unfolding rlu_reads_eq [OF t(1) ob(1) t(2)] using ob(2) w t(3) assms(1) by auto
      moreover have "rlu_objs ?s' a = Some \<lparr>o_copy = Unlocked, o_body = the (ws_body e)\<rparr>" using objs Some by simp
      from rlu_reads_eq [OF rt'(1) this rt'(3)] have "rlu_reads ?s' t a = Some (the (ws_body e))" by simp
      ultimately show ?thesis using w(4) by auto
    qed
  qed
  then show ?thesis using writeback_result [OF assms] assms(6) objs by (intro exI [of _ ?s']) auto
qed

text \<open>
  Thread 0 has published version 1 and holds the copy of object 3, whose new contents are 9; thread 1
  began afterwards.
\<close>

definition demo_copy :: "nat rlu_ws_obj" where
  "demo_copy = \<lparr>p_obj_actual = 3, ws_obj_size = 16, ws_run_counter = 1, ws_thread_id = 0, ws_body = Some 9\<rparr>"

definition demo_rlu :: "nat rlu" where
  "demo_rlu =
     \<lparr>rlu_objs = [3 \<mapsto> \<lparr>o_copy = Locked 0 0 40, o_body = 5\<rparr>, 4 \<mapsto> \<lparr>o_copy = Unlocked, o_body = 6\<rparr>],
      g_rlu_threads =
        [0 \<mapsto> zero_thread\<lparr>writer_version := 1, ws_tail_counter := 1, ws_cur_id := 1,
               obj_write_set := (obj_write_set zero_thread)(0 := \<lparr>writer_locks = [], num_of_objs = 1, p_cur = 56, ws_buffer = [0 \<mapsto> demo_copy]\<rparr>)\<rparr>,
         1 \<mapsto> zero_thread\<lparr>uniq_id := 1, run_counter := 1, local_version := 1, is_check_locks := True, is_steal := True\<rparr>],
      g_rlu_cur_threads = 2, g_rlu_writer_locks = (\<lambda>_. 0), g_rlu_writer_version = 1, g_rlu_commit_version = 0,
      g_rlu_type = RLU_TYPE_FINE_GRAINED, g_rlu_max_write_sets = 1, g_rlu_data = (\<lambda>_. 0)\<rparr>"

theorem rlu_writeback_keeps_reads_witness:
  "rlu_reads demo_rlu 1 3 = Some 9 \<and>
   (\<exists>s'. rlu_writeback_write_sets_and_unlock 0 demo_rlu = Some (1, s') \<and> rlu_objs s' 3 = Some \<lparr>o_copy = Unlocked, o_body = 9\<rparr> \<and> rlu_reads s' 1 3 = Some 9)"
proof -
  define th where "th = the (g_rlu_threads demo_rlu 0)"
  have th: "g_rlu_threads demo_rlu 0 = Some th" "ws_head_counter th = 0" "ws_wb_counter th = 0" "ws_tail_counter th = 1" "writer_version th = 1"
    by (simp_all add: th_def demo_rlu_def zero_thread_def)
  have rep: "sets_rep demo_rlu 0 0 [[demo_copy]]"
    by (simp add: sets_rep_def demo_rlu_def zero_thread_def demo_copy_def ws_header_def WS_INDEX_def RLU_MAX_WRITE_SETS_def OBJ_HEADER_SIZE_def
        WS_OBJ_HEADER_SIZE_def ALIGN_OBJ_SIZE_def)
  have r: "rlu_reads demo_rlu 1 3 = Some 9"
    by (simp add: rlu_reads_def RLU_DEREF_def rlu_deref_slow_path_def GET_COPY_def rlu_body_def ws_header_def demo_rlu_def zero_thread_def demo_copy_def OBJ_HEADER_SIZE_def
        WS_OBJ_HEADER_SIZE_def rlu_count_def)
  have t: "\<exists>rt. g_rlu_threads demo_rlu 1 = Some rt \<and> is_check_locks rt \<and> is_steal rt \<and> local_version rt = 1" by (simp add: demo_rlu_def)
  have o3: "find (\<lambda>e. p_obj_actual e = 3) (concat [[demo_copy]]) = Some demo_copy" by (simp add: demo_copy_def)
  show ?thesis
    using rlu_writeback_keeps_reads [OF th(1), of "[[demo_copy]]"] rep r t o3 unfolding th(2-5)
    by (auto simp: RLU_MAX_WRITE_SETS_def demo_copy_def)
qed

end
