(* ===== verification/RluSync.thy ===== *)
theory RluSync
  imports Rlu
begin

text \<open>
  The synchronisation of read-log-update (\<open>rlu_synchronize\<close> in \<open>src/benchmark/rlu/rlu.c\<close>): a writer
  that has published its version waits for the sections that may still read the objects under its
  copies, while the other threads go on.
\<close>

section \<open>What is waited for\<close>

text \<open>The entry for thread \<open>j\<close>: it is waited for if it is another thread inside a section, whose counter is noted.\<close>

definition wait_entry_for :: "int \<Rightarrow> 'a rlu \<Rightarrow> int \<Rightarrow> wait_entry \<Rightarrow> bool" where
  "wait_entry_for self s j e \<longleftrightarrow>
     (is_wait e \<longleftrightarrow> j \<noteq> self \<and> (\<exists>u. g_rlu_threads s j = Some u \<and> run_counter u AND 1 \<noteq> 0)) \<and>
     (\<forall>u. is_wait e \<longrightarrow> g_rlu_threads s j = Some u \<longrightarrow> we_run_counter e = run_counter u)"

lemma init_wait_entries:
  "g_rlu_threads s self = Some th \<Longrightarrow>
   \<exists>q. init_wait self n i s = upd_rthr self (\<lambda>t. t\<lparr>q_threads := q\<rparr>) s \<and> (\<forall>j < i. q j = q_threads th j) \<and>
     (\<forall>j. i \<le> j \<and> j < i + int n \<longrightarrow> wait_entry_for self s j (q j))"
proof (induction n arbitrary: i s th)
  case 0
  then show ?case by (intro exI [of _ "q_threads th"]) (cases s; auto simp: upd_rthr_def fun_upd_idem)
next
  case (Suc n)
  obtain e where e: "wait_entry_for self s i e"
      "init_wait self (Suc n) i s = init_wait self n (i + 1) (upd_rthr self (\<lambda>t. t\<lparr>q_threads := (q_threads th)(i := e)\<rparr>) s)"
  proof (cases "i = self \<or> g_rlu_threads s i = None")
    case True
    then show thesis using that [of "(q_threads th i)\<lparr>is_wait := False\<rparr>"] Suc.prems by (auto simp: wait_entry_for_def upd_rthr_def Let_def split: option.splits)
  next
    case False
    then obtain o_th where "g_rlu_threads s i = Some o_th" "i \<noteq> self" by auto
    then show thesis using that [of "\<lparr>is_wait = (run_counter o_th AND 1 \<noteq> 0), we_run_counter = run_counter o_th\<rparr>"] Suc.prems by (auto simp: wait_entry_for_def upd_rthr_def)
  qed
  let ?s = "upd_rthr self (\<lambda>t. t\<lparr>q_threads := (q_threads th)(i := e)\<rparr>) s"
  have "g_rlu_threads ?s self = Some (th\<lparr>q_threads := (q_threads th)(i := e)\<rparr>)" using Suc.prems by simp
  from Suc.IH [OF this, of "i + 1"] obtain q where q: "init_wait self n (i + 1) ?s = upd_rthr self (\<lambda>t. t\<lparr>q_threads := q\<rparr>) ?s"
      "\<forall>j < i + 1. q j = ((q_threads th)(i := e)) j"
      "\<forall>j. i + 1 \<le> j \<and> j < i + 1 + int n \<longrightarrow> wait_entry_for self ?s j (q j)"
    by auto
  have "init_wait self (Suc n) i s = upd_rthr self (\<lambda>t. t\<lparr>q_threads := q\<rparr>) s" unfolding e(2) q(1) using Suc.prems by (simp add: upd_rthr_def)
  moreover have "wait_entry_for self s j (q j)" if "i \<le> j" "j < i + int (Suc n)" for j
  proof (cases "j = i")
    case True
    then show ?thesis using e(1) q(2) by simp
  next
    case False
    then have "wait_entry_for self ?s j (q j)" using that q(3) by simp
    then show ?thesis by (auto simp: wait_entry_for_def)
  qed
  ultimately show ?case using q(2) by (intro exI [of _ q]) simp
qed

section \<open>The other threads\<close>

text \<open>
  A thread goes on: it enters and leaves sections, which its 64-bit counter counts and does not
  wrap, and within one its version grows. Between two
  polls the others leave the fields of the waiting thread alone, except that they may ask it to
  synchronise.
\<close>

definition goes_on :: "'a rlu_thread \<Rightarrow> 'a rlu_thread \<Rightarrow> bool" where
  "goes_on u u' \<longleftrightarrow> run_counter u < run_counter u' \<or> run_counter u = run_counter u' \<and> local_version u \<le> local_version u'"

definition others_go_on :: "int \<Rightarrow> 'a rlu \<Rightarrow> 'a rlu \<Rightarrow> bool" where
  "others_go_on self s s' \<longleftrightarrow> (\<forall>t u. t \<noteq> self \<longrightarrow> g_rlu_threads s t = Some u \<longrightarrow> (\<exists>u'. g_rlu_threads s' t = Some u' \<and> goes_on u u'))"

definition rlu_rely :: "int \<Rightarrow> (nat \<Rightarrow> 'a rlu \<Rightarrow> 'a rlu) \<Rightarrow> bool" where
  "rlu_rely self env \<longleftrightarrow>
     (\<forall>k s. others_go_on self s (env k s) \<and>
        map_option (\<lambda>t. t\<lparr>is_sync := 0\<rparr>) (g_rlu_threads (env k s) self) = map_option (\<lambda>t. t\<lparr>is_sync := 0\<rparr>) (g_rlu_threads s self))"

fun rlu_polls :: "(nat \<Rightarrow> 'a rlu \<Rightarrow> 'a rlu) \<Rightarrow> nat \<Rightarrow> nat \<Rightarrow> 'a rlu \<Rightarrow> 'a rlu" where
  "rlu_polls env 0 k s = s"
| "rlu_polls env (Suc n) k s = rlu_polls env n (Suc k) (env k s)"

definition sections_end :: "int \<Rightarrow> (nat \<Rightarrow> 'a rlu \<Rightarrow> 'a rlu) \<Rightarrow> bool" where
  "sections_end self env \<longleftrightarrow>
     (\<forall>k s t u. t \<noteq> self \<longrightarrow> g_rlu_threads s t = Some u \<longrightarrow> run_counter u AND 1 \<noteq> 0 \<longrightarrow> run_counter u \<noteq> - 1 \<longrightarrow>
        (\<exists>n u'. g_rlu_threads (rlu_polls env n k s) t = Some u' \<and> run_counter u' \<noteq> run_counter u))"

lemma goes_on_refl [simp]: "goes_on u u"
  by (simp add: goes_on_def)

lemma goes_on_trans: "goes_on u v \<Longrightarrow> goes_on v w \<Longrightarrow> goes_on u w"
  by (auto simp: goes_on_def)

lemma others_go_on_refl [simp]: "others_go_on self s s"
  by (simp add: others_go_on_def)

lemma others_go_on_trans: "others_go_on self s s1 \<Longrightarrow> others_go_on self s1 s2 \<Longrightarrow> others_go_on self s s2"
  unfolding others_go_on_def by (meson goes_on_trans)

lemma others_go_on_upd [simp]: "others_go_on self s (upd_rthr self f s') \<longleftrightarrow> others_go_on self s s'"
  by (simp add: others_go_on_def)

text \<open>The section with counter \<open>c\<close> is over, or reads the copies of a writer with version \<open>v\<close>.\<close>

definition passed :: "int \<Rightarrow> u64 \<Rightarrow> 'a rlu_thread \<Rightarrow> bool" where
  "passed v c u \<longleftrightarrow> c < run_counter u \<or> v \<noteq> 0 \<and> v \<le> local_version u"

lemma passed_goes_on: "passed v c u \<Longrightarrow> c \<le> run_counter u \<Longrightarrow> goes_on u u' \<Longrightarrow> passed v c u'"
  by (auto simp: passed_def goes_on_def)

section \<open>Waiting\<close>

lemma wait_thread_returns:
  assumes r: "rlu_rely self env" and j: "j \<noteq> self" "is_wait e" "we_run_counter e = c"
  shows "g_rlu_threads s self = Some th \<Longrightarrow> q_threads th j = e \<Longrightarrow> g_rlu_threads s j = Some u \<Longrightarrow> c \<le> run_counter u \<Longrightarrow>
     g_rlu_threads (rlu_polls env n k s) j = Some v' \<Longrightarrow> run_counter v' \<noteq> c \<Longrightarrow>
     \<exists>k' it' s' th' u'. wait_thread env self v j (k, it, s) = Some (k', it', s') \<and> others_go_on self s s' \<and>
       g_rlu_threads s' self = Some th' \<and> q_threads th' = (q_threads th)(j := e\<lparr>is_wait := False\<rparr>) \<and>
       g_rlu_threads s' j = Some u' \<and> passed v c u'"
proof (induction n arbitrary: k it s th u)
  case 0
  let ?s = "upd_rthr self (\<lambda>t. t\<lparr>q_threads := (q_threads t)(j := (q_threads t j)\<lparr>is_wait := False\<rparr>)\<rparr>) s"
  have "c < run_counter u" using 0 by (simp add: order_less_le)
  moreover have "wait_thread env self v j (k, it, s) = Some (k, it + 1, ?s)" using 0 j calculation by (subst wait_thread.simps) auto
  ultimately show ?case using 0 j(1) by (auto simp: passed_def)
next
  case (Suc n)
  show ?case
  proof (cases "passed v c u")
    case True
    let ?s = "upd_rthr self (\<lambda>t. t\<lparr>q_threads := (q_threads t)(j := (q_threads t j)\<lparr>is_wait := False\<rparr>)\<rparr>) s"
    have "wait_thread env self v j (k, it, s) = Some (k, it + 1, ?s)" using True Suc.prems j by (subst wait_thread.simps) (auto simp: passed_def)
    then show ?thesis using Suc.prems j(1) True by auto
  next
    case False
    then have c: "run_counter u = c" "\<not> (v \<noteq> 0 \<and> v \<le> local_version u)" using Suc.prems(4) by (auto simp: passed_def)
    obtain u1 where u1: "g_rlu_threads (env k s) j = Some u1" "goes_on u u1" using r j(1) Suc.prems(3) by (fastforce simp: rlu_rely_def others_go_on_def)
    have "map_option (\<lambda>t. t\<lparr>is_sync := 0\<rparr>) (g_rlu_threads (env k s) self) = Some (th\<lparr>is_sync := 0\<rparr>)" using r Suc.prems(1) by (simp add: rlu_rely_def)
    then obtain th1 where t1: "g_rlu_threads (env k s) self = Some th1" "th1\<lparr>is_sync := 0\<rparr> = th\<lparr>is_sync := 0\<rparr>" by auto
    have q: "q_threads th1 = q_threads th" using arg_cong [OF t1(2), of q_threads] by simp
    have c1: "c \<le> run_counter u1" using u1(2) c(1) by (auto simp: goes_on_def)
    have q1: "q_threads th1 j = e" using q Suc.prems(2) by simp
    obtain k' it' s' th' u' where w: "wait_thread env self v j (Suc k, if it + 1 > 100000000 then 0 else it + 1, env k s) = Some (k', it', s')" "others_go_on self (env k s) s'"
        "g_rlu_threads s' self = Some th'" "q_threads th' = (q_threads th)(j := e\<lparr>is_wait := False\<rparr>)" "g_rlu_threads s' j = Some u'" "passed v c u'"
      using Suc.IH [OF t1(1) q1 u1(1) c1 Suc.prems(5) [unfolded rlu_polls.simps] Suc.prems(6), of "if it + 1 > 100000000 then 0 else it + 1"] unfolding q by blast
    have "wait_thread env self v j (k, it, s) = Some (k', it', s')" using Suc.prems(1-3) j c w(1) by (subst wait_thread.simps) auto
    moreover have "others_go_on self s (env k s)" using r by (simp add: rlu_rely_def)
    then have "others_go_on self s s'" using w(2) by (rule others_go_on_trans)
    ultimately show ?thesis using w(3-6) by blast
  qed
qed

lemma wait_threads_returns:
  assumes r: "rlu_rely self env" "sections_end self env"
  shows "g_rlu_threads s self = Some th \<Longrightarrow>
     (\<And>j. i \<le> j \<Longrightarrow> j < i + int n \<Longrightarrow> is_wait (q_threads th j) \<Longrightarrow> j \<noteq> self \<and> we_run_counter (q_threads th j) AND 1 \<noteq> 0 \<and> we_run_counter (q_threads th j) \<noteq> - 1 \<and>
        (\<exists>u. g_rlu_threads s j = Some u \<and> we_run_counter (q_threads th j) \<le> run_counter u)) \<Longrightarrow>
     \<exists>k' it' s' th'. wait_threads env self v n i (k, it, s) = Some (k', it', s') \<and> others_go_on self s s' \<and> g_rlu_threads s' self = Some th' \<and>
       (\<forall>j. i \<le> j \<and> j < i + int n \<and> is_wait (q_threads th j) \<longrightarrow> (\<exists>u'. g_rlu_threads s' j = Some u' \<and> we_run_counter (q_threads th j) \<le> run_counter u' \<and>
          passed v (we_run_counter (q_threads th j)) u'))"
proof (induction n arbitrary: i k it s th)
  case (Suc n)
  let ?e = "q_threads th i"
  have grow: "\<exists>u'. g_rlu_threads s' j = Some u' \<and> c \<le> run_counter u'" if "others_go_on self s1 s'" "j \<noteq> self" "g_rlu_threads s1 j = Some u" "c \<le> run_counter u" for s1 s' j u c
    using that by (fastforce simp: others_go_on_def goes_on_def)
  obtain k1 it1 s1 th1 where w: "wait_thread env self v i (k, it, s) = Some (k1, it1, s1)" "others_go_on self s s1" "g_rlu_threads s1 self = Some th1"
      "\<forall>j. j \<noteq> i \<longrightarrow> q_threads th1 j = q_threads th j"
      "is_wait ?e \<longrightarrow> (\<exists>u'. g_rlu_threads s1 i = Some u' \<and> we_run_counter ?e \<le> run_counter u' \<and> passed v (we_run_counter ?e) u')"
  proof (cases "is_wait ?e")
    case False
    then have "wait_thread env self v i (k, it, s) = Some (k, it, s)" using Suc.prems(1) by (subst wait_thread.simps) simp
    then show thesis using that [of k it s th] False Suc.prems(1) by simp
  next
    case True
    then obtain u where u: "i \<noteq> self" "we_run_counter ?e AND 1 \<noteq> 0" "g_rlu_threads s i = Some u" "we_run_counter ?e \<le> run_counter u" "we_run_counter ?e \<noteq> - 1" using Suc.prems(2) [of i] by auto
    obtain m v' where m: "g_rlu_threads (rlu_polls env m k s) i = Some v'" "run_counter v' \<noteq> we_run_counter ?e"
    proof (cases "run_counter u = we_run_counter ?e")
      case True
      then show thesis using that r(2) u(1-3,5) unfolding sections_end_def by (metis (no_types, lifting))
    next
      case False
      then show thesis using that [of 0 u] u(3) by simp
    qed
    obtain k1 it1 s1 th1 u1 where w: "wait_thread env self v i (k, it, s) = Some (k1, it1, s1)" "others_go_on self s s1" "g_rlu_threads s1 self = Some th1"
        "q_threads th1 = (q_threads th)(i := ?e\<lparr>is_wait := False\<rparr>)" "g_rlu_threads s1 i = Some u1" "passed v (we_run_counter ?e) u1"
      using wait_thread_returns [OF r(1) u(1) True refl Suc.prems(1) refl u(3,4) m] by blast
    then show thesis using that [OF w(1-3)] grow [OF w(2) u(1,3,4)] by auto
  qed
  have "j \<noteq> self \<and> we_run_counter (q_threads th1 j) AND 1 \<noteq> 0 \<and> we_run_counter (q_threads th1 j) \<noteq> - 1 \<and> (\<exists>u. g_rlu_threads s1 j = Some u \<and> we_run_counter (q_threads th1 j) \<le> run_counter u)"
    if "i + 1 \<le> j" "j < i + 1 + int n" "is_wait (q_threads th1 j)" for j
    using that w(4) Suc.prems(2) [of j] grow [OF w(2), of j] by fastforce
  from Suc.IH [OF w(3) this, where k = k1 and it = it1] obtain k2 it2 s2 th2 where w2: "wait_threads env self v n (i + 1) (k1, it1, s1) = Some (k2, it2, s2)" "others_go_on self s1 s2"
      "g_rlu_threads s2 self = Some th2" "\<forall>j. i + 1 \<le> j \<and> j < i + 1 + int n \<and> is_wait (q_threads th1 j) \<longrightarrow> (\<exists>u'. g_rlu_threads s2 j = Some u' \<and>
         we_run_counter (q_threads th1 j) \<le> run_counter u' \<and> passed v (we_run_counter (q_threads th1 j)) u')" by blast
  have "\<exists>u'. g_rlu_threads s2 j = Some u' \<and> we_run_counter (q_threads th j) \<le> run_counter u' \<and> passed v (we_run_counter (q_threads th j)) u'"
    if j: "i \<le> j" "j < i + int (Suc n)" "is_wait (q_threads th j)" for j
  proof (cases "j = i")
    case True
    then obtain u' where u': "g_rlu_threads s1 i = Some u'" "we_run_counter ?e \<le> run_counter u'" "passed v (we_run_counter ?e) u'" using w(5) j(3) by auto
    moreover have "i \<noteq> self" using Suc.prems(2) [of i] j True by auto
    ultimately obtain u2 where u2: "g_rlu_threads s2 i = Some u2" "goes_on u' u2" using w2(2) by (auto simp: others_go_on_def)
    moreover have "we_run_counter ?e \<le> run_counter u2" using u'(2) u2(2) by (auto simp: goes_on_def)
    ultimately show ?thesis using True passed_goes_on [OF u'(3,2) u2(2)] by simp
  next
    case False
    then show ?thesis using w2(4) w(4) j by simp
  qed
  then show ?case using w(1) w2(1,3) others_go_on_trans [OF w(2) w2(2)] by (intro exI [of _ k2] exI [of _ it2] exI [of _ s2] exI [of _ th2]) simp
qed auto

text \<open>
  C20. Synchronising waits for the sections that matter and for nothing forever. While the other
  threads enter and leave sections, and no section lasts forever, \<open>rlu_synchronize\<close> returns. By then
  every registered thread that was in a section has left it, or reads at a version at which the
  copies of the writer are the ones to be read.
\<close>

theorem rlu_synchronize_waits:
  assumes "g_rlu_threads s self = Some th" "\<not> is_no_quiescence th" "rlu_rely self env" "sections_end self env"
    and "\<forall>u \<in> ran (g_rlu_threads s). run_counter u \<noteq> - 1"
  shows "\<exists>k' s'. rlu_synchronize env self k s = Some (k', s') \<and>
     (\<forall>t u. 0 \<le> t \<and> t < g_rlu_cur_threads s \<and> t \<noteq> self \<and> g_rlu_threads s t = Some u \<and> run_counter u AND 1 \<noteq> 0 \<longrightarrow>
        (\<exists>u'. g_rlu_threads s' t = Some u' \<and> (run_counter u < run_counter u' \<or> writer_version th \<noteq> 0 \<and> writer_version th \<le> local_version u')))"
proof -
  let ?n = "nat (g_rlu_cur_threads s)"
  obtain q where q: "init_wait self ?n 0 s = upd_rthr self (\<lambda>t. t\<lparr>q_threads := q\<rparr>) s" "\<forall>j. 0 \<le> j \<and> j < 0 + int ?n \<longrightarrow> wait_entry_for self s j (q j)"
    using init_wait_entries [OF assms(1), of ?n 0] by blast
  let ?s = "upd_rthr self (\<lambda>t. t\<lparr>q_threads := q\<rparr>) s" and ?v = "writer_version th"
  have s: "g_rlu_threads ?s self = Some (th\<lparr>q_threads := q\<rparr>)" using assms(1) by simp
  let ?q = "q_threads (th\<lparr>q_threads := q\<rparr>)"
  have pre: "j \<noteq> self \<and> we_run_counter (?q j) AND 1 \<noteq> 0 \<and> we_run_counter (?q j) \<noteq> - 1 \<and> (\<exists>u. g_rlu_threads ?s j = Some u \<and> we_run_counter (?q j) \<le> run_counter u)"
    if "0 \<le> j" "j < 0 + int ?n" "is_wait (?q j)" for j using that q(2) assms(5) by (auto simp: wait_entry_for_def dest: ranI)
  obtain k' it' s' where w: "wait_threads env self ?v ?n 0 (k, 0, ?s) = Some (k', it', s')"
      "\<forall>j. 0 \<le> j \<and> j < 0 + int ?n \<and> is_wait (?q j) \<longrightarrow> (\<exists>u'. g_rlu_threads s' j = Some u' \<and> we_run_counter (?q j) \<le> run_counter u' \<and> passed ?v (we_run_counter (?q j)) u')"
    using wait_threads_returns [OF assms(3,4) s, where i = 0 and n = ?n and v = ?v and k = k and it = 0, OF pre] by blast
  have "rlu_synchronize env self k s = Some (k', rlu_count self n_writeback_q_iters it' s')"
    using assms(1,2) q(1) w(1) by (simp add: rlu_synchronize_def rlu_init_quiescence_def rlu_wait_for_quiescence_def)
  moreover have "\<exists>u'. g_rlu_threads (rlu_count self n_writeback_q_iters it' s') t = Some u' \<and> (run_counter u < run_counter u' \<or> ?v \<noteq> 0 \<and> ?v \<le> local_version u')"
    if t: "0 \<le> t" "t < g_rlu_cur_threads s" "t \<noteq> self" "g_rlu_threads s t = Some u" "run_counter u AND 1 \<noteq> 0" for t u
  proof -
    have "is_wait (q t)" "we_run_counter (q t) = run_counter u" using q(2) t by (auto simp: wait_entry_for_def)
    then show ?thesis using w(2) t(1-3) by (auto simp: passed_def rlu_count_def)
  qed
  ultimately show ?thesis by blast
qed

text \<open>Every other thread has left its section at the next poll.\<close>

definition demo_leave :: "nat \<Rightarrow> nat rlu \<Rightarrow> nat rlu" where
  "demo_leave k s = s\<lparr>g_rlu_threads := (\<lambda>t. if t = 0 then g_rlu_threads s t
     else map_option (\<lambda>u. if run_counter u AND 1 \<noteq> 0 \<and> run_counter u \<noteq> - 1 then u\<lparr>run_counter := run_counter u + 1\<rparr> else u) (g_rlu_threads s t))\<rparr>"

lemma inc_greater: "(x :: u64) \<noteq> - 1 \<Longrightarrow> x < x + 1"
  using inc_less_eq_triv_imp [of x] by (meson not_le)

theorem rlu_synchronize_waits_witness:
  "\<exists>k' s' u'. rlu_synchronize demo_leave 0 0 (demo_rlu\<lparr>g_rlu_threads := (g_rlu_threads demo_rlu)(1 \<mapsto> zero_thread\<lparr>uniq_id := 1, run_counter := 1\<rparr>)\<rparr>) = Some (k', s') \<and>
     g_rlu_threads s' 1 = Some u' \<and> (1 < run_counter u' \<or> 1 \<le> local_version u')"
proof -
  let ?s = "demo_rlu\<lparr>g_rlu_threads := (g_rlu_threads demo_rlu)(1 \<mapsto> zero_thread\<lparr>uniq_id := 1, run_counter := 1\<rparr>)\<rparr>"
  obtain th where th: "g_rlu_threads ?s 0 = Some th" "\<not> is_no_quiescence th" "writer_version th = 1" by (simp add: demo_rlu_def zero_thread_def)
  have r: "rlu_rely 0 demo_leave" by (auto simp: rlu_rely_def others_go_on_def demo_leave_def goes_on_def inc_greater)
  have e: "sections_end 0 demo_leave" unfolding sections_end_def
  proof (intro allI impI)
    fix k t u and s :: "nat rlu" assume "t \<noteq> 0" "g_rlu_threads s t = Some u" "run_counter u AND 1 \<noteq> 0" "run_counter u \<noteq> - 1"
    then show "\<exists>n u'. g_rlu_threads (rlu_polls demo_leave n k s) t = Some u' \<and> run_counter u' \<noteq> run_counter u"
      by (intro exI [of _ "Suc 0"]) (simp add: demo_leave_def)
  qed
  have "run_counter u = 0 \<or> run_counter u = 1" if "g_rlu_threads ?s t = Some u" for t u
    using that by (cases "t = 1"; cases "t = 0") (auto simp: demo_rlu_def zero_thread_def)
  then have c: "\<forall>u \<in> ran (g_rlu_threads ?s). run_counter u \<noteq> - 1" unfolding ran_def by fastforce
  have n: "g_rlu_cur_threads ?s = 2" "g_rlu_threads ?s 1 = Some (zero_thread\<lparr>uniq_id := 1, run_counter := 1\<rparr>)" by (simp_all add: demo_rlu_def)
  obtain k' s' where s': "rlu_synchronize demo_leave 0 0 ?s = Some (k', s')"
      "\<forall>t u. 0 \<le> t \<and> t < g_rlu_cur_threads ?s \<and> t \<noteq> 0 \<and> g_rlu_threads ?s t = Some u \<and> run_counter u AND 1 \<noteq> 0 \<longrightarrow>
        (\<exists>u'. g_rlu_threads s' t = Some u' \<and> (run_counter u < run_counter u' \<or> writer_version th \<noteq> 0 \<and> writer_version th \<le> local_version u'))"
    using rlu_synchronize_waits [OF th(1,2) r e c, of 0] by blast
  have "\<exists>u'. g_rlu_threads s' 1 = Some u' \<and> (1 < run_counter u' \<or> 1 \<le> local_version u')" using s'(2) [rule_format, of 1] n th(3) by fastforce
  then show ?thesis using s'(1) by blast
qed

end
