(* ===== verification/RluTx.thy ===== *)
theory RluTx
  imports RluSync
begin

text \<open>
  Sections of read-log-update from \<open>rlu_reader_lock\<close> to \<open>rlu_reader_unlock\<close> or \<open>rlu_abort\<close>
  (\<open>src/benchmark/rlu/rlu.c\<close>): what holds of a thread between sections and inside of one, how locking,
  writing to copies and freeing change it, and what committing and aborting do to the objects, while
  the other threads are outside of sections.
\<close>

section \<open>Writing\<close>

text \<open>Writing to the contents through a pointer to the object or to a copy.\<close>

definition rlu_write :: "rptr \<Rightarrow> ('a \<Rightarrow> 'a) \<Rightarrow> 'a rlu \<Rightarrow> 'a rlu option" where
  "rlu_write p f s =
     (case p of
        RNull \<Rightarrow> None
      | RObj a \<Rightarrow> map_option (\<lambda>_. upd_robj a (\<lambda>ob. ob\<lparr>o_body := f (o_body ob)\<rparr>) s) (rlu_objs s a)
      | RCpy t w off \<Rightarrow> do {
          h \<leftarrow> ws_header s t w off;
          b \<leftarrow> ws_body h;
          Some (upd_wset t w (\<lambda>l. l\<lparr>ws_buffer := (ws_buffer l)(off - (OBJ_HEADER_SIZE + WS_OBJ_HEADER_SIZE) \<mapsto> h\<lparr>ws_body := Some (f b)\<rparr>)\<rparr>) s) })"

section \<open>A thread on its own\<close>

definition ws_clean :: "'a obj_list \<Rightarrow> bool" where
  "ws_clean w \<longleftrightarrow> num_of_objs w = 0 \<and> p_cur w = 0"

text \<open>
  What holds of a thread inside and outside of sections, with one write set to be collected
  (\<open>RLU_NUM_WS\<close>) and the other threads outside of sections: at most the last write set is kept for
  readers that still use its copies.
\<close>

definition others_out :: "int \<Rightarrow> 'a rlu \<Rightarrow> bool" where
  "others_out self s \<longleftrightarrow> (\<forall>t o_th. t \<noteq> self \<longrightarrow> g_rlu_threads s t = Some o_th \<longrightarrow> run_counter o_th AND 1 = 0)"

definition thread_ok :: "int \<Rightarrow> 'a rlu_thread \<Rightarrow> bool" where
  "thread_ok self th \<longleftrightarrow>
     uniq_id th = self \<and> max_write_sets th = 1 \<and> is_sync th = 0 \<and> ws_wb_counter th = ws_tail_counter th \<and>
     (ws_head_counter th = ws_tail_counter th \<or> ws_head_counter th + 1 = ws_tail_counter th) \<and> ws_cur_id th = WS_INDEX (ws_tail_counter th) \<and>
     (\<forall>w. writer_locks (obj_write_set th w) = []) \<and>
     (\<forall>w. w \<noteq> ws_cur_id th \<and> w \<noteq> WS_INDEX (ws_head_counter th) \<longrightarrow> ws_clean (obj_write_set th w))"

definition rlu_idle :: "int \<Rightarrow> 'a rlu \<Rightarrow> bool" where
  "rlu_idle self s \<longleftrightarrow> others_out self s \<and>
     (\<exists>th. g_rlu_threads s self = Some th \<and> thread_ok self th \<and> ws_clean (obj_write_set th (ws_cur_id th)) \<and>
        run_counter th AND 1 = 0 \<and> free_nodes th = []) \<and>
     (\<forall>ob \<in> ran (rlu_objs s). o_copy ob = Unlocked)"

text \<open>A section that has locked the objects of \<open>es\<close> in write set \<open>w\<close> and has handed in \<open>fs\<close> to be freed.\<close>

definition rlu_tx :: "int \<Rightarrow> int \<Rightarrow> 'a rlu \<Rightarrow> 'a rlu_ws_obj list \<Rightarrow> nat list \<Rightarrow> bool" where
  "rlu_tx self w s es fs \<longleftrightarrow> others_out self s \<and>
     (\<exists>th. g_rlu_threads s self = Some th \<and> thread_ok self th \<and> run_counter th AND 1 \<noteq> 0 \<and> free_nodes th = fs \<and>
        rlu_write_detected th = (es \<noteq> []) \<and> ws_cur_id th = w \<and> num_of_objs (obj_write_set th w) = length es \<and>
        ws_tiles s self w 0 es (p_cur (obj_write_set th w))) \<and>
     distinct (map p_obj_actual es) \<and> (\<forall>e\<in>set es. 0 \<le> ws_obj_size e) \<and>
     (\<forall>a ob. rlu_objs s a = Some ob \<longrightarrow> a \<notin> p_obj_actual ` set es \<longrightarrow> o_copy ob = Unlocked)"

lemma rlu_txI:
  assumes "others_out self s" "g_rlu_threads s self = Some th" "thread_ok self th" "run_counter th AND 1 \<noteq> 0" "free_nodes th = fs"
    "rlu_write_detected th = (es \<noteq> [])" "ws_cur_id th = w" "num_of_objs (obj_write_set th w) = length es"
    "ws_tiles s self w 0 es (p_cur (obj_write_set th w))" "distinct (map p_obj_actual es)" "\<forall>e\<in>set es. 0 \<le> ws_obj_size e"
    "\<And>a ob. rlu_objs s a = Some ob \<Longrightarrow> a \<notin> p_obj_actual ` set es \<Longrightarrow> o_copy ob = Unlocked"
  shows "rlu_tx self w s es fs"
  using assms unfolding rlu_tx_def by blast

lemma rlu_txE:
  assumes "rlu_tx self w s es fs"
  obtains th where "others_out self s" "g_rlu_threads s self = Some th" "thread_ok self th" "run_counter th AND 1 \<noteq> 0" "free_nodes th = fs"
    "rlu_write_detected th = (es \<noteq> [])" "ws_cur_id th = w" "num_of_objs (obj_write_set th w) = length es"
    "ws_tiles s self w 0 es (p_cur (obj_write_set th w))" "distinct (map p_obj_actual es)" "\<forall>e\<in>set es. 0 \<le> ws_obj_size e"
    "\<forall>a ob. rlu_objs s a = Some ob \<longrightarrow> a \<notin> p_obj_actual ` set es \<longrightarrow> o_copy ob = Unlocked"
  using assms unfolding rlu_tx_def by blast

lemma others_out_upd [simp]: "others_out self (upd_rthr self f s) = others_out self s"
  by (auto simp: others_out_def)

lemma even_add_one: "(x + 1) AND 1 = 0 \<longleftrightarrow> x AND 1 \<noteq> (0 :: u64)"
  by (simp add: and_one_eq mod_2_eq_odd)

lemma reader_lock_begins:
  assumes "rlu_idle self s"
  shows "\<exists>w s'. rlu_reader_lock env self k s = Some (k, s') \<and> rlu_tx self w s' [] [] \<and> rlu_objs s' = rlu_objs s"
proof -
  obtain th where th: "g_rlu_threads s self = Some th" "thread_ok self th" "ws_clean (obj_write_set th (ws_cur_id th))"
      "run_counter th AND 1 = 0" "free_nodes th = []" "others_out self s" "\<forall>ob \<in> ran (rlu_objs s). o_copy ob = Unlocked"
    using assms by (auto simp: rlu_idle_def)
  show ?thesis
    using th by (auto simp: rlu_reader_lock_def rlu_sync_checkpoint_def rlu_count_def rlu_reset_def rlu_register_thread_def RLU_ASSERT_def
        rlu_tx_def thread_ok_def ws_clean_def even_add_one Let_def intro: ranI)
qed

lemma deref_unlocked:
  assumes "g_rlu_threads s self = Some th" "rlu_objs s a = Some ob" "o_copy ob = Unlocked"
  shows "RLU_DEREF self (RObj a) s = Some (RObj a, s)"
  using assms by (simp add: RLU_DEREF_def GET_COPY_def)

definition ws_fill :: "'a rlu_ws_obj list \<Rightarrow> int" where
  "ws_fill es = sum_list (map (\<lambda>e. 40 + ALIGN_OBJ_SIZE (ws_obj_size e)) es)"

lemma align_nonneg: "0 \<le> n \<Longrightarrow> 0 \<le> ALIGN_OBJ_SIZE n"
  by (simp add: ALIGN_OBJ_SIZE_def)

lemma ws_tiles_fill: "ws_tiles s self w cur es fin \<Longrightarrow> fin = cur + ws_fill es"
proof (induction es arbitrary: cur)
  case (Cons e es)
  then have "fin = cur + 40 + ALIGN_OBJ_SIZE (ws_obj_size e) + ws_fill es" by simp
  then show ?case by (simp add: ws_fill_def)
qed (simp add: ws_fill_def)

lemma ws_fill_nonneg: "\<forall>e\<in>set es. 0 \<le> ws_obj_size e \<Longrightarrow> 0 \<le> ws_fill es"
  by (induction es) (simp_all add: ws_fill_def align_nonneg)

text \<open>A write set after a change outside of its copies.\<close>

lemma ws_tiles_agree:
  assumes "ws_tiles s self w cur es fin" "\<forall>e\<in>set es. 0 \<le> ws_obj_size e"
    and "\<And>p. cur \<le> p \<Longrightarrow> p < fin \<Longrightarrow> ws_header s' self w (p + 40) = ws_header s self w (p + 40)"
    and "\<And>e. e \<in> set es \<Longrightarrow> map_option o_copy (rlu_objs s' (p_obj_actual e)) = map_option o_copy (rlu_objs s (p_obj_actual e))"
  shows "ws_tiles s' self w cur es fin"
  using assms
proof (induction es arbitrary: cur)
  case (Cons e es)
  let ?cur = "cur + 40 + ALIGN_OBJ_SIZE (ws_obj_size e)"
  have t: "ws_tiles s self w ?cur es fin" and a: "0 \<le> ALIGN_OBJ_SIZE (ws_obj_size e)" using Cons.prems align_nonneg by auto
  moreover have "cur < fin" using ws_tiles_fill [OF t] ws_fill_nonneg [of es] a Cons.prems(2) by simp
  ultimately show ?case using Cons.prems Cons.IH [OF t] by simp
qed simp

lemma add_header:
  assumes "g_rlu_threads s self = Some th"
  defines "w \<equiv> obj_write_set th (ws_cur_id th)"
  shows "rlu_add_ws_obj_header_to_write_set self a n s = Some (p_cur w + 40, s\<lparr>g_rlu_threads := (g_rlu_threads s)(self \<mapsto>
     th\<lparr>obj_write_set := (obj_write_set th)(ws_cur_id th := w\<lparr>p_cur := p_cur w + 40, ws_buffer := (ws_buffer w)(p_cur w \<mapsto>
       \<lparr>p_obj_actual = a, ws_obj_size = n, ws_run_counter = run_counter th, ws_thread_id = uniq_id th, ws_body = None\<rparr>)\<rparr>)\<rparr>)\<rparr>)"
  using assms by (simp add: rlu_add_ws_obj_header_to_write_set_def upd_wset_def upd_rthr_def OBJ_HEADER_SIZE_def WS_OBJ_HEADER_SIZE_def Let_def add.assoc)

lemma add_copy:
  assumes "g_rlu_threads s self = Some th" "rlu_objs s a = Some ob"
  defines "w \<equiv> obj_write_set th (ws_cur_id th)"
  assumes "p_cur w = c + 40" "ws_buffer w c = Some e" "c + 40 + ALIGN_OBJ_SIZE n < RLU_MAX_WRITE_SET_BUFFER_SIZE"
  shows "rlu_add_obj_copy_to_write_set self a n s = Some (s\<lparr>g_rlu_threads := (g_rlu_threads s)(self \<mapsto>
     th\<lparr>obj_write_set := (obj_write_set th)(ws_cur_id th := w\<lparr>p_cur := c + 40 + ALIGN_OBJ_SIZE n, num_of_objs := Suc (num_of_objs w),
       ws_buffer := (ws_buffer w)(c \<mapsto> e\<lparr>ws_body := Some (o_body ob)\<rparr>)\<rparr>)\<rparr>)\<rparr>)"
  using assms by (simp add: rlu_add_obj_copy_to_write_set_def upd_wset_def upd_rthr_def OBJ_HEADER_SIZE_def WS_OBJ_HEADER_SIZE_def Let_def RLU_ASSERT_def)

lemma try_lock_copies:
  assumes tx: "rlu_tx self w s es fs" and a: "rlu_objs s a = Some ob" "a \<notin> p_obj_actual ` set es"
    and n: "0 \<le> n" "ws_fill es + 40 + ALIGN_OBJ_SIZE n < RLU_MAX_WRITE_SET_BUFFER_SIZE"
  shows "\<exists>s' r. rlu_try_lock id self (RObj a) n s = Some (True, RCpy self w (ws_fill es + 40), s') \<and>
     rlu_tx self w s' (es @ [\<lparr>p_obj_actual = a, ws_obj_size = n, ws_run_counter = r, ws_thread_id = self, ws_body = Some (o_body ob)\<rparr>]) fs \<and>
     rlu_objs s' = (rlu_objs s)(a \<mapsto> ob\<lparr>o_copy := Locked self w (ws_fill es + 40)\<rparr>)"
proof -
  obtain th where th: "g_rlu_threads s self = Some th" "thread_ok self th" "run_counter th AND 1 \<noteq> 0" "free_nodes th = fs"
      "rlu_write_detected th = (es \<noteq> [])" "ws_cur_id th = w" "num_of_objs (obj_write_set th w) = length es"
      "ws_tiles s self w 0 es (p_cur (obj_write_set th w))"
    and t: "others_out self s" "distinct (map p_obj_actual es)" "\<forall>e\<in>set es. 0 \<le> ws_obj_size e"
      "\<And>a ob. rlu_objs s a = Some ob \<Longrightarrow> a \<notin> p_obj_actual ` set es \<Longrightarrow> o_copy ob = Unlocked"
    using tx by (auto simp: rlu_tx_def)
  have cur: "p_cur (obj_write_set th w) = ws_fill es" using ws_tiles_fill [OF th(8)] by simp
  let ?e = "\<lparr>p_obj_actual = a, ws_obj_size = n, ws_run_counter = run_counter th, ws_thread_id = self, ws_body = Some (o_body ob)\<rparr>"
  let ?W = "(obj_write_set th)(w := (obj_write_set th w)\<lparr>p_cur := ws_fill es + 40 + ALIGN_OBJ_SIZE n, num_of_objs := Suc (length es),
      ws_buffer := (ws_buffer (obj_write_set th w))(ws_fill es \<mapsto> ?e)\<rparr>)"
  define th' where "th' = (if es = [] then th\<lparr>rlu_write_detected := True, is_check_locks := True, obj_write_set := ?W\<rparr> else th\<lparr>obj_write_set := ?W\<rparr>)"
  define s' where "s' = s\<lparr>rlu_objs := (rlu_objs s)(a \<mapsto> ob\<lparr>o_copy := Locked self w (ws_fill es + 40)\<rparr>), g_rlu_threads := (g_rlu_threads s)(self \<mapsto> th')\<rparr>"
  have "uniq_id th = self" using th(2) by (simp add: thread_ok_def)
  then have l: "rlu_try_lock id self (RObj a) n s = Some (True, RCpy self w (ws_fill es + 40), s')"
    using th a t(4) [OF a] n(2) cur unfolding s'_def th'_def
    by (cases "es = []") (simp_all add: rlu_try_lock_def RLU_ASSERT_def FORCE_ACTUAL_def upd_rthr_def add_header [where self = self] upd_robj_def
        add_copy [where self = self and a = a and c = "ws_fill es"])
  have f: "obj_write_set th' = ?W" "free_nodes th' = fs" "run_counter th' = run_counter th" "rlu_write_detected th'" "ws_cur_id th' = w" "thread_ok self th'"
    using th by (auto simp: th'_def thread_ok_def)
  have s': "rlu_objs s' = (rlu_objs s)(a \<mapsto> ob\<lparr>o_copy := Locked self w (ws_fill es + 40)\<rparr>)" "g_rlu_threads s' self = Some th'" "others_out self s'"
    using t(1) by (simp_all add: s'_def others_out_def)
  have h: "ws_header s' self w (p + 40) = (if p = ws_fill es then Some ?e else ws_header s self w (p + 40))" for p
    using th(1) s'(2) f(1) by (simp add: ws_header_def OBJ_HEADER_SIZE_def WS_OBJ_HEADER_SIZE_def)
  have c: "map_option o_copy (rlu_objs s' (p_obj_actual e)) = map_option o_copy (rlu_objs s (p_obj_actual e))" if "e \<in> set es" for e
    using that a(2) by (auto simp: s'(1))
  have g: "ws_header s' self w (p + 40) = ws_header s self w (p + 40)" if "0 \<le> p" "p < ws_fill es" for p using that(2) h [of p] by simp
  have "ws_tiles s' self w 0 es (ws_fill es)" by (rule ws_tiles_agree [OF th(8) [unfolded cur] t(3) g c])
  then have "ws_tiles s' self w 0 (es @ [?e]) (ws_fill es + 40 + ALIGN_OBJ_SIZE n)" unfolding ws_tiles_append using h [of "ws_fill es"] s'(1) by simp
  then have "rlu_tx self w s' (es @ [?e]) fs"
  proof (intro rlu_txI [where th = th'])
    show "o_copy x = Unlocked" if "rlu_objs s' b = Some x" "b \<notin> p_obj_actual ` set (es @ [?e])" for b x
      using that t(4) [of b x] by (simp add: s'(1))
  qed (use s'(3,2) f th(3) t(2,3) a n(1) in simp_all)
  then show ?thesis using l s'(1) by blast
qed

text \<open>Writing to the first copy, handing in an object to be freed, and changing an object that is not locked.\<close>

lemma write_copy:
  assumes tx: "rlu_tx self w s (e # es) fs" and b: "ws_body e = Some b"
  shows "\<exists>s'. rlu_write (RCpy self w 40) f s = Some s' \<and> rlu_tx self w s' (e\<lparr>ws_body := Some (f b)\<rparr> # es) fs \<and> rlu_objs s' = rlu_objs s"
proof -
  obtain th where th: "g_rlu_threads s self = Some th" "thread_ok self th" "run_counter th AND 1 \<noteq> 0" "free_nodes th = fs"
      "rlu_write_detected th" "ws_cur_id th = w" "num_of_objs (obj_write_set th w) = Suc (length es)"
      "ws_tiles s self w 0 (e # es) (p_cur (obj_write_set th w))"
    and t: "others_out self s" "distinct (map p_obj_actual (e # es))" "\<forall>e\<in>set (e # es). 0 \<le> ws_obj_size e"
      "\<And>a ob. rlu_objs s a = Some ob \<Longrightarrow> a \<notin> p_obj_actual ` set (e # es) \<Longrightarrow> o_copy ob = Unlocked"
    using tx by (auto simp: rlu_tx_def)
  let ?e = "e\<lparr>ws_body := Some (f b)\<rparr>"
  let ?W = "(obj_write_set th)(w := (obj_write_set th w)\<lparr>ws_buffer := (ws_buffer (obj_write_set th w))(0 \<mapsto> ?e)\<rparr>)"
  let ?s = "s\<lparr>g_rlu_threads := (g_rlu_threads s)(self \<mapsto> th\<lparr>obj_write_set := ?W\<rparr>)\<rparr>"
  have w: "rlu_write (RCpy self w 40) f s = Some ?s"
    using th(1,8) b by (simp add: rlu_write_def upd_wset_def upd_rthr_def OBJ_HEADER_SIZE_def WS_OBJ_HEADER_SIZE_def)
  have h: "ws_header ?s self w (p + 40) = (if p = 0 then Some ?e else ws_header s self w (p + 40))" for p
    using th(1) by (simp add: ws_header_def OBJ_HEADER_SIZE_def WS_OBJ_HEADER_SIZE_def)
  have "ws_tiles ?s self w (40 + ALIGN_OBJ_SIZE (ws_obj_size e)) es (p_cur (obj_write_set th w))"
  proof (rule ws_tiles_agree [of s])
    have "0 \<le> ALIGN_OBJ_SIZE (ws_obj_size e)" using t(3) align_nonneg by simp
    then show "ws_header ?s self w (p + 40) = ws_header s self w (p + 40)" if "40 + ALIGN_OBJ_SIZE (ws_obj_size e) \<le> p" for p
      using that unfolding h by simp
  qed (use th(8) t(3) in simp_all)
  moreover have "ws_header ?s self w 40 = Some ?e" using h [of 0] by simp
  ultimately have "ws_tiles ?s self w 0 (?e # es) (p_cur (obj_write_set th w))" using th(8) by simp
  moreover have "thread_ok self (th\<lparr>obj_write_set := ?W\<rparr>)" using th(2,6) by (simp add: thread_ok_def)
  moreover have "others_out self ?s" using t(1) by (simp add: others_out_def)
  ultimately have "rlu_tx self w ?s (?e # es) fs" using th(3-7) t by (intro rlu_txI [where th = "th\<lparr>obj_write_set := ?W\<rparr>"]) simp_all
  then show ?thesis using w by (intro exI [of _ ?s]) simp
qed

lemma assign_copy:
  assumes "rlu_tx self w s es fs" "e \<in> set es" "map_option o_copy (rlu_objs s (p_obj_actual e)) = Some (Locked self w p)"
  shows "FORCE_ACTUAL s (RCpy self w p) = Some (RObj (p_obj_actual e))" "rlu_assign_pointer s (RCpy self w p) = Some (RObj (p_obj_actual e))"
proof -
  obtain fin where "ws_tiles s self w 0 es fin" using assms(1) unfolding rlu_tx_def by blast
  then obtain q where "ws_header s self w q = Some e" "map_option o_copy (rlu_objs s (p_obj_actual e)) = Some (Locked self w q)"
    using assms(2) by (rule ws_tiles_header)
  then show "FORCE_ACTUAL s (RCpy self w p) = Some (RObj (p_obj_actual e))" using assms(3) by (simp add: FORCE_ACTUAL_def)
  then show "rlu_assign_pointer s (RCpy self w p) = Some (RObj (p_obj_actual e))" by (simp add: rlu_assign_pointer_def)
qed

lemma free_copy:
  assumes tx: "rlu_tx self w s es []" and "FORCE_ACTUAL s p = Some (RObj a)"
  shows "\<exists>s'. rlu_free (Some self) p s = Some s' \<and> rlu_tx self w s' es [a] \<and> rlu_objs s' = rlu_objs s"
proof -
  obtain th where th: "g_rlu_threads s self = Some th" "free_nodes th = []" "run_counter th AND 1 \<noteq> 0" "ws_tiles s self w 0 es (p_cur (obj_write_set th w))"
    and th2: "thread_ok self th" "rlu_write_detected th = (es \<noteq> [])" "ws_cur_id th = w" "num_of_objs (obj_write_set th w) = length es"
    using tx by (auto simp: rlu_tx_def)
  let ?s = "upd_rthr self (\<lambda>t. t\<lparr>free_nodes := free_nodes t @ [a]\<rparr>) s"
  have "p \<noteq> RNull" using assms(2) by (auto simp: FORCE_ACTUAL_def)
  then have "rlu_free (Some self) p s = Some ?s"
    using th assms(2) by (simp add: rlu_free_def rlu_assert_in_section_def RLU_ASSERT_def RLU_MAX_FREE_NODES_def)
  moreover have "ws_tiles ?s self w 0 es (p_cur (obj_write_set th w))" using th(4) by (subst ws_tiles_cong [of _ _ s]) (simp_all add: ws_header_upd_rthr)
  then have "rlu_tx self w ?s es [a]" using tx th th2 unfolding rlu_tx_def by (simp add: thread_ok_def)
  ultimately show ?thesis by simp
qed

lemma tx_set_obj:
  assumes tx: "rlu_tx self w s es fs" and a: "a \<notin> p_obj_actual ` set es" "o_copy ob = Unlocked"
  shows "rlu_tx self w (s\<lparr>rlu_objs := (rlu_objs s)(a \<mapsto> ob)\<rparr>) es fs"
proof -
  have "ws_tiles (s\<lparr>rlu_objs := (rlu_objs s)(a \<mapsto> ob)\<rparr>) self w c es fin = ws_tiles s self w c es fin" for c fin using a(1) by (intro ws_tiles_cong) auto
  then show ?thesis using tx a(2) by (auto simp: rlu_tx_def others_out_def)
qed

section \<open>Leaving a section\<close>

text \<open>With the other threads outside of sections there is nobody to wait for.\<close>

lemma init_wait_out:
  assumes "others_out self s" "g_rlu_threads s self = Some th"
  shows "\<exists>q. init_wait self n i s = upd_rthr self (\<lambda>t. t\<lparr>q_threads := q\<rparr>) s \<and> (\<forall>j. i \<le> j \<and> j < i + int n \<longrightarrow> \<not> is_wait (q j))"
proof -
  obtain q where q: "init_wait self n i s = upd_rthr self (\<lambda>t. t\<lparr>q_threads := q\<rparr>) s" "\<forall>j. i \<le> j \<and> j < i + int n \<longrightarrow> wait_entry_for self s j (q j)"
    using init_wait_entries [OF assms(2)] by blast
  moreover have "\<not> is_wait e" if "wait_entry_for self s j e" for j e using that assms(1) unfolding wait_entry_for_def others_out_def by blast
  ultimately show ?thesis by blast
qed

lemma wait_threads_out:
  "g_rlu_threads s self = Some th \<Longrightarrow> \<forall>j. i \<le> j \<and> j < i + int n \<longrightarrow> \<not> is_wait (q_threads th j) \<Longrightarrow>
   wait_threads env self v n i (k, it, s) = Some (k, it, s)"
proof (induction n arbitrary: i)
  case (Suc n)
  have "wait_thread env self v i (k, it, s) = Some (k, it, s)" using Suc.prems by (subst wait_thread.simps) simp
  with Suc.IH [of "i + 1"] Suc.prems show ?case by simp
qed simp

lemma synchronize_out:
  assumes "others_out self s" "g_rlu_threads s self = Some th"
  shows "\<exists>q c. rlu_synchronize env self k s = Some (k, upd_rthr self (\<lambda>t. t\<lparr>q_threads := q, n_stat := c\<rparr>) s)"
proof (cases "is_no_quiescence th")
  case True
  then have "rlu_synchronize env self k s = Some (k, upd_rthr self (\<lambda>t. t\<lparr>q_threads := q_threads th, n_stat := n_stat th\<rparr>) s)"
    using assms(2) by (cases s) (auto simp: rlu_synchronize_def upd_rthr_def fun_upd_idem)
  then show ?thesis by blast
next
  case False
  obtain q where q: "rlu_init_quiescence self s = upd_rthr self (\<lambda>t. t\<lparr>q_threads := q\<rparr>) s"
      "\<forall>j. 0 \<le> j \<and> j < int (nat (g_rlu_cur_threads s)) \<longrightarrow> \<not> is_wait (q j)"
    using init_wait_out [OF assms, of "nat (g_rlu_cur_threads s)" 0] by (auto simp: rlu_init_quiescence_def)
  have "rlu_synchronize env self k s =
      Some (k, rlu_count self n_writeback_q_iters 0 (upd_rthr self (\<lambda>t. t\<lparr>q_threads := q\<rparr>) s))"
    using False assms(2) q(2) unfolding rlu_synchronize_def rlu_wait_for_quiescence_def q(1)
    by (subst wait_threads_out [where th = "th\<lparr>q_threads := q\<rparr>"]) auto
  also have "rlu_count self n_writeback_q_iters 0 (upd_rthr self (\<lambda>t. t\<lparr>q_threads := q\<rparr>) s) = upd_rthr self (\<lambda>t. t\<lparr>q_threads := q, n_stat := n_stat th\<rparr>) s"
    using assms(2) by (simp add: rlu_count_def upd_rthr_def)
  finally show ?thesis by blast
qed

lemma free_objs_all:
  "distinct fs \<Longrightarrow> \<forall>a\<in>set fs. map_option o_copy (rlu_objs s a) = Some Unlocked \<Longrightarrow> free_objs fs s = Some (s\<lparr>rlu_objs := rlu_objs s |` (- set fs)\<rparr>)"
proof (induction fs arbitrary: s)
  case (Cons p ps)
  obtain ob where ob: "rlu_objs s p = Some ob" "o_copy ob = Unlocked" using Cons.prems(2) by auto
  let ?s = "s\<lparr>rlu_objs := (rlu_objs s)(p := None)\<rparr>"
  have "free_objs ps ?s = Some (?s\<lparr>rlu_objs := rlu_objs ?s |` (- set ps)\<rparr>)" using Cons by (intro Cons.IH) auto
  moreover have "(rlu_objs s)(p := None) |` (- set ps) = rlu_objs s |` (- set (p # ps))" by (auto simp: restrict_map_def fun_eq_iff)
  ultimately show ?case using ob by (simp add: RLU_ASSERT_def)
qed (simp add: restrict_map_def)

lemma sync_writes_back:
  assumes th: "g_rlu_threads s self = Some th" "run_counter th AND 1 = 0" "others_out self s"
    and c: "ws_head_counter th \<le> ws_wb_counter th" "ws_wb_counter th \<le> ws_head_counter th + 1" "ws_tail_counter th = ws_wb_counter th + 1"
    and r: "sets_rep s self (ws_wb_counter th) [es]"
    and f: "distinct (free_nodes th)" "\<forall>a\<in>set (free_nodes th). map_option o_copy (written_back es (rlu_objs s) a) = Some Unlocked"
  shows "\<exists>s' q c. rlu_sync_and_writeback env self k s = Some (k, s') \<and>
     rlu_objs s' = written_back es (rlu_objs s) |` (- set (free_nodes th)) \<and> others_out self s' \<and>
     g_rlu_threads s' self = Some (th\<lparr>obj_write_set := cleared (ws_indices (ws_head_counter th) (nat (ws_wb_counter th - ws_head_counter th))) (obj_write_set th),
       ws_head_counter := ws_wb_counter th, ws_wb_counter := ws_tail_counter th, writer_version := RLU_MAX_VERSION, is_sync := 0, free_nodes := [], q_threads := q, n_stat := c\<rparr>)"
proof -
  let ?I = "ws_indices (ws_head_counter th) (nat (ws_wb_counter th - ws_head_counter th))"
  define s1 where "s1 = sync_publish self s"
  have s1: "others_out self s1" "\<exists>v c. g_rlu_threads s1 self = Some (th\<lparr>writer_version := v, n_stat := c\<rparr>)" "rlu_objs s1 = rlu_objs s"
    using th(1,3) by (auto simp: s1_def sync_publish_def rlu_count_def others_out_def)
  then obtain v c1 where t1: "g_rlu_threads s1 self = Some (th\<lparr>writer_version := v, n_stat := c1\<rparr>)" by blast
  obtain q c2 where sy: "rlu_synchronize env self k s1 = Some (k, upd_rthr self (\<lambda>t. t\<lparr>q_threads := q, n_stat := c2\<rparr>) s1)"
    using synchronize_out [OF s1(1) t1] by blast
  define s2 where "s2 = upd_rthr self (\<lambda>t. t\<lparr>q_threads := q, n_stat := c2\<rparr>) s1"
  let ?t2 = "th\<lparr>writer_version := v, q_threads := q, n_stat := c2\<rparr>"
  have t2: "g_rlu_threads s2 self = Some ?t2" "rlu_objs s2 = rlu_objs s" "others_out self s2" using t1 s1 by (simp_all add: s2_def)
  have h: "ws_header s2 self w p = ws_header s self w p" for w p using t2(1) th(1) by (simp add: ws_header_def)
  have "sets_rep s2 self (ws_wb_counter ?t2) [es]"
    using r th(1) t2 ws_tiles_cong [of es s2 s self] h by (auto simp: sets_rep_def Let_def)
  from writeback_result [OF t2(1) _ _ _ this] c
  have wb: "rlu_writeback_write_sets_and_unlock self s2 = Some (1, upd_rthr self (\<lambda>t. t\<lparr>obj_write_set := cleared ?I (obj_write_set th),
      ws_head_counter := ws_wb_counter th, ws_wb_counter := ws_tail_counter th\<rparr>) (s2\<lparr>rlu_objs := written_back es (rlu_objs s)\<rparr>))" (is "_ = Some (1, ?s3)")
    by (simp add: t2(2) RLU_MAX_WRITE_SETS_def)
  define s4 where "s4 = sync_retire self ?s3"
  let ?t4 = "th\<lparr>obj_write_set := cleared ?I (obj_write_set th), ws_head_counter := ws_wb_counter th, ws_wb_counter := ws_tail_counter th,
      writer_version := RLU_MAX_VERSION, is_sync := 0, q_threads := q, n_stat := c2\<rparr>"
  have s4: "g_rlu_threads s4 self = Some ?t4" "rlu_objs s4 = written_back es (rlu_objs s)" "others_out self s4"
    using t2 by (simp_all add: s4_def sync_retire_def others_out_def)
  let ?s5 = "upd_rthr self (\<lambda>t. t\<lparr>free_nodes := []\<rparr>) (s4\<lparr>rlu_objs := written_back es (rlu_objs s) |` (- set (free_nodes th))\<rparr>)"
  have "rlu_process_free self s4 = Some ?s5" using s4 f free_objs_all [of "free_nodes th" s4] by (simp add: rlu_process_free_def)
  then have "rlu_sync_and_writeback env self k s = Some (k, ?s5)"
    using th c sy wb unfolding rlu_sync_and_writeback_def s1_def [symmetric] s2_def [symmetric]
    by (simp add: RLU_ASSERT_def s4_def)
  moreover have "others_out self ?s5" using s4(3) by (simp add: others_out_def)
  ultimately show ?thesis using s4(1) by (intro exI [of _ ?s5] exI [of _ q] exI [of _ c2]) simp
qed

lemma unlock_reader:
  assumes "rlu_tx self w s [] []"
  shows "\<exists>s'. rlu_reader_unlock env self k s = Some (k, s') \<and> rlu_idle self s' \<and> rlu_objs s' = rlu_objs s"
proof -
  obtain th where th: "others_out self s" "g_rlu_threads s self = Some th" "thread_ok self th" "run_counter th AND 1 \<noteq> 0" "free_nodes th = []"
      "\<not> rlu_write_detected th" "ws_cur_id th = w" "num_of_objs (obj_write_set th w) = 0" "p_cur (obj_write_set th w) = 0"
      "\<forall>a ob. rlu_objs s a = Some ob \<longrightarrow> o_copy ob = Unlocked"
    using assms by (auto simp: rlu_tx_def)
  then have "writer_locks (obj_write_set th w) = []" "is_sync th = 0" by (simp_all add: thread_ok_def)
  then show ?thesis
    using th by (auto simp: rlu_reader_unlock_def rlu_count_def rlu_unregister_thread_def RLU_ASSERT_def rlu_release_writer_locks_def
        rlu_reset_writer_locks_def upd_wset_def rlu_sync_checkpoint_def rlu_idle_def thread_ok_def ws_clean_def even_add_one ran_def)
qed

text \<open>The write sets after a commit: the one just written is kept, the one before it is empty again.\<close>

lemma commit_thread_ok:
  assumes "thread_ok self th"
  defines "th' \<equiv> th\<lparr>ws_cur_id := WS_INDEX (ws_tail_counter th + 1), ws_tail_counter := ws_tail_counter th + 1, ws_head_counter := ws_wb_counter th,
      ws_wb_counter := ws_tail_counter th + 1, is_sync := 0,
      obj_write_set := cleared (ws_indices (ws_head_counter th) (nat (ws_wb_counter th - ws_head_counter th))) (obj_write_set th)\<rparr>"
  shows "thread_ok self th'" "ws_clean (obj_write_set th' (ws_cur_id th'))" "ws_cur_id th' \<noteq> WS_INDEX (ws_head_counter th')"
proof -
  let ?h = "ws_head_counter th" and ?t = "ws_tail_counter th"
  let ?I = "ws_indices ?h (nat (ws_wb_counter th - ?h))"
  have c: "?h = ?t \<or> ?h + 1 = ?t" "ws_wb_counter th = ?t" "ws_cur_id th = WS_INDEX ?t" "\<forall>w. writer_locks (obj_write_set th w) = []"
      "\<forall>w. w \<noteq> WS_INDEX ?t \<and> w \<noteq> WS_INDEX ?h \<longrightarrow> ws_clean (obj_write_set th w)" using assms(1) by (auto simp: thread_ok_def)
  have "nat (?t - ?h) = (if ?h = ?t then 0 else Suc 0)" using c(1) by auto
  then have i: "?I = (if ?h = ?t then {} else {WS_INDEX ?h})" using c(2) by simp
  have cl: "ws_clean (cleared ?I (obj_write_set th) w)" if "w \<noteq> WS_INDEX ?t" for w
    using that c(1,5) unfolding i by (cases "w = WS_INDEX ?h") (auto simp: cleared_def ws_clean_def)
  have d: "WS_INDEX (?t + 1) \<noteq> WS_INDEX ?t" using WS_INDEX_inj [of "?t + 1" ?t] by (auto simp: RLU_MAX_WRITE_SETS_def)
  have "\<forall>w. writer_locks (cleared ?I (obj_write_set th) w) = []" using c(4) by (simp add: cleared_def)
  then show "thread_ok self th'" using assms(1) cl c(2) by (simp add: thread_ok_def th'_def)
  show "ws_clean (obj_write_set th' (ws_cur_id th'))" "ws_cur_id th' \<noteq> WS_INDEX (ws_head_counter th')" using cl [OF d] d c(2) by (simp_all add: th'_def)
qed

lemma unlock_commits:
  assumes tx: "rlu_tx self w s es fs" and es: "es \<noteq> []" and f: "distinct fs" "set fs \<subseteq> dom (rlu_objs s)"
  shows "\<exists>s'. rlu_reader_unlock env self k s = Some (k, s') \<and> rlu_idle self s' \<and> rlu_objs s' = written_back es (rlu_objs s) |` (- set fs)"
proof -
  obtain th where th: "others_out self s" "g_rlu_threads s self = Some th" "thread_ok self th" "run_counter th AND 1 \<noteq> 0" "free_nodes th = fs"
      "rlu_write_detected th = (es \<noteq> [])" "ws_cur_id th = w" "num_of_objs (obj_write_set th w) = length es"
      "ws_tiles s self w 0 es (p_cur (obj_write_set th w))" "distinct (map p_obj_actual es)" "\<forall>e\<in>set es. 0 \<le> ws_obj_size e"
      "\<forall>a ob. rlu_objs s a = Some ob \<longrightarrow> a \<notin> p_obj_actual ` set es \<longrightarrow> o_copy ob = Unlocked" using tx by (rule rlu_txE)
  let ?t = "ws_tail_counter th"
  have ok: "uniq_id th = self" "max_write_sets th = 1" "ws_wb_counter th = ?t" "w = WS_INDEX ?t" "ws_head_counter th \<le> ?t" "?t \<le> ws_head_counter th + 1"
    using th(3,7) by (auto simp: thread_ok_def)
  have un: "map_option o_copy (written_back es (rlu_objs s) a) = Some Unlocked" if "a \<in> dom (rlu_objs s)" for a
    using that th(12) written_back_other [of a es] written_back_mem [OF th(10)] by (cases "a \<in> p_obj_actual ` set es") auto
  have un2: "o_copy ob = Unlocked" if "written_back es (rlu_objs s) a = Some ob" for a ob
    using that th(12) written_back_other [of a es "rlu_objs s"] written_back_mem [OF th(10)] by (cases "a \<in> p_obj_actual ` set es") auto
  define st where "st = (n_stat th)(n_finish := n_stat th n_finish + 1, n_writers := n_stat th n_writers + 1, n_writer_writeback := n_stat th n_writer_writeback + 1)"
  define t1 where "t1 = th\<lparr>run_counter := run_counter th + 1, rlu_write_detected := False, n_stat := st, ws_tail_counter := ?t + 1, ws_cur_id := WS_INDEX (?t + 1)\<rparr>"
  define s1 where "s1 = s\<lparr>g_rlu_threads := (g_rlu_threads s)(self \<mapsto> t1)\<rparr>"
  have s1: "g_rlu_threads s1 self = Some t1" "rlu_objs s1 = rlu_objs s" "others_out self s1" using th(1) by (simp_all add: s1_def others_out_def)
  have h: "ws_header s1 self w p = ws_header s self w p" for w p using th(2) s1(1) by (simp add: ws_header_def t1_def)
  have "ws_tiles s1 self w 0 es (p_cur (obj_write_set th w))" using th(9) h s1(2) by (subst ws_tiles_cong [of _ _ s]) simp_all
  then have "sets_rep s1 self (ws_wb_counter t1) [es]" using s1(1) ok th(8,10) by (simp add: sets_rep_def t1_def)
  then obtain s2 q c where s2: "rlu_sync_and_writeback env self k s1 = Some (k, s2)" "rlu_objs s2 = written_back es (rlu_objs s) |` (- set fs)" "others_out self s2"
      "g_rlu_threads s2 self = Some (t1\<lparr>obj_write_set := cleared (ws_indices (ws_head_counter th) (nat (ws_wb_counter th - ws_head_counter th))) (obj_write_set th),
       ws_head_counter := ws_wb_counter th, ws_wb_counter := ?t + 1, writer_version := RLU_MAX_VERSION, is_sync := 0, free_nodes := [], q_threads := q, n_stat := c\<rparr>)"
    using sync_writes_back [OF s1(1) _ s1(3), of es env k] ok th(4,5) f un s1(2) unfolding t1_def by (auto simp: even_add_one subset_iff)
  let ?t2 = "t1\<lparr>obj_write_set := cleared (ws_indices (ws_head_counter th) (nat (ws_wb_counter th - ws_head_counter th))) (obj_write_set th),
       ws_head_counter := ws_wb_counter th, ws_wb_counter := ?t + 1, writer_version := RLU_MAX_VERSION, is_sync := 0, free_nodes := [], q_threads := q, n_stat := c\<rparr>"
  have c: "thread_ok self ?t2" "ws_clean (obj_write_set ?t2 (ws_cur_id ?t2))" "ws_cur_id ?t2 \<noteq> WS_INDEX (ws_head_counter ?t2)"
    using commit_thread_ok [OF th(3)] ok(3) by (simp_all add: t1_def thread_ok_def)
  have "rlu_commit_write_set env self k (s\<lparr>g_rlu_threads := (g_rlu_threads s)(self \<mapsto>
      th\<lparr>n_stat := (n_stat th)(n_finish := n_stat th n_finish + 1), run_counter := run_counter th + 1, rlu_write_detected := False\<rparr>)\<rparr>) = Some (k, s2)"
    using s2(1,4) c(3) ok(2,3) by (simp add: rlu_commit_write_set_def rlu_count_def upd_rthr_def s1_def t1_def st_def RLU_ASSERT_def Let_def)
  then have "rlu_reader_unlock env self k s = Some (k, s2)"
    using th(2,4,6) es s2(4) c(1) by (simp add: rlu_reader_unlock_def rlu_count_def upd_rthr_def rlu_unregister_thread_def RLU_ASSERT_def
        rlu_release_writer_locks_def rlu_sync_checkpoint_def thread_ok_def)
  moreover have "rlu_idle self s2"
    using s2(2-4) c(1,2) th(4) un2 unfolding rlu_idle_def by (auto simp: t1_def even_add_one ran_def restrict_map_def split: if_splits)
  ultimately show ?thesis using s2(2) by blast
qed

text \<open>Aborting: the objects of the copies are unlocked with the contents they had.\<close>

definition unlocked :: "nat set \<Rightarrow> (nat \<rightharpoonup> 'a rlu_obj) \<Rightarrow> nat \<rightharpoonup> 'a rlu_obj" where
  "unlocked A m = (\<lambda>a. if a \<in> A then map_option (\<lambda>ob. ob\<lparr>o_copy := Unlocked\<rparr>) (m a) else m a)"

lemma unlock_objs_tiles:
  "g_rlu_threads s self = Some th \<Longrightarrow> ws_tiles s self w cur es fin \<Longrightarrow> distinct (map p_obj_actual es) \<Longrightarrow>
   unlock_objs self w (length es) cur s = Some (s\<lparr>rlu_objs := unlocked (p_obj_actual ` set es) (rlu_objs s)\<rparr>)"
proof (induction es arbitrary: cur s)
  case Nil
  then show ?case by (simp add: unlocked_def)
next
  case (Cons e es)
  let ?c = "cur + 40 + ALIGN_OBJ_SIZE (ws_obj_size e)"
  obtain ob where e: "ws_buffer (obj_write_set th w) cur = Some e" "rlu_objs s (p_obj_actual e) = Some ob" "o_copy ob = Locked self w (cur + 40)"
      "ws_tiles s self w ?c es fin"
    using Cons.prems(2) ws_header_cur [OF Cons.prems(1)] by auto
  let ?s = "upd_robj (p_obj_actual e) (\<lambda>ob. ob\<lparr>o_copy := Unlocked\<rparr>) s"
  have s: "g_rlu_threads ?s self = Some th" "rlu_objs ?s = (rlu_objs s)(p_obj_actual e \<mapsto> ob\<lparr>o_copy := Unlocked\<rparr>)"
    "\<And>p. ws_header ?s self w p = ws_header s self w p"
    using Cons.prems(1) e(2) by (simp_all add: upd_robj_def)
  have "p_obj_actual x \<noteq> p_obj_actual e" if "x \<in> set es" for x using Cons.prems(3) that by (auto simp: image_iff)
  then have "ws_tiles ?s self w ?c es fin" using e(4) s by (subst ws_tiles_cong [of _ _ s]) auto
  then have "unlock_objs self w (length es) ?c ?s = Some (?s\<lparr>rlu_objs := unlocked (p_obj_actual ` set es) (rlu_objs ?s)\<rparr>)"
    using Cons.prems(3) s(1) by (intro Cons.IH) auto
  moreover have "unlocked (p_obj_actual ` set es) (rlu_objs ?s) = unlocked (p_obj_actual ` set (e # es)) (rlu_objs s)"
    using Cons.prems(3) e(2) unfolding s(2) by (auto simp: unlocked_def fun_eq_iff)
  ultimately show ?case using Cons.prems(1) e(1-3) by (simp add: RLU_ASSERT_def OBJ_HEADER_SIZE_def WS_OBJ_HEADER_SIZE_def upd_robj_def add.assoc)
qed

lemma abort_thread_ok:
  assumes "thread_ok self th" "W = cleared {ws_cur_id th} (obj_write_set th)"
  shows "thread_ok self (th\<lparr>obj_write_set := W\<rparr>)" "ws_clean (W (ws_cur_id th))"
  using assms by (auto simp: thread_ok_def cleared_def ws_clean_def)


text \<open>Thread 0 has locked object 3, written 9 to its copy and handed in object 4.\<close>

definition demo_section :: "nat rlu" where
  "demo_section = demo_rlu\<lparr>g_rlu_threads :=
     [0 \<mapsto> zero_thread\<lparr>max_write_sets := 1, run_counter := 1, rlu_write_detected := True, is_check_locks := True, free_nodes := [4],
        obj_write_set := (obj_write_set zero_thread)(0 := \<lparr>writer_locks = [], num_of_objs = 1, p_cur = 56, ws_buffer = [0 \<mapsto> demo_copy]\<rparr>)\<rparr>]\<rparr>"


end
