(* ===== verification/RluList.thy ===== *)
theory RluList
  imports RluTx
begin

text \<open>
  The hash table over read-log-update: the functions \<open>rlu_list_*\<close> and \<open>rlu_hash_list_*\<close> of
  \<open>src/benchmark/rlu/hash-list.c\<close>. They are written against the macros of \<open>rlu.h\<close>, which also
  TimeStone provides (\<open>src/include/mvrlu.h\<close>); here they run on the model of \<open>rlu.c\<close>.
\<close>

section \<open>Nodes behind pointers\<close>

type_synonym rlu_mem = "hnode rlu"

definition next_ptr :: "hnode \<Rightarrow> rptr" where
  "next_ptr n = (case n_next n of None \<Rightarrow> RNull | Some a \<Rightarrow> RObj a)"

definition rlu_set_next :: "rptr \<Rightarrow> rptr \<Rightarrow> rlu_mem \<Rightarrow> rlu_mem option" where
  "rlu_set_next p q s = do {
     q \<leftarrow> rlu_assign_pointer s q;
     rlu_write p (\<lambda>n. n\<lparr>n_next := (case q of RObj a \<Rightarrow> Some a | _ \<Rightarrow> None)\<rparr>) s }"

section \<open>The list (hash-list.c)\<close>

definition sizeof_node :: int where "sizeof_node = 16"

partial_function (option) rlu_search :: "int \<Rightarrow> int \<Rightarrow> rptr \<Rightarrow> rptr \<Rightarrow> rlu_mem \<Rightarrow> (rptr \<times> rptr \<times> rlu_mem) option" where
  "rlu_search self val p_prev p_next s = do {
     n \<leftarrow> rlu_body s p_next;
     (if n_val n < val then do {
        (p, s) \<leftarrow> RLU_DEREF self (next_ptr n) s;
        rlu_search self val p_next p s }
      else Some (p_prev, p_next, s)) }"

declare rlu_search.simps [code]

definition rlu_first :: "int \<Rightarrow> list_t \<Rightarrow> rlu_mem \<Rightarrow> (rptr \<times> rptr \<times> rlu_mem) option" where
  "rlu_first self p_list s = do {
     (p_prev, s) \<leftarrow> RLU_DEREF self (RObj (p_head p_list)) s;
     n \<leftarrow> rlu_body s p_prev;
     (p_next, s) \<leftarrow> RLU_DEREF self (next_ptr n) s;
     Some (p_prev, p_next, s) }"

definition rlu_list_contains :: "(nat \<Rightarrow> rlu_mem \<Rightarrow> rlu_mem) \<Rightarrow> int \<Rightarrow> list_t \<Rightarrow> int \<Rightarrow> nat \<Rightarrow> rlu_mem \<Rightarrow> (bool \<times> nat \<times> rlu_mem) option" where
  "rlu_list_contains env self p_list val k s = do {
     (k, s) \<leftarrow> rlu_reader_lock env self k s;
     (p_prev, p_next, s) \<leftarrow> rlu_first self p_list s;
     (p_prev, p_next, s) \<leftarrow> rlu_search self val p_prev p_next s;
     n \<leftarrow> rlu_body s p_next;
     (k, s) \<leftarrow> rlu_reader_unlock env self k s;
     Some (n_val n = val, k, s) }"

definition rlu_new_node :: "memory \<Rightarrow> rlu_mem \<Rightarrow> rptr \<times> rlu_mem" where
  "rlu_new_node mem s = rlu_alloc mem s"

definition ptr_addr :: "rptr \<Rightarrow> nat option" where
  "ptr_addr p = (case p of RObj a \<Rightarrow> Some a | _ \<Rightarrow> None)"

definition rlu_new_list :: "list_memory \<Rightarrow> rlu_mem \<Rightarrow> (list_t option \<times> rlu_mem) option" where
  "rlu_new_list mems s =
     (case mems of (room, m1, m2) \<Rightarrow>
        if \<not> room then Some (None, s)
        else let (p_max_node, s) = rlu_new_node m1 s in
          if p_max_node = RNull then Some (None, s)
          else do {
            s \<leftarrow> rlu_write p_max_node (\<lambda>n. n\<lparr>n_val := LIST_VAL_MAX\<rparr>) s;
            s \<leftarrow> rlu_write p_max_node (\<lambda>n. n\<lparr>n_next := None\<rparr>) s;
            let (p_min_node, s) = rlu_new_node m2 s;
            (if p_min_node = RNull then Some (None, s)
             else do {
               s \<leftarrow> rlu_write p_min_node (\<lambda>n. n\<lparr>n_val := LIST_VAL_MIN\<rparr>) s;
               s \<leftarrow> rlu_write p_min_node (\<lambda>n. n\<lparr>n_next := ptr_addr p_max_node\<rparr>) s;
               Some (map_option (\<lambda>a. \<lparr>p_head = a\<rparr>) (ptr_addr p_min_node), s) }) })"

text \<open>As for the sequential table, the array has room for \<open>MAX_BUCKETS\<close> lists and this is not checked.\<close>

fun rlu_new_buckets :: "nat \<Rightarrow> (nat \<Rightarrow> list_memory) \<Rightarrow> rlu_mem \<Rightarrow> (list_t list option \<times> rlu_mem) option" where
  "rlu_new_buckets 0 mems s = Some (Some [], s)"
| "rlu_new_buckets (Suc n) mems s = do {
     (ls, s) \<leftarrow> rlu_new_buckets n mems s;
     (case ls of
        None \<Rightarrow> Some (None, s)
      | Some ls \<Rightarrow> do {
          (l, s) \<leftarrow> rlu_new_list (mems n) s;
          Some (map_option (\<lambda>l. ls @ [l]) l, s) }) }"

definition rlu_new_hash_list :: "bool \<Rightarrow> (nat \<Rightarrow> list_memory) \<Rightarrow> int \<Rightarrow> rlu_mem \<Rightarrow> (hash_list option \<times> rlu_mem) option" where
  "rlu_new_hash_list room mems n s =
     (if \<not> room then Some (None, s)
      else if MAX_BUCKETS < n then None
      else do {
        (ls, s) \<leftarrow> rlu_new_buckets (nat n) mems s;
        Some (map_option (\<lambda>ls. \<lparr>n_buckets = n, buckets = ls\<rparr>) ls, s) })"

text \<open>The sizes are counted on the objects, without a section.\<close>

partial_function (option) rlu_count_nodes :: "rlu_mem \<Rightarrow> int \<Rightarrow> nat \<Rightarrow> int option" where
  "rlu_count_nodes s sz p_prev = do {
     n \<leftarrow> rlu_body s (RObj p_prev);
     (case n_next n of
        None \<Rightarrow> Some sz
      | Some p_next \<Rightarrow> rlu_count_nodes s (sz + 1) p_next) }"

declare rlu_count_nodes.simps [code]

definition rlu_list_size :: "rlu_mem \<Rightarrow> list_t \<Rightarrow> int option" where
  "rlu_list_size s p_list = do {
     n \<leftarrow> rlu_body s (RObj (p_head p_list));
     p_prev \<leftarrow> n_next n;
     rlu_count_nodes s 0 p_prev }"

fun rlu_sum_sizes :: "rlu_mem \<Rightarrow> list_t list \<Rightarrow> int \<Rightarrow> int option" where
  "rlu_sum_sizes s [] sz = Some sz"
| "rlu_sum_sizes s (l # ls) sz = do { n \<leftarrow> rlu_list_size s l; rlu_sum_sizes s ls (sz + n) }"

definition rlu_hash_list_size :: "rlu_mem \<Rightarrow> hash_list \<Rightarrow> int option" where
  "rlu_hash_list_size s p_hash_list =
     (if length (buckets p_hash_list) < nat (n_buckets p_hash_list) then None
      else rlu_sum_sizes s (take (nat (n_buckets p_hash_list)) (buckets p_hash_list)) 0)"

text \<open>
  \<open>race j\<close> is what the other threads do while the \<open>j\<close>th lock is taken; an attempt that fails is
  aborted and the operation starts again. The answer is \<open>None\<close> where the code exits.
\<close>

partial_function (option) rlu_list_add ::
  "(nat \<Rightarrow> rlu_mem \<Rightarrow> rlu_mem) \<Rightarrow> (nat \<Rightarrow> rlu_mem \<Rightarrow> rlu_mem) \<Rightarrow> int \<Rightarrow> memory \<Rightarrow> list_t \<Rightarrow> int \<Rightarrow> nat \<Rightarrow> nat \<Rightarrow> rlu_mem \<Rightarrow> (bool option \<times> nat \<times> rlu_mem) option" where
  "rlu_list_add env race self mem p_list val j k s = do {
     (k, s) \<leftarrow> rlu_reader_lock env self k s;
     (p_prev, p_next, s) \<leftarrow> rlu_first self p_list s;
     (if p_prev = RNull \<or> p_next = RNull then Some (None, k, s)
      else do {
        (p_prev, p_next, s) \<leftarrow> rlu_search self val p_prev p_next s;
        n \<leftarrow> rlu_body s p_next;
        (if n_val n = val then do {
           (k, s) \<leftarrow> rlu_reader_unlock env self k s;
           Some (Some False, k, s) }
         else do {
           (ok, p_prev, s) \<leftarrow> rlu_try_lock (race (2 * j)) self p_prev sizeof_node s;
           (if \<not> ok then do {
              (k, s) \<leftarrow> rlu_abort env self k s;
              rlu_list_add env race self mem p_list val (Suc j) k s }
            else do {
              (ok, p_next, s) \<leftarrow> rlu_try_lock (race (2 * j + 1)) self p_next sizeof_node s;
              (if \<not> ok then do {
                 (k, s) \<leftarrow> rlu_abort env self k s;
                 rlu_list_add env race self mem p_list val (Suc j) k s }
               else do {
                 let (p_new_node, s) = rlu_new_node mem s;
                 (if p_new_node = RNull then Some (None, k, s)
                  else do {
                    s \<leftarrow> rlu_write p_new_node (\<lambda>n. n\<lparr>n_val := val\<rparr>) s;
                    s \<leftarrow> rlu_set_next p_new_node p_next s;
                    s \<leftarrow> rlu_set_next p_prev p_new_node s;
                    (k, s) \<leftarrow> rlu_reader_unlock env self k s;
                    Some (Some True, k, s) }) }) }) }) }) }"

partial_function (option) rlu_list_remove ::
  "(nat \<Rightarrow> rlu_mem \<Rightarrow> rlu_mem) \<Rightarrow> (nat \<Rightarrow> rlu_mem \<Rightarrow> rlu_mem) \<Rightarrow> int \<Rightarrow> list_t \<Rightarrow> int \<Rightarrow> nat \<Rightarrow> nat \<Rightarrow> rlu_mem \<Rightarrow> (bool \<times> nat \<times> rlu_mem) option" where
  "rlu_list_remove env race self p_list val j k s = do {
     (k, s) \<leftarrow> rlu_reader_lock env self k s;
     (p_prev, p_next, s) \<leftarrow> rlu_first self p_list s;
     (p_prev, p_next, s) \<leftarrow> rlu_search self val p_prev p_next s;
     n \<leftarrow> rlu_body s p_next;
     (if n_val n = val then do {
        (m, s) \<leftarrow> RLU_DEREF self (next_ptr n) s;
        (ok, p_prev, s) \<leftarrow> rlu_try_lock (race (2 * j)) self p_prev sizeof_node s;
        (if \<not> ok then do {
           (k, s) \<leftarrow> rlu_abort env self k s;
           rlu_list_remove env race self p_list val (Suc j) k s }
         else do {
           (ok, p_next, s) \<leftarrow> rlu_try_lock (race (2 * j + 1)) self p_next sizeof_node s;
           (if \<not> ok then do {
              (k, s) \<leftarrow> rlu_abort env self k s;
              rlu_list_remove env race self p_list val (Suc j) k s }
            else do {
              s \<leftarrow> rlu_set_next p_prev m s;
              s \<leftarrow> rlu_free (Some self) p_next s;
              (k, s) \<leftarrow> rlu_reader_unlock env self k s;
              Some (True, k, s) }) }) }
      else do {
        (k, s) \<leftarrow> rlu_reader_unlock env self k s;
        Some (False, k, s) }) }"

declare rlu_list_add.simps [code] rlu_list_remove.simps [code]

definition rlu_hash_list_contains :: "(nat \<Rightarrow> rlu_mem \<Rightarrow> rlu_mem) \<Rightarrow> int \<Rightarrow> hash_list \<Rightarrow> int \<Rightarrow> nat \<Rightarrow> rlu_mem \<Rightarrow> (bool \<times> nat \<times> rlu_mem) option" where
  "rlu_hash_list_contains env self p_hash_list val k s = do {
     hash \<leftarrow> HASH_VALUE p_hash_list val;
     l \<leftarrow> bucket p_hash_list hash;
     rlu_list_contains env self l val k s }"

definition rlu_hash_list_add ::
  "(nat \<Rightarrow> rlu_mem \<Rightarrow> rlu_mem) \<Rightarrow> (nat \<Rightarrow> rlu_mem \<Rightarrow> rlu_mem) \<Rightarrow> int \<Rightarrow> memory \<Rightarrow> hash_list \<Rightarrow> int \<Rightarrow> nat \<Rightarrow> rlu_mem \<Rightarrow> (bool option \<times> nat \<times> rlu_mem) option" where
  "rlu_hash_list_add env race self mem p_hash_list val k s = do {
     hash \<leftarrow> HASH_VALUE p_hash_list val;
     l \<leftarrow> bucket p_hash_list hash;
     rlu_list_add env race self mem l val 0 k s }"

definition rlu_hash_list_remove ::
  "(nat \<Rightarrow> rlu_mem \<Rightarrow> rlu_mem) \<Rightarrow> (nat \<Rightarrow> rlu_mem \<Rightarrow> rlu_mem) \<Rightarrow> int \<Rightarrow> hash_list \<Rightarrow> int \<Rightarrow> nat \<Rightarrow> rlu_mem \<Rightarrow> (bool \<times> nat \<times> rlu_mem) option" where
  "rlu_hash_list_remove env race self p_hash_list val k s = do {
     hash \<leftarrow> HASH_VALUE p_hash_list val;
     l \<leftarrow> bucket p_hash_list hash;
     rlu_list_remove env race self l val 0 k s }"

section \<open>The list operations\<close>

text \<open>The nodes that lie in the objects.\<close>

definition rlu_nodes :: "rlu_mem \<Rightarrow> nodes" where
  "rlu_nodes s = (\<lambda>a. map_option o_body (rlu_objs s a))"

lemma rlu_nodes_cong: "rlu_objs s' = rlu_objs s \<Longrightarrow> rlu_nodes s' = rlu_nodes s"
  by (simp add: rlu_nodes_def)

lemma next_ptr_simps [simp]:
  "rlu_assign_pointer s (next_ptr n) = Some (next_ptr n)" "(case next_ptr n of RObj a \<Rightarrow> Some a | _ \<Rightarrow> None) = n_next n"
  by (simp_all add: rlu_assign_pointer_def FORCE_ACTUAL_def next_ptr_def split: option.split)

lemma tx_deref:
  assumes "rlu_tx self w s [] []" "rlu_nodes s a \<noteq> None"
  shows "RLU_DEREF self (RObj a) s = Some (RObj a, s)"
proof -
  obtain ob where "rlu_objs s a = Some ob" using assms(2) by (auto simp: rlu_nodes_def)
  then show ?thesis using assms(1) deref_unlocked by (fastforce simp: rlu_tx_def)
qed

lemma body_obj: "rlu_body s (RObj a) = rlu_nodes s a"
  by (simp add: rlu_body_def rlu_nodes_def)

lemma rlu_search_sim:
  assumes "rlu_tx self w s [] []"
  shows "list_search (rlu_nodes s) val p q = Some (p', q') \<Longrightarrow> rlu_search self val (RObj p) (RObj q) s = Some (RObj p', RObj q', s)"
proof -
  have "h = rlu_nodes s \<longrightarrow> rlu_search self val (RObj p) (RObj q) s = Some (RObj (fst y), RObj (snd y), s)" if "list_search h val p q = Some y" for h y
    using that
  proof (induction h val p q y rule: list_search.raw_induct [rotated, consumes 1, case_names 1])
    case (1 search h val p q y)
    show ?case
    proof
      assume h: "h = rlu_nodes s"
      obtain n where n: "h q = Some n" using 1(2) by (cases "h q") auto
      show "rlu_search self val (RObj p) (RObj q) s = Some (RObj (fst y), RObj (snd y), s)"
      proof (cases "n_val n < val")
        case False
        then show ?thesis using 1(2) n h by (subst rlu_search.simps) (auto simp: body_obj)
      next
        case True
        then obtain r where r: "n_next n = Some r" "search h val q r = Some y" using 1(2) n by (cases "n_next n") auto
        have s: "rlu_search self val (RObj q) (RObj r) s = Some (RObj (fst y), RObj (snd y), s)" using 1(1) [OF r(2)] h by simp
        then have "rlu_nodes s r \<noteq> None" by (subst (asm) rlu_search.simps) (auto simp: body_obj split: bind_splits)
        from tx_deref [OF assms this] show ?thesis using s n h True r(1) by (subst rlu_search.simps) (simp add: body_obj next_ptr_def)
      qed
    qed
  qed
  then show "list_search (rlu_nodes s) val p q = Some (p', q') \<Longrightarrow> rlu_search self val (RObj p) (RObj q) s = Some (RObj p', RObj q', s)" by fastforce
qed

lemma rlu_find_sim:
  assumes tx: "rlu_tx self w s [] []" and f: "list_find (rlu_nodes s) l val = Some (p, q)"
  obtains p0 q0 where "rlu_first self l s = Some (RObj p0, RObj q0, s)" "rlu_search self val (RObj p0) (RObj q0) s = Some (RObj p, RObj q, s)"
proof -
  obtain n r where n: "rlu_nodes s (p_head l) = Some n" "n_next n = Some r" "list_search (rlu_nodes s) val (p_head l) r = Some (p, q)"
    using f by (auto simp: list_find_def split: bind_splits)
  have r: "rlu_nodes s r \<noteq> None" using n(3) by (subst (asm) list_search.simps) (auto split: bind_splits)
  have "rlu_first self l s = Some (RObj (p_head l), RObj r, s)"
    using tx_deref [OF tx r] tx_deref [OF tx, of "p_head l"] n(1,2) by (simp add: rlu_first_def body_obj next_ptr_def)
  then show thesis using that rlu_search_sim [OF tx n(3)] by blast
qed

lemma rlu_list_contains_sim:
  assumes i: "rlu_idle self s" and c: "pure_list_contains (rlu_nodes s) l val = Some b"
  shows "\<exists>s'. rlu_list_contains env self l val k s = Some (b, k, s') \<and> rlu_idle self s' \<and> rlu_nodes s' = rlu_nodes s"
proof -
  obtain p q n where f: "list_find (rlu_nodes s) l val = Some (p, q)" "rlu_nodes s q = Some n" "b = (n_val n = val)"
    using c by (auto simp: pure_list_contains_def split: bind_splits)
  obtain w s1 where s1: "rlu_reader_lock env self k s = Some (k, s1)" "rlu_tx self w s1 [] []" "rlu_objs s1 = rlu_objs s" using reader_lock_begins [OF i] by blast
  note nodes = rlu_nodes_cong [OF s1(3)]
  obtain p0 q0 where g: "rlu_first self l s1 = Some (RObj p0, RObj q0, s1)" "rlu_search self val (RObj p0) (RObj q0) s1 = Some (RObj p, RObj q, s1)"
    using s1(2) f(1) [folded nodes] by (rule rlu_find_sim)
  obtain s2 where s2: "rlu_reader_unlock env self k s1 = Some (k, s2)" "rlu_idle self s2" "rlu_objs s2 = rlu_objs s1" using unlock_reader [OF s1(2)] by blast
  have "rlu_list_contains env self l val k s = Some (b, k, s2)" using s1(1) g s2(1) f(2,3) by (simp add: rlu_list_contains_def body_obj nodes)
  then show ?thesis using s2(2) rlu_nodes_cong [OF s2(3)] nodes by (intro exI [of _ s2]) simp
qed

text \<open>Two locks in a row, as both updates take them: the copies of the predecessor and of the node found.\<close>

definition node_copy :: "nat \<Rightarrow> u64 \<Rightarrow> int \<Rightarrow> hnode \<Rightarrow> hnode rlu_ws_obj" where
  "node_copy a r self n = \<lparr>p_obj_actual = a, ws_obj_size = sizeof_node, ws_run_counter = r, ws_thread_id = self, ws_body = Some n\<rparr>"

lemma node_copy_simps [simp]:
  "p_obj_actual (node_copy a r self n) = a" "ws_body (node_copy a r self n) = Some n" "(node_copy a r self n)\<lparr>ws_body := Some m\<rparr> = node_copy a r self m"
  by (simp_all add: node_copy_def)

lemma lock_two:
  assumes tx: "rlu_tx self w s [] []" and n: "rlu_nodes s p = Some m" "rlu_nodes s q = Some n" "p \<noteq> q"
  shows "\<exists>s1 s2 r1 r2. rlu_try_lock id self (RObj p) sizeof_node s = Some (True, RCpy self w 40, s1) \<and>
     rlu_try_lock id self (RObj q) sizeof_node s1 = Some (True, RCpy self w 96, s2) \<and>
     rlu_tx self w s2 [node_copy p r1 self m, node_copy q r2 self n] [] \<and>
     rlu_objs s2 = (rlu_objs s)(p \<mapsto> \<lparr>o_copy = Locked self w 40, o_body = m\<rparr>, q \<mapsto> \<lparr>o_copy = Locked self w 96, o_body = n\<rparr>)"
proof -
  obtain x y where x: "rlu_objs s p = Some x" "o_body x = m" and y: "rlu_objs s q = Some y" "o_body y = n" using n(1,2) by (auto simp: rlu_nodes_def)
  have sz: "0 \<le> sizeof_node" "ALIGN_OBJ_SIZE sizeof_node = 16" "RLU_MAX_WRITE_SET_BUFFER_SIZE = 100000"
    by (simp_all add: sizeof_node_def ALIGN_OBJ_SIZE_def RLU_MAX_WRITE_SET_BUFFER_SIZE_def)
  obtain s1 r1 where s1: "rlu_try_lock id self (RObj p) sizeof_node s = Some (True, RCpy self w 40, s1)"
      "rlu_tx self w s1 [node_copy p r1 self m] []" "rlu_objs s1 = (rlu_objs s)(p \<mapsto> x\<lparr>o_copy := Locked self w 40\<rparr>)"
    using try_lock_copies [OF tx x(1) _ sz(1)] sz x(2) by (auto simp: ws_fill_def node_copy_def)
  have "ws_fill [node_copy p r1 self m] = 56" using sz(2) by (simp add: ws_fill_def node_copy_def)
  moreover have "rlu_objs s1 q = Some y" using s1(3) y(1) n(3) by simp
  ultimately obtain s2 r2 where s2: "rlu_try_lock id self (RObj q) sizeof_node s1 = Some (True, RCpy self w 96, s2)"
      "rlu_tx self w s2 ([node_copy p r1 self m] @ [node_copy q r2 self n]) []" "rlu_objs s2 = (rlu_objs s1)(q \<mapsto> y\<lparr>o_copy := Locked self w 96\<rparr>)"
    using try_lock_copies [OF s1(2) _ _ sz(1), of q y] sz(2,3) y(2) n(3) by (auto simp: node_copy_def)
  have "x\<lparr>o_copy := Locked self w 40\<rparr> = \<lparr>o_copy = Locked self w 40, o_body = m\<rparr>" "y\<lparr>o_copy := Locked self w 96\<rparr> = \<lparr>o_copy = Locked self w 96, o_body = n\<rparr>"
    using x(2) y(2) by simp_all
  then show ?thesis using s1(1) s2 by (simp add: s1(3)) blast
qed

lemma set_next_copy:
  assumes "rlu_tx self w s (node_copy p r self m # es) fs" "rlu_assign_pointer s t = Some t'"
  shows "\<exists>s'. rlu_set_next (RCpy self w 40) t s = Some s' \<and>
     rlu_tx self w s' (node_copy p r self (m\<lparr>n_next := (case t' of RObj a \<Rightarrow> Some a | _ \<Rightarrow> None)\<rparr>) # es) fs \<and> rlu_objs s' = rlu_objs s"
  using write_copy [OF assms(1), of m "\<lambda>n. n\<lparr>n_next := (case t' of RObj a \<Rightarrow> Some a | _ \<Rightarrow> None)\<rparr>"] assms(2) by (simp add: rlu_set_next_def)

lemma nseg_next_dom: "nseg h p cs None \<Longrightarrow> a \<in> fst ` set cs \<Longrightarrow> h a = Some n \<Longrightarrow> n_next n = Some r \<Longrightarrow> r \<in> dom h"
proof (induction cs arbitrary: p)
  case (Cons c cs)
  obtain b v where c: "c = (b, v)" by (cases c)
  show ?case
  proof (cases "a = b")
    case True
    then have "nseg h (Some r) cs None" using Cons.prems c by auto
    then show ?thesis by (cases cs) auto
  next
    case False
    then show ?thesis using Cons.prems Cons.IH c by auto
  qed
qed simp

lemma list_find_pair:
  assumes "list_rep h l cs" "list_val val"
  obtains p q m n where "list_find h l val = Some (p, q)" "h p = Some m" "h q = Some n" "p \<noteq> q" "val \<in> list_elems cs \<longleftrightarrow> n_val n = val"
    "\<forall>r. n_next n = Some r \<longrightarrow> h r \<noteq> None"
proof -
  obtain xs p q zs m n where f: "cs = xs @ p # q # zs" "list_find h l val = Some (fst p, fst q)" "h (fst p) = Some m" "h (fst q) = Some n"
      "n_val n = snd q" "fst p \<noteq> fst q" "val \<in> list_elems cs \<longleftrightarrow> snd q = val" using assms by (rule list_find_nodes) blast
  have "\<forall>r. n_next n = Some r \<longrightarrow> h r \<noteq> None" using nseg_next_dom [of h _ cs "fst q" n] assms(1) f(1,4) by (auto simp: list_rep_def)
  then show thesis using that [OF f(2-4,6)] f(5,7) by simp
qed

lemma rlu_list_add_sim:
  assumes i: "rlu_idle self s" and l: "list_rep (rlu_nodes s) l cs" "list_val val" and a: "a \<notin> dom (rlu_nodes s)"
  shows "\<exists>s'. rlu_list_add env (\<lambda>_. id) self (Some (a, n0)) l val j k s = Some (Some (val \<notin> list_elems cs), k, s') \<and> rlu_idle self s' \<and>
     pure_list_add (Some (a, n0)) (rlu_nodes s) l val = Some (Some (val \<notin> list_elems cs), rlu_nodes s')"
proof -
  obtain p q m n where f: "list_find (rlu_nodes s) l val = Some (p, q)" "rlu_nodes s p = Some m" "rlu_nodes s q = Some n"
      "p \<noteq> q" "val \<in> list_elems cs \<longleftrightarrow> n_val n = val" using l by (rule list_find_pair) blast
  obtain w s1 where s1: "rlu_reader_lock env self k s = Some (k, s1)" "rlu_tx self w s1 [] []" "rlu_objs s1 = rlu_objs s" using reader_lock_begins [OF i] by blast
  note nodes = rlu_nodes_cong [OF s1(3)]
  obtain p0 q0 where g: "rlu_first self l s1 = Some (RObj p0, RObj q0, s1)" "rlu_search self val (RObj p0) (RObj q0) s1 = Some (RObj p, RObj q, s1)"
    using s1(2) f(1) [folded nodes] by (rule rlu_find_sim)
  show ?thesis
  proof (cases "n_val n = val")
    case True
    obtain s2 where s2: "rlu_reader_unlock env self k s1 = Some (k, s2)" "rlu_idle self s2" "rlu_objs s2 = rlu_objs s1" using unlock_reader [OF s1(2)] by blast
    have "rlu_list_add env (\<lambda>_. id) self (Some (a, n0)) l val j k s = Some (Some False, k, s2)"
      using True s1(1) g s2(1) f(3) by (subst rlu_list_add.simps) (simp add: body_obj nodes)
    moreover have "pure_list_add (Some (a, n0)) (rlu_nodes s) l val = Some (Some False, rlu_nodes s2)"
      using True f(1,3) rlu_nodes_cong [OF s2(3)] nodes by (simp add: pure_list_add_def)
    ultimately show ?thesis using s2(2) True f(5) by (intro exI [of _ s2]) simp
  next
    case False
    obtain s2 s3 r1 r2 where lk: "rlu_try_lock id self (RObj p) sizeof_node s1 = Some (True, RCpy self w 40, s2)"
        "rlu_try_lock id self (RObj q) sizeof_node s2 = Some (True, RCpy self w 96, s3)"
        "rlu_tx self w s3 [node_copy p r1 self m, node_copy q r2 self n] []"
        "rlu_objs s3 = (rlu_objs s)(p \<mapsto> \<lparr>o_copy = Locked self w 40, o_body = m\<rparr>, q \<mapsto> \<lparr>o_copy = Locked self w 96, o_body = n\<rparr>)"
      using lock_two [OF s1(2), of "p" m "q" n] f(2-4) nodes s1(3) by auto
    have ap: "a \<noteq> p" "a \<noteq> q" using a f(2,3) by auto
    let ?n = "n0\<lparr>n_val := val, n_next := Some q\<rparr>"
    define s4 where "s4 = s3\<lparr>rlu_objs := (rlu_objs s3)(a \<mapsto> \<lparr>o_copy = Unlocked, o_body = n0\<lparr>n_val := val\<rparr>\<rparr>)\<rparr>"
    have t4: "rlu_tx self w s4 [node_copy p r1 self m, node_copy q r2 self n] []" using lk(3) ap unfolding s4_def by (intro tx_set_obj) auto
    have new: "rlu_write (RObj a) (\<lambda>n. n\<lparr>n_val := val\<rparr>) (s3\<lparr>rlu_objs := (rlu_objs s3)(a \<mapsto> \<lparr>o_copy = Unlocked, o_body = n0\<rparr>)\<rparr>) = Some s4"
      by (simp add: rlu_write_def upd_robj_def s4_def)
    define s5 where "s5 = s4\<lparr>rlu_objs := (rlu_objs s4)(a \<mapsto> \<lparr>o_copy = Unlocked, o_body = ?n\<rparr>)\<rparr>"
    have t5: "rlu_tx self w s5 [node_copy p r1 self m, node_copy q r2 self n] []" using t4 ap unfolding s5_def by (intro tx_set_obj) auto
    have "rlu_assign_pointer s4 (RCpy self w 96) = Some (RObj q)"
      using assign_copy(2) [OF t4, of "node_copy q r2 self n" 96] lk(4) ap by (simp add: s4_def)
    then have nxt: "rlu_set_next (RObj a) (RCpy self w 96) s4 = Some s5" by (simp add: rlu_set_next_def rlu_write_def upd_robj_def s5_def s4_def)
    obtain s6 where s6: "rlu_set_next (RCpy self w 40) (RObj a) s5 = Some s6" "rlu_objs s6 = rlu_objs s5"
        "rlu_tx self w s6 [node_copy p r1 self (m\<lparr>n_next := Some a\<rparr>), node_copy q r2 self n] []"
      using set_next_copy [OF t5, of "RObj a" "RObj a"] by (auto simp: rlu_assign_pointer_def FORCE_ACTUAL_def)
    obtain s7 where s7: "rlu_reader_unlock env self k s6 = Some (k, s7)" "rlu_idle self s7"
        "rlu_objs s7 = written_back [node_copy p r1 self (m\<lparr>n_next := Some a\<rparr>), node_copy q r2 self n] (rlu_objs s6) |` (- set [])"
      using unlock_commits [OF s6(3)] by auto
    have "rlu_nodes s7 = (rlu_nodes s)(a \<mapsto> ?n, p \<mapsto> m\<lparr>n_next := Some a\<rparr>)"
      using ap f(2-4) unfolding rlu_nodes_def s7(3) s6(2) by (auto simp: s5_def s4_def lk(4) fun_eq_iff)
    moreover have "rlu_list_add env (\<lambda>_. id) self (Some (a, n0)) l val j k s = Some (Some True, k, s7)"
      using False s1(1) g f(3) lk(1,2) new nxt s6(1) s7(1) by (subst rlu_list_add.simps) (simp add: body_obj nodes rlu_new_node_def rlu_alloc_def)
    ultimately show ?thesis using False f(1-3,5) ap s7(2)
      by (intro exI [of _ s7]) (simp add: pure_list_add_def pure_new_node_def init_node_def upd_node_def)
  qed
qed

lemma rlu_list_remove_sim:
  assumes i: "rlu_idle self s" and l: "list_rep (rlu_nodes s) l cs" "list_val val"
  shows "\<exists>s'. rlu_list_remove env (\<lambda>_. id) self l val j k s = Some (val \<in> list_elems cs, k, s') \<and> rlu_idle self s' \<and>
     pure_list_remove (rlu_nodes s) l val = Some (val \<in> list_elems cs, rlu_nodes s')"
proof -
  obtain p q m n where f: "list_find (rlu_nodes s) l val = Some (p, q)" "rlu_nodes s p = Some m" "rlu_nodes s q = Some n"
      "p \<noteq> q" "val \<in> list_elems cs \<longleftrightarrow> n_val n = val" "\<forall>r. n_next n = Some r \<longrightarrow> rlu_nodes s r \<noteq> None" using l by (rule list_find_pair)
  obtain w s1 where s1: "rlu_reader_lock env self k s = Some (k, s1)" "rlu_tx self w s1 [] []" "rlu_objs s1 = rlu_objs s" using reader_lock_begins [OF i] by blast
  note nodes = rlu_nodes_cong [OF s1(3)]
  obtain p0 q0 where g: "rlu_first self l s1 = Some (RObj p0, RObj q0, s1)" "rlu_search self val (RObj p0) (RObj q0) s1 = Some (RObj p, RObj q, s1)"
    using s1(2) f(1) [folded nodes] by (rule rlu_find_sim)
  show ?thesis
  proof (cases "n_val n = val")
    case False
    obtain s2 where s2: "rlu_reader_unlock env self k s1 = Some (k, s2)" "rlu_idle self s2" "rlu_objs s2 = rlu_objs s1" using unlock_reader [OF s1(2)] by blast
    have "rlu_list_remove env (\<lambda>_. id) self l val j k s = Some (False, k, s2)"
      using False s1(1) g s2(1) f(3) by (subst rlu_list_remove.simps) (simp add: body_obj nodes)
    moreover have "pure_list_remove (rlu_nodes s) l val = Some (False, rlu_nodes s2)"
      using False f(1,3) rlu_nodes_cong [OF s2(3)] nodes by (simp add: pure_list_remove_def)
    ultimately show ?thesis using s2(2) False f(5) by (intro exI [of _ s2]) simp
  next
    case True
    have d: "RLU_DEREF self (next_ptr n) s1 = Some (next_ptr n, s1)"
    proof (cases "n_next n")
      case None
      then show ?thesis using s1(2) by (auto simp: next_ptr_def RLU_DEREF_def rlu_deref_slow_path_def rlu_tx_def)
    next
      case (Some r)
      then show ?thesis using tx_deref [OF s1(2), of r] f(6) nodes by (simp add: next_ptr_def)
    qed
    obtain s2 s3 r1 r2 where lk: "rlu_try_lock id self (RObj p) sizeof_node s1 = Some (True, RCpy self w 40, s2)"
        "rlu_try_lock id self (RObj q) sizeof_node s2 = Some (True, RCpy self w 96, s3)"
        "rlu_tx self w s3 [node_copy p r1 self m, node_copy q r2 self n] []"
        "rlu_objs s3 = (rlu_objs s)(p \<mapsto> \<lparr>o_copy = Locked self w 40, o_body = m\<rparr>, q \<mapsto> \<lparr>o_copy = Locked self w 96, o_body = n\<rparr>)"
      using lock_two [OF s1(2), of p m q n] f(2-4) nodes s1(3) by auto
    let ?es = "[node_copy p r1 self (m\<lparr>n_next := n_next n\<rparr>), node_copy q r2 self n]"
    obtain s4 where s4: "rlu_set_next (RCpy self w 40) (next_ptr n) s3 = Some s4" "rlu_tx self w s4 ?es []" "rlu_objs s4 = rlu_objs s3"
      using set_next_copy [OF lk(3), of "next_ptr n" "next_ptr n"] by auto
    have "FORCE_ACTUAL s4 (RCpy self w 96) = Some (RObj q)"
      using assign_copy(1) [OF s4(2), of "node_copy q r2 self n" 96] lk(4) s4(3) by simp
    then obtain s5 where s5: "rlu_free (Some self) (RCpy self w 96) s4 = Some s5" "rlu_tx self w s5 ?es [q]" "rlu_objs s5 = rlu_objs s4"
      using free_copy [OF s4(2)] by blast
    obtain s6 where s6: "rlu_reader_unlock env self k s5 = Some (k, s6)" "rlu_idle self s6" "rlu_objs s6 = written_back ?es (rlu_objs s5) |` (- set [q])"
      using unlock_commits [OF s5(2)] s5(3) s4(3) lk(4) by auto
    have "rlu_nodes s6 = (rlu_nodes s)(p \<mapsto> m\<lparr>n_next := n_next n\<rparr>, q := None)"
      using f(4) unfolding rlu_nodes_def s6(3) s5(3) s4(3) by (auto simp: lk(4) fun_eq_iff restrict_map_def)
    moreover have "rlu_list_remove env (\<lambda>_. id) self l val j k s = Some (True, k, s6)"
      using True s1(1) g f(3) d lk(1,2) s4(1) s5(1) s6(1) by (subst rlu_list_remove.simps) (simp add: body_obj nodes)
    ultimately show ?thesis using True f(1-3,5) s6(2)
      by (intro exI [of _ s6]) (simp add: pure_list_remove_def pure_free_node_def upd_node_def)
  qed
qed

section \<open>The table as a set\<close>

lemma rlu_hash_list_contains_correct:
  assumes i: "rlu_idle self s" and r: "hash_rep (rlu_nodes s) hl css" "hash_val val"
  shows "\<exists>s'. rlu_hash_list_contains env self hl val k s = Some (val \<in> hash_elems css, k, s') \<and> rlu_idle self s' \<and> rlu_nodes s' = rlu_nodes s"
proof -
  note b = hash_bucket [OF r]
  show ?thesis using rlu_list_contains_sim [OF i pure_list_contains_correct [OF b(5,4)], of env k] b(2,3,6)
    by (simp add: rlu_hash_list_contains_def del: int_nat_eq)
qed

lemma rlu_hash_list_add_correct:
  assumes i: "rlu_idle self s" and r: "hash_rep (rlu_nodes s) hl css" "hash_val val" and a: "a \<notin> dom (rlu_nodes s)"
  shows "\<exists>s' css'. rlu_hash_list_add env (\<lambda>_. id) self (Some (a, n0)) hl val k s = Some (Some (val \<notin> hash_elems css), k, s') \<and> rlu_idle self s' \<and>
     hash_rep (rlu_nodes s') hl css' \<and> hash_elems css' = insert val (hash_elems css)"
proof -
  note b = hash_bucket [OF r]
  obtain s' where s': "rlu_list_add env (\<lambda>_. id) self (Some (a, n0)) (buckets hl ! nat (val mod n_buckets hl)) val 0 k s = Some (Some (val \<notin> hash_elems css), k, s')"
      "rlu_idle self s'" "pure_list_add (Some (a, n0)) (rlu_nodes s) (buckets hl ! nat (val mod n_buckets hl)) val = Some (Some (val \<notin> hash_elems css), rlu_nodes s')"
    using rlu_list_add_sim [OF i b(5,4) a, of env n0 0 k] b(6) by auto
  then have "pure_hash_list_add (Some (a, n0)) (rlu_nodes s) hl val = Some (Some (val \<notin> hash_elems css), rlu_nodes s')"
    using b(2,3) by (simp add: pure_hash_list_add_def del: int_nat_eq)
  then show ?thesis using pure_hash_list_add_correct [OF r a, of n0] s'(1,2) b(2,3) by (auto simp: rlu_hash_list_add_def simp del: int_nat_eq)
qed

lemma rlu_hash_list_remove_correct:
  assumes i: "rlu_idle self s" and r: "hash_rep (rlu_nodes s) hl css" "hash_val val"
  shows "\<exists>s' css'. rlu_hash_list_remove env (\<lambda>_. id) self hl val k s = Some (val \<in> hash_elems css, k, s') \<and> rlu_idle self s' \<and>
     hash_rep (rlu_nodes s') hl css' \<and> hash_elems css' = hash_elems css - {val}"
proof -
  note b = hash_bucket [OF r]
  obtain s' where s': "rlu_list_remove env (\<lambda>_. id) self (buckets hl ! nat (val mod n_buckets hl)) val 0 k s = Some (val \<in> hash_elems css, k, s')"
      "rlu_idle self s'" "pure_list_remove (rlu_nodes s) (buckets hl ! nat (val mod n_buckets hl)) val = Some (val \<in> hash_elems css, rlu_nodes s')"
    using rlu_list_remove_sim [OF i b(5,4), of env 0 k] b(6) by auto
  then have "pure_hash_list_remove (rlu_nodes s) hl val = Some (val \<in> hash_elems css, rlu_nodes s')"
    using b(2,3) by (simp add: pure_hash_list_remove_def del: int_nat_eq)
  then show ?thesis using pure_hash_list_remove_correct [OF r] s'(1,2) b(2,3) by (auto simp: rlu_hash_list_remove_def simp del: int_nat_eq)
qed

text \<open>A table with its memory; the other threads do nothing meanwhile.\<close>

type_synonym rlu_table = "rlu_mem \<times> hash_list"

definition rlu_table_contains :: "(nat \<Rightarrow> rlu_mem \<Rightarrow> rlu_mem) \<Rightarrow> int \<Rightarrow> rlu_table \<Rightarrow> int \<Rightarrow> (bool \<times> rlu_table) option" where
  "rlu_table_contains env self t v = (case t of (s, hl) \<Rightarrow> map_option (\<lambda>(b, k, s). (b, s, hl)) (rlu_hash_list_contains env self hl v 0 s))"

definition rlu_table_add :: "(nat \<Rightarrow> rlu_mem \<Rightarrow> rlu_mem) \<Rightarrow> int \<Rightarrow> memory \<Rightarrow> rlu_table \<Rightarrow> int \<Rightarrow> (bool option \<times> rlu_table) option" where
  "rlu_table_add env self m t v = (case t of (s, hl) \<Rightarrow> map_option (\<lambda>(b, k, s). (b, s, hl)) (rlu_hash_list_add env (\<lambda>_. id) self m hl v 0 s))"

definition rlu_table_remove :: "(nat \<Rightarrow> rlu_mem \<Rightarrow> rlu_mem) \<Rightarrow> int \<Rightarrow> rlu_table \<Rightarrow> int \<Rightarrow> (bool \<times> rlu_table) option" where
  "rlu_table_remove env self t v = (case t of (s, hl) \<Rightarrow> map_option (\<lambda>(b, k, s). (b, s, hl)) (rlu_hash_list_remove env (\<lambda>_. id) self hl v 0 s))"

definition rlu_rep :: "int \<Rightarrow> rlu_table \<Rightarrow> int set \<Rightarrow> bool" where
  "rlu_rep self t A \<longleftrightarrow> rlu_idle self (fst t) \<and> table_rep (rlu_nodes (fst t), snd t) A"

definition rlu_ready :: "memory \<Rightarrow> rlu_table \<Rightarrow> bool" where
  "rlu_ready m t \<longleftrightarrow> node_free m (rlu_nodes (fst t))"

interpretation rlu: int_set "rlu_rep self" hash_val rlu_ready "rlu_table_contains env self" "rlu_table_add env self" "rlu_table_remove env self" for env self
proof
  fix t A v
  assume "rlu_rep self t A" and v: "hash_val v"
  then obtain s hl css where s: "t = (s, hl)" "rlu_idle self s" "hash_rep (rlu_nodes s) hl css" "hash_elems css = A"
    by (cases t) (auto simp: rlu_rep_def table_rep_def)
  show "\<exists>t'. rlu_table_contains env self t v = Some (v \<in> A, t') \<and> rlu_rep self t' A"
    using rlu_hash_list_contains_correct [OF s(2,3) v, of env 0] s(1,3,4) by (auto simp: rlu_table_contains_def rlu_rep_def table_rep_def)
  show "\<exists>t'. rlu_table_remove env self t v = Some (v \<in> A, t') \<and> rlu_rep self t' (A - {v})"
    using rlu_hash_list_remove_correct [OF s(2,3) v, of env 0] s(1,4) by (auto simp: rlu_table_remove_def rlu_rep_def table_rep_def)
next
  fix t A v m
  assume "rlu_rep self t A" and v: "hash_val v" and "rlu_ready m t"
  then obtain s hl css a n where s: "t = (s, hl)" "rlu_idle self s" "hash_rep (rlu_nodes s) hl css" "hash_elems css = A" "m = Some (a, n)" "a \<notin> dom (rlu_nodes s)"
    by (cases t) (auto simp: rlu_rep_def table_rep_def rlu_ready_def node_free_def split: option.splits)
  show "\<exists>t'. rlu_table_add env self m t v = Some (Some (v \<notin> A), t') \<and> rlu_rep self t' (insert v A)"
    using rlu_hash_list_add_correct [OF s(2,3) v s(6), of env n 0] s(1,4,5) by (auto simp: rlu_table_add_def rlu_rep_def table_rep_def)
qed

section \<open>New tables and sizes\<close>

text \<open>Initialising objects keeps the threads, and objects unlocked.\<close>

definition obj_init :: "rlu_mem \<Rightarrow> rlu_mem \<Rightarrow> bool" where
  "obj_init s s' \<longleftrightarrow> g_rlu_threads s' = g_rlu_threads s \<and> ((\<forall>ob\<in>ran (rlu_objs s). o_copy ob = Unlocked) \<longrightarrow> (\<forall>ob\<in>ran (rlu_objs s'). o_copy ob = Unlocked))"

lemma idle_obj_init: "rlu_idle self s \<Longrightarrow> obj_init s s' \<Longrightarrow> rlu_idle self s'"
  by (simp add: rlu_idle_def obj_init_def others_out_def)

lemma ran_fun_upd: "b \<in> ran (m(a \<mapsto> x)) \<Longrightarrow> b = x \<or> b \<in> ran m"
  by (auto simp: ran_def split: if_splits)

lemma rlu_new_list_sim:
  assumes "pure_new_list mems (rlu_nodes s) = Some (Some l, h')"
  shows "\<exists>s'. rlu_new_list mems s = Some (Some l, s') \<and> rlu_nodes s' = h' \<and> obj_init s s'"
proof -
  obtain a x b y where m: "mems = (True, Some (a, x), Some (b, y))"
    using assms by (auto simp: pure_new_list_def pure_new_node_def split: prod.splits option.splits if_splits bind_splits)
  let ?x = "\<lparr>o_copy = Unlocked, o_body = x\<lparr>n_val := LIST_VAL_MAX, n_next := None\<rparr>\<rparr>"
  let ?y = "\<lparr>o_copy = Unlocked, o_body = y\<lparr>n_val := LIST_VAL_MIN, n_next := Some a\<rparr>\<rparr>"
  let ?s = "s\<lparr>rlu_objs := (rlu_objs s)(a \<mapsto> ?x, b \<mapsto> ?y)\<rparr>"
  have "rlu_new_list mems s = Some (Some \<lparr>p_head = b\<rparr>, ?s)"
    by (simp add: m rlu_new_list_def rlu_new_node_def rlu_alloc_def rlu_write_def upd_robj_def ptr_addr_def)
  moreover have "rlu_nodes ?s = (rlu_nodes s)(a \<mapsto> o_body ?x, b \<mapsto> o_body ?y)" by (auto simp: rlu_nodes_def fun_eq_iff)
  then have "l = \<lparr>p_head = b\<rparr>" "h' = rlu_nodes ?s"
    using assms by (auto simp: m pure_new_list_def pure_new_node_def init_node_def upd_node_def)
  moreover have "obj_init s ?s" by (auto simp: obj_init_def dest!: ran_fun_upd)
  ultimately show ?thesis by (intro exI [of _ ?s]) simp
qed

lemma rlu_new_buckets_sim:
  "new_buckets n mems (rlu_nodes s) = Some (Some ls, h') \<Longrightarrow> \<exists>s'. rlu_new_buckets n mems s = Some (Some ls, s') \<and> rlu_nodes s' = h' \<and> obj_init s s'"
proof (induction n arbitrary: ls h')
  case (Suc n)
  obtain ls1 h1 l where p: "new_buckets n mems (rlu_nodes s) = Some (Some ls1, h1)" "pure_new_list (mems n) h1 = Some (Some l, h')" "ls = ls1 @ [l]"
    using Suc.prems unfolding new_buckets.simps by (auto simp: bind_eq_Some_conv split: option.splits)
  obtain s1 where s1: "rlu_new_buckets n mems s = Some (Some ls1, s1)" "rlu_nodes s1 = h1" "obj_init s s1" using Suc.IH [OF p(1)] by blast
  obtain s2 where s2: "rlu_new_list (mems n) s1 = Some (Some l, s2)" "rlu_nodes s2 = h'" "obj_init s1 s2"
    using rlu_new_list_sim [of "mems n" s1 l h'] p(2) s1(2) by auto
  have "obj_init s s2" using s1(3) s2(3) unfolding obj_init_def by metis
  moreover have "rlu_new_buckets (Suc n) mems s = Some (Some ls, s2)" using s1(1) s2(1) p(3) by simp
  ultimately show ?case using s2(2) by (intro exI [of _ s2]) simp
qed (simp add: obj_init_def)

lemma rlu_new_table_rep:
  assumes "fresh_mems (nat n) mems (rlu_nodes s)" "0 < n" "n \<le> MAX_BUCKETS" "rlu_idle self s"
  shows "\<exists>hl s'. rlu_new_hash_list True mems n s = Some (Some hl, s') \<and> rlu_rep self (s', hl) {}"
proof -
  obtain hl h' where p: "pure_new_hash_list True mems n (rlu_nodes s) = Some (Some hl, h')" "table_rep (h', hl) {}" using new_table_rep [OF assms(1-3)] by blast
  then obtain ls where ls: "new_buckets (nat n) mems (rlu_nodes s) = Some (Some ls, h')" "hl = \<lparr>n_buckets = n, buckets = ls\<rparr>"
    using assms(3) by (auto simp: pure_new_hash_list_def split: bind_splits)
  obtain s' where s': "rlu_new_buckets (nat n) mems s = Some (Some ls, s')" "rlu_nodes s' = h'" "obj_init s s'" using rlu_new_buckets_sim [OF ls(1)] by blast
  then show ?thesis using p(2) ls(2) assms(3) idle_obj_init [OF assms(4) s'(3)]
    by (intro exI [of _ hl] exI [of _ s']) (simp add: rlu_new_hash_list_def rlu_rep_def)
qed

lemma rlu_count_sim: "count_nodes (rlu_nodes s) sz p = Some c \<Longrightarrow> rlu_count_nodes s sz p = Some c"
proof -
  have "h = rlu_nodes s \<longrightarrow> rlu_count_nodes s sz p = Some c" if "count_nodes h sz p = Some c" for h c
    using that
  proof (induction h sz p c rule: count_nodes.raw_induct [rotated, consumes 1, case_names 1])
    case (1 rec h sz p c)
    then show ?case by (subst rlu_count_nodes.simps) (auto simp: body_obj split: bind_splits option.splits)
  qed
  then show "count_nodes (rlu_nodes s) sz p = Some c \<Longrightarrow> rlu_count_nodes s sz p = Some c" by blast
qed

lemma rlu_list_size_sim: "list_size (rlu_nodes s) l = Some c \<Longrightarrow> rlu_list_size s l = Some c"
  by (auto simp: list_size_def rlu_list_size_def body_obj rlu_count_sim split: bind_splits)

lemma rlu_sum_sizes_sim: "sum_sizes (rlu_nodes s) ls sz = Some c \<Longrightarrow> rlu_sum_sizes s ls sz = Some c"
  by (induction ls arbitrary: sz) (auto simp: rlu_list_size_sim split: bind_splits)

lemma rlu_hash_list_size_correct: "rlu_rep self (s, hl) A \<Longrightarrow> rlu_hash_list_size s hl = Some (int (card A))"
  using hash_list_size_correct [of "rlu_nodes s" hl]
  by (auto simp: rlu_rep_def table_rep_def hash_list_size_def rlu_hash_list_size_def rlu_sum_sizes_sim split: if_splits)

text \<open>A thread that registers itself is idle.\<close>

lemma rlu_thread_init_idle:
  fixes s :: rlu_mem
  assumes "rlu_thread_init s = Some (self, s')" "g_rlu_max_write_sets s = 1" "others_out self s" "\<forall>ob\<in>ran (rlu_objs s). o_copy ob = Unlocked"
  shows "rlu_idle self s' \<and> rlu_objs s' = rlu_objs s"
proof -
  define th where "th = (zero_thread :: hnode rlu_thread)\<lparr>rlu_type := g_rlu_type s, max_write_sets := 1, uniq_id := self, writer_version := RLU_MAX_VERSION\<rparr>"
  define s1 where "s1 = s\<lparr>g_rlu_cur_threads := self + 1, g_rlu_threads := (g_rlu_threads s)(self \<mapsto> th)\<rparr>"
  have th: "g_rlu_threads s1 self = Some th" by (simp add: s1_def)
  have "s' = reset_sets self (nat RLU_MAX_WRITE_SETS) 0 s1"
    using assms(1,2) unfolding rlu_thread_init_def Let_def s1_def th_def by (auto split: if_splits)
  then have s': "s' = upd_rthr self (\<lambda>t. t\<lparr>obj_write_set := cleared (ws_indices 0 (nat RLU_MAX_WRITE_SETS)) (obj_write_set th)\<rparr>) s1"
    using reset_sets_frame [OF th] by simp
  have "thread_ok self (th\<lparr>obj_write_set := cleared I (obj_write_set th)\<rparr>)" "ws_clean (cleared I (obj_write_set th) w)" for I w
    by (auto simp: thread_ok_def th_def zero_thread_def ws_clean_def cleared_def WS_INDEX_def)
  moreover have "others_out self s1" using assms(3) by (simp add: others_out_def s1_def)
  moreover have "run_counter th = 0" "free_nodes th = []" by (simp_all add: th_def zero_thread_def)
  ultimately have "rlu_idle self s'" using th assms(4) unfolding rlu_idle_def s' by (simp add: s1_def)
  then show ?thesis by (simp add: s' s1_def)
qed


text \<open>One thread is registered and idle; a second one works on the table.\<close>

definition demo_start :: rlu_mem where
  "demo_start =
     \<lparr>rlu_objs = Map.empty, g_rlu_threads = [0 \<mapsto> zero_thread], g_rlu_cur_threads = 1, g_rlu_writer_locks = (\<lambda>_. 0), g_rlu_writer_version = 0,
      g_rlu_commit_version = 0, g_rlu_type = 0, g_rlu_max_write_sets = 0, g_rlu_data = (\<lambda>_. 0)\<rparr>"

definition demo_rlu_ops :: "memory set_op list" where
  "demo_rlu_ops = [Add (Some (10, \<lparr>n_val = 0, n_next = None\<rparr>)) 5, Contains 5, Remove 7, Remove 5, Contains 5]"

lemma demo_new_free:
  assumes "rlu_new_hash_list True demo_mems 2 s = Some (hl, s')" "rlu_objs s = Map.empty"
  shows "rlu_objs s' 10 = None"
  using assms by (auto simp: rlu_new_hash_list_def MAX_BUCKETS_def eval_nat_numeral demo_mems_def rlu_new_list_def rlu_new_node_def rlu_alloc_def rlu_write_def upd_robj_def ptr_addr_def)


end
