(* ===== verification/Spec2Isabelle.thy ===== *)
theory Spec2Isabelle
  imports CkptReclaim Borderline ReplayCollect CkptRecovery GracePeriod TxApi NvHeap Snapshots Urcu RluList
begin

text \<open>
  A verification development of TimeStone, a transactional library for non-volatile main memory
  (\<open>src/lib\<close>, \<open>src/include\<close>). Definitions carry the names of the C functions they translate.

  \<^bold>\<open>The program.\<close> An application thread runs transactions (\<open>timestone.c\<close>): \<open>ts_begin\<close> takes a
  time stamp (\<open>ordo_clock.h\<close>, \<open>clock.h\<close>), \<open>ts_deref\<close> finds the version of an object the transaction
  may see, \<open>ts_try_lock\<close> makes a private copy in the thread's transient version log (\<open>tvlog.c\<close>, in
  DRAM), \<open>ts_end\<close> validates the read set (\<open>isolation.h\<close>), logs the operation in the thread's
  operation log (\<open>oplog.c\<close>, in NVM) and commits the write set. The qp thread (\<open>qp.c\<close>) detects grace
  periods and asks the threads to reclaim their logs: versions old enough for every reader are
  checkpointed to the thread's checkpoint log (\<open>ckptlog.c\<close>, in NVM), checkpointed masters are
  written back to the original objects, and operations covered by a checkpoint are dropped. Both
  NVM logs are instances of one ring log (\<open>nvlog.c\<close>) whose stores hang on the root object of the
  NVM heap (\<open>nvm.c\<close>, \<open>nvm-*.c\<close>). After a crash \<open>recovery.c\<close> rebuilds the current masters from the
  checkpoint logs and collects the operations after the last checkpoint from the operation logs.

  \<^bold>\<open>Theories and sources.\<close>
    \<^item> \<open>Prelude\<close>: machine words, pointers, \<open>config.h\<close>, the alignment and try-lock helpers of
      \<open>util.h\<close>, word lemmas, and the locale \<open>guarantee\<close> (what every step keeps, any number keeps).
    \<^item> \<open>PtrSet\<close>, \<open>TsList\<close>: pointer sets and circular lists of \<open>util.h\<close>, thread lists of \<open>qp.c\<close>.
    \<^item> \<open>Clock\<close>: \<open>ordo_clock.h\<close>, \<open>clock.h\<close>; the locale \<open>time_order\<close> of uncertain time stamps.
    \<^item> \<open>TvRegion\<close>: the bitmap allocator of version logs and the nap deadline of \<open>port-user.h\<close>.
    \<^item> \<open>NvLog\<close>, \<open>NvLogRing\<close>, \<open>NvStore\<close>: \<open>nvlog.c\<close> as state and operations, as a queue (the locale
      \<open>fifo_log\<close>, which the operation log meets too) and as the list of stores; \<open>nvm.c\<close>.
    \<^item> \<open>NvHeap\<close>: \<open>nvm-pmdk.c\<close>, \<open>nvm-makalu.c\<close>, \<open>nvm-nv-jemalloc.c\<close>.
    \<^item> \<open>TsState\<close>: the structures of \<open>timestone_i.h\<close>, the object access of \<open>util.h\<close> and the counters of
      \<open>debug.h\<close> as one record \<open>sys\<close> with stores of objects, headers, copies, entries and threads;
      \<open>Fixtures\<close>: the concrete states on which theorems are applied.
    \<^item> \<open>OpLog\<close>, \<open>CkptLog\<close>, \<open>CkptReclaim\<close>: \<open>oplog.c\<close>, \<open>ckptlog.c\<close>.
    \<^item> \<open>TvLog\<close>, \<open>TvReclaim\<close>: \<open>tvlog.c\<close>; \<open>WriteSet\<close>, \<open>CommitAbort\<close>: its theorems on the layout of a
      write set, commit and abort; \<open>Borderline\<close>: its choice of the version to checkpoint.
      \<open>CommitChain\<close>: what a commit does to the version chains; \<open>CkptView\<close>: what a reader sees while
      versions are checkpointed.
    \<^item> \<open>Isolation\<close>: \<open>isolation.h\<close>. \<open>Timestone\<close>: the interface calls of \<open>timestone.c\<close>; \<open>TxApi\<close>,
      \<open>Visibility\<close> and \<open>TxEnd\<close>: their theorems, the last on whole calls of \<open>ts_end\<close>;
      \<open>Snapshots\<close>: what a commit means to the snapshots of the other threads.
    \<^item> \<open>Crash\<close>: power failures, on the stores, write-backs and fences that \<open>nvlog.c\<close> issues.
    \<^item> \<open>Qp\<close>: \<open>qp.c\<close>; \<open>GracePeriod\<close>: its theorems.
    \<^item> \<open>Recovery\<close>: \<open>recovery.c\<close>, start and end of the library; \<open>LogWalk\<close>, \<open>ReplayOrder\<close> (with the
      locale \<open>sort_order\<close>), \<open>ReplayCollect\<close>, \<open>CkptRecovery\<close>: its theorems.
    \<^item> \<open>HashList\<close>, \<open>Urcu\<close>: the hash table of the benchmark (\<open>benchmark/rlu/hash-list.c\<close>), sequential
      and under the user-level RCU of \<open>new-urcu.c\<close>; the locale \<open>int_set\<close> states the set that every
      version implements.
    \<^item> \<open>Rlu\<close>, \<open>RluSync\<close>, \<open>RluTx\<close>, \<open>RluList\<close>: read-log-update (\<open>benchmark/rlu/rlu.c\<close>, \<open>rlu.h\<close>) with its
      write-back, its waiting for sections, its sections from begin to commit or abort, and the hash
      table that runs on it.

  \<^bold>\<open>What is shown.\<close>
    \<^item> Transactions: a reader sees all of a committing write set or nothing of it, whatever happens
      in between (a step relation, rule induction); \<open>ts_deref\<close> ends with the newest visible version;
      locking excludes a second writer and a failed attempt changes nothing; a write set stays
      tiled in its ring; validation succeeds exactly when nothing read was overwritten;
      a \<open>ts_end\<close> that passes validation makes the operation durable and every copy the newest version
      of its object, one that fails leaves nothing behind; a commit changes what later snapshots read,
      of all written objects at once, and no earlier one.
    \<^item> Durability: enqueuing appends without overwriting live entries; the tail is published only
      after the lines it covers were written back; after a power failure at any point the log holds
      the old queue or the old queue with the entry; checkpointing changes no read of a snapshot;
      reclaiming drops exactly what a checkpoint covers; write-back keeps every object's value.
    \<^item> Grace periods: when one ends, the transactions before it have ended; it ends if they do; the
      barrier computes the least reclaimed checkpoint. The local test for the version to checkpoint
      is equivalent to the search along the chain.
    \<^item> Recovery: the newest checkpoint of every object becomes its master; exactly the operations
      after the last checkpoint are collected, in time stamp order.
    \<^item> Benchmark: the hash table is a set of integers, sequentially, under RCU with readers that
      come and go, and over read-log-update; a grace period of RCU ends and then the sections before
      it have ended; read-log-update waits for the sections that must not see a write-back,
      which is invisible to the others, and an aborted section leaves the objects as they were.
    \<^item> Defects: the theorems of kind error state what the code does where it does not do what
      it means to, on the inputs that show it.

  \<^bold>\<open>Conventions and bounds.\<close> Counters, sizes and clocks keep the width of the C types, so wrap-around
  is that of the machine; the ring theorems assume what the logs keep invariant (used at most the
  size, sizes a power of two). Objects of a write set are bounded by 65000 bytes in \<open>WriteSet\<close>,
  since the padding of a bogus copy is a 16-bit field (\<open>bogus_size_truncated\<close> shows what lies
  beyond). A loop over a log or a list has the
  live bytes or the length as fuel, and the theorems show that this is enough; a loop that waits
  for another thread or follows pointers is a \<open>partial_function\<close> whose value is \<open>None\<close> when it does
  not end, and its theorems say when it returns; the other loops terminate by a measure.
  \<open>None\<close> is also the value of a dereference of a
  dangling or null pointer. The other threads are an argument \<open>env\<close>, applied between two polls; the
  time stamp counter is a stream read at the index \<open>now\<close>; results of memory allocation, of the
  operating system and of the persistent heaps are arguments. The interface calls are single
  steps, except where a theorem is about their interleaving (\<open>commit_step\<close>, \<open>qp_rely\<close>).

  \<^bold>\<open>Not modelled.\<close> The vendored allocator (\<open>lib-nv-jemalloc\<close>), the drivers and the other data
  structures of \<open>benchmark\<close> (in \<open>hash-list.c\<close> the lock-free and the versioned lists, in \<open>rlu.c\<close> the
  build with Ordo clocks), the C++ templates (\<open>timestone++.hpp\<close>,
  \<open>lib++\<close>), the unit tests and the build. Of the library itself: printing and stack traces of
  \<open>debug.c\<close>, assertions and the poisoning of freed memory in debugging builds, the one-line
  wrappers of pthread and malloc in \<open>port-user.h\<close>, the memory barriers of a relaxed
  memory model (an operation of the model is sequentially consistent; which lines have reached NVM
  is modelled in \<open>Crash\<close>) and the build without NVM.
\<close>

end
